(* ===== verification/Kernel_Prelude.thy ===== *)
theory Kernel_Prelude
  imports Main "HOL-Library.Word"
begin

text \<open>
  Shared vocabulary of the development: the fixed-width integer types of the C sources
  (\<^verbatim>\<open>kernel/types.h\<close>, \<^verbatim>\<open>kernel/dextypes.h\<close>), byte sequences as the contents of C buffers,
  the little-endian memory layout of x86 for packed structs, and the lemmas on words and
  byte lists that the component theories use.

  Collections: \<open>layout_simps\<close> holds the equations that evaluate a packed struct's bytes,
  \<open>wire_defs\<close> the definitions of the constants of the C headers.
\<close>

named_theorems layout_simps
named_theorems wire_defs

unbundle bit_operations_syntax

type_synonym u8 = "8 word"
type_synonym u16 = "16 word"
type_synonym u32 = "32 word"
type_synonym u64 = "64 word"
type_synonym bytes = "u8 list"

section \<open>Equality of words, byte by byte\<close>

lemma u16_eqI_bytes:
  fixes x y :: u16
  assumes "\<And>k. k < 8 \<Longrightarrow> bit x k = bit y k"
    and "\<And>k. k < 8 \<Longrightarrow> bit x (8 + k) = bit y (8 + k)"
  shows "x = y"
proof (rule bit_word_eqI)
  fix n assume "n < LENGTH(16)"
  then have n: "n < 16" by simp
  show "bit x n = bit y n"
  proof (cases "n < 8")
    case True then show ?thesis by (rule assms(1))
  next
    case False
    with n have "n - 8 < 8" "8 + (n - 8) = n" by auto
    then show ?thesis using assms(2) [of "n - 8"] by simp
  qed
qed

lemma u32_eqI_bytes:
  fixes x y :: u32
  assumes "\<And>k. k < 8 \<Longrightarrow> bit x k = bit y k"
    and "\<And>k. k < 8 \<Longrightarrow> bit x (8 + k) = bit y (8 + k)"
    and "\<And>k. k < 8 \<Longrightarrow> bit x (16 + k) = bit y (16 + k)"
    and "\<And>k. k < 8 \<Longrightarrow> bit x (24 + k) = bit y (24 + k)"
  shows "x = y"
proof (rule bit_word_eqI)
  fix n assume "n < LENGTH(32)"
  then have n: "n < 32" by simp
  consider "n < 8" | "n - 8 < 8" "8 + (n - 8) = n" | "n - 16 < 8" "16 + (n - 16) = n"
    | "n - 24 < 8" "24 + (n - 24) = n"
    using n by linarith
  then show "bit x n = bit y n"
  proof cases
    case 1 then show ?thesis by (rule assms(1))
  next
    case 2 then show ?thesis using assms(2) [of "n - 8"] by simp
  next
    case 3 then show ?thesis using assms(3) [of "n - 16"] by simp
  next
    case 4 then show ?thesis using assms(4) [of "n - 24"] by simp
  qed
qed

lemma u8_eqI: "(\<And>k. k < 8 \<Longrightarrow> bit x k = bit y k) \<Longrightarrow> x = y" for x y :: u8
  by (rule bit_word_eqI) simp

lemma u8_bit_bound: "bit x k \<Longrightarrow> k < 8" for x :: u8
  using bit_imp_le_length [of x k] by simp

lemma u16_bit_bound: "bit x k \<Longrightarrow> k < 16" for x :: u16
  using bit_imp_le_length [of x k] by simp

lemma u32_bit_bound: "bit x k \<Longrightarrow> k < 32" for x :: u32
  using bit_imp_le_length [of x k] by simp

lemma u32_masks:
  "(0xFF :: u32) = mask 8" "(0xFF00 :: u32) = push_bit 8 (mask 8)"
  "(0xFF0000 :: u32) = push_bit 16 (mask 8)" "(0xFF000000 :: u32) = push_bit 24 (mask 8)"
  by (simp_all add: mask_numeral)

lemma unat_u8_bound: "unat x < 256" for x :: u8
  using unsigned_less [of x] by simp

lemma unat_u16_bound: "unat x < 65536" for x :: u16
  using unsigned_less [of x] by simp

lemma unat_u32_bound: "unat x < 4294967296" for x :: u32
  using unsigned_less [of x] by simp

lemma unat_u64_bound: "unat x < 18446744073709551616" for x :: u64
  using unsigned_less [of x] by simp

lemma unat_drop_bit: "unat (drop_bit n x) = unat x div 2 ^ n" for x :: "'a::len word"
proof -
  have "take_bit LENGTH('a) (unat x) = unat x"
    by (simp add: take_bit_nat_eq_self_iff)
  then show ?thesis by (simp only: unsigned_drop_bit_eq) (simp add: drop_bit_eq_div)
qed

lemma unat_ucast_eq: "unat x < 2 ^ LENGTH('b) \<Longrightarrow> unat (ucast x :: 'b::len word) = unat x"
  for x :: "'a::len word"
  by (simp add: unsigned_ucast_eq take_bit_nat_eq_self_iff)

lemma unat_ucast_u8_u32 [simp]: "unat (ucast x :: u32) = unat x" for x :: u8
  using unat_u8_bound [of x] by (simp add: unat_ucast_eq)

lemma unat_ucast_u16_u32 [simp]: "unat (ucast x :: u32) = unat x" for x :: u16
  using unat_u16_bound [of x] by (simp add: unat_ucast_eq)

lemma unat_of_nat_u16: "n < 65536 \<Longrightarrow> unat (of_nat n :: u16) = n"
  by (simp add: unat_of_nat)

lemma unat_of_nat_u32: "n < 4294967296 \<Longrightarrow> unat (of_nat n :: u32) = n"
  by (simp add: unat_of_nat)

lemma ucast_and_FF [simp]: "(ucast (x AND 0xFF) :: u8) = ucast x" for x :: u32
  unfolding u32_masks by (intro u8_eqI) (simp add: bit_simps)

lemma ucast_and_FF_u16 [simp]: "(ucast (x AND 0xFF) :: u8) = ucast x" for x :: u16
proof -
  have "(0xFF :: u16) = mask 8" by (simp add: mask_numeral)
  then have "bit (x AND 0xFF) k = bit x k" if "k < 8" for k
    using that by (simp only: bit_simps) auto
  then show ?thesis by (intro u8_eqI) (simp add: bit_ucast_iff)
qed

section \<open>Buffers\<close>

text \<open>
  A C buffer is the list of its bytes. \<open>mem_get d off n\<close> is what a read of \<open>n\<close> bytes at
  offset \<open>off\<close> returns, \<open>mem_put d off bs\<close> the buffer after the bytes \<open>bs\<close> are written at
  \<open>off\<close>. Both are meant for accesses that stay inside the buffer; the stateful components
  record an access that does not in their fault flag.
\<close>

definition mem_get :: "'a list \<Rightarrow> nat \<Rightarrow> nat \<Rightarrow> 'a list" where
  "mem_get d off n = take n (drop off d)"

definition mem_put :: "'a list \<Rightarrow> nat \<Rightarrow> 'a list \<Rightarrow> 'a list" where
  "mem_put d off bs = take off d @ bs @ drop (off + length bs) d"

lemma length_mem_get [simp]: "length (mem_get d off n) = min (length d - off) n"
  by (simp add: mem_get_def min.commute)

lemma length_mem_put [simp]:
  "off + length bs \<le> length d \<Longrightarrow> length (mem_put d off bs) = length d"
  by (simp add: mem_put_def)

lemma mem_get_nth [simp]: "off + n \<le> length d \<Longrightarrow> i < n \<Longrightarrow> mem_get d off n ! i = d ! (off + i)"
  by (simp add: mem_get_def)

lemma mem_get_put_same [simp]:
  "off + length bs \<le> length d \<Longrightarrow> n = length bs \<Longrightarrow> mem_get (mem_put d off bs) off n = bs"
  by (simp add: mem_get_def mem_put_def)

lemma mem_get_append_left: "off + n \<le> length xs \<Longrightarrow> mem_get (xs @ ys) off n = mem_get xs off n"
  by (simp add: mem_get_def)

lemma mem_get_append_right:
  "length xs \<le> off \<Longrightarrow> mem_get (xs @ ys) off n = mem_get ys (off - length xs) n"
  by (simp add: mem_get_def)

lemma mem_get_zero: "mem_get xs 0 n = take n xs"
  by (simp add: mem_get_def)

lemma mem_get_all: "n = length xs \<Longrightarrow> mem_get xs 0 n = xs"
  by (simp add: mem_get_def)

lemma mem_put_zero: "mem_put d 0 bs = bs @ drop (length bs) d"
  by (simp add: mem_put_def)

lemma take_mem_put [simp]: "n \<le> off \<Longrightarrow> off \<le> length d \<Longrightarrow> take n (mem_put d off bs) = take n d"
  by (simp add: mem_put_def min_def)

lemma drop_mem_put [simp]:
  "off + length bs \<le> n \<Longrightarrow> off + length bs \<le> length d \<Longrightarrow> drop n (mem_put d off bs) = drop n d"
  by (simp add: mem_put_def)

lemma nth_mem_put:
  "off + length bs \<le> length d \<Longrightarrow> i < length d \<Longrightarrow>
   mem_put d off bs ! i = (if off \<le> i \<and> i < off + length bs then bs ! (i - off) else d ! i)"
  by (auto simp: mem_put_def nth_append min_def)

lemma mem_get_put_below [simp]:
  "o1 + n \<le> off \<Longrightarrow> off \<le> length d \<Longrightarrow> mem_get (mem_put d off bs) o1 n = mem_get d o1 n"
  unfolding mem_get_def by (simp add: take_drop add.commute)

lemma mem_get_put_above [simp]:
  "off + length bs \<le> o1 \<Longrightarrow> off + length bs \<le> length d \<Longrightarrow>
   mem_get (mem_put d off bs) o1 n = mem_get d o1 n"
  unfolding mem_get_def by simp

lemma mem_get_around:
  "o1 \<le> off \<Longrightarrow> off + length bs \<le> o1 + n \<Longrightarrow> off + length bs \<le> length d \<Longrightarrow>
   mem_get (mem_put d off bs) o1 n
     = mem_get d o1 (off - o1) @ bs @ mem_get d (off + length bs) (o1 + n - (off + length bs))"
  by (rule nth_equalityI) (auto simp: mem_get_def nth_mem_put nth_append add.commute)

section \<open>Little-endian layout\<close>

text \<open>How x86 stores the integer members of a packed struct, and reads them back.\<close>

definition le16_bytes :: "u16 \<Rightarrow> bytes" where
  "le16_bytes x = [ucast x, ucast (drop_bit 8 x)]"

definition le16_of :: "bytes \<Rightarrow> u16" where
  "le16_of b = ucast (b ! 0) OR push_bit 8 (ucast (b ! 1))"

definition le32_bytes :: "u32 \<Rightarrow> bytes" where
  "le32_bytes x =
     [ucast x, ucast (drop_bit 8 x), ucast (drop_bit 16 x), ucast (drop_bit 24 x)]"

definition le32_of :: "bytes \<Rightarrow> u32" where
  "le32_of b = ucast (b ! 0) OR push_bit 8 (ucast (b ! 1))
     OR push_bit 16 (ucast (b ! 2)) OR push_bit 24 (ucast (b ! 3))"

lemma length_le_bytes [simp]: "length (le16_bytes x) = 2" "length (le32_bytes y) = 4"
  by (simp_all add: le16_bytes_def le32_bytes_def)

lemma le16_of_bytes [simp]: "le16_of (le16_bytes x) = x"
  unfolding le16_bytes_def le16_of_def
  by (rule u16_eqI_bytes) (auto simp: bit_simps)

lemma le32_of_bytes [simp]: "le32_of (le32_bytes x) = x"
  unfolding le32_bytes_def le32_of_def
  by (rule u32_eqI_bytes) (simp_all add: bit_simps numeral_eq_Suc [symmetric])

lemma le16_of_bytes_append [simp]: "le16_of (le16_bytes x @ ys) = x"
  unfolding le16_bytes_def le16_of_def
  by (rule u16_eqI_bytes) (auto simp: bit_simps)

lemma le16_bytes_of: "length b = 2 \<Longrightarrow> le16_bytes (le16_of b) = b"
  unfolding le16_bytes_def le16_of_def
  by (rule nth_equalityI) (auto simp: less_Suc_eq bit_simps intro!: u8_eqI dest: u8_bit_bound)

end
