(* ===== verification/Pbuf.thy ===== *)
theory Pbuf
  imports Kernel_Prelude
begin

text \<open>
  \<^verbatim>\<open>kernel/net/pbuf.h\<close> and \<^verbatim>\<open>kernel/net/pbuf.c\<close>: the static pool of packet buffers and its
  intrusive free list. A \<^verbatim>\<open>struct pbuf *\<close> is the index of the buffer in the pool, the null
  pointer is \<open>None\<close>. The spinlock around each operation makes it atomic, so an operation is
  one function on the state.

  The state carries a flag \<open>mem_fault\<close>: the model sets it where the C code would touch
  memory outside an object, or a buffer that is not allocated. That is undefined behaviour
  in C; the flag makes its absence a theorem.
\<close>

section \<open>State\<close>

definition ETH_ADDR_LEN :: nat where [wire_defs]: "ETH_ADDR_LEN = 6"
definition ETH_HDR_LEN :: nat where [wire_defs]: "ETH_HDR_LEN = 14"
definition ETH_MTU :: nat where [wire_defs]: "ETH_MTU = 1500"
definition ETH_MAX_FRAME :: nat where [wire_defs]: "ETH_MAX_FRAME = ETH_HDR_LEN + ETH_MTU"
definition PBUF_SIZE :: nat where [wire_defs]: "PBUF_SIZE = ETH_MAX_FRAME"
definition PBUF_POOL_COUNT :: nat where "PBUF_POOL_COUNT = 32"

record pbuf =
  p_next :: "nat option"
  p_len :: u16
  p_ref :: u8
  p_flags :: u8
  p_data :: bytes

record pbuf_state =
  mem_fault :: bool
  pbuf_pool :: "pbuf list"
  pbuf_free_list :: "nat option"
  pbuf_inited :: bool

definition zero_pbuf :: pbuf where
  "zero_pbuf = \<lparr>p_next = None, p_len = 0, p_ref = 0, p_flags = 0, p_data = replicate PBUF_SIZE 0\<rparr>"

text \<open>The zero-initialised static data of the kernel image.\<close>

definition pbuf_bss :: pbuf_state where
  "pbuf_bss = \<lparr>mem_fault = False, pbuf_pool = replicate PBUF_POOL_COUNT zero_pbuf,
     pbuf_free_list = None, pbuf_inited = False\<rparr>"

abbreviation pb :: "'a pbuf_state_scheme \<Rightarrow> nat \<Rightarrow> pbuf" where
  "pb st i \<equiv> pbuf_pool st ! i"

definition set_pb :: "nat \<Rightarrow> pbuf \<Rightarrow> 'a pbuf_state_scheme \<Rightarrow> 'a pbuf_state_scheme" where
  "set_pb i b st = st\<lparr>pbuf_pool := (pbuf_pool st)[i := b]\<rparr>"

text \<open>A C access that is in bounds only under \<open>ok\<close>.\<close>

definition ub_unless :: "bool \<Rightarrow> 'a pbuf_state_scheme \<Rightarrow> 'a pbuf_state_scheme" where
  "ub_unless ok st = (if ok then st else st\<lparr>mem_fault := True\<rparr>)"

definition live :: "'a pbuf_state_scheme \<Rightarrow> nat \<Rightarrow> bool" where
  "live st i \<longleftrightarrow> i < length (pbuf_pool st) \<and> p_ref (pb st i) \<noteq> 0"

section \<open>Operations\<close>

definition pbuf_init_slot :: "nat \<Rightarrow> 'a pbuf_state_scheme \<Rightarrow> 'a pbuf_state_scheme" where
  "pbuf_init_slot i st =
     (set_pb i ((pb st i)\<lparr>p_next := pbuf_free_list st, p_ref := 0, p_len := 0, p_flags := 0\<rparr>) st)
       \<lparr>pbuf_free_list := Some i\<rparr>"

definition pbuf_pool_init :: "'a pbuf_state_scheme \<Rightarrow> 'a pbuf_state_scheme" where
  "pbuf_pool_init st =
     (if pbuf_inited st then st
      else (fold pbuf_init_slot [0..<PBUF_POOL_COUNT] (st\<lparr>pbuf_free_list := None\<rparr>))
             \<lparr>pbuf_inited := True\<rparr>)"

definition pbuf_alloc ::
  "u16 \<Rightarrow> 'a pbuf_state_scheme \<Rightarrow> nat option \<times> 'a pbuf_state_scheme" where
  "pbuf_alloc len st0 =
     (let st = (if \<not> pbuf_inited st0 then pbuf_pool_init st0 else st0)
      in if unat len > PBUF_SIZE then (None, st)
         else case pbuf_free_list st of
           None \<Rightarrow> (None, st)
         | Some i \<Rightarrow>
             (Some i,
              (set_pb i ((pb st i)\<lparr>p_next := None, p_len := len, p_ref := 1, p_flags := 0\<rparr>) st)
                \<lparr>pbuf_free_list := p_next (pb st i)\<rparr>))"

definition pbuf_free :: "nat option \<Rightarrow> 'a pbuf_state_scheme \<Rightarrow> 'a pbuf_state_scheme" where
  "pbuf_free p st0 =
     (case p of
        None \<Rightarrow> st0
      | Some i \<Rightarrow>
          let st = ub_unless (live st0 i) st0; b = pb st i
          in if p_ref b > 1 then set_pb i (b\<lparr>p_ref := p_ref b - 1\<rparr>) st
             else (set_pb i (b\<lparr>p_ref := 0, p_len := 0, p_next := pbuf_free_list st\<rparr>) st)
                    \<lparr>pbuf_free_list := Some i\<rparr>)"

text \<open>
  Accesses to \<open>p->data\<close> and \<open>p->len\<close>. A read or write is in bounds when the buffer is
  allocated and the range lies inside its data array.
\<close>

definition pb_ok :: "nat \<Rightarrow> nat \<Rightarrow> nat \<Rightarrow> 'a pbuf_state_scheme \<Rightarrow> bool" where
  "pb_ok i off n st \<longleftrightarrow> live st i \<and> off + n \<le> PBUF_SIZE"

definition pb_read :: "nat \<Rightarrow> nat \<Rightarrow> nat \<Rightarrow> 'a pbuf_state_scheme \<Rightarrow> bytes \<times> 'a pbuf_state_scheme" where
  "pb_read i off n st = (mem_get (p_data (pb st i)) off n, ub_unless (pb_ok i off n st) st)"

definition pb_write :: "nat \<Rightarrow> nat \<Rightarrow> bytes \<Rightarrow> 'a pbuf_state_scheme \<Rightarrow> 'a pbuf_state_scheme" where
  "pb_write i off bs st =
     (if pb_ok i off (length bs) st
      then set_pb i ((pb st i)\<lparr>p_data := mem_put (p_data (pb st i)) off bs\<rparr>) st
      else st\<lparr>mem_fault := True\<rparr>)"

definition pb_set_len :: "nat \<Rightarrow> u16 \<Rightarrow> 'a pbuf_state_scheme \<Rightarrow> 'a pbuf_state_scheme" where
  "pb_set_len i len st = set_pb i ((pb st i)\<lparr>p_len := len\<rparr>) (ub_unless (live st i) st)"

definition pbuf_clone ::
  "nat option \<Rightarrow> 'a pbuf_state_scheme \<Rightarrow> nat option \<times> 'a pbuf_state_scheme" where
  "pbuf_clone src st0 =
     (case src of
        None \<Rightarrow> (None, st0)
      | Some s \<Rightarrow>
          (case pbuf_alloc (p_len (pb st0 s)) (ub_unless (live st0 s) st0) of
             (None, st) \<Rightarrow> (None, st)
           | (Some p, st) \<Rightarrow>
               (let n = unat (p_len (pb st s)); (bs, st) = pb_read s 0 n st
                in (Some p, pb_write p 0 bs st))))"

section \<open>The pool invariant\<close>

text \<open>
  \<open>free_chain pool head is\<close>: following the \<open>next\<close> pointers from \<open>head\<close> visits exactly \<open>is\<close>
  and ends with the null pointer.
\<close>

fun free_chain :: "pbuf list \<Rightarrow> nat option \<Rightarrow> nat list \<Rightarrow> bool" where
  "free_chain pool None is \<longleftrightarrow> is = []"
| "free_chain pool (Some i) [] \<longleftrightarrow> False"
| "free_chain pool (Some i) (j # js) \<longleftrightarrow>
     i = j \<and> i < length pool \<and> free_chain pool (p_next (pool ! i)) js"

definition pool_linked :: "'a pbuf_state_scheme \<Rightarrow> bool" where
  "pool_linked st \<longleftrightarrow>
     (\<exists>fl. free_chain (pbuf_pool st) (pbuf_free_list st) fl \<and> distinct fl \<and>
           set fl = {i. i < PBUF_POOL_COUNT \<and> \<not> live st i})"

definition pbuf_inv :: "'a pbuf_state_scheme \<Rightarrow> bool" where
  "pbuf_inv st \<longleftrightarrow>
     length (pbuf_pool st) = PBUF_POOL_COUNT \<and>
     (\<forall>i < PBUF_POOL_COUNT. length (p_data (pb st i)) = PBUF_SIZE \<and>
        unat (p_len (pb st i)) \<le> PBUF_SIZE \<and> p_ref (pb st i) \<le> 1) \<and>
     (if pbuf_inited st then pool_linked st else \<forall>i. \<not> live st i)"

text \<open>\<open>pb_same st st' i\<close>: buffer \<open>i\<close> has the same length, reference count and contents.\<close>

definition pb_same :: "'a pbuf_state_scheme \<Rightarrow> 'b pbuf_state_scheme \<Rightarrow> nat \<Rightarrow> bool" where
  "pb_same st st' i \<longleftrightarrow>
     p_len (pb st' i) = p_len (pb st i) \<and> p_ref (pb st' i) = p_ref (pb st i) \<and>
     p_data (pb st' i) = p_data (pb st i)"

text \<open>
  \<open>keeps C st st'\<close>: every buffer allocated in \<open>st\<close>, except those in \<open>C\<close>, is still
  allocated in \<open>st'\<close> with the same contents.
\<close>

definition keeps :: "nat set \<Rightarrow> 'a pbuf_state_scheme \<Rightarrow> 'b pbuf_state_scheme \<Rightarrow> bool" where
  "keeps C st st' \<longleftrightarrow> (\<forall>i. live st i \<longrightarrow> i \<notin> C \<longrightarrow> live st' i \<and> pb_same st st' i)"

section \<open>Frame lemmas\<close>

lemma keeps_refl [simp]: "keeps C st st"
  by (simp add: keeps_def pb_same_def)

lemma keeps_trans: "keeps C st st1 \<Longrightarrow> keeps C st1 st2 \<Longrightarrow> keeps C st st2"
  by (simp add: keeps_def pb_same_def)

lemma keeps_chain: "keeps C st st1 \<Longrightarrow> keeps D st1 st2 \<Longrightarrow> keeps (C \<union> D) st st2"
  by (simp add: keeps_def pb_same_def)

lemma keeps_mono: "keeps C st st' \<Longrightarrow> C \<subseteq> D \<Longrightarrow> keeps D st st'"
  by (auto simp: keeps_def)

lemma keepsD: "keeps C st st' \<Longrightarrow> live st i \<Longrightarrow> i \<notin> C \<Longrightarrow> live st' i \<and> pb_same st st' i"
  by (simp add: keeps_def)

text \<open>A buffer that was not allocated before may be consumed without being mentioned.\<close>

lemma keeps_fresh: "keeps (insert i C) st st' \<Longrightarrow> \<not> live st i \<Longrightarrow> keeps C st st'"
  by (auto simp: keeps_def)

lemma set_pb_simps [simp]:
  "mem_fault (set_pb i b st) = mem_fault st"
  "pbuf_free_list (set_pb i b st) = pbuf_free_list st"
  "pbuf_inited (set_pb i b st) = pbuf_inited st"
  "length (pbuf_pool (set_pb i b st)) = length (pbuf_pool st)"
  "pbuf_state.more (set_pb i b st) = pbuf_state.more st"
  by (simp_all add: set_pb_def)

lemma pb_set_pb: "pb (set_pb i b st) j = (if i = j \<and> j < length (pbuf_pool st) then b else pb st j)"
  by (cases "i = j"; cases "j < length (pbuf_pool st)")
     (simp_all add: set_pb_def list_update_beyond not_less)

lemma live_set_pb:
  "live (set_pb i b st) j = (if i = j \<and> j < length (pbuf_pool st) then p_ref b \<noteq> 0 else live st j)"
  by (auto simp: live_def pb_set_pb)

lemma ub_unless_simps [simp]:
  "ub_unless True st = st"
  "pbuf_pool (ub_unless ok st) = pbuf_pool st"
  "pbuf_free_list (ub_unless ok st) = pbuf_free_list st"
  "pbuf_inited (ub_unless ok st) = pbuf_inited st"
  "pbuf_state.more (ub_unless ok st) = pbuf_state.more st"
  "mem_fault (ub_unless ok st) = (mem_fault st \<or> \<not> ok)"
  by (simp_all add: ub_unless_def)

lemma live_cong: "pbuf_pool st = pbuf_pool st' \<Longrightarrow> live st i = live st' i"
  by (simp add: live_def)

lemma live_bound: "pbuf_inv st \<Longrightarrow> live st i \<Longrightarrow> i < PBUF_POOL_COUNT"
  by (simp add: live_def pbuf_inv_def)

lemma pbuf_inv_length: "pbuf_inv st \<Longrightarrow> length (pbuf_pool st) = PBUF_POOL_COUNT"
  by (simp add: pbuf_inv_def)

lemma pbuf_inv_data: "pbuf_inv st \<Longrightarrow> live st i \<Longrightarrow> length (p_data (pb st i)) = PBUF_SIZE"
  by (auto simp: pbuf_inv_def live_def)

lemma pbuf_inv_len: "pbuf_inv st \<Longrightarrow> live st i \<Longrightarrow> unat (p_len (pb st i)) \<le> PBUF_SIZE"
  by (auto simp: pbuf_inv_def live_def)

lemma pbuf_inv_cong:
  assumes "pbuf_pool st = pbuf_pool st'" "pbuf_free_list st = pbuf_free_list st'"
    "pbuf_inited st = pbuf_inited st'"
  shows "pbuf_inv st = pbuf_inv st'"
  using assms by (simp add: pbuf_inv_def pool_linked_def live_def)

lemma pbuf_inv_ub_unless [simp]: "pbuf_inv (ub_unless ok st) = pbuf_inv st"
  by (rule pbuf_inv_cong) simp_all

lemma live_ub_unless [simp]: "live (ub_unless ok st) = live st"
  by (intro ext) (simp add: live_def)

section \<open>Initialisation\<close>

lemma free_chain_update:
  "i \<notin> set fl \<Longrightarrow> free_chain (pool[i := b]) h fl = free_chain pool h fl"
  by (induction pool h fl rule: free_chain.induct) auto

lemma free_chain_bound: "free_chain pool h fl \<Longrightarrow> j \<in> set fl \<Longrightarrow> j < length pool"
  by (induction pool h fl rule: free_chain.induct) auto

definition init_upto :: "nat \<Rightarrow> 'a pbuf_state_scheme \<Rightarrow> 'a pbuf_state_scheme \<Rightarrow> bool" where
  "init_upto n st st' \<longleftrightarrow>
     free_chain (pbuf_pool st') (pbuf_free_list st') (rev [0..<n]) \<and>
     length (pbuf_pool st') = length (pbuf_pool st) \<and>
     (\<forall>j < n. p_ref (pb st' j) = 0 \<and> p_len (pb st' j) = 0 \<and> p_data (pb st' j) = p_data (pb st j)) \<and>
     (\<forall>j \<ge> n. pb st' j = pb st j) \<and>
     mem_fault st' = mem_fault st \<and> pbuf_inited st' = pbuf_inited st \<and>
     pbuf_state.more st' = pbuf_state.more st"

lemma init_upto_step:
  assumes "init_upto n st s" and "n < length (pbuf_pool st)"
  shows "init_upto (Suc n) st (pbuf_init_slot n s)"
proof -
  have "p_ref (pb (pbuf_init_slot n s) j) = 0 \<and> p_len (pb (pbuf_init_slot n s) j) = 0 \<and>
      p_data (pb (pbuf_init_slot n s) j) = p_data (pb st j)" if "j < Suc n" for j
    using assms that by (cases "j = n") (auto simp: init_upto_def pbuf_init_slot_def pb_set_pb)
  moreover have "pb (pbuf_init_slot n s) j = pb st j" if "Suc n \<le> j" for j
    using assms that by (auto simp: init_upto_def pbuf_init_slot_def pb_set_pb)
  moreover have "free_chain (pbuf_pool (pbuf_init_slot n s)) (pbuf_free_list (pbuf_init_slot n s))
      (rev [0..<Suc n])"
    using assms by (simp add: init_upto_def pbuf_init_slot_def set_pb_def free_chain_update)
  ultimately show ?thesis
    using assms unfolding init_upto_def by (simp add: pbuf_init_slot_def)
qed

lemma pbuf_init_loop:
  assumes "n \<le> length (pbuf_pool st)" and "pbuf_free_list st = None"
  shows "init_upto n st (fold pbuf_init_slot [0..<n] st)"
  using assms(1)
proof (induction n)
  case 0
  then show ?case using assms(2) by (simp add: init_upto_def)
next
  case (Suc n)
  then show ?case by (simp add: init_upto_step)
qed

lemma pbuf_pool_init_props:
  assumes "pbuf_inv st"
  shows "pbuf_inv (pbuf_pool_init st)" "pbuf_inited (pbuf_pool_init st)"
    "mem_fault (pbuf_pool_init st) = mem_fault st"
    "pbuf_state.more (pbuf_pool_init st) = pbuf_state.more st"
    "live (pbuf_pool_init st) = live st"
    "live st i \<Longrightarrow> pb_same st (pbuf_pool_init st) i"
proof -
  let ?s = "fold pbuf_init_slot [0..<PBUF_POOL_COUNT] (st\<lparr>pbuf_free_list := None\<rparr>)"
  have up: "init_upto PBUF_POOL_COUNT (st\<lparr>pbuf_free_list := None\<rparr>) ?s"
    using assms by (intro pbuf_init_loop) (simp_all add: pbuf_inv_def)
  have eq: "pbuf_pool_init st = (if pbuf_inited st then st else ?s\<lparr>pbuf_inited := True\<rparr>)"
    by (simp add: pbuf_pool_init_def)
  have dead: "\<not> live (?s\<lparr>pbuf_inited := True\<rparr>) i" for i
    using up assms by (auto simp: init_upto_def live_def pbuf_inv_def)
  have "pool_linked (?s\<lparr>pbuf_inited := True\<rparr>)"
    unfolding pool_linked_def
    using up dead by (intro exI [of _ "rev [0..<PBUF_POOL_COUNT]"]) (auto simp: init_upto_def)
  then have "pbuf_inv (?s\<lparr>pbuf_inited := True\<rparr>)"
    using up assms by (auto simp: pbuf_inv_def init_upto_def)
  then show "pbuf_inv (pbuf_pool_init st)" using assms eq by simp
  show "pbuf_inited (pbuf_pool_init st)" by (simp add: eq)
  show "mem_fault (pbuf_pool_init st) = mem_fault st"
    "pbuf_state.more (pbuf_pool_init st) = pbuf_state.more st"
    using up by (simp_all add: eq init_upto_def)
  show "live (pbuf_pool_init st) = live st"
    using assms dead by (auto simp: eq pbuf_inv_def)
  show "live st i \<Longrightarrow> pb_same st (pbuf_pool_init st) i"
    using assms by (auto simp: eq pbuf_inv_def pb_same_def)
qed

lemma pbuf_inv_bss [simp]: "pbuf_inv pbuf_bss"
  by (simp add: pbuf_inv_def pbuf_bss_def zero_pbuf_def live_def)

lemma not_live_bss [simp]: "\<not> live pbuf_bss i"
  by (auto simp: live_def pbuf_bss_def zero_pbuf_def)

section \<open>Allocation and release\<close>

lemma chain_hd:
  assumes "free_chain pool (Some i) fl"
  obtains js where "fl = i # js" "i < length pool" "free_chain pool (p_next (pool ! i)) js"
  using assms by (cases fl) auto

lemma pool_linked_take:
  assumes inv: "pbuf_inv st" and ini: "pbuf_inited st" and hd: "pbuf_free_list st = Some i"
    and len: "unat len \<le> PBUF_SIZE"
  defines "st' \<equiv> (set_pb i ((pb st i)\<lparr>p_next := None, p_len := len, p_ref := 1, p_flags := 0\<rparr>) st)
                \<lparr>pbuf_free_list := p_next (pb st i)\<rparr>"
  shows "pbuf_inv st'" "i < PBUF_POOL_COUNT" "\<not> live st i" "live st' = (live st)(i := True)"
    "keeps {} st st'" "p_len (pb st' i) = len" "p_data (pb st' i) = p_data (pb st i)"
proof -
  obtain fl where fl: "free_chain (pbuf_pool st) (Some i) fl" "distinct fl"
      "set fl = {i. i < PBUF_POOL_COUNT \<and> \<not> live st i}"
    using inv ini hd by (auto simp: pbuf_inv_def pool_linked_def)
  obtain js where js: "fl = i # js" "free_chain (pbuf_pool st) (p_next (pb st i)) js"
    using fl(1) by (rule chain_hd)
  have lenp: "length (pbuf_pool st) = PBUF_POOL_COUNT" using inv by (rule pbuf_inv_length)
  show i: "i < PBUF_POOL_COUNT" "\<not> live st i" using fl(3) js(1) by auto
  show lv: "live st' = (live st)(i := True)"
    using i lenp by (auto simp: st'_def live_set_pb live_def pb_set_pb fun_eq_iff)
  show "keeps {} st st'"
    using i lenp lv by (auto simp: st'_def keeps_def pb_same_def pb_set_pb)
  show "p_len (pb st' i) = len" "p_data (pb st' i) = p_data (pb st i)"
    using i lenp by (simp_all add: st'_def pb_set_pb)
  have "free_chain (pbuf_pool st') (pbuf_free_list st') js"
    using fl(2) js by (simp add: st'_def set_pb_def free_chain_update)
  then have "pool_linked st'"
    unfolding pool_linked_def lv using fl js by (intro exI [of _ js]) auto
  moreover have "\<forall>j < PBUF_POOL_COUNT. length (p_data (pb st' j)) = PBUF_SIZE \<and>
      unat (p_len (pb st' j)) \<le> PBUF_SIZE \<and> p_ref (pb st' j) \<le> 1"
    using inv len lenp by (auto simp: st'_def pb_set_pb pbuf_inv_def)
  ultimately show "pbuf_inv st'"
    using lenp ini unfolding pbuf_inv_def by (simp add: st'_def)
qed

text \<open>The two outcomes of an allocation.\<close>

lemma pbuf_alloc_cases:
  assumes inv: "pbuf_inv st"
  obtains (fail) st' where "pbuf_alloc len st = (None, st')" "pbuf_inv st'"
      "mem_fault st' = mem_fault st" "pbuf_state.more st' = pbuf_state.more st"
      "keeps {} st st'" "live st' = live st"
      "unat len > PBUF_SIZE \<or> (\<forall>i < PBUF_POOL_COUNT. live st i)"
  | (ok) i st' where "pbuf_alloc len st = (Some i, st')" "pbuf_inv st'"
      "mem_fault st' = mem_fault st" "pbuf_state.more st' = pbuf_state.more st"
      "keeps {} st st'" "live st' = (live st)(i := True)" "\<not> live st i" "i < PBUF_POOL_COUNT"
      "p_len (pb st' i) = len" "unat len \<le> PBUF_SIZE"
proof -
  define s where "s = (if \<not> pbuf_inited st then pbuf_pool_init st else st)"
  have s: "pbuf_inv s" "pbuf_inited s" "mem_fault s = mem_fault st"
      "pbuf_state.more s = pbuf_state.more st" "live s = live st" "keeps {} st s"
    using inv pbuf_pool_init_props [OF inv] by (auto simp: s_def keeps_def pb_same_def)
  have al: "pbuf_alloc len st =
     (if unat len > PBUF_SIZE then (None, s)
      else case pbuf_free_list s of None \<Rightarrow> (None, s)
      | Some i \<Rightarrow> (Some i,
          (set_pb i ((pb s i)\<lparr>p_next := None, p_len := len, p_ref := 1, p_flags := 0\<rparr>) s)
            \<lparr>pbuf_free_list := p_next (pb s i)\<rparr>))"
    by (simp only: pbuf_alloc_def s_def Let_def)
  show ?thesis
  proof (cases "unat len > PBUF_SIZE")
    case True
    with s al show ?thesis by (intro fail [of s]) auto
  next
    case False
    show ?thesis
    proof (cases "pbuf_free_list s")
      case None
      then have "\<forall>i < PBUF_POOL_COUNT. live st i"
        using s(1,2,5) by (auto simp: pbuf_inv_def pool_linked_def)
      with None False s al show ?thesis by (intro fail [of s]) auto
    next
      case (Some i)
      have len: "unat len \<le> PBUF_SIZE" using False by simp
      note tk = pool_linked_take [OF s(1,2) Some len]
      show ?thesis
        by (rule ok [OF _ tk(1)]) (use tk s al Some False keeps_trans [OF s(6) tk(5)] in \<open>auto\<close>)
    qed
  qed
qed

lemma pbuf_alloc_None:
  assumes "pbuf_inv st" "pbuf_alloc len st = (None, st')"
  shows "pbuf_inv st'" "mem_fault st' = mem_fault st" "pbuf_state.more st' = pbuf_state.more st"
    "keeps {} st st'" "live st' = live st"
  by (rule pbuf_alloc_cases [OF assms(1), of len]; use assms(2) in simp)+

lemma pbuf_alloc_Some:
  assumes "pbuf_inv st" "pbuf_alloc len st = (Some i, st')"
  shows "pbuf_inv st'" "mem_fault st' = mem_fault st" "pbuf_state.more st' = pbuf_state.more st"
    "keeps {} st st'" "live st' = (live st)(i := True)" "\<not> live st i" "p_len (pb st' i) = len"
    "unat len \<le> PBUF_SIZE"
  by (rule pbuf_alloc_cases [OF assms(1), of len]; use assms(2) in simp)+

lemma pbuf_free_live:
  assumes inv: "pbuf_inv st" and lv: "live st i"
  shows "pbuf_inv (pbuf_free (Some i) st)" "live (pbuf_free (Some i) st) = (live st)(i := False)"
    "keeps {i} st (pbuf_free (Some i) st)" "mem_fault (pbuf_free (Some i) st) = mem_fault st"
    "pbuf_state.more (pbuf_free (Some i) st) = pbuf_state.more st"
proof -
  let ?st = "pbuf_free (Some i) st"
  have lenp: "length (pbuf_pool st) = PBUF_POOL_COUNT" using inv by (rule pbuf_inv_length)
  have i: "i < PBUF_POOL_COUNT" using inv lv by (rule live_bound)
  then have "p_ref (pb st i) \<le> 1" using inv by (simp add: pbuf_inv_def)
  then have eq: "?st = (set_pb i ((pb st i)\<lparr>p_ref := 0, p_len := 0, p_next := pbuf_free_list st\<rparr>) st)
                    \<lparr>pbuf_free_list := Some i\<rparr>"
    using lv by (simp add: pbuf_free_def Let_def not_less)
  show lv': "live ?st = (live st)(i := False)"
    using i lenp by (auto simp: eq live_def pb_set_pb fun_eq_iff)
  show "keeps {i} st ?st"
    using i lenp lv' by (auto simp: eq keeps_def pb_same_def pb_set_pb)
  show "mem_fault ?st = mem_fault st" "pbuf_state.more ?st = pbuf_state.more st"
    by (simp_all add: eq)
  have ini: "pbuf_inited st" using inv lv by (auto simp: pbuf_inv_def split: if_splits)
  then obtain fl where fl: "free_chain (pbuf_pool st) (pbuf_free_list st) fl" "distinct fl"
      "set fl = {i. i < PBUF_POOL_COUNT \<and> \<not> live st i}"
    using inv by (auto simp: pbuf_inv_def pool_linked_def)
  have "i \<notin> set fl" using fl(3) lv by simp
  then have "free_chain (pbuf_pool ?st) (pbuf_free_list ?st) (i # fl)" "distinct (i # fl)"
    using fl(1,2) i lenp by (simp_all add: eq set_pb_def free_chain_update)
  moreover have "set (i # fl) = {j. j < PBUF_POOL_COUNT \<and> \<not> live ?st j}"
    using fl(3) i lv' by auto
  ultimately have "pool_linked ?st" unfolding pool_linked_def by blast
  moreover have "\<forall>j < PBUF_POOL_COUNT. length (p_data (pb ?st j)) = PBUF_SIZE \<and>
      unat (p_len (pb ?st j)) \<le> PBUF_SIZE \<and> p_ref (pb ?st j) \<le> 1"
    using inv lenp by (auto simp: eq pb_set_pb pbuf_inv_def)
  ultimately show "pbuf_inv ?st"
    using lenp ini unfolding pbuf_inv_def by (simp add: eq)
qed

lemma pbuf_free_None [simp]: "pbuf_free None st = st"
  by (simp add: pbuf_free_def)

section \<open>Accesses\<close>

lemma pb_read_simps [simp]:
  "fst (pb_read i off n st) = mem_get (p_data (pb st i)) off n"
  "snd (pb_read i off n st) = ub_unless (pb_ok i off n st) st"
  by (simp_all add: pb_read_def)

lemma pbuf_inv_set_pb:
  assumes inv: "pbuf_inv st" and lv: "live st i" and ref: "p_ref b = p_ref (pb st i)"
    and data: "length (p_data b) = PBUF_SIZE" and len: "unat (p_len b) \<le> PBUF_SIZE"
    and nxt: "p_next b = p_next (pb st i)"
  shows "pbuf_inv (set_pb i b st)" "live (set_pb i b st) = live st"
proof -
  have lenp: "length (pbuf_pool st) = PBUF_POOL_COUNT" using inv by (rule pbuf_inv_length)
  show lv': "live (set_pb i b st) = live st"
    using lv ref by (auto simp: live_def pb_set_pb fun_eq_iff)
  have ini: "pbuf_inited st" using inv lv by (auto simp: pbuf_inv_def split: if_splits)
  then obtain fl where fl: "free_chain (pbuf_pool st) (pbuf_free_list st) fl" "distinct fl"
      "set fl = {i. i < PBUF_POOL_COUNT \<and> \<not> live st i}"
    using inv by (auto simp: pbuf_inv_def pool_linked_def)
  then have "i \<notin> set fl" using lv by simp
  then have "pool_linked (set_pb i b st)"
    unfolding pool_linked_def lv'
    using fl by (intro exI [of _ fl]) (simp add: set_pb_def free_chain_update)
  moreover have "\<forall>j < PBUF_POOL_COUNT. length (p_data (pb (set_pb i b st) j)) = PBUF_SIZE \<and>
      unat (p_len (pb (set_pb i b st) j)) \<le> PBUF_SIZE \<and> p_ref (pb (set_pb i b st) j) \<le> 1"
    using inv ref data len by (auto simp: pb_set_pb pbuf_inv_def)
  ultimately show "pbuf_inv (set_pb i b st)"
    using lenp ini unfolding pbuf_inv_def by simp
qed

lemma pb_write_live:
  assumes inv: "pbuf_inv st" and ok: "live st i" "off + length bs \<le> PBUF_SIZE"
  shows "pbuf_inv (pb_write i off bs st)" "live (pb_write i off bs st) = live st"
    "keeps {i} st (pb_write i off bs st)" "mem_fault (pb_write i off bs st) = mem_fault st"
    "pbuf_state.more (pb_write i off bs st) = pbuf_state.more st"
    "p_len (pb (pb_write i off bs st) i) = p_len (pb st i)"
    "p_data (pb (pb_write i off bs st) i) = mem_put (p_data (pb st i)) off bs"
proof -
  have eq: "pb_write i off bs st
      = set_pb i ((pb st i)\<lparr>p_data := mem_put (p_data (pb st i)) off bs\<rparr>) st"
    using ok by (simp add: pb_write_def pb_ok_def)
  have d: "length (p_data (pb st i)) = PBUF_SIZE" using inv ok(1) by (rule pbuf_inv_data)
  have l: "unat (p_len (pb st i)) \<le> PBUF_SIZE" using inv ok(1) by (rule pbuf_inv_len)
  show "pbuf_inv (pb_write i off bs st)" and lv: "live (pb_write i off bs st) = live st"
    using pbuf_inv_set_pb [OF inv ok(1)] ok(2) d l by (simp_all add: eq)
  show "keeps {i} st (pb_write i off bs st)"
    by (auto simp: keeps_def lv) (simp add: eq pb_same_def pb_set_pb)
  show "mem_fault (pb_write i off bs st) = mem_fault st"
    "pbuf_state.more (pb_write i off bs st) = pbuf_state.more st"
    by (simp_all add: eq)
  show "p_len (pb (pb_write i off bs st) i) = p_len (pb st i)"
    "p_data (pb (pb_write i off bs st) i) = mem_put (p_data (pb st i)) off bs"
    using ok(1) by (simp_all add: eq pb_set_pb live_def)
qed

lemma pb_set_len_live:
  assumes inv: "pbuf_inv st" and ok: "live st i" "unat len \<le> PBUF_SIZE"
  shows "pbuf_inv (pb_set_len i len st)" "live (pb_set_len i len st) = live st"
    "keeps {i} st (pb_set_len i len st)" "mem_fault (pb_set_len i len st) = mem_fault st"
    "pbuf_state.more (pb_set_len i len st) = pbuf_state.more st"
    "p_len (pb (pb_set_len i len st) i) = len"
    "p_data (pb (pb_set_len i len st) i) = p_data (pb st i)"
proof -
  have eq: "pb_set_len i len st = set_pb i ((pb st i)\<lparr>p_len := len\<rparr>) st"
    using ok by (simp add: pb_set_len_def)
  have d: "length (p_data (pb st i)) = PBUF_SIZE" using inv ok(1) by (rule pbuf_inv_data)
  show "pbuf_inv (pb_set_len i len st)" and lv: "live (pb_set_len i len st) = live st"
    using pbuf_inv_set_pb [OF inv ok(1)] ok(2) d by (simp_all add: eq)
  show "keeps {i} st (pb_set_len i len st)"
    by (auto simp: keeps_def lv) (simp add: eq pb_same_def pb_set_pb)
  show "mem_fault (pb_set_len i len st) = mem_fault st"
    "pbuf_state.more (pb_set_len i len st) = pbuf_state.more st"
    by (simp_all add: eq)
  show "p_len (pb (pb_set_len i len st) i) = len"
    "p_data (pb (pb_set_len i len st) i) = p_data (pb st i)"
    using ok(1) by (simp_all add: eq pb_set_pb live_def)
qed

section \<open>The allocator's contract\<close>

text \<open>
  What a client may rely on, whatever the representation of the free list: an allocation
  hands out a buffer nobody owns, a release returns it, and an allocation of an admissible
  size fails only when every buffer is in use.
\<close>

locale buffer_pool =
  fixes inv :: "'s \<Rightarrow> bool"
    and owned :: "'s \<Rightarrow> nat \<Rightarrow> bool"
    and capacity :: nat
    and max_len :: nat
    and alloc :: "u16 \<Rightarrow> 's \<Rightarrow> nat option \<times> 's"
    and release :: "nat \<Rightarrow> 's \<Rightarrow> 's"
  assumes owned_bound: "inv s \<Longrightarrow> owned s i \<Longrightarrow> i < capacity"
    and alloc_Some: "inv s \<Longrightarrow> alloc n s = (Some i, s') \<Longrightarrow>
        inv s' \<and> i < capacity \<and> \<not> owned s i \<and> owned s' = (owned s)(i := True)"
    and alloc_None: "inv s \<Longrightarrow> alloc n s = (None, s') \<Longrightarrow> inv s' \<and> owned s' = owned s"
    and alloc_fails: "inv s \<Longrightarrow> alloc n s = (None, s') \<Longrightarrow>
        unat n > max_len \<or> (\<forall>i < capacity. owned s i)"
    and release_owned: "inv s \<Longrightarrow> owned s i \<Longrightarrow>
        inv (release i s) \<and> owned (release i s) = (owned s)(i := False)"
begin

definition in_use :: "'s \<Rightarrow> nat" where
  "in_use s = card {i. owned s i}"

lemma finite_owned: "inv s \<Longrightarrow> finite {i. owned s i}"
  by (rule finite_subset [of _ "{..<capacity}"]) (auto dest: owned_bound)

lemma in_use_le: "inv s \<Longrightarrow> in_use s \<le> capacity"
  unfolding in_use_def
  by (rule order_trans [OF card_mono [of "{..<capacity}"]]) (auto dest: owned_bound)

lemma in_use_alloc: "inv s \<Longrightarrow> alloc n s = (Some i, s') \<Longrightarrow> in_use s' = Suc (in_use s)"
proof -
  assume inv: "inv s" and al: "alloc n s = (Some i, s')"
  have "\<not> owned s i" and o: "owned s' = (owned s)(i := True)" using alloc_Some [OF inv al] by auto
  then have "{j. owned s' j} = insert i {j. owned s j}" by auto
  then show ?thesis using \<open>\<not> owned s i\<close> finite_owned [OF inv] by (simp add: in_use_def)
qed

lemma in_use_release: "inv s \<Longrightarrow> owned s i \<Longrightarrow> Suc (in_use (release i s)) = in_use s"
proof -
  assume inv: "inv s" and ow: "owned s i"
  have "{j. owned (release i s) j} = {j. owned s j} - {i}"
    using release_owned [OF inv ow] by auto
  then show ?thesis
    using ow finite_owned [OF inv] card_Suc_Diff1 [of "{j. owned s j}" i]
    by (simp add: in_use_def)
qed

lemma alloc_total:
  assumes "inv s" "unat n \<le> max_len" "in_use s < capacity"
  shows "\<exists>i s'. alloc n s = (Some i, s')"
proof (cases "alloc n s")
  case (Pair r s')
  show ?thesis
  proof (cases r)
    case None
    then have "\<forall>i < capacity. owned s i" using alloc_fails [OF assms(1)] Pair assms(2) by fastforce
    then have "{..<capacity} \<subseteq> {i. owned s i}" by auto
    from card_mono [OF finite_owned [OF assms(1)] this] have "capacity \<le> in_use s"
      by (simp add: in_use_def)
    then show ?thesis using assms(3) by simp
  qed (use Pair in auto)
qed

lemma alloc_release:
  "inv s \<Longrightarrow> alloc n s = (Some i, s') \<Longrightarrow> owned (release i s') = owned s"
  using alloc_Some [of s n i s'] release_owned [of s' i] by (auto simp: fun_eq_iff)

end

interpretation pool: buffer_pool
  "pbuf_inv :: 'a pbuf_state_scheme \<Rightarrow> bool" live PBUF_POOL_COUNT PBUF_SIZE pbuf_alloc
  "\<lambda>i. pbuf_free (Some i)"
proof unfold_locales
  fix s s' :: "'a pbuf_state_scheme" and n i
  assume inv: "pbuf_inv s"
  show "live s i \<Longrightarrow> i < PBUF_POOL_COUNT" using inv by (rule live_bound)
  show "pbuf_alloc n s = (Some i, s') \<Longrightarrow>
      pbuf_inv s' \<and> i < PBUF_POOL_COUNT \<and> \<not> live s i \<and> live s' = (live s)(i := True)"
    by (rule pbuf_alloc_cases [OF inv, of n]) auto
  show "pbuf_alloc n s = (None, s') \<Longrightarrow> pbuf_inv s' \<and> live s' = live s"
    by (rule pbuf_alloc_cases [OF inv, of n]) auto
  show "pbuf_alloc n s = (None, s') \<Longrightarrow> unat n > PBUF_SIZE \<or> (\<forall>i < PBUF_POOL_COUNT. live s i)"
    by (rule pbuf_alloc_cases [OF inv, of n]) auto
  show "live s i \<Longrightarrow> pbuf_inv (pbuf_free (Some i) s) \<and>
      live (pbuf_free (Some i) s) = (live s)(i := False)"
    using pbuf_free_live [OF inv] by blast
qed

lemma pbuf_clone_cases:
  assumes inv: "pbuf_inv st" and lv: "live st s"
  obtains (fail) st' where "pbuf_clone (Some s) st = (None, st')" "pbuf_inv st'"
      "mem_fault st' = mem_fault st" "keeps {} st st'" "live st' = live st"
      "\<forall>i < PBUF_POOL_COUNT. live st i"
  | (ok) i st' where "pbuf_clone (Some s) st = (Some i, st')" "pbuf_inv st'"
      "mem_fault st' = mem_fault st" "keeps {} st st'" "live st' = (live st)(i := True)"
      "\<not> live st i" "p_len (pb st' i) = p_len (pb st s)"
      "take (unat (p_len (pb st s))) (p_data (pb st' i))
         = take (unat (p_len (pb st s))) (p_data (pb st s))"
proof (rule pbuf_alloc_cases [OF inv, of "p_len (pb st s)"], goal_cases)
  case (1 st')
  then show ?thesis
    using lv pbuf_inv_len [OF inv lv] by (intro fail [of st']) (auto simp: pbuf_clone_def)
next
  case (2 i st1)
  let ?n = "unat (p_len (pb st s))"
  have s1: "live st1 s" "pb_same st st1 s" using keepsD [OF 2(7) lv] by auto
  have n: "?n \<le> PBUF_SIZE" using inv lv by (rule pbuf_inv_len)
  have d: "length (p_data (pb st1 s)) = PBUF_SIZE" using 2(4) s1(1) by (rule pbuf_inv_data)
  have i1: "live st1 i" using 2(8) by simp
  let ?bs = "mem_get (p_data (pb st1 s)) 0 ?n"
  have bs: "length ?bs = ?n" using n d by simp
  have r: "pbuf_clone (Some s) st = (Some i, pb_write i 0 ?bs st1)"
    using 2(3) lv s1 n by (simp add: pbuf_clone_def pb_read_def pb_ok_def pb_same_def)
  have wi: "live st1 i" "0 + length ?bs \<le> PBUF_SIZE" using i1 n d by simp_all
  note w = pb_write_live [OF 2(4) wi]
  have k: "keeps {} st (pb_write i 0 ?bs st1)"
    using keeps_trans [OF keeps_mono [OF 2(7)] w(3)] 2(9) by (auto intro: keeps_fresh)
  have "take ?n (p_data (pb (pb_write i 0 ?bs st1) i)) = take ?n (p_data (pb st s))"
    using s1(2) bs unfolding w(7) by (simp add: mem_put_zero mem_get_zero pb_same_def)
  then show ?thesis using ok [OF r w(1) _ k] w 2(5,8,9,11) by simp
qed

section \<open>All states of the pool\<close>

text \<open>
  The states a kernel reaches from its zeroed static data when every caller releases, reads
  and writes only buffers it holds.
\<close>

inductive pool_reach :: "pbuf_state \<Rightarrow> bool" where
  boot: "pool_reach pbuf_bss"
| initialise: "pool_reach st \<Longrightarrow> pool_reach (pbuf_pool_init st)"
| alloc: "pool_reach st \<Longrightarrow> pool_reach (snd (pbuf_alloc len st))"
| clone: "pool_reach st \<Longrightarrow> live st i \<Longrightarrow> pool_reach (snd (pbuf_clone (Some i) st))"
| release: "pool_reach st \<Longrightarrow> live st i \<Longrightarrow> pool_reach (pbuf_free (Some i) st)"
| wrote: "pool_reach st \<Longrightarrow> live st i \<Longrightarrow> off + length bs \<le> PBUF_SIZE \<Longrightarrow>
    pool_reach (pb_write i off bs st)"
| resize: "pool_reach st \<Longrightarrow> live st i \<Longrightarrow> unat len \<le> PBUF_SIZE \<Longrightarrow>
    pool_reach (pb_set_len i len st)"

lemma pool_reach_inv: "pool_reach st \<Longrightarrow> pbuf_inv st \<and> \<not> mem_fault st"
proof (induction rule: pool_reach.induct)
  case boot then show ?case by (simp add: pbuf_bss_def [symmetric]) (simp add: pbuf_bss_def)
next
  case (initialise st) then show ?case using pbuf_pool_init_props [of st] by simp
next
  case (alloc st len)
  then have "pbuf_inv st" by simp
  then show ?case by (rule pbuf_alloc_cases [where len = len]) (use alloc in auto)
next
  case (clone st i)
  then have "pbuf_inv st" by simp
  then show ?case by (rule pbuf_clone_cases [OF _ clone(2)]) (use clone in auto)
next
  case (release st i) then show ?case using pbuf_free_live [of st i] by simp
next
  case (wrote st i off bs) then show ?case using pb_write_live [of st i off bs] by simp
next
  case (resize st i len) then show ?case using pb_set_len_live [of st i len] by simp
qed

text \<open>
  C7. In every state the pool reaches, no access has gone out of bounds, the free list is a
  cycle-free chain of exactly the buffers nobody holds, and held and free buffers together
  are the whole pool of 32: no buffer is lost and none is handed out twice.
\<close>

theorem pool_accounting:
  assumes "pool_reach st" and "pbuf_inited st"
  shows "\<not> mem_fault st \<and>
    (\<exists>fl. free_chain (pbuf_pool st) (pbuf_free_list st) fl \<and> distinct fl \<and>
          set fl = {i. i < PBUF_POOL_COUNT \<and> \<not> live st i} \<and>
          length fl + card {i. live st i} = PBUF_POOL_COUNT)"
proof -
  have inv: "pbuf_inv st" and nf: "\<not> mem_fault st" using pool_reach_inv [OF assms(1)] by auto
  then obtain fl where fl: "free_chain (pbuf_pool st) (pbuf_free_list st) fl" "distinct fl"
      "set fl = {i. i < PBUF_POOL_COUNT \<and> \<not> live st i}"
    using assms(2) by (auto simp: pbuf_inv_def pool_linked_def)
  have "set fl \<union> {i. live st i} = {..<PBUF_POOL_COUNT}" "set fl \<inter> {i. live st i} = {}"
    using fl(3) live_bound [OF inv] by auto
  then have "card (set fl) + card {i. live st i} = PBUF_POOL_COUNT"
    using card_Un_disjoint [of "set fl" "{i. live st i}"] pool.finite_owned [OF inv] by simp
  then have "length fl + card {i. live st i} = PBUF_POOL_COUNT"
    using fl(2) by (simp add: distinct_card)
  then show ?thesis using fl nf by blast
qed

theorem pool_accounting_witness:
  "pool_reach (pbuf_pool_init pbuf_bss) \<and>
   (\<exists>fl. free_chain (pbuf_pool (pbuf_pool_init pbuf_bss))
            (pbuf_free_list (pbuf_pool_init pbuf_bss)) fl \<and>
         length fl = PBUF_POOL_COUNT)"
proof -
  have r: "pool_reach (pbuf_pool_init pbuf_bss)" by (intro pool_reach.intros)
  have i: "pbuf_inited (pbuf_pool_init pbuf_bss)" by (rule pbuf_pool_init_props) simp
  have "live (pbuf_pool_init pbuf_bss) = live pbuf_bss" by (rule pbuf_pool_init_props) simp
  then have "\<not> live (pbuf_pool_init pbuf_bss) j" for j
    by simp
  then have "card {j. live (pbuf_pool_init pbuf_bss) j} = 0" by simp
  then show ?thesis using pool_accounting [OF r i] r by auto
qed

text \<open>
  Functional behaviour of allocation: a request of at most 1514 bytes succeeds unless all
  32 buffers are held; the buffer returned was free, has the requested length, no other
  buffer changes, and releasing it at once restores the set of held buffers.
\<close>

theorem alloc_contract:
  assumes "pool_reach st" "unat len \<le> PBUF_SIZE" "card {i. live st i} < PBUF_POOL_COUNT"
  shows "\<exists>i st'. pbuf_alloc len st = (Some i, st') \<and> \<not> live st i \<and>
    p_len (pb st' i) = len \<and> keeps {} st st' \<and> live st' = (live st)(i := True) \<and>
    live (pbuf_free (Some i) st') = live st"
proof -
  have inv: "pbuf_inv st" using pool_reach_inv [OF assms(1)] by simp
  obtain i st' where al: "pbuf_alloc len st = (Some i, st')"
    using pool.alloc_total [OF inv assms(2)] assms(3) by (auto simp: pool.in_use_def)
  have "live (pbuf_free (Some i) st') = live st" by (rule pool.alloc_release [OF inv al])
  then show ?thesis using al by (intro exI [of _ i] exI [of _ st'])
      (rule pbuf_alloc_cases [OF inv, of len], auto)
qed

theorem alloc_contract_witness:
  "\<exists>i st'. pbuf_alloc 60 pbuf_bss = (Some i, st') \<and> p_len (pb st' i) = 60"
proof -
  have "card {i. live pbuf_bss i} < PBUF_POOL_COUNT"
    by (simp add: PBUF_POOL_COUNT_def)
  then show ?thesis using alloc_contract [OF pool_reach.boot, of 60] by (auto simp: wire_defs)
qed

end
