(* ===== verification/Net_Checksum.thy ===== *)
theory Net_Checksum
  imports Kernel_Prelude
begin

text \<open>
  \<^verbatim>\<open>kernel/net/net_endian.h\<close> and \<^verbatim>\<open>kernel/net/checksum.h\<close>: byte-order conversion and the
  Internet checksum of RFC 1071. The C code adds big-endian 16-bit words into a 32-bit
  accumulator and folds the carries back at the end; the lemmas compare it with the exact
  sum of the words, taken modulo 65535, and derive that a receiver that sums a message
  whose checksum field was filled in this way gets zero.
\<close>

section \<open>Byte order\<close>

definition net_htons :: "u16 \<Rightarrow> u16" where
  "net_htons x = ucast (push_bit 8 (ucast x :: u32) OR drop_bit 8 (ucast x :: u32))"

definition net_ntohs :: "u16 \<Rightarrow> u16" where
  "net_ntohs x = net_htons x"

definition net_htonl :: "u32 \<Rightarrow> u32" where
  "net_htonl x = push_bit 24 (x AND 0x000000FF) OR push_bit 8 (x AND 0x0000FF00)
     OR drop_bit 8 (x AND 0x00FF0000) OR drop_bit 24 (x AND 0xFF000000)"

definition net_ntohl :: "u32 \<Rightarrow> u32" where
  "net_ntohl x = net_htonl x"

lemma net_ntohs_htons [simp]: "net_ntohs (net_htons x) = x"
  unfolding net_ntohs_def net_htons_def
  by (rule u16_eqI_bytes) (auto simp: bit_simps dest: u16_bit_bound)

lemma net_ntohl_htonl [simp]: "net_ntohl (net_htonl x) = x"
  unfolding net_ntohl_def net_htonl_def u32_masks
  by (rule u32_eqI_bytes) (simp_all add: bit_simps)

lemma net_htons_ntohs [simp]: "net_htons (net_ntohs x) = x"
  by (metis net_ntohs_def net_ntohs_htons)

lemma net_htonl_ntohl [simp]: "net_htonl (net_ntohl x) = x"
  by (metis net_ntohl_def net_ntohl_htonl)

lemma net_htons_inject [simp]: "net_htons x = net_htons y \<longleftrightarrow> x = y"
  by (metis net_ntohs_htons)

lemma net_htons_eq_0 [simp]: "net_htons x = 0 \<longleftrightarrow> x = 0"
proof -
  have "net_htons 0 = 0" by (simp add: net_htons_def)
  then show ?thesis using net_htons_inject [of x 0] by simp
qed

lemma net_htonl_inject [simp]: "net_htonl x = net_htonl y \<longleftrightarrow> x = y"
  by (metis net_ntohl_htonl)

text \<open>The bytes of a field stored in network order come most significant first.\<close>

definition be16_bytes :: "u16 \<Rightarrow> bytes" where
  "be16_bytes x = [ucast (drop_bit 8 x), ucast x]"

lemma le16_bytes_htons: "le16_bytes (net_htons x) = be16_bytes x"
  unfolding le16_bytes_def be16_bytes_def net_htons_def
  by (auto intro!: u8_eqI simp: bit_simps dest: u16_bit_bound)

section \<open>The Internet checksum\<close>

function net_checksum_fold_loop :: "u32 \<Rightarrow> u32" where
  "net_checksum_fold_loop acc =
     (if drop_bit 16 acc \<noteq> 0
      then net_checksum_fold_loop ((acc AND 0xFFFF) + drop_bit 16 acc) else acc)"
  by pat_completeness auto

lemma fold_step_unat:
  "unat ((acc AND 0xFFFF) + drop_bit 16 acc) = unat acc mod 65536 + unat acc div 65536"
  for acc :: u32
proof -
  have m: "unat (acc AND 0xFFFF) = unat acc mod 65536"
  proof -
    have "(0xFFFF :: u32) = mask 16" by (simp add: mask_numeral)
    then have "acc AND 0xFFFF = take_bit 16 acc" by (simp add: take_bit_eq_mask)
    then have "unat (acc AND 0xFFFF) = take_bit 16 (unat acc)" by (simp only: unsigned_take_bit_eq)
    then show ?thesis by (simp add: take_bit_eq_mod)
  qed
  have d: "unat (drop_bit 16 acc) = unat acc div 65536"
    by (simp only: unat_drop_bit) simp
  have "unat acc div 65536 < 65536"
    using unat_u32_bound [of acc] by simp
  then show ?thesis
    by (simp only: unat_word_ariths m d) simp
qed

lemma fold_guard: "drop_bit 16 acc \<noteq> 0 \<longleftrightarrow> 65536 \<le> unat acc" for acc :: u32
proof -
  have "drop_bit 16 acc = 0 \<longleftrightarrow> unat (drop_bit 16 acc) = 0"
    by (simp only: unsigned_eq_0_iff)
  also have "\<dots> \<longleftrightarrow> unat acc div 65536 = 0"
    by (simp only: unat_drop_bit) simp
  finally show ?thesis by (auto simp: div_eq_0_iff)
qed

termination net_checksum_fold_loop
proof (relation "measure unat")
  fix acc :: u32
  assume "drop_bit 16 acc \<noteq> 0"
  then have ge: "65536 \<le> unat acc" by (simp only: fold_guard)
  then have "unat acc div 65536 < (unat acc div 65536) * 65536"
    by (simp add: div_greater_zero_iff)
  then have "unat acc mod 65536 + unat acc div 65536 < unat acc"
    using div_mult_mod_eq [of "unat acc" 65536] by linarith
  then show "((acc AND 0xFFFF) + drop_bit 16 acc, acc) \<in> measure unat"
    by (simp only: in_measure fold_step_unat)
qed simp

declare net_checksum_fold_loop.simps [simp del]

definition net_checksum_fold :: "u32 \<Rightarrow> u16" where
  "net_checksum_fold acc = ucast (NOT (net_checksum_fold_loop acc) AND 0xFFFF)"

fun net_checksum_add :: "bytes \<Rightarrow> u32 \<Rightarrow> u32" where
  "net_checksum_add (a # b # rest) acc =
     net_checksum_add rest (acc + (push_bit 8 (ucast a) OR ucast b))"
| "net_checksum_add [a] acc = acc + push_bit 8 (ucast a)"
| "net_checksum_add [] acc = acc"

definition net_checksum :: "bytes \<Rightarrow> u16" where
  "net_checksum data = net_checksum_fold (net_checksum_add data 0)"

section \<open>Reference: the exact ones'-complement sum\<close>

fun word_sum :: "bytes \<Rightarrow> nat" where
  "word_sum (a # b # rest) = unat a * 256 + unat b + word_sum rest"
| "word_sum [a] = unat a * 256"
| "word_sum [] = 0"

definition ones_fold :: "nat \<Rightarrow> nat" where
  "ones_fold n = (if n = 0 then 0 else (n - 1) mod 65535 + 1)"

lemma unat_be_word: "unat (push_bit 8 (ucast a) OR ucast b :: u32) = unat a * 256 + unat b"
  for a b :: u8
proof -
  have "push_bit 8 (ucast a :: u32) AND ucast b = 0"
    by (rule bit_word_eqI) (auto simp: bit_simps dest: u8_bit_bound)
  then have "(push_bit 8 (ucast a) OR ucast b :: u32) = push_bit 8 (ucast a) + ucast b"
    by (simp add: disjunctive_add_eq_or)
  moreover have "unat (push_bit 8 (ucast a) :: u32) = unat a * 256"
    using unat_u8_bound [of a]
    by (simp only: unsigned_push_bit_eq unat_ucast_u8_u32) (simp add: push_bit_eq_mult take_bit_eq_mod)
  moreover have "unat (ucast b :: u32) = unat b"
    using unat_u8_bound [of b] by (simp add: unsigned_ucast_eq take_bit_eq_mod)
  ultimately show ?thesis
    using unat_u8_bound [of a] unat_u8_bound [of b] by (simp add: unat_word_ariths)
qed

lemma unat_net_checksum_add:
  "unat (net_checksum_add bs s) = (unat s + word_sum bs) mod 2 ^ 32"
proof (induction bs s rule: net_checksum_add.induct)
  case (1 a b rest acc)
  have "unat (acc + (push_bit 8 (ucast a) OR ucast b)) = (unat acc + (unat a * 256 + unat b)) mod 2 ^ 32"
    by (simp only: unat_word_ariths unat_be_word) simp
  then show ?case
    by (simp only: net_checksum_add.simps 1 word_sum.simps mod_add_left_eq add.assoc)
next
  case (2 a acc)
  have "unat (push_bit 8 (ucast a) :: u32) = unat a * 256"
    using unat_be_word [of a 0] by simp
  then show ?case by (simp only: net_checksum_add.simps word_sum.simps unat_word_ariths) simp
next
  case (3 acc)
  then show ?case using unat_u32_bound [of acc] by simp
qed

lemma word_sum_bound: "word_sum bs \<le> 65535 * ((length bs + 1) div 2)"
proof (induction bs rule: word_sum.induct)
  case (1 a b rest)
  have "unat a \<le> 255" "unat b \<le> 255"
    using unat_u8_bound [of a] unat_u8_bound [of b] by linarith+
  then have "unat a * 256 + unat b \<le> 65535" by linarith
  moreover have "(length (a # b # rest) + 1) div 2 = (length rest + 1) div 2 + 1" by simp
  ultimately show ?case using 1 by (simp del: length_Cons)
next
  case (2 a)
  have "unat a \<le> 255" using unat_u8_bound [of a] by linarith
  then show ?case by simp
qed simp

lemma word_sum_append: "even (length xs) \<Longrightarrow> word_sum (xs @ ys) = word_sum xs + word_sum ys"
  by (induction xs rule: word_sum.induct) auto

lemma ones_fold_bound: "ones_fold n \<le> 65535"
  using mod_less_divisor [of 65535 "n - 1"] by (auto simp: ones_fold_def Suc_le_eq)

lemma ones_fold_small: "n < 65536 \<Longrightarrow> ones_fold n = n"
  by (auto simp: ones_fold_def)

lemma ones_fold_step: "ones_fold (n mod 65536 + n div 65536) = ones_fold n"
proof (cases "n = 0")
  case False
  define q r where "q = n div 65536" and "r = n mod 65536"
  have n: "n = q * 65536 + r" by (simp add: q_def r_def)
  have pos: "r + q \<noteq> 0" using False n by auto
  have "n - 1 = (r + q - 1) + q * 65535"
    using n pos by (simp add: algebra_simps)
  then have "(n - 1) mod 65535 = (r + q - 1) mod 65535" by simp
  then show ?thesis using pos False by (simp add: ones_fold_def q_def r_def)
qed (simp add: ones_fold_def)

lemma unat_fold_loop: "unat (net_checksum_fold_loop s) = ones_fold (unat s)"
proof (induction s rule: net_checksum_fold_loop.induct)
  case (1 acc)
  show ?case
  proof (cases "drop_bit 16 acc \<noteq> 0")
    case True
    then have "unat (net_checksum_fold_loop acc)
        = ones_fold (unat ((acc AND 0xFFFF) + drop_bit 16 acc))"
      using 1 by (simp add: net_checksum_fold_loop.simps [of acc])
    then show ?thesis by (simp only: fold_step_unat ones_fold_step)
  next
    case False
    then have "unat acc < 65536" by (simp only: fold_guard not_le not_not)
    with False show ?thesis
      by (simp add: net_checksum_fold_loop.simps [of acc] ones_fold_small)
  qed
qed

lemma unat_net_checksum_fold: "unat (net_checksum_fold s) = 65535 - ones_fold (unat s)"
proof -
  let ?f = "net_checksum_fold_loop s"
  have lt: "unat ?f < 2 ^ 16" using ones_fold_bound [of "unat s"] by (simp add: unat_fold_loop)
  have hi: "\<not> bit ?f n" if "16 \<le> n" for n
  proof -
    have "unat ?f < 2 ^ n"
      by (rule less_le_trans [OF lt]) (rule power_increasing [OF that], simp)
    then have "\<not> bit (unat ?f) n" by (simp add: bit_iff_odd)
    then show ?thesis by (simp add: bit_unsigned_iff)
  qed
  then have lo: "n < 16" if "bit ?f n" for n using that not_le by blast
  have m: "(0xFFFF :: u32) = mask 16" by (simp add: mask_numeral)
  have "NOT ?f AND 0xFFFF = 0xFFFF - ?f"
  proof -
    have "(NOT ?f AND mask 16) AND ?f = 0"
      by (rule bit_word_eqI) (auto simp: bit_simps)
    then have "(NOT ?f AND mask 16) + ?f = (NOT ?f AND mask 16) OR ?f"
      by (simp add: disjunctive_add_eq_or)
    also have "\<dots> = mask 16"
      by (rule bit_word_eqI) (use lo in \<open>auto simp: bit_simps\<close>)
    finally show ?thesis unfolding m by (simp add: eq_diff_eq)
  qed
  moreover have "unat (0xFFFF - ?f) = 65535 - unat ?f"
    using lt by (subst unat_sub) (simp_all add: word_le_nat_alt)
  ultimately show ?thesis
    unfolding net_checksum_fold_def
    by (subst unat_ucast_eq) (simp_all add: unat_fold_loop)
qed

lemma unat_net_checksum:
  "length bs \<le> 65536 \<Longrightarrow> unat (net_checksum bs) = 65535 - ones_fold (word_sum bs)"
proof -
  assume l: "length bs \<le> 65536"
  have "65535 * ((length bs + 1) div 2) \<le> 65535 * 32768" using l by auto
  with word_sum_bound [of bs] have "word_sum bs < 2 ^ 32" by simp
  then show ?thesis
    by (simp add: net_checksum_def unat_net_checksum_fold unat_net_checksum_add)
qed

lemma ones_fold_complement: "ones_fold (n + (65535 - ones_fold n)) = 65535"
proof (cases "n = 0")
  case False
  define q r where "q = (n - 1) div 65535" and "r = (n - 1) mod 65535"
  have n: "n = q * 65535 + r + 1" and r: "r < 65535"
    using False by (simp_all add: q_def r_def)
  have "ones_fold n = r + 1" using False by (simp add: ones_fold_def r_def)
  then have "n + (65535 - ones_fold n) = Suc q * 65535" using n r by simp
  then show ?thesis
    by (simp add: ones_fold_def mod_Suc)
qed (simp add: ones_fold_def)

lemma ones_fold_add_65535: "ones_fold n = 65535 \<Longrightarrow> ones_fold (n + 65535) = 65535"
  by (cases n) (simp_all add: ones_fold_def)

lemma word_sum_be16 [simp]: "word_sum (be16_bytes c) = unat c"
proof -
  have "unat (ucast (drop_bit 8 c) :: u8) = unat c div 256"
    using unat_u16_bound [of c] by (subst unat_ucast_eq) (simp_all add: unat_drop_bit)
  moreover have "unat (ucast c :: u8) = unat c mod 256"
    by (simp add: unsigned_ucast_eq take_bit_eq_mod)
  ultimately show ?thesis by (simp add: be16_bytes_def)
qed

lemma length_be16_bytes [simp]: "length (be16_bytes c) = 2"
  by (simp add: be16_bytes_def)

lemma net_checksum_add_append:
  "even (length xs) \<Longrightarrow> net_checksum_add (xs @ ys) s = net_checksum_add ys (net_checksum_add xs s)"
  by (induction xs s rule: net_checksum_add.induct) auto

lemma word_sum_field:
  assumes "even (length pre)"
  shows "word_sum (pre @ be16_bytes c @ post) = word_sum (pre @ [0, 0] @ post) + unat c"
  using assms by (simp add: word_sum_append)

text \<open>The receiver's check: a message with the checksum in its field sums to zero.\<close>

lemma net_checksum_verify:
  assumes "even (length pre)" and "length pre + length post \<le> 65534"
  shows "net_checksum (pre @ be16_bytes (net_checksum (pre @ [0, 0] @ post)) @ post) = 0"
proof -
  let ?c = "net_checksum (pre @ [0, 0] @ post)"
  have c: "unat ?c = 65535 - ones_fold (word_sum (pre @ [0, 0] @ post))"
    using assms(2) by (intro unat_net_checksum) simp
  have "unat (net_checksum (pre @ be16_bytes ?c @ post))
      = 65535 - ones_fold (word_sum (pre @ be16_bytes ?c @ post))"
    using assms(2) by (intro unat_net_checksum) simp
  also have "word_sum (pre @ be16_bytes ?c @ post) = word_sum (pre @ [0, 0] @ post) + unat ?c"
    by (rule word_sum_field [OF assms(1)])
  also have "ones_fold \<dots> = 65535" unfolding c by (rule ones_fold_complement)
  finally have "unat (net_checksum (pre @ be16_bytes ?c @ post)) = 0" by simp
  then show ?thesis by (simp only: unsigned_eq_0_iff)
qed

text \<open>
  UDP and TCP never store a zero checksum: zero is sent as all ones, which is the same
  residue, so the receiver's check still gives zero.
\<close>

definition nonzero_checksum :: "u16 \<Rightarrow> u16" where
  "nonzero_checksum c = (if c \<noteq> 0 then c else 0xFFFF)"

lemma net_checksum_verify_nonzero:
  assumes "even (length pre)" and "length pre + length post \<le> 65534"
  shows "net_checksum
    (pre @ be16_bytes (nonzero_checksum (net_checksum (pre @ [0, 0] @ post))) @ post) = 0"
proof (cases "net_checksum (pre @ [0, 0] @ post) = 0")
  case False
  then show ?thesis using net_checksum_verify [OF assms] by (simp add: nonzero_checksum_def)
next
  case True
  let ?s = "word_sum (pre @ [0, 0] @ post)"
  have "unat (net_checksum (pre @ [0, 0] @ post)) = 65535 - ones_fold ?s"
    using assms(2) by (intro unat_net_checksum) simp
  with True have "ones_fold ?s = 65535" using ones_fold_bound [of ?s] by simp
  then have "ones_fold (word_sum (pre @ be16_bytes 0xFFFF @ post)) = 65535"
    by (simp only: word_sum_field [OF assms(1)]) (simp add: ones_fold_add_65535)
  moreover have "unat (net_checksum (pre @ be16_bytes 0xFFFF @ post))
      = 65535 - ones_fold (word_sum (pre @ be16_bytes 0xFFFF @ post))"
    using assms(2) by (intro unat_net_checksum) simp
  ultimately have "unat (net_checksum (pre @ be16_bytes 0xFFFF @ post)) = 0" by simp
  then show ?thesis using True by (simp only: unsigned_eq_0_iff nonzero_checksum_def) simp
qed

section \<open>Properties\<close>

text \<open>
  C26. The 32-bit accumulator and its carry folding compute exactly the ones'-complement of
  the ones'-complement sum of the big-endian words, for every buffer of up to 65536 bytes,
  of odd or even length: no carry is lost to the wrap-around of the accumulator.
\<close>

theorem net_checksum_exact:
  assumes "length bs \<le> 65536"
  shows "unat (net_checksum bs) + ones_fold (word_sum bs) = 65535"
  using unat_net_checksum [OF assms] ones_fold_bound [of "word_sum bs"] by simp

theorem net_checksum_exact_witness:
  "unat (net_checksum [0xFF, 0xFF, 0x00, 0x02, 0x80]) + ones_fold (word_sum [0xFF, 0xFF, 0x00, 0x02, 0x80])
     = 65535 \<and> ones_fold (word_sum [0xFF, 0xFF, 0x00, 0x02, 0x80]) = 0x8002"
  using net_checksum_exact [of "[0xFF, 0xFF, 0x00, 0x02, 0x80]"] by (simp add: ones_fold_def)

text \<open>
  The receiver's check: storing the checksum of a message (computed with the field
  zeroed) in network order at any even offset makes the message sum to zero.
\<close>

theorem net_checksum_receiver:
  assumes "even (length pre)" and "length pre + length post \<le> 65534"
  shows "net_checksum (pre @ le16_bytes (net_htons (net_checksum (pre @ [0, 0] @ post))) @ post) = 0"
  using net_checksum_verify [OF assms] by (simp add: le16_bytes_htons)

theorem net_checksum_receiver_witness:
  "net_checksum ([0x45, 0] @ le16_bytes (net_htons (net_checksum ([0x45, 0] @ [0, 0] @ [1, 2, 3])))
     @ [1, 2, 3]) = 0"
  by (rule net_checksum_receiver) simp_all

end
