(* ===== verification/Arp.thy ===== *)
theory Arp
  imports Net_Checksum Pbuf
begin

text \<open>
  \<^verbatim>\<open>kernel/net/arp.h\<close>: the neighbour cache and the ARP packet builder and parser. The
  stateful side of ARP (\<^verbatim>\<open>arp.c\<close>) needs the output path and is in \<open>Net_Output\<close> and
  \<open>Net_Input\<close>.

  The cache is an array of eight entries searched from the front; a new address takes the
  slot of the same address, else the first invalid slot, else slot 0.
\<close>

section \<open>The neighbour cache\<close>

definition ARP_CACHE_SIZE :: nat where "ARP_CACHE_SIZE = 8"

record arp_cache_entry =
  ae_ip :: u32
  ae_mac :: bytes
  ae_valid :: u8

type_synonym arp_cache = "arp_cache_entry list"

definition arp_cache_init :: "arp_cache \<Rightarrow> arp_cache" where
  "arp_cache_init c = map (\<lambda>e. e\<lparr>ae_valid := 0\<rparr>) c"

definition arp_match :: "u32 \<Rightarrow> arp_cache_entry \<Rightarrow> bool" where
  "arp_match ip e \<longleftrightarrow> ae_valid e \<noteq> 0 \<and> ae_ip e = ip"

definition arp_cache_lookup :: "arp_cache \<Rightarrow> u32 \<Rightarrow> bytes option" where
  "arp_cache_lookup c ip = map_option (\<lambda>e. take ETH_ADDR_LEN (ae_mac e)) (find (arp_match ip) c)"

text \<open>The search loop of \<^verbatim>\<open>arp_cache_insert\<close>: index \<open>i\<close>, candidate \<open>slot\<close>.\<close>

fun arp_find_slot :: "arp_cache \<Rightarrow> u32 \<Rightarrow> nat \<Rightarrow> nat \<Rightarrow> nat" where
  "arp_find_slot [] ip i slot = slot"
| "arp_find_slot (e # es) ip i slot =
     (if ae_valid e \<noteq> 0 \<and> ae_ip e = ip then i
      else arp_find_slot es ip (Suc i)
             (if ae_valid e = 0 \<and> slot = ARP_CACHE_SIZE then i else slot))"

definition arp_cache_insert :: "arp_cache \<Rightarrow> u32 \<Rightarrow> bytes \<Rightarrow> arp_cache" where
  "arp_cache_insert c ip mac =
     (let s = arp_find_slot c ip 0 ARP_CACHE_SIZE;
          slot = (if s = ARP_CACHE_SIZE then 0 else s)
      in c[slot := \<lparr>ae_ip = ip, ae_mac = take ETH_ADDR_LEN mac, ae_valid = 1\<rparr>])"

subsection \<open>Its invariant: one valid entry per address\<close>

definition arp_inv :: "arp_cache \<Rightarrow> bool" where
  "arp_inv c \<longleftrightarrow>
     length c = ARP_CACHE_SIZE \<and>
     (\<forall>i < length c. ae_valid (c ! i) \<noteq> 0 \<longrightarrow> length (ae_mac (c ! i)) = ETH_ADDR_LEN) \<and>
     (\<forall>i < length c. \<forall>j < length c. ae_valid (c ! i) \<noteq> 0 \<longrightarrow> ae_valid (c ! j) \<noteq> 0 \<longrightarrow>
        ae_ip (c ! i) = ae_ip (c ! j) \<longrightarrow> i = j)"

definition arp_full :: "arp_cache \<Rightarrow> bool" where
  "arp_full c \<longleftrightarrow> (\<forall>e \<in> set c. ae_valid e \<noteq> 0)"

lemma arp_find_slot_match:
  assumes "k < length c" "arp_match ip (c ! k)" "\<forall>j < k. \<not> arp_match ip (c ! j)"
  shows "arp_find_slot c ip i slot = i + k"
  using assms
proof (induction c arbitrary: i slot k)
  case (Cons e es)
  show ?case
  proof (cases k)
    case 0
    then show ?thesis using Cons.prems by (simp add: arp_match_def)
  next
    case (Suc m)
    have "\<not> arp_match ip e" using Cons.prems(3) Suc by (metis nth_Cons_0 zero_less_Suc)
    moreover have "\<forall>j < m. \<not> arp_match ip (es ! j)"
      using Cons.prems(3) Suc by (metis Suc_mono nth_Cons_Suc)
    ultimately show ?thesis using Cons Suc by (auto simp: arp_match_def)
  qed
qed simp

lemma arp_find_slot_keep:
  assumes "\<forall>e \<in> set c. \<not> arp_match ip e" and "slot \<noteq> ARP_CACHE_SIZE"
  shows "arp_find_slot c ip i slot = slot"
  using assms by (induction c arbitrary: i) (auto simp: arp_match_def)

lemma arp_find_slot_new:
  assumes "\<forall>e \<in> set c. \<not> arp_match ip e" and "i + length c \<le> ARP_CACHE_SIZE"
  shows "(arp_full c \<and> arp_find_slot c ip i ARP_CACHE_SIZE = ARP_CACHE_SIZE) \<or>
         (\<exists>k < length c. ae_valid (c ! k) = 0 \<and> arp_find_slot c ip i ARP_CACHE_SIZE = i + k)"
  using assms
proof (induction c arbitrary: i)
  case (Cons e es)
  show ?case
  proof (cases "ae_valid e = 0")
    case True
    have "arp_find_slot es ip (Suc i) i = i"
      using Cons.prems by (intro arp_find_slot_keep) auto
    with True Cons.prems(2) show ?thesis by (intro disjI2 exI [of _ 0]) simp
  next
    case False
    have "\<not> arp_match ip e" using Cons.prems(1) by simp
    with False have eq: "arp_find_slot (e # es) ip i ARP_CACHE_SIZE
        = arp_find_slot es ip (Suc i) ARP_CACHE_SIZE"
      by (simp add: arp_match_def)
    from Cons.IH [of "Suc i"] Cons.prems consider
        "arp_full es" "arp_find_slot es ip (Suc i) ARP_CACHE_SIZE = ARP_CACHE_SIZE"
      | k where "k < length es" "ae_valid (es ! k) = 0"
          "arp_find_slot es ip (Suc i) ARP_CACHE_SIZE = Suc i + k"
      by auto
    then show ?thesis
    proof cases
      case 1
      then show ?thesis using False eq by (simp add: arp_full_def)
    next
      case (2 k)
      then show ?thesis using eq by (intro disjI2 exI [of _ "Suc k"]) simp
    qed
  qed
qed (simp add: arp_full_def)

text \<open>Where an insertion goes, in the three cases of the code.\<close>

lemma arp_insert_slot:
  assumes len: "length c = ARP_CACHE_SIZE"
  obtains (update) k where "k < ARP_CACHE_SIZE" "arp_match ip (c ! k)"
      "\<forall>j < k. \<not> arp_match ip (c ! j)"
      "arp_cache_insert c ip mac = c[k := \<lparr>ae_ip = ip, ae_mac = take ETH_ADDR_LEN mac, ae_valid = 1\<rparr>]"
  | (fresh) k where "k < ARP_CACHE_SIZE" "ae_valid (c ! k) = 0" "\<forall>e \<in> set c. \<not> arp_match ip e"
      "arp_cache_insert c ip mac = c[k := \<lparr>ae_ip = ip, ae_mac = take ETH_ADDR_LEN mac, ae_valid = 1\<rparr>]"
  | (evict) "arp_full c" "\<forall>e \<in> set c. \<not> arp_match ip e"
      "arp_cache_insert c ip mac = c[0 := \<lparr>ae_ip = ip, ae_mac = take ETH_ADDR_LEN mac, ae_valid = 1\<rparr>]"
proof (cases "\<exists>k < length c. arp_match ip (c ! k)")
  case True
  define k where "k = (LEAST k. k < length c \<and> arp_match ip (c ! k))"
  have k: "k < length c \<and> arp_match ip (c ! k)"
    unfolding k_def using True by (rule LeastI_ex)
  have least: "\<forall>j < k. \<not> arp_match ip (c ! j)"
    using k not_less_Least [of _ "\<lambda>k. k < length c \<and> arp_match ip (c ! k)"]
    unfolding k_def by (meson less_trans)
  have "arp_find_slot c ip 0 ARP_CACHE_SIZE = k"
    using arp_find_slot_match [of k c ip 0] k least by simp
  with k least len show ?thesis
    by (intro update [of k]) (simp_all add: arp_cache_insert_def Let_def)
next
  case False
  then have none: "\<forall>e \<in> set c. \<not> arp_match ip e" by (auto simp: in_set_conv_nth)
  from arp_find_slot_new [OF none, of 0] len consider
      "arp_full c" "arp_find_slot c ip 0 ARP_CACHE_SIZE = ARP_CACHE_SIZE"
    | k where "k < length c" "ae_valid (c ! k) = 0" "arp_find_slot c ip 0 ARP_CACHE_SIZE = k"
    by auto
  then show ?thesis
  proof cases
    case 1
    with none show ?thesis by (intro evict) (simp_all add: arp_cache_insert_def Let_def)
  next
    case (2 k)
    with none len show ?thesis by (intro fresh [of k]) (simp_all add: arp_cache_insert_def Let_def)
  qed
qed

lemma arp_lookup_None: "arp_cache_lookup c ip = None \<longleftrightarrow> (\<forall>e \<in> set c. \<not> arp_match ip e)"
  by (auto simp: arp_cache_lookup_def find_None_iff)

lemma arp_lookup_nth:
  assumes inv: "arp_inv c" and k: "k < length c" "arp_match ip (c ! k)"
  shows "arp_cache_lookup c ip = Some (ae_mac (c ! k))"
proof -
  have "find (arp_match ip) c \<noteq> None" using k by (meson find_None_iff nth_mem)
  then obtain e where e: "find (arp_match ip) c = Some e" by auto
  then obtain j where j: "j < length c" "arp_match ip (c ! j)" "e = c ! j"
    by (auto simp: find_Some_iff)
  have "j = k" using inv j(1,2) k by (auto simp: arp_inv_def arp_match_def)
  then show ?thesis
    using e j inv k by (auto simp: arp_cache_lookup_def arp_inv_def arp_match_def)
qed

lemma arp_insert_nth:
  assumes len: "length c = ARP_CACHE_SIZE" and mac: "length mac = ETH_ADDR_LEN"
  obtains k where "k < ARP_CACHE_SIZE"
    "arp_cache_insert c ip mac = c[k := \<lparr>ae_ip = ip, ae_mac = mac, ae_valid = 1\<rparr>]"
    "arp_match ip (c ! k) \<or> (\<forall>e \<in> set c. \<not> arp_match ip e)"
    "ae_valid (c ! k) = 0 \<or> arp_match ip (c ! k) \<or> arp_full c \<and> k = 0"
proof (rule arp_insert_slot [OF len, of ip mac], goal_cases)
  case (1 k)
  then show ?thesis using mac by (intro that [of k]) auto
next
  case (2 k)
  then show ?thesis using mac by (intro that [of k]) auto
next
  case 3
  then show ?thesis using mac by (intro that [of 0]) (auto simp: ARP_CACHE_SIZE_def)
qed

lemma arp_insert_inv:
  assumes inv: "arp_inv c" and mac: "length mac = ETH_ADDR_LEN"
  shows "arp_inv (arp_cache_insert c ip mac)"
proof -
  have len: "length c = ARP_CACHE_SIZE" using inv by (simp add: arp_inv_def)
  obtain k where k: "k < ARP_CACHE_SIZE"
      "arp_cache_insert c ip mac = c[k := \<lparr>ae_ip = ip, ae_mac = mac, ae_valid = 1\<rparr>]"
      "arp_match ip (c ! k) \<or> (\<forall>e \<in> set c. \<not> arp_match ip e)"
    using arp_insert_nth [OF len mac] by metis
  have other: "\<not> arp_match ip (c ! j)" if "j < length c" "j \<noteq> k" for j
    using inv k(1,3) len that by (auto simp: arp_inv_def arp_match_def)
  define c' where "c' = c[k := \<lparr>ae_ip = ip, ae_mac = mac, ae_valid = 1\<rparr>]"
  have nth': "c' ! j = (if j = k then \<lparr>ae_ip = ip, ae_mac = mac, ae_valid = 1\<rparr> else c ! j)" for j
    using k(1) len by (simp add: c'_def)
  have "i = j" if ij: "i < length c" "j < length c" "ae_valid (c' ! i) \<noteq> 0" "ae_valid (c' ! j) \<noteq> 0"
      "ae_ip (c' ! i) = ae_ip (c' ! j)" for i j
  proof (cases "i = k \<or> j = k")
    case True
    then show ?thesis using other [of i] other [of j] ij
      by (auto simp: nth' arp_match_def split: if_splits)
  next
    case False
    then show ?thesis using inv ij by (simp add: nth' arp_inv_def)
  qed
  moreover have "length (ae_mac (c' ! i)) = ETH_ADDR_LEN"
    if "i < length c" "ae_valid (c' ! i) \<noteq> 0" for i
    using inv mac that by (auto simp: nth' arp_inv_def split: if_splits)
  ultimately show ?thesis
    unfolding arp_inv_def k(2) c'_def [symmetric] using len by (simp add: c'_def)
qed

lemma arp_inv_init: "length c = ARP_CACHE_SIZE \<Longrightarrow> arp_inv (arp_cache_init c)"
  by (simp add: arp_inv_def arp_cache_init_def)

lemma arp_lookup_insert_same:
  assumes inv: "arp_inv c" and mac: "length mac = ETH_ADDR_LEN"
  shows "arp_cache_lookup (arp_cache_insert c ip mac) ip = Some mac"
proof -
  have len: "length c = ARP_CACHE_SIZE" using inv by (simp add: arp_inv_def)
  obtain k where k: "k < ARP_CACHE_SIZE"
      "arp_cache_insert c ip mac = c[k := \<lparr>ae_ip = ip, ae_mac = mac, ae_valid = 1\<rparr>]"
    using arp_insert_nth [OF len mac] by metis
  have "arp_inv (arp_cache_insert c ip mac)" using inv mac by (rule arp_insert_inv)
  from arp_lookup_nth [OF this, of k ip] show ?thesis
    using k len by (simp add: arp_match_def)
qed

lemma arp_lookup_insert_other:
  assumes inv: "arp_inv c" and mac: "length mac = ETH_ADDR_LEN" and ne: "ip' \<noteq> ip"
  shows "arp_cache_lookup (arp_cache_insert c ip mac) ip' = arp_cache_lookup c ip' \<or>
    arp_full c \<and> arp_cache_lookup c ip = None \<and> ae_ip (c ! 0) = ip' \<and>
      arp_cache_lookup (arp_cache_insert c ip mac) ip' = None"
proof -
  have len: "length c = ARP_CACHE_SIZE" using inv by (simp add: arp_inv_def)
  obtain k where k: "k < ARP_CACHE_SIZE"
      "arp_cache_insert c ip mac = c[k := \<lparr>ae_ip = ip, ae_mac = mac, ae_valid = 1\<rparr>]"
      "arp_match ip (c ! k) \<or> (\<forall>e \<in> set c. \<not> arp_match ip e)"
      "ae_valid (c ! k) = 0 \<or> arp_match ip (c ! k) \<or> arp_full c \<and> k = 0"
    using arp_insert_nth [OF len mac] by metis
  let ?c' = "arp_cache_insert c ip mac"
  have inv': "arp_inv ?c'" using inv mac by (rule arp_insert_inv)
  have nth': "?c' ! j = c ! j" if "j \<noteq> k" for j using that k(2) by simp
  have len': "length ?c' = length c" using k(2) by simp
  have nk: "\<not> arp_match ip' (?c' ! k)" using k(1,2) len ne by (simp add: arp_match_def)
  show ?thesis
  proof (cases "\<exists>j < length c. j \<noteq> k \<and> arp_match ip' (c ! j)")
    case True
    then obtain j where j: "j < length c" "j \<noteq> k" "arp_match ip' (c ! j)" by auto
    then have "arp_cache_lookup c ip' = Some (ae_mac (c ! j))"
      using arp_lookup_nth [OF inv] by simp
    moreover have "arp_cache_lookup ?c' ip' = Some (ae_mac (c ! j))"
      using arp_lookup_nth [OF inv', of j ip'] j nth' len' by simp
    ultimately show ?thesis by simp
  next
    case False
    then have gone: "arp_cache_lookup ?c' ip' = None"
      using nk nth' len' by (auto simp: arp_lookup_None in_set_conv_nth) (metis nk nth')
    show ?thesis
    proof (cases "arp_match ip' (c ! k)")
      case True
      then have "ae_valid (c ! k) \<noteq> 0" "\<not> arp_match ip (c ! k)"
        using ne by (auto simp: arp_match_def)
      then have "arp_full c" "k = 0" "arp_cache_lookup c ip = None"
        using k(3,4) by (auto simp: arp_lookup_None)
      then show ?thesis using gone True by (auto simp: arp_match_def)
    next
      case nm: False
      have "\<not> arp_match ip' (c ! j)" if "j < length c" for j
        using False nm that by (cases "j = k") auto
      then have "arp_cache_lookup c ip' = None"
        by (auto simp: arp_lookup_None in_set_conv_nth)
      then show ?thesis using gone by simp
    qed
  qed
qed

lemma arp_lookup_length: "arp_inv c \<Longrightarrow> arp_cache_lookup c ip = Some mac \<Longrightarrow> length mac = ETH_ADDR_LEN"
  by (auto simp: arp_cache_lookup_def arp_inv_def arp_match_def find_Some_iff split: option.splits)

subsection \<open>The contract of a bounded address cache\<close>

text \<open>
  What the resolver relies on: a learnt address is found until it is overwritten, and a
  binding that is returned was inserted.
\<close>

locale address_cache =
  fixes inv :: "'c \<Rightarrow> bool"
    and lookup :: "'c \<Rightarrow> 'k \<Rightarrow> 'v option"
    and insert :: "'c \<Rightarrow> 'k \<Rightarrow> 'v \<Rightarrow> 'c"
    and good :: "'v \<Rightarrow> bool"
  assumes insert_inv: "inv c \<Longrightarrow> good v \<Longrightarrow> inv (insert c k v)"
    and lookup_same: "inv c \<Longrightarrow> good v \<Longrightarrow> lookup (insert c k v) k = Some v"
    and lookup_other: "inv c \<Longrightarrow> good v \<Longrightarrow> k' \<noteq> k \<Longrightarrow>
      lookup (insert c k v) k' = lookup c k' \<or> lookup (insert c k v) k' = None"
begin

text \<open>The cache after a sequence of learnt bindings.\<close>

definition learn :: "'c \<Rightarrow> ('k \<times> 'v) list \<Rightarrow> 'c" where
  "learn c kvs = foldl (\<lambda>c (k, v). insert c k v) c kvs"

lemma learn_inv: "inv c \<Longrightarrow> \<forall>(k, v) \<in> set kvs. good v \<Longrightarrow> inv (learn c kvs)"
  by (induction kvs arbitrary: c) (auto simp: learn_def insert_inv)

text \<open>A hit is the latest binding learnt for that key, or one the cache started with.\<close>

lemma learn_sound:
  assumes "inv c" "\<forall>(k, v) \<in> set kvs. good v" "lookup (learn c kvs) k = Some v"
  shows "map_of (rev kvs) k = Some v \<or> map_of kvs k = None \<and> lookup c k = Some v"
  using assms
proof (induction kvs arbitrary: v rule: rev_induct)
  case (snoc kv kvs)
  obtain k1 v1 where kv: "kv = (k1, v1)" by (cases kv)
  have i: "inv (learn c kvs)" using snoc.prems by (intro learn_inv) auto
  have g: "good v1" using snoc.prems(2) kv by auto
  have l: "learn c (kvs @ [kv]) = insert (learn c kvs) k1 v1" by (simp add: learn_def kv)
  show ?case
  proof (cases "k = k1")
    case True
    then show ?thesis using snoc.prems(3) lookup_same [OF i g] kv unfolding l by simp
  next
    case False
    then have "lookup (learn c kvs) k = Some v"
      using snoc.prems(3) lookup_other [OF i g False] by (auto simp: l)
    then have "map_of (rev kvs) k = Some v \<or> map_of kvs k = None \<and> lookup c k = Some v"
      using snoc.prems by (intro snoc.IH) auto
    then show ?thesis using False kv by (auto simp: map_add_def)
  qed
qed (simp add: learn_def)

end

interpretation arp: address_cache arp_inv arp_cache_lookup arp_cache_insert
  "\<lambda>mac. length mac = ETH_ADDR_LEN"
proof unfold_locales
  show "arp_inv c \<Longrightarrow> length v = ETH_ADDR_LEN \<Longrightarrow> arp_inv (arp_cache_insert c k v)" for c k v
    by (rule arp_insert_inv)
  show "arp_inv c \<Longrightarrow> length v = ETH_ADDR_LEN \<Longrightarrow>
    arp_cache_lookup (arp_cache_insert c k v) k = Some v" for c k v
    by (rule arp_lookup_insert_same)
  show "arp_inv c \<Longrightarrow> length v = ETH_ADDR_LEN \<Longrightarrow> k' \<noteq> k \<Longrightarrow>
    arp_cache_lookup (arp_cache_insert c k v) k' = arp_cache_lookup c k' \<or>
    arp_cache_lookup (arp_cache_insert c k v) k' = None" for c k v k'
    using arp_lookup_insert_other [of c v k' k] by auto
qed

section \<open>ARP packets\<close>

definition ARP_HW_ETHER :: u16 where [wire_defs]: "ARP_HW_ETHER = 1"
definition ARP_PROTO_IPV4 :: u16 where [wire_defs]: "ARP_PROTO_IPV4 = 0x0800"
definition ARP_OP_REQUEST :: u16 where [wire_defs]: "ARP_OP_REQUEST = 1"
definition ARP_OP_REPLY :: u16 where [wire_defs]: "ARP_OP_REPLY = 2"
definition ARP_PKT_LEN :: nat where [wire_defs]: "ARP_PKT_LEN = 28"

record arp_hdr =
  ah_hw_type :: u16
  ah_proto_type :: u16
  ah_hw_len :: u8
  ah_proto_len :: u8
  ah_op :: u16
  ah_sha :: bytes
  ah_spa :: bytes
  ah_tha :: bytes
  ah_tpa :: bytes

text \<open>The packed struct in memory, and the struct read through a cast pointer.\<close>

definition arp_hdr_bytes :: "arp_hdr \<Rightarrow> bytes" where
  "arp_hdr_bytes h = le16_bytes (ah_hw_type h) @ le16_bytes (ah_proto_type h) @
     [ah_hw_len h, ah_proto_len h] @ le16_bytes (ah_op h) @
     ah_sha h @ ah_spa h @ ah_tha h @ ah_tpa h"

definition arp_hdr_of :: "bytes \<Rightarrow> arp_hdr" where
  "arp_hdr_of b = \<lparr>ah_hw_type = le16_of (mem_get b 0 2), ah_proto_type = le16_of (mem_get b 2 2),
     ah_hw_len = b ! 4, ah_proto_len = b ! 5, ah_op = le16_of (mem_get b 6 2),
     ah_sha = mem_get b 8 6, ah_spa = mem_get b 14 4, ah_tha = mem_get b 18 6,
     ah_tpa = mem_get b 24 4\<rparr>"

lemma arp_hdr_of_bytes:
  assumes "length (ah_sha h) = 6" "length (ah_spa h) = 4" "length (ah_tha h) = 6"
    "length (ah_tpa h) = 4"
  shows "arp_hdr_of (arp_hdr_bytes h @ rest) = h"
  using assms by (simp add: arp_hdr_of_def arp_hdr_bytes_def mem_get_def nth_append)

definition arp_ip_to_bytes :: "u32 \<Rightarrow> bytes" where
  "arp_ip_to_bytes ip =
     [ucast (drop_bit 24 ip AND 0xFF), ucast (drop_bit 16 ip AND 0xFF),
      ucast (drop_bit 8 ip AND 0xFF), ucast (ip AND 0xFF)]"

definition arp_bytes_to_ip :: "bytes \<Rightarrow> u32" where
  "arp_bytes_to_ip b = push_bit 24 (ucast (b ! 0)) OR push_bit 16 (ucast (b ! 1)) OR
     push_bit 8 (ucast (b ! 2)) OR ucast (b ! 3)"

lemma arp_bytes_to_ip_to_bytes [simp]: "arp_bytes_to_ip (arp_ip_to_bytes ip) = ip"
  using le32_of_bytes [of ip]
  by (simp add: arp_bytes_to_ip_def arp_ip_to_bytes_def le32_of_def le32_bytes_def ac_simps)

lemma length_arp_ip_to_bytes [simp]: "length (arp_ip_to_bytes ip) = 4"
  by (simp add: arp_ip_to_bytes_def)

definition arp_build :: "u16 \<Rightarrow> bytes \<Rightarrow> u32 \<Rightarrow> bytes option \<Rightarrow> u32 \<Rightarrow> bytes" where
  "arp_build op sha spa tha tpa = arp_hdr_bytes
     \<lparr>ah_hw_type = net_htons ARP_HW_ETHER, ah_proto_type = net_htons ARP_PROTO_IPV4,
      ah_hw_len = of_nat ETH_ADDR_LEN, ah_proto_len = 4, ah_op = net_htons op,
      ah_sha = take ETH_ADDR_LEN sha, ah_spa = arp_ip_to_bytes spa,
      ah_tha = (case tha of None \<Rightarrow> replicate ETH_ADDR_LEN 0 | Some m \<Rightarrow> take ETH_ADDR_LEN m),
      ah_tpa = arp_ip_to_bytes tpa\<rparr>"

text \<open>\<^verbatim>\<open>arp_parse\<close> with all its output pointers given: the parsed fields, or rejection.\<close>

record arp_fields =
  af_op :: u16
  af_sha :: bytes
  af_spa :: u32
  af_tha :: bytes
  af_tpa :: u32

definition arp_parse :: "bytes \<Rightarrow> nat \<Rightarrow> arp_fields option" where
  "arp_parse pkt len =
     (let h = arp_hdr_of pkt in
      if len < ARP_PKT_LEN then None
      else if net_ntohs (ah_hw_type h) \<noteq> ARP_HW_ETHER then None
      else if net_ntohs (ah_proto_type h) \<noteq> ARP_PROTO_IPV4 then None
      else if ah_hw_len h \<noteq> of_nat ETH_ADDR_LEN \<or> ah_proto_len h \<noteq> 4 then None
      else Some \<lparr>af_op = net_ntohs (ah_op h), af_sha = ah_sha h, af_spa = arp_bytes_to_ip (ah_spa h),
                 af_tha = ah_tha h, af_tpa = arp_bytes_to_ip (ah_tpa h)\<rparr>)"

lemma length_arp_build:
  "length sha = ETH_ADDR_LEN \<Longrightarrow> (\<And>m. tha = Some m \<Longrightarrow> length m = ETH_ADDR_LEN) \<Longrightarrow>
   length (arp_build op sha spa tha tpa) = ARP_PKT_LEN"
  by (cases tha) (auto simp: arp_build_def arp_hdr_bytes_def wire_defs)

lemma arp_parse_build_append:
  assumes "length sha = ETH_ADDR_LEN" "length tha = ETH_ADDR_LEN" "ARP_PKT_LEN \<le> len"
  shows "arp_parse (arp_build op sha spa (Some tha) tpa @ rest) len =
    Some \<lparr>af_op = op, af_sha = sha, af_spa = spa, af_tha = tha, af_tpa = tpa\<rparr>"
  using assms
  by (simp add: arp_parse_def arp_build_def arp_hdr_of_bytes Let_def ETH_ADDR_LEN_def)

lemma arp_parse_lengths:
  "arp_parse pkt len = Some f \<Longrightarrow> ARP_PKT_LEN \<le> length pkt \<Longrightarrow>
   length (af_sha f) = ETH_ADDR_LEN \<and> length (af_tha f) = ETH_ADDR_LEN"
  by (auto simp: arp_parse_def arp_hdr_of_def Let_def wire_defs split: if_splits)

section \<open>Properties\<close>



text \<open>
  Insertion and lookup: the binding just learnt is found; another address keeps its
  binding, except the one in slot 0 when all eight slots are taken by other addresses.
\<close>

theorem arp_insert_lookup:
  assumes "arp_inv c" "length mac = ETH_ADDR_LEN"
  shows "arp_inv (arp_cache_insert c ip mac) \<and>
    arp_cache_lookup (arp_cache_insert c ip mac) ip = Some mac \<and>
    (\<forall>ip'. ip' \<noteq> ip \<longrightarrow>
       arp_cache_lookup (arp_cache_insert c ip mac) ip' = arp_cache_lookup c ip' \<or>
       arp_full c \<and> arp_cache_lookup c ip = None \<and> ae_ip (c ! 0) = ip')"
  using arp_insert_inv [OF assms] arp_lookup_insert_same [OF assms]
    arp_lookup_insert_other [OF assms] by blast

theorem arp_insert_lookup_witness:
  "arp_cache_lookup (arp_cache_insert (arp_cache_init (replicate ARP_CACHE_SIZE
     \<lparr>ae_ip = 0, ae_mac = replicate 6 0, ae_valid = 0\<rparr>)) 0x0A000202 [1, 2, 3, 4, 5, 6]) 0x0A000202
     = Some [1, 2, 3, 4, 5, 6]"
proof -
  let ?c = "arp_cache_init (replicate ARP_CACHE_SIZE \<lparr>ae_ip = 0, ae_mac = replicate 6 0, ae_valid = 0\<rparr>)"
  have "arp_inv ?c" by (rule arp_inv_init) simp
  then show ?thesis using arp_insert_lookup [of ?c "[1, 2, 3, 4, 5, 6]"] by (simp add: wire_defs)
qed

text \<open>
  Round trip of ARP packets: parsing what \<^verbatim>\<open>arp_build\<close> wrote, with anything after it,
  returns the operation and the four addresses; a packet shorter than 28 bytes is rejected.
\<close>

theorem arp_roundtrip:
  assumes "length sha = ETH_ADDR_LEN" "length tha = ETH_ADDR_LEN"
  shows "arp_parse (arp_build op sha spa (Some tha) tpa @ rest) len =
    (if len < ARP_PKT_LEN then None
     else Some \<lparr>af_op = op, af_sha = sha, af_spa = spa, af_tha = tha, af_tpa = tpa\<rparr>)"
proof (cases "len < ARP_PKT_LEN")
  case True
  then show ?thesis by (simp add: arp_parse_def)
next
  case False
  then show ?thesis using arp_parse_build_append [OF assms, of len] by simp
qed

theorem arp_roundtrip_witness:
  "arp_parse (arp_build ARP_OP_REPLY [1, 2, 3, 4, 5, 6] 0x0A00020F (Some [6, 5, 4, 3, 2, 1]) 0x0A000202
     @ replicate 18 0) 46 =
   Some \<lparr>af_op = ARP_OP_REPLY, af_sha = [1, 2, 3, 4, 5, 6], af_spa = 0x0A00020F,
     af_tha = [6, 5, 4, 3, 2, 1], af_tpa = 0x0A000202\<rparr>"
  by (subst arp_roundtrip) (simp_all add: wire_defs)

end
