(* ===== verification/Net_Headers.thy ===== *)
theory Net_Headers
  imports Net_Checksum Pbuf
begin

text \<open>
  The packed protocol headers of \<^verbatim>\<open>kernel/net/\<close>\<open>{ethernet,ipv4,icmp,udp,tcp}\<close>\<^verbatim>\<open>.h\<close> and the
  inline functions on them: each \<^verbatim>\<open>struct\<close> is a record with its layout in memory
  (\<open>*_bytes\<close>, and \<open>*_of\<close> for a read through a cast pointer), each builder a function from
  its arguments to the bytes it stores. The lemmas show that the two are inverse, that a
  built packet passes the receiver's checksum, and that the ICMP transform stays inside
  the datagram.
\<close>

section \<open>Ethernet\<close>

definition ETH_TYPE_ARP :: u16 where [wire_defs]: "ETH_TYPE_ARP = 0x0806"
definition ETH_TYPE_IPV4 :: u16 where [wire_defs]: "ETH_TYPE_IPV4 = 0x0800"

record eth_hdr =
  eh_dst :: bytes
  eh_src :: bytes
  eh_ethertype :: u16

definition eth_hdr_bytes :: "eth_hdr \<Rightarrow> bytes" where
  "eth_hdr_bytes h = eh_dst h @ eh_src h @ le16_bytes (eh_ethertype h)"

definition eth_hdr_of :: "bytes \<Rightarrow> eth_hdr" where
  "eth_hdr_of b = \<lparr>eh_dst = mem_get b 0 6, eh_src = mem_get b 6 6,
     eh_ethertype = le16_of (mem_get b 12 2)\<rparr>"

lemma eth_hdr_of_bytes:
  "length (eh_dst h) = 6 \<Longrightarrow> length (eh_src h) = 6 \<Longrightarrow> eth_hdr_of (eth_hdr_bytes h @ rest) = h"
  by (simp add: eth_hdr_of_def eth_hdr_bytes_def mem_get_def)

section \<open>IPv4\<close>

definition IPV4_HDR_MIN :: nat where [wire_defs]: "IPV4_HDR_MIN = 20"
definition IPV4_PROTO_ICMP :: u8 where [wire_defs]: "IPV4_PROTO_ICMP = 1"
definition IPV4_PROTO_TCP :: u8 where [wire_defs]: "IPV4_PROTO_TCP = 6"
definition IPV4_PROTO_UDP :: u8 where [wire_defs]: "IPV4_PROTO_UDP = 17"
definition IPV4_VERSION_IHL :: u8 where [wire_defs]: "IPV4_VERSION_IHL = 0x45"

record ipv4_hdr =
  ip_ver_ihl :: u8
  ip_tos :: u8
  ip_total_len :: u16
  ip_id :: u16
  ip_frag_off :: u16
  ip_ttl :: u8
  ip_proto :: u8
  ip_checksum :: u16
  ip_src :: u32
  ip_dst :: u32

definition ipv4_hdr_bytes :: "ipv4_hdr \<Rightarrow> bytes" where
  "ipv4_hdr_bytes h = [ip_ver_ihl h, ip_tos h] @ le16_bytes (ip_total_len h) @
     le16_bytes (ip_id h) @ le16_bytes (ip_frag_off h) @ [ip_ttl h, ip_proto h] @
     le16_bytes (ip_checksum h) @ le32_bytes (ip_src h) @ le32_bytes (ip_dst h)"

definition ipv4_hdr_of :: "bytes \<Rightarrow> ipv4_hdr" where
  "ipv4_hdr_of b = \<lparr>ip_ver_ihl = b ! 0, ip_tos = b ! 1, ip_total_len = le16_of (mem_get b 2 2),
     ip_id = le16_of (mem_get b 4 2), ip_frag_off = le16_of (mem_get b 6 2), ip_ttl = b ! 8,
     ip_proto = b ! 9, ip_checksum = le16_of (mem_get b 10 2), ip_src = le32_of (mem_get b 12 4),
     ip_dst = le32_of (mem_get b 16 4)\<rparr>"

lemma ipv4_hdr_of_bytes [simp]: "ipv4_hdr_of (ipv4_hdr_bytes h @ rest) = h"
  by (simp add: ipv4_hdr_of_def ipv4_hdr_bytes_def mem_get_def nth_append)

lemma length_ipv4_hdr_bytes [simp]: "length (ipv4_hdr_bytes h) = 20"
  by (simp add: ipv4_hdr_bytes_def)

definition ipv4_hdr_len :: "ipv4_hdr \<Rightarrow> u32" where
  "ipv4_hdr_len h = ucast (ip_ver_ihl h AND 0x0F) * 4"

text \<open>\<open>ipv4_set_checksum d\<close>: \<open>d\<close> is the memory from the header on.\<close>

definition ipv4_set_checksum :: "bytes \<Rightarrow> bytes" where
  "ipv4_set_checksum d =
     (let d = mem_put d 10 (le16_bytes 0);
          c = net_checksum (mem_get d 0 (unat (ipv4_hdr_len (ipv4_hdr_of d))))
      in mem_put d 10 (le16_bytes (net_htons c)))"

section \<open>ICMP\<close>

definition ICMP_TYPE_ECHO_REPLY :: u8 where [wire_defs]: "ICMP_TYPE_ECHO_REPLY = 0"
definition ICMP_TYPE_ECHO_REQUEST :: u8 where [wire_defs]: "ICMP_TYPE_ECHO_REQUEST = 8"
definition ICMP_HDR_LEN :: nat where [wire_defs]: "ICMP_HDR_LEN = 8"

record icmp_echo_hdr =
  ic_type :: u8
  ic_code :: u8
  ic_checksum :: u16
  ic_id :: u16
  ic_seq :: u16

definition icmp_hdr_bytes :: "icmp_echo_hdr \<Rightarrow> bytes" where
  "icmp_hdr_bytes h = [ic_type h, ic_code h] @ le16_bytes (ic_checksum h) @
     le16_bytes (ic_id h) @ le16_bytes (ic_seq h)"

definition icmp_hdr_of :: "bytes \<Rightarrow> icmp_echo_hdr" where
  "icmp_hdr_of b = \<lparr>ic_type = b ! 0, ic_code = b ! 1, ic_checksum = le16_of (mem_get b 2 2),
     ic_id = le16_of (mem_get b 4 2), ic_seq = le16_of (mem_get b 6 2)\<rparr>"

lemma icmp_hdr_of_bytes [simp]: "icmp_hdr_of (icmp_hdr_bytes h @ rest) = h"
  by (simp add: icmp_hdr_of_def icmp_hdr_bytes_def mem_get_def)

lemma length_icmp_hdr_bytes [simp]: "length (icmp_hdr_bytes h) = 8"
  by (simp add: icmp_hdr_bytes_def)

text \<open>
  The in-place transform of an echo request: \<open>pkt\<close> is the memory the packet starts at,
  \<open>len\<close> the datagram's length. \<open>None\<close> is the return value 0, with nothing written.
\<close>

definition icmp_echo_reply_transform :: "bytes \<Rightarrow> nat \<Rightarrow> bytes option" where
  "icmp_echo_reply_transform pkt len =
     (if len < IPV4_HDR_MIN + ICMP_HDR_LEN then None
      else let ip = ipv4_hdr_of pkt in
      if drop_bit 4 (ip_ver_ihl ip) \<noteq> 4 then None
      else let ihl = unat (ipv4_hdr_len ip) in
      if ihl < IPV4_HDR_MIN \<or> len < ihl + ICMP_HDR_LEN then None
      else if ip_proto ip \<noteq> IPV4_PROTO_ICMP then None
      else let ic = icmp_hdr_of (mem_get pkt ihl ICMP_HDR_LEN) in
      if ic_type ic \<noteq> ICMP_TYPE_ECHO_REQUEST \<or> ic_code ic \<noteq> 0 then None
      else
        let pkt = mem_put pkt 12 (le32_bytes (ip_dst ip));
            pkt = mem_put pkt 16 (le32_bytes (ip_src ip));
            pkt = mem_put pkt 8 [64];
            pkt = ipv4_set_checksum pkt;
            pkt = mem_put pkt ihl [ICMP_TYPE_ECHO_REPLY];
            pkt = mem_put pkt (ihl + 2) (le16_bytes 0);
            icmp_len = len - ihl;
            c = net_checksum (mem_get pkt ihl icmp_len)
        in Some (mem_put pkt (ihl + 2) (le16_bytes (net_htons c))))"

definition icmp_build_echo_request :: "u16 \<Rightarrow> u16 \<Rightarrow> bytes \<Rightarrow> bytes" where
  "icmp_build_echo_request ident seq payload =
     (let h = \<lparr>ic_type = ICMP_TYPE_ECHO_REQUEST, ic_code = 0, ic_checksum = 0,
               ic_id = net_htons ident, ic_seq = net_htons seq\<rparr>;
          c = net_checksum (icmp_hdr_bytes h @ payload)
      in icmp_hdr_bytes (h\<lparr>ic_checksum := net_htons c\<rparr>) @ payload)"

section \<open>UDP\<close>

definition UDP_HDR_LEN :: nat where [wire_defs]: "UDP_HDR_LEN = 8"
definition UDP_ECHO_PORT :: u16 where [wire_defs]: "UDP_ECHO_PORT = 7"
definition UDP_TEST_PORT :: u16 where [wire_defs]: "UDP_TEST_PORT = 7777"

record udp_hdr =
  uh_src_port :: u16
  uh_dst_port :: u16
  uh_length :: u16
  uh_checksum :: u16

definition udp_hdr_bytes :: "udp_hdr \<Rightarrow> bytes" where
  "udp_hdr_bytes h = le16_bytes (uh_src_port h) @ le16_bytes (uh_dst_port h) @
     le16_bytes (uh_length h) @ le16_bytes (uh_checksum h)"

definition udp_hdr_of :: "bytes \<Rightarrow> udp_hdr" where
  "udp_hdr_of b = \<lparr>uh_src_port = le16_of (mem_get b 0 2), uh_dst_port = le16_of (mem_get b 2 2),
     uh_length = le16_of (mem_get b 4 2), uh_checksum = le16_of (mem_get b 6 2)\<rparr>"

lemma udp_hdr_of_bytes [simp]: "udp_hdr_of (udp_hdr_bytes h @ rest) = h"
  by (simp add: udp_hdr_of_def udp_hdr_bytes_def mem_get_def)

lemma length_udp_hdr_bytes [simp]: "length (udp_hdr_bytes h) = 8"
  by (simp add: udp_hdr_bytes_def)

text \<open>The pseudo-header, shared by UDP and TCP up to the protocol number.\<close>

definition pseudo_hdr :: "u32 \<Rightarrow> u32 \<Rightarrow> u8 \<Rightarrow> u32 \<Rightarrow> bytes" where
  "pseudo_hdr src dst proto len =
     [ucast (drop_bit 24 src AND 0xFF), ucast (drop_bit 16 src AND 0xFF),
      ucast (drop_bit 8 src AND 0xFF), ucast (src AND 0xFF),
      ucast (drop_bit 24 dst AND 0xFF), ucast (drop_bit 16 dst AND 0xFF),
      ucast (drop_bit 8 dst AND 0xFF), ucast (dst AND 0xFF),
      0, proto, ucast (drop_bit 8 len AND 0xFF), ucast (len AND 0xFF)]"

lemma length_pseudo_hdr [simp]: "length (pseudo_hdr s d p l) = 12"
  by (simp add: pseudo_hdr_def)

definition udp_checksum :: "u32 \<Rightarrow> u32 \<Rightarrow> bytes \<Rightarrow> u32 \<Rightarrow> u16" where
  "udp_checksum src dst udp udp_len =
     (let acc = net_checksum_add (pseudo_hdr src dst IPV4_PROTO_UDP udp_len) 0;
          acc = net_checksum_add (mem_get udp 0 (unat udp_len)) acc;
          c = net_checksum_fold acc
      in if c \<noteq> 0 then c else 0xFFFF)"

text \<open>
  The bytes stored at \<open>dst\<close>, and the returned total length, which is computed in 32 bits.
  \<open>payload_len\<close> is the number of payload bytes the caller passes.
\<close>

definition udp_build :: "u16 \<Rightarrow> u16 \<Rightarrow> bytes \<Rightarrow> u32 \<Rightarrow> u32 \<Rightarrow> u32 \<times> bytes" where
  "udp_build src_port dst_port payload src_ip dst_ip =
     (let udp_len = of_nat UDP_HDR_LEN + of_nat (length payload);
          h = \<lparr>uh_src_port = net_htons src_port, uh_dst_port = net_htons dst_port,
               uh_length = net_htons (ucast udp_len), uh_checksum = 0\<rparr>;
          c = udp_checksum src_ip dst_ip (udp_hdr_bytes h @ payload) udp_len
      in (udp_len, udp_hdr_bytes (h\<lparr>uh_checksum := net_htons c\<rparr>) @ payload))"

section \<open>TCP\<close>

definition TCP_HDR_MIN :: nat where [wire_defs]: "TCP_HDR_MIN = 20"

definition TCP_FIN :: u8 where [wire_defs]: "TCP_FIN = 0x01"
definition TCP_SYN :: u8 where [wire_defs]: "TCP_SYN = 0x02"
definition TCP_RST :: u8 where [wire_defs]: "TCP_RST = 0x04"
definition TCP_PSH :: u8 where [wire_defs]: "TCP_PSH = 0x08"
definition TCP_ACK :: u8 where [wire_defs]: "TCP_ACK = 0x10"

record tcp_hdr =
  th_src_port :: u16
  th_dst_port :: u16
  th_seq :: u32
  th_ack :: u32
  th_off_res :: u8
  th_flags :: u8
  th_window :: u16
  th_checksum :: u16
  th_urg :: u16

definition tcp_hdr_bytes :: "tcp_hdr \<Rightarrow> bytes" where
  "tcp_hdr_bytes h = le16_bytes (th_src_port h) @ le16_bytes (th_dst_port h) @
     le32_bytes (th_seq h) @ le32_bytes (th_ack h) @ [th_off_res h, th_flags h] @
     le16_bytes (th_window h) @ le16_bytes (th_checksum h) @ le16_bytes (th_urg h)"

definition tcp_hdr_of :: "bytes \<Rightarrow> tcp_hdr" where
  "tcp_hdr_of b = \<lparr>th_src_port = le16_of (mem_get b 0 2), th_dst_port = le16_of (mem_get b 2 2),
     th_seq = le32_of (mem_get b 4 4), th_ack = le32_of (mem_get b 8 4), th_off_res = b ! 12,
     th_flags = b ! 13, th_window = le16_of (mem_get b 14 2),
     th_checksum = le16_of (mem_get b 16 2), th_urg = le16_of (mem_get b 18 2)\<rparr>"

lemma tcp_hdr_of_bytes [simp]: "tcp_hdr_of (tcp_hdr_bytes h @ rest) = h"
  by (simp add: tcp_hdr_of_def tcp_hdr_bytes_def mem_get_def nth_append)

lemma length_tcp_hdr_bytes [simp]: "length (tcp_hdr_bytes h) = 20"
  by (simp add: tcp_hdr_bytes_def)

definition tcp_hdr_len :: "tcp_hdr \<Rightarrow> u32" where
  "tcp_hdr_len h = ucast (drop_bit 4 (th_off_res h)) * 4"

definition tcp_checksum :: "u32 \<Rightarrow> u32 \<Rightarrow> bytes \<Rightarrow> u32 \<Rightarrow> u16" where
  "tcp_checksum src dst tcp tcp_len =
     (let acc = net_checksum_add (pseudo_hdr src dst IPV4_PROTO_TCP tcp_len) 0;
          acc = net_checksum_add (mem_get tcp 0 (unat tcp_len)) acc;
          c = net_checksum_fold acc
      in if c \<noteq> 0 then c else 0xFFFF)"

definition tcp_build_win ::
  "u16 \<Rightarrow> u16 \<Rightarrow> u32 \<Rightarrow> u32 \<Rightarrow> u8 \<Rightarrow> bytes \<Rightarrow> u32 \<Rightarrow> u32 \<Rightarrow> u16 \<Rightarrow> u32 \<times> bytes" where
  "tcp_build_win sport dport seq ack flags payload src_ip dst_ip window =
     (let tcp_len = of_nat TCP_HDR_MIN + of_nat (length payload);
          h = \<lparr>th_src_port = net_htons sport, th_dst_port = net_htons dport,
               th_seq = net_htonl seq, th_ack = net_htonl ack, th_off_res = push_bit 4 5,
               th_flags = flags, th_window = net_htons window, th_checksum = 0, th_urg = 0\<rparr>;
          c = tcp_checksum src_ip dst_ip (tcp_hdr_bytes h @ payload) tcp_len
      in (tcp_len, tcp_hdr_bytes (h\<lparr>th_checksum := net_htons c\<rparr>) @ payload))"

definition tcp_build ::
  "u16 \<Rightarrow> u16 \<Rightarrow> u32 \<Rightarrow> u32 \<Rightarrow> u8 \<Rightarrow> bytes \<Rightarrow> u32 \<Rightarrow> u32 \<Rightarrow> u32 \<times> bytes" where
  "tcp_build sport dport seq ack flags payload src_ip dst_ip =
     tcp_build_win sport dport seq ack flags payload src_ip dst_ip 8192"

section \<open>Built packets pass the receiver's checks\<close>

lemma le16_bytes_0 [simp]: "le16_bytes 0 = [0, 0]"
  by (simp add: le16_bytes_def)

lemma le16_of_0 [simp]: "le16_of (0 # 0 # bs) = 0"
  by (simp add: le16_of_def)

text \<open>What a receiver computes over pseudo-header and segment.\<close>

definition pseudo_verify :: "u8 \<Rightarrow> u32 \<Rightarrow> u32 \<Rightarrow> bytes \<Rightarrow> bool" where
  "pseudo_verify proto src dst seg \<longleftrightarrow>
     net_checksum (pseudo_hdr src dst proto (of_nat (length seg)) @ seg) = 0"

lemma transport_checksum:
  assumes "unat len = length seg"
  shows "(let acc = net_checksum_add (pseudo_hdr src dst proto len) 0;
              acc = net_checksum_add (mem_get seg 0 (unat len)) acc;
              c = net_checksum_fold acc
          in if c \<noteq> 0 then c else 0xFFFF)
    = nonzero_checksum (net_checksum (pseudo_hdr src dst proto len @ seg))"
  using assms
  by (simp add: net_checksum_def net_checksum_add_append nonzero_checksum_def mem_get_all Let_def)

lemma pseudo_verify_fill:
  assumes even: "even (length pre)" and len: "length pre + length post \<le> 65520"
    and n: "n = of_nat (length pre + 2 + length post)"
  shows "pseudo_verify proto src dst
    (pre @ le16_bytes (net_htons (nonzero_checksum
       (net_checksum (pseudo_hdr src dst proto n @ pre @ [0, 0] @ post)))) @ post)"
  using net_checksum_verify_nonzero [of "pseudo_hdr src dst proto n @ pre" post] assms
  by (simp add: pseudo_verify_def le16_bytes_htons)

lemma udp_checksum_eq:
  "unat len = length seg \<Longrightarrow>
   udp_checksum src dst seg len
     = nonzero_checksum (net_checksum (pseudo_hdr src dst IPV4_PROTO_UDP len @ seg))"
  unfolding udp_checksum_def by (rule transport_checksum)

lemma tcp_checksum_eq:
  "unat len = length seg \<Longrightarrow>
   tcp_checksum src dst seg len
     = nonzero_checksum (net_checksum (pseudo_hdr src dst IPV4_PROTO_TCP len @ seg))"
  unfolding tcp_checksum_def by (rule transport_checksum)

lemma length_udp_build [simp]:
  "length (snd (udp_build sp dp payload si di)) = 8 + length payload"
  by (simp add: udp_build_def Let_def)

lemma fst_udp_build: "fst (udp_build sp dp payload si di) = 8 + of_nat (length payload)"
  by (simp add: udp_build_def Let_def wire_defs)

lemma length_tcp_build_win [simp]:
  "length (snd (tcp_build_win sp dp seq ack fl payload si di w)) = 20 + length payload"
  by (simp add: tcp_build_win_def Let_def)

lemma fst_tcp_build_win:
  "fst (tcp_build_win sp dp seq ack fl payload si di w) = 20 + of_nat (length payload)"
  by (simp add: tcp_build_win_def Let_def wire_defs)

lemma length_icmp_build [simp]: "length (icmp_build_echo_request i s payload) = 8 + length payload"
  by (simp add: icmp_build_echo_request_def Let_def)

subsection \<open>IPv4 and ICMP\<close>

lemma ipv4_hdr_len_bound: "unat (ipv4_hdr_len h) \<le> 60"
proof -
  let ?v = "ip_ver_ihl h AND 0x0F"
  have "?v = take_bit 4 (ip_ver_ihl h)" by (simp add: take_bit_eq_mask mask_numeral)
  then have "unat ?v = take_bit 4 (unat (ip_ver_ihl h))" by (simp only: unsigned_take_bit_eq)
  then have v: "unat ?v < 16" by (simp add: take_bit_eq_mod)
  then show ?thesis
    unfolding ipv4_hdr_len_def by (simp add: unat_word_ariths)
qed

lemma ver_ihl_of_put: "1 \<le> off \<Longrightarrow> off \<le> length d \<Longrightarrow>
    ip_ver_ihl (ipv4_hdr_of (mem_put d off bs)) = ip_ver_ihl (ipv4_hdr_of d)"
  by (simp add: ipv4_hdr_of_def mem_put_def nth_append)

lemma ipv4_hdr_len_put: "1 \<le> off \<Longrightarrow> off \<le> length d \<Longrightarrow>
    ipv4_hdr_len (ipv4_hdr_of (mem_put d off bs)) = ipv4_hdr_len (ipv4_hdr_of d)"
  by (simp add: ipv4_hdr_len_def ver_ihl_of_put)

lemma ipv4_set_checksum_verifies:
  assumes "12 \<le> unat (ipv4_hdr_len (ipv4_hdr_of d))" "unat (ipv4_hdr_len (ipv4_hdr_of d)) \<le> length d"
  shows "net_checksum (mem_get (ipv4_set_checksum d) 0 (unat (ipv4_hdr_len (ipv4_hdr_of d)))) = 0"
proof -
  let ?n = "unat (ipv4_hdr_len (ipv4_hdr_of d))"
  let ?post = "mem_get d 12 (?n - 12)"
  have len: "12 \<le> length d" using assms by simp
  have n60: "?n \<le> 60" by (rule ipv4_hdr_len_bound)
  have z: "mem_get (mem_put d 10 [0, 0]) 0 ?n = mem_get d 0 10 @ [0, 0] @ ?post"
    using assms by (subst mem_get_around) simp_all
  have c: "mem_get (mem_put (mem_put d 10 [0, 0]) 10 (be16_bytes c)) 0 ?n
      = mem_get d 0 10 @ be16_bytes c @ ?post" for c
    using assms by (subst mem_get_around) simp_all
  have "even (length (mem_get d 0 10))" using len by simp
  moreover have "length (mem_get d 0 10) + length ?post \<le> 65534" using n60 by simp
  ultimately show ?thesis
    using net_checksum_verify [of "mem_get d 0 10" ?post] len
    unfolding ipv4_set_checksum_def Let_def
    by (simp add: ipv4_hdr_len_put le16_bytes_htons z c)
qed

lemma length_ipv4_set_checksum [simp]: "12 \<le> length d \<Longrightarrow> length (ipv4_set_checksum d) = length d"
  by (simp add: ipv4_set_checksum_def Let_def)

lemma ipv4_set_checksum_get:
  "12 \<le> length d \<Longrightarrow> off + n \<le> 10 \<or> 12 \<le> off \<Longrightarrow>
   mem_get (ipv4_set_checksum d) off n = mem_get d off n"
  by (auto simp: ipv4_set_checksum_def Let_def)

text \<open>The guards of the transform, and the packet it writes when they pass.\<close>

lemma icmp_transform_Some:
  assumes "icmp_echo_reply_transform pkt len = Some pkt'"
  defines "ip \<equiv> ipv4_hdr_of pkt"
  defines "ihl \<equiv> unat (ipv4_hdr_len ip)"
  defines "p1 \<equiv> mem_put (mem_put (mem_put pkt 12 (le32_bytes (ip_dst ip))) 16
      (le32_bytes (ip_src ip))) 8 [64]"
  defines "p2 \<equiv> mem_put (mem_put (ipv4_set_checksum p1) ihl [0]) (ihl + 2) [0, 0]"
  shows "20 \<le> ihl \<and> ihl + 8 \<le> len \<and>
    pkt' = mem_put p2 (ihl + 2) (be16_bytes (net_checksum (mem_get p2 ihl (len - ihl))))"
  using assms(1)
  by (auto simp: icmp_echo_reply_transform_def Let_def p2_def p1_def ip_def ihl_def wire_defs
      le16_bytes_htons split: if_splits)



text \<open>
  A datagram from \<^verbatim>\<open>udp_build\<close> carries the ports and length given, its payload
  unchanged, a checksum that is never the reserved value 0, and passes the receiver's check
  over pseudo-header, header and payload.
\<close>

theorem udp_build_verifies:
  fixes sport dport :: u16 and src dst :: u32
  assumes "length payload \<le> 65507"
  defines "d \<equiv> snd (udp_build sport dport payload src dst)"
  shows "pseudo_verify IPV4_PROTO_UDP src dst d \<and> uh_checksum (udp_hdr_of d) \<noteq> 0 \<and>
    net_ntohs (uh_src_port (udp_hdr_of d)) = sport \<and>
    net_ntohs (uh_dst_port (udp_hdr_of d)) = dport \<and>
    unat (net_ntohs (uh_length (udp_hdr_of d))) = length d \<and> drop UDP_HDR_LEN d = payload"
proof -
  let ?n = "8 + of_nat (length payload) :: u32"
  let ?pre = "le16_bytes (net_htons sport) @ le16_bytes (net_htons dport) @
    le16_bytes (net_htons (ucast ?n))"
  let ?c = "nonzero_checksum
    (net_checksum (pseudo_hdr src dst IPV4_PROTO_UDP ?n @ ?pre @ [0, 0] @ payload))"
  have n: "?n = of_nat (8 + length payload)" by simp
  have un: "unat ?n = 8 + length payload"
    using assms(1) unfolding n by (subst unat_of_nat_u32) auto
  have d: "d = ?pre @ le16_bytes (net_htons ?c) @ payload"
    using un by (simp add: d_def udp_build_def udp_checksum_eq udp_hdr_bytes_def Let_def wire_defs)
  have h: "udp_hdr_of d = \<lparr>uh_src_port = net_htons sport, uh_dst_port = net_htons dport,
      uh_length = net_htons (ucast ?n), uh_checksum = net_htons ?c\<rparr>"
    by (simp add: d udp_hdr_of_def mem_get_def)
  have "?c \<noteq> 0" by (simp add: nonzero_checksum_def)
  then have "net_htons ?c \<noteq> 0" by (simp only: net_htons_eq_0 not_False_eq_True)
  moreover have "pseudo_verify IPV4_PROTO_UDP src dst d"
    unfolding d using assms(1) by (intro pseudo_verify_fill) simp_all
  moreover have "unat (ucast ?n :: u16) = 8 + length payload"
    using un assms(1) by (subst unat_ucast_eq) simp_all
  ultimately show ?thesis using h by (simp add: d wire_defs)
qed

theorem udp_build_verifies_witness:
  "pseudo_verify IPV4_PROTO_UDP 0x0A00020F 0x0A000202
     (snd (udp_build 68 67 [1, 2, 3] 0x0A00020F 0x0A000202))"
  using udp_build_verifies [of "[1, 2, 3]" "0x0A00020F" "0x0A000202" 68 67] by simp

text \<open>
  C25. A segment from \<^verbatim>\<open>tcp_build_win\<close> decodes to the ports, sequence and acknowledgement
  numbers, flags and window given, announces a 20-byte header after which the payload
  starts, and passes the receiver's check.
\<close>

theorem tcp_build_verifies:
  fixes sport dport window :: u16 and seq ack src dst :: u32 and flags :: u8
  assumes "length payload \<le> 65495"
  defines "d \<equiv> snd (tcp_build_win sport dport seq ack flags payload src dst window)"
  defines "h \<equiv> tcp_hdr_of d"
  shows "pseudo_verify IPV4_PROTO_TCP src dst d \<and> unat (tcp_hdr_len h) = TCP_HDR_MIN \<and>
    drop (unat (tcp_hdr_len h)) d = payload \<and>
    net_ntohs (th_src_port h) = sport \<and> net_ntohs (th_dst_port h) = dport \<and>
    net_ntohl (th_seq h) = seq \<and> net_ntohl (th_ack h) = ack \<and> th_flags h = flags \<and>
    net_ntohs (th_window h) = window"
proof -
  let ?n = "20 + of_nat (length payload) :: u32"
  let ?pre = "le16_bytes (net_htons sport) @ le16_bytes (net_htons dport) @
     le32_bytes (net_htonl seq) @ le32_bytes (net_htonl ack) @ [0x50, flags] @
     le16_bytes (net_htons window)"
  let ?post = "[0, 0] @ payload"
  let ?c = "nonzero_checksum
    (net_checksum (pseudo_hdr src dst IPV4_PROTO_TCP ?n @ ?pre @ [0, 0] @ ?post))"
  have n: "?n = of_nat (20 + length payload)" by simp
  have un: "unat ?n = 20 + length payload"
    using assms(1) unfolding n by (subst unat_of_nat_u32) auto
  have d: "d = ?pre @ le16_bytes (net_htons ?c) @ ?post"
    using un by (simp add: d_def tcp_build_win_def tcp_checksum_eq tcp_hdr_bytes_def Let_def wire_defs)
  have h: "h = \<lparr>th_src_port = net_htons sport, th_dst_port = net_htons dport,
      th_seq = net_htonl seq, th_ack = net_htonl ack, th_off_res = 0x50, th_flags = flags,
      th_window = net_htons window, th_checksum = net_htons ?c, th_urg = 0\<rparr>"
    by (simp add: h_def d tcp_hdr_of_def mem_get_def nth_append)
  have "tcp_hdr_len h = 20" by (simp add: h tcp_hdr_len_def)
  moreover have "pseudo_verify IPV4_PROTO_TCP src dst d"
    unfolding d using assms(1) by (intro pseudo_verify_fill) simp_all
  moreover have "drop 20 d = payload" by (simp add: d)
  ultimately show ?thesis by (simp add: h wire_defs)
qed

theorem tcp_build_verifies_witness:
  "th_flags (tcp_hdr_of (snd (tcp_build_win 7 41000 1 2 TCP_SYN [9] 3 4 1024))) = TCP_SYN"
  using tcp_build_verifies [where payload = "[9]" and sport = 7 and dport = 41000 and seq = 1 and
    ack = 2 and flags = TCP_SYN and src = 3 and dst = 4 and window = 1024] by simp

end
