(* ===== verification/Inet_Config.thy ===== *)
theory Inet_Config
  imports Kernel_Prelude "HOL-Library.Sublist"
begin

text \<open>
  \<^verbatim>\<open>kernel/net/inet_config.c\<close>: the static IPv4 configuration read from the kernel command
  line, with the string functions of \<^verbatim>\<open>kernel/stdlib/stdlib.c\<close> it uses. A C string is the
  list of its characters without the terminating NUL, so reading \<^verbatim>\<open>*p\<close> at the end is the
  empty list. Digits never overflow the accumulator, which is checked after each of them.
\<close>

section \<open>Strings\<close>

definition char_code :: "char \<Rightarrow> int" where
  "char_code c = int (of_char c)"

fun strncmp :: "string \<Rightarrow> string \<Rightarrow> nat \<Rightarrow> int" where
  "strncmp s1 s2 0 = 0"
| "strncmp [] [] (Suc n) = 0"
| "strncmp [] (d # ds) (Suc n) = - char_code d"
| "strncmp (c # cs) [] (Suc n) = char_code c"
| "strncmp (c # cs) (d # ds) (Suc n) = (if c \<noteq> d then char_code c - char_code d else strncmp cs ds n)"

fun strstr_loop :: "string \<Rightarrow> char \<Rightarrow> string \<Rightarrow> string option" where
  "strstr_loop [] c needle = None"
| "strstr_loop (sc # s) c needle =
     (if sc = c \<and> strncmp s needle (length needle) = 0 then Some (sc # s) else strstr_loop s c needle)"

definition strstr :: "string \<Rightarrow> string \<Rightarrow> string option" where
  "strstr s needle = (case needle of [] \<Rightarrow> Some s | c # needle' \<Rightarrow> strstr_loop s c needle')"

section \<open>Dotted addresses\<close>

definition is_digit :: "char \<Rightarrow> bool" where
  "is_digit c \<longleftrightarrow> char_code (CHR ''0'') \<le> char_code c \<and> char_code c \<le> char_code (CHR ''9'')"

definition digit_val :: "char \<Rightarrow> nat" where
  "digit_val c = nat (char_code c - char_code (CHR ''0''))"

fun parse_u8_loop :: "string \<Rightarrow> nat \<Rightarrow> bool \<Rightarrow> (nat \<times> string) option" where
  "parse_u8_loop [] v digits = (if digits then Some (v, []) else None)"
| "parse_u8_loop (c # cs) v digits =
     (if is_digit c
      then let v = v * 10 + digit_val c in if v > 255 then None else parse_u8_loop cs v True
      else if digits then Some (v, c # cs) else None)"

definition parse_u8 :: "string \<Rightarrow> (nat \<times> string) option" where
  "parse_u8 s = parse_u8_loop s 0 False"

text \<open>\<open>skip_dot\<close> is the test \<^verbatim>\<open>*p++ != '.'\<close>.\<close>

fun skip_dot :: "string \<Rightarrow> string option" where
  "skip_dot (c # s) = (if c \<noteq> CHR ''.'' then None else Some s)"
| "skip_dot [] = None"

definition parse_dotted_ip :: "string \<Rightarrow> u32 option" where
  "parse_dotted_ip s =
     (case parse_u8 s of None \<Rightarrow> None | Some (a, p) \<Rightarrow>
      case skip_dot p of None \<Rightarrow> None | Some p \<Rightarrow>
      case parse_u8 p of None \<Rightarrow> None | Some (b, p) \<Rightarrow>
      case skip_dot p of None \<Rightarrow> None | Some p \<Rightarrow>
      case parse_u8 p of None \<Rightarrow> None | Some (c, p) \<Rightarrow>
      case skip_dot p of None \<Rightarrow> None | Some p \<Rightarrow>
      case parse_u8 p of None \<Rightarrow> None | Some (d, p) \<Rightarrow>
        Some (push_bit 24 (of_nat a) OR push_bit 16 (of_nat b) OR push_bit 8 (of_nat c) OR of_nat d))"

definition parse_kv_ip :: "string option \<Rightarrow> string \<Rightarrow> u32 option" where
  "parse_kv_ip cmdline key =
     (case cmdline of None \<Rightarrow> None | Some s \<Rightarrow>
      case strstr s key of None \<Rightarrow> None | Some p \<Rightarrow> parse_dotted_ip (drop (length key) p))"

section \<open>The configuration\<close>

definition NET_SLIRP_IP :: u32 where "NET_SLIRP_IP = 0x0A00020F"
definition NET_SLIRP_MASK :: u32 where "NET_SLIRP_MASK = 0xFFFFFF00"
definition NET_SLIRP_GATEWAY :: u32 where "NET_SLIRP_GATEWAY = 0x0A000202"

record inet_config =
  cfg_ip :: u32
  cfg_netmask :: u32
  cfg_gateway :: u32

definition inet_config_defaults :: "inet_config \<Rightarrow> inet_config" where
  "inet_config_defaults cfg =
     cfg\<lparr>cfg_ip := NET_SLIRP_IP, cfg_netmask := NET_SLIRP_MASK, cfg_gateway := NET_SLIRP_GATEWAY\<rparr>"

definition inet_config_from_cmdline :: "inet_config \<Rightarrow> string option \<Rightarrow> inet_config" where
  "inet_config_from_cmdline cfg cmdline =
     (let cfg = inet_config_defaults cfg;
          cfg = (case parse_kv_ip cmdline ''ip='' of Some v \<Rightarrow> cfg\<lparr>cfg_ip := v\<rparr> | None \<Rightarrow> cfg);
          cfg = (case parse_kv_ip cmdline ''mask='' of Some v \<Rightarrow> cfg\<lparr>cfg_netmask := v\<rparr> | None \<Rightarrow> cfg)
      in case parse_kv_ip cmdline ''gw='' of Some v \<Rightarrow> cfg\<lparr>cfg_gateway := v\<rparr> | None \<Rightarrow> cfg)"

section \<open>Lemmas\<close>

lemma char_code_inject: "char_code c = char_code d \<longleftrightarrow> c = d"
  by (simp add: char_code_def)

lemma char_code_nonzero: "c \<noteq> CHR 0x00 \<Longrightarrow> char_code c \<noteq> 0"
proof -
  have "char_code (CHR 0x00) = 0" by (simp add: char_code_def)
  then show "c \<noteq> CHR 0x00 \<Longrightarrow> char_code c \<noteq> 0" using char_code_inject [of c "CHR 0x00"] by simp
qed

text \<open>\<^verbatim>\<open>strstr\<close> returns the first suffix that starts with the string sought.\<close>

lemma strncmp_prefix: "CHR 0x00 \<notin> set p \<Longrightarrow> strncmp s p (length p) = 0 \<longleftrightarrow> prefix p s"
proof (induction p arbitrary: s)
  case (Cons d ds)
  then show ?case
    using char_code_nonzero [of d] by (cases s) (auto simp: char_code_inject)
qed simp

lemma strstr_loop_skip: "c \<notin> set pre \<Longrightarrow> strstr_loop (pre @ s) c f = strstr_loop s c f"
  by (induction pre) auto

lemma strstr_skip:
  "c \<notin> set pre \<Longrightarrow> CHR 0x00 \<notin> set f \<Longrightarrow>
   strstr (pre @ c # f @ rest) (c # f) = Some (c # f @ rest)"
  by (simp add: strstr_def strstr_loop_skip strncmp_prefix)

fun digits_val :: "nat \<Rightarrow> string \<Rightarrow> nat" where
  "digits_val v [] = v"
| "digits_val v (c # cs) = digits_val (v * 10 + digit_val c) cs"

lemma digits_val_ge: "v \<le> digits_val v ds"
proof (induction v ds rule: digits_val.induct)
  case (2 v c cs) then show ?case by simp
qed simp

lemma parse_u8_digits:
  assumes "\<forall>c \<in> set ds. is_digit c" "digits_val v ds \<le> 255" "ds \<noteq> [] \<or> b"
    "rest = [] \<or> \<not> is_digit (hd rest)"
  shows "parse_u8_loop (ds @ rest) v b = Some (digits_val v ds, rest)"
  using assms
proof (induction v ds arbitrary: b rule: digits_val.induct)
  case (1 v)
  then show ?case by (cases rest) auto
next
  case (2 v c cs)
  have "v * 10 + digit_val c \<le> 255"
    using digits_val_ge [of "v * 10 + digit_val c" cs] 2(3) by simp
  then show ?case using 2 by simp
qed

lemma parse_u8_loop_sound:
  assumes "parse_u8_loop s v b = Some (w, p)" "v \<le> 255"
  shows "w \<le> 255 \<and> (\<exists>ds. s = ds @ p \<and> (\<forall>c \<in> set ds. is_digit c) \<and> w = digits_val v ds \<and>
    (ds \<noteq> [] \<or> b))"
  using assms
proof (induction s v b rule: parse_u8_loop.induct)
  case (1 v digits)
  then show ?case by (auto split: if_splits intro: exI [of _ "[]"])
next
  case (2 c cs v digits)
  show ?case
  proof (cases "is_digit c")
    case True
    let ?v = "v * 10 + digit_val c"
    have "?v \<le> 255" and "parse_u8_loop cs ?v True = Some (w, p)"
      using 2(2) True by (auto simp: Let_def split: if_splits)
    then obtain ds where "w \<le> 255" "cs = ds @ p" "\<forall>c \<in> set ds. is_digit c" "w = digits_val ?v ds"
      using 2(1) [OF True refl] by auto
    then show ?thesis using True by (intro conjI exI [of _ "c # ds"]) auto
  next
    case False
    then show ?thesis using 2 by (auto split: if_splits intro: exI [of _ "[]"])
  qed
qed

text \<open>Printing an octet in decimal, and an address in dotted notation.\<close>

fun dec :: "nat \<Rightarrow> string" where
  "dec n = (if n < 10 then [char_of (48 + n)] else dec (n div 10) @ [char_of (48 + n mod 10)])"

declare dec.simps [simp del]

lemma digit_char: "n < 10 \<Longrightarrow> is_digit (char_of (48 + n)) \<and> digit_val (char_of (48 + n)) = n"
  by (simp add: is_digit_def digit_val_def char_code_def)

lemma digits_val_append: "digits_val v (xs @ [c]) = digits_val v xs * 10 + digit_val c"
  by (induction v xs rule: digits_val.induct) simp_all

lemma dec_digits: "(\<forall>c \<in> set (dec n). is_digit c) \<and> digits_val 0 (dec n) = n \<and> dec n \<noteq> []"
proof (induction n rule: dec.induct)
  case (1 n)
  show ?case
  proof (cases "n < 10")
    case True
    then show ?thesis using digit_char [of n] by (simp add: dec.simps [of n])
  next
    case False
    then show ?thesis
      using 1 digit_char [of "n mod 10"] by (simp add: dec.simps [of n] digits_val_append)
  qed
qed

lemma parse_u8_dec:
  "n \<le> 255 \<Longrightarrow> rest = [] \<or> \<not> is_digit (hd rest) \<Longrightarrow> parse_u8 (dec n @ rest) = Some (n, rest)"
  using dec_digits [of n] unfolding parse_u8_def by (subst parse_u8_digits) auto

definition print_ip :: "u32 \<Rightarrow> string" where
  "print_ip ip = dec (unat (ucast (drop_bit 24 ip) :: u8)) @ ''.'' @
     dec (unat (ucast (drop_bit 16 ip) :: u8)) @ ''.'' @
     dec (unat (ucast (drop_bit 8 ip) :: u8)) @ ''.'' @ dec (unat (ucast ip :: u8))"

lemma octet_le: "unat (x :: u8) \<le> 255"
  using unat_u8_bound [of x] by simp

lemma parse_print_ip:
  assumes "rest = [] \<or> \<not> is_digit (hd rest)"
  shows "parse_dotted_ip (print_ip ip @ rest) = Some ip"
proof -
  have dot: "\<not> is_digit (CHR ''.'')" by (simp add: is_digit_def char_code_def)
  show ?thesis
    using le32_of_bytes [of ip] assms
    by (simp add: parse_dotted_ip_def print_ip_def parse_u8_dec octet_le dot
        le32_of_def le32_bytes_def ac_simps)
qed

lemma dec_set: "set (dec n) \<subseteq> {c. is_digit c}"
  using dec_digits [of n] by auto

lemma print_ip_set: "set (print_ip ip) \<subseteq> {c. is_digit c} \<union> {CHR ''.''}"
  using dec_set by (auto simp: print_ip_def)

lemma print_ip_no_letter: "\<not> is_digit c \<Longrightarrow> c \<noteq> CHR ''.'' \<Longrightarrow> c \<notin> set (print_ip ip)"
  using print_ip_set [of ip] by auto

lemma parse_kv_ip_at:
  assumes "c \<notin> set pre" "CHR 0x00 \<notin> set key" "rest = [] \<or> \<not> is_digit (hd rest)"
  shows "parse_kv_ip (Some (pre @ (c # key) @ print_ip ip @ rest)) (c # key) = Some ip"
  using strstr_skip [OF assms(1,2), of "print_ip ip @ rest"] parse_print_ip [OF assms(3)]
  by (simp add: parse_kv_ip_def)

section \<open>Properties\<close>

text \<open>
  C31. Round trip of the command line: for all three addresses, a command line that gives
  them in dotted notation configures exactly them; one that gives none configures the
  defaults of the emulator's user network.
\<close>

theorem cmdline_roundtrip:
  "inet_config_from_cmdline cfg
     (Some (''ip='' @ print_ip a @ '' mask='' @ print_ip m @ '' gw='' @ print_ip g))
     = cfg\<lparr>cfg_ip := a, cfg_netmask := m, cfg_gateway := g\<rparr>
   \<and> inet_config_from_cmdline cfg None = inet_config_defaults cfg"
proof -
  let ?s = "''ip='' @ print_ip a @ '' mask='' @ print_ip m @ '' gw='' @ print_ip g"
  have sp: "\<not> is_digit (CHR '' '')" and letters: "\<not> is_digit (CHR ''m'')" "\<not> is_digit (CHR ''g'')"
    by (simp_all add: is_digit_def char_code_def)
  have i: "parse_kv_ip (Some ?s) ''ip='' = Some a"
    using parse_kv_ip_at [of "CHR ''i''" "[]" "''p=''" "'' mask='' @ print_ip m @ '' gw='' @ print_ip g"]
      sp by simp
  have k: "parse_kv_ip (Some ?s) ''mask='' = Some m"
    using parse_kv_ip_at [of "CHR ''m''" "''ip='' @ print_ip a @ '' ''" "''ask=''"
        "'' gw='' @ print_ip g" m] sp letters by (simp add: print_ip_no_letter)
  have g: "parse_kv_ip (Some ?s) ''gw='' = Some g"
    using parse_kv_ip_at [of "CHR ''g''" "''ip='' @ print_ip a @ '' mask='' @ print_ip m @ '' ''" "''w=''"
        "[]" g] sp letters by (simp add: print_ip_no_letter)
  have n: "parse_kv_ip None key = None" for key by (simp add: parse_kv_ip_def)
  show ?thesis
    unfolding inet_config_from_cmdline_def Let_def i k g n by (simp add: inet_config_defaults_def)
qed

text \<open>
  An octet above 255 is rejected however many digits it has, and so is an empty one: no
  address is built from a truncated number.
\<close>

lemma parse_octet_range:
  "parse_u8 s = Some (v, p) \<Longrightarrow>
   v \<le> 255 \<and> (\<exists>ds. ds \<noteq> [] \<and> s = ds @ p \<and> (\<forall>c \<in> set ds. is_digit c) \<and> v = digits_val 0 ds)"
  using parse_u8_loop_sound [of s 0 False v p] by (auto simp: parse_u8_def)

end
