(* ===== verification/Dhcp_Msg.thy ===== *)
theory Dhcp_Msg
  imports Net_Checksum
begin

text \<open>
  The message codec of \<^verbatim>\<open>kernel/net/dhcp.h\<close> and \<^verbatim>\<open>kernel/net/dhcp.c\<close>: the four request
  builders, the reply parser with its option loop, and the renewal times. A builder returns
  the bytes it stores from \<^verbatim>\<open>dst\<close> on (the memory behind them up to \<open>dst_max\<close> is zeroed), or
  \<open>None\<close> for the return value 0. In the option loop the pointer \<^verbatim>\<open>opt\<close> is the list of the
  bytes between \<^verbatim>\<open>opt\<close> and \<^verbatim>\<open>end\<close>.
\<close>

section \<open>Constants and messages\<close>

definition DHCP_CLIENT_PORT :: u16 where [wire_defs]: "DHCP_CLIENT_PORT = 68"
definition DHCP_SERVER_PORT :: u16 where [wire_defs]: "DHCP_SERVER_PORT = 67"
definition DHCP_BOOTREQUEST :: u8 where [wire_defs]: "DHCP_BOOTREQUEST = 1"
definition DHCP_BOOTREPLY :: u8 where [wire_defs]: "DHCP_BOOTREPLY = 2"
definition DHCP_DISCOVER :: u8 where [wire_defs]: "DHCP_DISCOVER = 1"
definition DHCP_OFFER :: u8 where [wire_defs]: "DHCP_OFFER = 2"
definition DHCP_REQUEST :: u8 where [wire_defs]: "DHCP_REQUEST = 3"
definition DHCP_ACK :: u8 where [wire_defs]: "DHCP_ACK = 5"
definition DHCP_OPT_PAD :: u8 where [wire_defs]: "DHCP_OPT_PAD = 0"
definition DHCP_OPT_SUBNET_MASK :: u8 where [wire_defs]: "DHCP_OPT_SUBNET_MASK = 1"
definition DHCP_OPT_ROUTER :: u8 where [wire_defs]: "DHCP_OPT_ROUTER = 3"
definition DHCP_OPT_REQ_IP :: u8 where [wire_defs]: "DHCP_OPT_REQ_IP = 50"
definition DHCP_OPT_LEASE_TIME :: u8 where [wire_defs]: "DHCP_OPT_LEASE_TIME = 51"
definition DHCP_OPT_MSG_TYPE :: u8 where [wire_defs]: "DHCP_OPT_MSG_TYPE = 53"
definition DHCP_OPT_SERVER_ID :: u8 where [wire_defs]: "DHCP_OPT_SERVER_ID = 54"
definition DHCP_OPT_PARAM_REQ :: u8 where [wire_defs]: "DHCP_OPT_PARAM_REQ = 55"
definition DHCP_OPT_END :: u8 where [wire_defs]: "DHCP_OPT_END = 255"
definition DHCP_MAGIC :: bytes where [wire_defs]: "DHCP_MAGIC = [99, 130, 83, 99]"
definition DHCP_FIXED_LEN :: nat where [wire_defs]: "DHCP_FIXED_LEN = 236"
definition DHCP_MIN_PKT :: nat where [wire_defs]: "DHCP_MIN_PKT = DHCP_FIXED_LEN + 4"

record dhcp_msg =
  dm_op :: u8
  dm_htype :: u8
  dm_hlen :: u8
  dm_hops :: u8
  dm_xid :: u32
  dm_secs :: u16
  dm_flags :: u16
  dm_ciaddr :: u32
  dm_yiaddr :: u32
  dm_siaddr :: u32
  dm_giaddr :: u32
  dm_chaddr :: bytes
  dm_sname :: bytes
  dm_file :: bytes

definition dhcp_msg_bytes :: "dhcp_msg \<Rightarrow> bytes" where
  "dhcp_msg_bytes m = [dm_op m, dm_htype m, dm_hlen m, dm_hops m] @ le32_bytes (dm_xid m) @
     le16_bytes (dm_secs m) @ le16_bytes (dm_flags m) @ le32_bytes (dm_ciaddr m) @
     le32_bytes (dm_yiaddr m) @ le32_bytes (dm_siaddr m) @ le32_bytes (dm_giaddr m) @
     dm_chaddr m @ dm_sname m @ dm_file m"

definition dhcp_msg_of :: "bytes \<Rightarrow> dhcp_msg" where
  "dhcp_msg_of b = \<lparr>dm_op = b ! 0, dm_htype = b ! 1, dm_hlen = b ! 2, dm_hops = b ! 3,
     dm_xid = le32_of (mem_get b 4 4), dm_secs = le16_of (mem_get b 8 2),
     dm_flags = le16_of (mem_get b 10 2), dm_ciaddr = le32_of (mem_get b 12 4),
     dm_yiaddr = le32_of (mem_get b 16 4), dm_siaddr = le32_of (mem_get b 20 4),
     dm_giaddr = le32_of (mem_get b 24 4), dm_chaddr = mem_get b 28 16,
     dm_sname = mem_get b 44 64, dm_file = mem_get b 108 128\<rparr>"

definition dhcp_msg_wf :: "dhcp_msg \<Rightarrow> bool" where
  "dhcp_msg_wf m \<longleftrightarrow> length (dm_chaddr m) = 16 \<and> length (dm_sname m) = 64 \<and> length (dm_file m) = 128"

lemma length_dhcp_msg_bytes: "dhcp_msg_wf m \<Longrightarrow> length (dhcp_msg_bytes m) = DHCP_FIXED_LEN"
  by (simp add: dhcp_msg_wf_def dhcp_msg_bytes_def wire_defs)

lemma dhcp_msg_of_bytes: "dhcp_msg_wf m \<Longrightarrow> dhcp_msg_of (dhcp_msg_bytes m @ rest) = m"
  by (simp add: dhcp_msg_wf_def dhcp_msg_of_def dhcp_msg_bytes_def mem_get_def nth_append)

record dhcp_lease =
  dl_ip :: u32
  dl_netmask :: u32
  dl_gateway :: u32
  dl_server :: u32
  dl_lease_secs :: u32

definition zero_lease :: dhcp_lease where
  "zero_lease = \<lparr>dl_ip = 0, dl_netmask = 0, dl_gateway = 0, dl_server = 0, dl_lease_secs = 0\<rparr>"

section \<open>Renewal times\<close>

definition dhcp_t1_secs :: "u32 \<Rightarrow> u32" where
  "dhcp_t1_secs lease_secs = (let l = (if lease_secs = 0 then 86400 else lease_secs) in l div 2)"

definition dhcp_t2_secs :: "u32 \<Rightarrow> u32" where
  "dhcp_t2_secs lease_secs = (let l = (if lease_secs = 0 then 86400 else lease_secs) in (l * 7) div 8)"

section \<open>Building requests\<close>

definition opt_put :: "u8 \<Rightarrow> u8 \<Rightarrow> bytes \<Rightarrow> bytes" where
  "opt_put code len val = [code, len] @ take (unat len) val"

definition opt_put_u8 :: "u8 \<Rightarrow> u8 \<Rightarrow> bytes" where
  "opt_put_u8 code v = opt_put code 1 [v]"

definition opt_put_u32_be :: "u8 \<Rightarrow> u32 \<Rightarrow> bytes" where
  "opt_put_u32_be code host = opt_put code 4
     [ucast (drop_bit 24 host AND 0xFF), ucast (drop_bit 16 host AND 0xFF),
      ucast (drop_bit 8 host AND 0xFF), ucast (host AND 0xFF)]"

definition dhcp_build_common :: "nat \<Rightarrow> u32 \<Rightarrow> bytes \<Rightarrow> u16 \<Rightarrow> u32 \<Rightarrow> bytes option" where
  "dhcp_build_common dst_max xid mac flags_host ciaddr_host =
     (if dst_max < DHCP_MIN_PKT + 16 then None
      else Some (dhcp_msg_bytes
        \<lparr>dm_op = DHCP_BOOTREQUEST, dm_htype = 1, dm_hlen = 6, dm_hops = 0, dm_xid = net_htonl xid,
         dm_secs = 0, dm_flags = net_htons flags_host, dm_ciaddr = net_htonl ciaddr_host,
         dm_yiaddr = 0, dm_siaddr = 0, dm_giaddr = 0, dm_chaddr = take 6 mac @ replicate 10 0,
         dm_sname = replicate 64 0, dm_file = replicate 128 0\<rparr> @ DHCP_MAGIC))"

definition dhcp_build_discover :: "nat \<Rightarrow> u32 \<Rightarrow> bytes \<Rightarrow> bytes option" where
  "dhcp_build_discover dst_max xid mac =
     (case dhcp_build_common dst_max xid mac 0x8000 0 of None \<Rightarrow> None
      | Some base \<Rightarrow> Some (base @ opt_put_u8 DHCP_OPT_MSG_TYPE DHCP_DISCOVER @
          opt_put DHCP_OPT_PARAM_REQ 3 [DHCP_OPT_SUBNET_MASK, DHCP_OPT_ROUTER, DHCP_OPT_LEASE_TIME] @
          [DHCP_OPT_END]))"

definition dhcp_build_request :: "nat \<Rightarrow> u32 \<Rightarrow> bytes \<Rightarrow> u32 \<Rightarrow> u32 \<Rightarrow> bytes option" where
  "dhcp_build_request dst_max xid mac req_ip_host server_host =
     (case dhcp_build_common dst_max xid mac 0x8000 0 of None \<Rightarrow> None
      | Some base \<Rightarrow> Some (base @ opt_put_u8 DHCP_OPT_MSG_TYPE DHCP_REQUEST @
          opt_put_u32_be DHCP_OPT_REQ_IP req_ip_host @
          opt_put_u32_be DHCP_OPT_SERVER_ID server_host @
          opt_put DHCP_OPT_PARAM_REQ 3 [DHCP_OPT_SUBNET_MASK, DHCP_OPT_ROUTER, DHCP_OPT_LEASE_TIME] @
          [DHCP_OPT_END]))"

definition dhcp_build_renew :: "nat \<Rightarrow> u32 \<Rightarrow> bytes \<Rightarrow> u32 \<Rightarrow> bytes option" where
  "dhcp_build_renew dst_max xid mac ciaddr_host =
     (case dhcp_build_common dst_max xid mac 0 ciaddr_host of None \<Rightarrow> None
      | Some base \<Rightarrow> Some (base @ opt_put_u8 DHCP_OPT_MSG_TYPE DHCP_REQUEST @ [DHCP_OPT_END]))"

definition dhcp_build_rebind :: "nat \<Rightarrow> u32 \<Rightarrow> bytes \<Rightarrow> u32 \<Rightarrow> bytes option" where
  "dhcp_build_rebind dst_max xid mac ciaddr_host =
     (case dhcp_build_common dst_max xid mac 0x8000 ciaddr_host of None \<Rightarrow> None
      | Some base \<Rightarrow> Some (base @ opt_put_u8 DHCP_OPT_MSG_TYPE DHCP_REQUEST @ [DHCP_OPT_END]))"

section \<open>Parsing replies\<close>

definition read_u32_be :: "bytes \<Rightarrow> u32" where
  "read_u32_be p = push_bit 24 (ucast (p ! 0)) OR push_bit 16 (ucast (p ! 1)) OR
     push_bit 8 (ucast (p ! 2)) OR ucast (p ! 3)"

text \<open>The chain of tests on one option, and the loop over the options.\<close>

definition dhcp_apply_opt ::
  "u8 \<Rightarrow> u8 \<Rightarrow> bytes \<Rightarrow> u8 \<times> dhcp_lease \<Rightarrow> u8 \<times> dhcp_lease" where
  "dhcp_apply_opt code olen opt acc =
     (case acc of (msg_type, lease) \<Rightarrow>
        if code = DHCP_OPT_MSG_TYPE \<and> olen = 1 then (opt ! 0, lease)
        else if code = DHCP_OPT_SUBNET_MASK \<and> olen = 4
          then (msg_type, lease\<lparr>dl_netmask := read_u32_be opt\<rparr>)
        else if code = DHCP_OPT_ROUTER \<and> olen \<ge> 4
          then (msg_type, lease\<lparr>dl_gateway := read_u32_be opt\<rparr>)
        else if code = DHCP_OPT_SERVER_ID \<and> olen = 4
          then (msg_type, lease\<lparr>dl_server := read_u32_be opt\<rparr>)
        else if code = DHCP_OPT_LEASE_TIME \<and> olen = 4
          then (msg_type, lease\<lparr>dl_lease_secs := read_u32_be opt\<rparr>)
        else (msg_type, lease))"

function dhcp_parse_opts :: "bytes \<Rightarrow> u8 \<times> dhcp_lease \<Rightarrow> (u8 \<times> dhcp_lease) option" where
  "dhcp_parse_opts [] acc = Some acc"
| "dhcp_parse_opts (code # opt) acc =
     (if code = DHCP_OPT_PAD then dhcp_parse_opts opt acc
      else if code = DHCP_OPT_END then Some acc
      else case opt of [] \<Rightarrow> None
      | olen # opt \<Rightarrow>
          if unat olen > length opt then None
          else dhcp_parse_opts (drop (unat olen) opt) (dhcp_apply_opt code olen opt acc))"
  by pat_completeness auto
termination by (relation "measure (length \<circ> fst)") auto

definition dhcp_parse_reply :: "bytes \<Rightarrow> nat \<Rightarrow> u32 \<Rightarrow> (u8 \<times> dhcp_lease) option" where
  "dhcp_parse_reply pkt len expect_xid =
     (if len < DHCP_MIN_PKT then None
      else let m = dhcp_msg_of pkt in
      if dm_op m \<noteq> DHCP_BOOTREPLY \<or> dm_htype m \<noteq> 1 \<or> dm_hlen m \<noteq> 6 then None
      else if net_ntohl (dm_xid m) \<noteq> expect_xid then None
      else if mem_get pkt DHCP_FIXED_LEN 4 \<noteq> DHCP_MAGIC then None
      else case dhcp_parse_opts (drop (DHCP_FIXED_LEN + 4) (take len pkt))
                  (0, zero_lease\<lparr>dl_ip := net_ntohl (dm_yiaddr m)\<rparr>) of
        None \<Rightarrow> None
      | Some (msg_type, lease) \<Rightarrow>
          if msg_type = 0 \<or> dl_ip lease = 0 then None else Some (msg_type, lease))"

section \<open>The option grammar\<close>

text \<open>An option as a code and a value, and its encoding.\<close>

definition encode_opt :: "u8 \<times> bytes \<Rightarrow> bytes" where
  "encode_opt cv = [fst cv, of_nat (length (snd cv))] @ snd cv"

definition opt_wf :: "u8 \<times> bytes \<Rightarrow> bool" where
  "opt_wf cv \<longleftrightarrow> fst cv \<noteq> DHCP_OPT_PAD \<and> fst cv \<noteq> DHCP_OPT_END \<and> length (snd cv) \<le> 255"

definition apply_opts :: "(u8 \<times> bytes) list \<Rightarrow> u8 \<times> dhcp_lease \<Rightarrow> u8 \<times> dhcp_lease" where
  "apply_opts os acc = fold (\<lambda>(c, v). dhcp_apply_opt c (of_nat (length v)) v) os acc"

lemma unat_of_nat_u8: "n \<le> 255 \<Longrightarrow> unat (of_nat n :: u8) = n"
  by (simp add: unat_of_nat)

lemma read_u32_be_append: "4 \<le> length v \<Longrightarrow> read_u32_be (v @ rest) = read_u32_be v"
  by (auto simp: read_u32_be_def nth_append)

lemma dhcp_apply_opt_append:
  assumes "unat olen = length v"
  shows "dhcp_apply_opt c olen (v @ rest) acc = dhcp_apply_opt c olen v acc"
proof -
  have "olen = 1 \<Longrightarrow> 1 \<le> length v" "olen = 4 \<Longrightarrow> 4 \<le> length v" using assms by auto
  moreover have "4 \<le> olen \<Longrightarrow> 4 \<le> length v" using assms by (simp add: word_le_nat_alt)
  ultimately show ?thesis
    by (cases acc) (auto simp: dhcp_apply_opt_def read_u32_be_append nth_append)
qed

lemma parse_encoded_opt:
  assumes "opt_wf (c, v)"
  shows "dhcp_parse_opts (encode_opt (c, v) @ rest) acc
    = dhcp_parse_opts rest (dhcp_apply_opt c (of_nat (length v)) v acc)"
proof -
  have n: "unat (of_nat (length v) :: u8) = length v"
    using assms by (intro unat_of_nat_u8) (simp add: opt_wf_def)
  show ?thesis
    using assms n dhcp_apply_opt_append [OF n] by (simp add: encode_opt_def opt_wf_def)
qed

lemma parse_encoded_opts:
  "\<forall>cv \<in> set os. opt_wf cv \<Longrightarrow>
   dhcp_parse_opts (concat (map encode_opt os) @ rest) acc = dhcp_parse_opts rest (apply_opts os acc)"
proof (induction os arbitrary: acc)
  case (Cons cv os)
  then show ?case
    by (cases cv) (simp add: parse_encoded_opt apply_opts_def del: dhcp_parse_opts.simps)
qed (simp add: apply_opts_def)

lemma parse_opts_end: "dhcp_parse_opts (DHCP_OPT_END # junk) acc = Some acc"
  by (simp add: wire_defs)

lemma opt_put_encode: "length v \<le> 255 \<Longrightarrow> opt_put c (of_nat (length v)) v = encode_opt (c, v)"
  by (simp add: opt_put_def encode_opt_def unat_of_nat_u8)

lemma opt_put_u8_encode: "opt_put_u8 c v = encode_opt (c, [v])"
  using opt_put_encode [of "[v]" c] by (simp add: opt_put_u8_def)

definition be32_bytes :: "u32 \<Rightarrow> bytes" where
  "be32_bytes x = [ucast (drop_bit 24 x), ucast (drop_bit 16 x), ucast (drop_bit 8 x), ucast x]"

lemma length_be32_bytes [simp]: "length (be32_bytes x) = 4"
  by (simp add: be32_bytes_def)

lemma read_be32_bytes [simp]: "read_u32_be (be32_bytes x) = x"
  using le32_of_bytes [of x]
  by (simp add: read_u32_be_def be32_bytes_def le32_of_def le32_bytes_def ac_simps)

lemma opt_put_u32_encode: "opt_put_u32_be c x = encode_opt (c, be32_bytes x)"
  using opt_put_encode [of "be32_bytes x" c] by (simp add: opt_put_u32_be_def be32_bytes_def)

section \<open>Properties\<close>


definition sample_reply :: dhcp_msg where
  "sample_reply = \<lparr>dm_op = DHCP_BOOTREPLY, dm_htype = 1, dm_hlen = 6, dm_hops = 0, dm_xid = 7, dm_secs = 0,
     dm_flags = 0, dm_ciaddr = 0, dm_yiaddr = net_htonl 0x0A00020F, dm_siaddr = 0, dm_giaddr = 0,
     dm_chaddr = replicate 16 0, dm_sname = replicate 64 0, dm_file = replicate 128 0\<rparr>"


text \<open>
  The parser reads only the \<open>len\<close> bytes of the reply: whatever lies behind them in the
  receive buffer has no influence on the result, for every input, well-formed or not.
\<close>

theorem dhcp_parse_reply_bounds:
  assumes "len \<le> length pkt"
  shows "dhcp_parse_reply (pkt @ junk) len xid = dhcp_parse_reply (take len pkt) len xid"
proof (cases "len < DHCP_MIN_PKT")
  case False
  then have n: "240 \<le> len" by (simp add: wire_defs)
  have g: "mem_get (pkt @ junk) off k = mem_get (take len pkt) off k" if "off + k \<le> 240" for off k
  proof -
    have "min (len - off) k = k" using that n by auto
    then show ?thesis using that n assms by (simp add: mem_get_def take_drop [symmetric] drop_take)
  qed
  have "dhcp_msg_of (pkt @ junk) = dhcp_msg_of (take len pkt)"
    using n assms by (auto simp: dhcp_msg_of_def g nth_append)
  then show ?thesis using assms g [of 236 4]
    by (simp add: dhcp_parse_reply_def Let_def DHCP_FIXED_LEN_def)
qed (simp add: dhcp_parse_reply_def)

theorem dhcp_parse_reply_bounds_witness:
  "dhcp_parse_reply (replicate 300 1 @ [9]) 240 5 = dhcp_parse_reply (take 240 (replicate 300 1)) 240 5"
  by (rule dhcp_parse_reply_bounds) simp

text \<open>
  What the client asks for can be read back: the options of a REQUEST, parsed by the
  same grammar, give message type 3 and the selected server, the fixed part carries the
  transaction id and hardware address, and the message is 261 bytes long.
\<close>

theorem dhcp_request_readable:
  assumes "256 \<le> dst_max" "length mac = 6"
  shows "\<exists>d. dhcp_build_request dst_max xid mac ip server = Some d \<and> length d = 261 \<and>
    dhcp_parse_opts (drop 240 d) (0, zero_lease) = Some (DHCP_REQUEST, zero_lease\<lparr>dl_server := server\<rparr>) \<and>
    net_ntohl (dm_xid (dhcp_msg_of d)) = xid \<and> take 6 (dm_chaddr (dhcp_msg_of d)) = mac"
proof -
  define m where "m = \<lparr>dm_op = DHCP_BOOTREQUEST, dm_htype = 1, dm_hlen = 6, dm_hops = 0,
    dm_xid = net_htonl xid, dm_secs = 0, dm_flags = net_htons 0x8000, dm_ciaddr = net_htonl 0,
    dm_yiaddr = 0, dm_siaddr = 0, dm_giaddr = 0, dm_chaddr = take 6 mac @ replicate 10 0,
    dm_sname = replicate 64 0, dm_file = replicate 128 0\<rparr>"
  let ?os = "[(DHCP_OPT_MSG_TYPE, [DHCP_REQUEST]), (DHCP_OPT_REQ_IP, be32_bytes ip),
    (DHCP_OPT_SERVER_ID, be32_bytes server),
    (DHCP_OPT_PARAM_REQ, [DHCP_OPT_SUBNET_MASK, DHCP_OPT_ROUTER, DHCP_OPT_LEASE_TIME])]"
  let ?d = "dhcp_msg_bytes m @ DHCP_MAGIC @ concat (map encode_opt ?os) @ [DHCP_OPT_END]"
  have wf: "dhcp_msg_wf m" using assms(2) by (simp add: m_def dhcp_msg_wf_def)
  have l: "length (dhcp_msg_bytes m) = 236"
    using length_dhcp_msg_bytes [OF wf] by (simp add: wire_defs)
  have prl: "opt_put c 3 [x, y, z] = encode_opt (c, [x, y, z])" for c x y z
    using opt_put_encode [of "[x, y, z]" c] by simp
  have "dhcp_build_request dst_max xid mac ip server = Some ?d"
    using assms(1)
    by (simp add: dhcp_build_request_def dhcp_build_common_def DHCP_MIN_PKT_def DHCP_FIXED_LEN_def
        opt_put_u8_encode opt_put_u32_encode prl m_def)
  moreover have "length ?d = 261" using l by (simp add: encode_opt_def wire_defs)
  moreover have "dhcp_msg_of ?d = m" by (rule dhcp_msg_of_bytes [OF wf])
  moreover have "dhcp_parse_opts (drop 240 ?d) (0, zero_lease)
      = Some (DHCP_REQUEST, zero_lease\<lparr>dl_server := server\<rparr>)"
  proof -
    have d: "drop 240 ?d = concat (map encode_opt ?os) @ [DHCP_OPT_END]"
      using l by (simp add: wire_defs)
    have wfo: "\<forall>cv \<in> set ?os. opt_wf cv" by (simp add: opt_wf_def wire_defs)
    show ?thesis
      unfolding d parse_encoded_opts [OF wfo] parse_opts_end
      by (simp add: apply_opts_def dhcp_apply_opt_def wire_defs)
  qed
  ultimately show ?thesis using assms(2) by (intro exI [of _ ?d]) (simp add: m_def)
qed

theorem dhcp_request_readable_witness:
  "\<exists>d. dhcp_build_request 512 7 [1, 2, 3, 4, 5, 6] 0x0A00020F 0x0A000202 = Some d \<and> length d = 261"
  using dhcp_request_readable [of 512 "[1, 2, 3, 4, 5, 6]" 7 "0x0A00020F" "0x0A000202"] by auto



end
