(* ===== verification/Dns_Msg.thy ===== *)
theory Dns_Msg
  imports Net_Checksum
begin

text \<open>
  The message codec of \<^verbatim>\<open>kernel/net/dns.c\<close>: names, the A query and the parser of replies.
  A host name is the list of its bytes without the terminating NUL; a pointer into it is a
  suffix of that list, a pointer into a packet an offset.
\<close>

section \<open>Definitions\<close>

definition DNS_MAX_PKT :: nat where [wire_defs]: "DNS_MAX_PKT = 512"

definition DOT :: u8 where [wire_defs]: "DOT = 46"

text \<open>
  The label loop: \<open>p\<close> is the rest of the name, \<open>off\<close> the bytes stored so far; the result is
  what the remaining iterations store.
\<close>

function dns_encode_loop :: "nat \<Rightarrow> bytes \<Rightarrow> nat \<Rightarrow> bytes option" where
  "dns_encode_loop mx p off =
     (if p = [] then Some []
      else let lab = length (takeWhile (\<lambda>c. c \<noteq> DOT) p) in
        if lab = 0 \<or> lab > 63 \<or> off + 1 + lab + 1 > mx then None
        else case dns_encode_loop mx (drop (lab + 1) p) (off + 1 + lab) of
          None \<Rightarrow> None
        | Some r \<Rightarrow> Some ([of_nat lab] @ take lab p @ r))"
  by pat_completeness auto
termination by (relation "measure (\<lambda>(mx, p, off). length p)") auto

declare dns_encode_loop.simps [simp del]

definition dns_encode_name :: "nat \<Rightarrow> bytes \<Rightarrow> bytes option" where
  "dns_encode_name mx name =
     (if mx < 2 then None
      else case dns_encode_loop mx name 0 of None \<Rightarrow> None | Some r \<Rightarrow> Some (r @ [0]))"

text \<open>The first argument counts the iterations \<^verbatim>\<open>hops\<close> still allows.\<close>

fun dns_skip_loop :: "nat \<Rightarrow> bytes \<Rightarrow> nat \<Rightarrow> nat \<Rightarrow> nat option" where
  "dns_skip_loop 0 pkt len off = None"
| "dns_skip_loop (Suc hops) pkt len off =
     (if off < len
      then let c = pkt ! off in
        if c = 0 then Some (off + 1)
        else if c AND 0xC0 = 0xC0 then (if off + 1 \<ge> len then None else Some (off + 2))
        else if off + 1 + unat c \<ge> len then None
        else dns_skip_loop hops pkt len (off + (1 + unat c))
      else None)"

definition dns_skip_name :: "bytes \<Rightarrow> nat \<Rightarrow> nat \<Rightarrow> nat option" where
  "dns_skip_name pkt len off = dns_skip_loop 64 pkt len off"

definition dns_build_query :: "nat \<Rightarrow> u16 \<Rightarrow> bytes \<Rightarrow> bytes option" where
  "dns_build_query dst_max ident name =
     (if dst_max < 18 then None
      else case dns_encode_name (dst_max - 16) name of
        None \<Rightarrow> None
      | Some n \<Rightarrow>
          Some ([ucast (drop_bit 8 ident AND 0xFF), ucast (ident AND 0xFF), 1, 0, 0, 1, 0, 0, 0, 0, 0, 0]
                @ n @ [0, 1, 0, 1]))"

definition be16_at :: "bytes \<Rightarrow> nat \<Rightarrow> u16" where
  "be16_at pkt off = push_bit 8 (ucast (pkt ! off)) OR ucast (pkt ! (off + 1))"

fun dns_answers :: "nat \<Rightarrow> bytes \<Rightarrow> nat \<Rightarrow> nat \<Rightarrow> u32 option" where
  "dns_answers 0 pkt len off = None"
| "dns_answers (Suc n) pkt len off =
     (case dns_skip_name pkt len off of
        None \<Rightarrow> None
      | Some off \<Rightarrow>
          if off + 10 > len then None
          else let qtype = be16_at pkt off; qclass = be16_at pkt (off + 2);
                   rdlen = be16_at pkt (off + 8); off = off + 10 in
            if off + unat rdlen > len then None
            else if qtype = 1 \<and> qclass = 1 \<and> rdlen = 4
            then Some (push_bit 24 (ucast (pkt ! off)) OR push_bit 16 (ucast (pkt ! (off + 1))) OR
                       push_bit 8 (ucast (pkt ! (off + 2))) OR ucast (pkt ! (off + 3)))
            else dns_answers n pkt len (off + unat rdlen))"

definition dns_parse_a :: "bytes \<Rightarrow> nat \<Rightarrow> u16 \<Rightarrow> u32 option" where
  "dns_parse_a pkt len expect_id =
     (if len < 12 then None
      else if be16_at pkt 0 \<noteq> expect_id then None
      else if (pkt ! 3) AND 0x0F \<noteq> 0 then None
      else let ancount = unat (be16_at pkt 6) in
        if ancount = 0 then None
        else case dns_skip_name pkt len 12 of
          None \<Rightarrow> None
        | Some off \<Rightarrow> if off + 4 > len then None else dns_answers ancount pkt len (off + 4))"

section \<open>Encoding names\<close>

text \<open>
  The labels of a name as written, the wire format of a list of labels, and the length
  bound the encoder enforces.
\<close>

definition wire_labels :: "bytes list \<Rightarrow> bytes" where
  "wire_labels ls = concat (map (\<lambda>l. of_nat (length l) # l) ls)"

fun join_labels :: "bytes list \<Rightarrow> bytes" where
  "join_labels [] = []"
| "join_labels [l] = l"
| "join_labels (l # ls) = l @ DOT # join_labels ls"

definition label_ok :: "bytes \<Rightarrow> bool" where
  "label_ok l \<longleftrightarrow> l \<noteq> [] \<and> length l \<le> 63 \<and> DOT \<notin> set l"

lemma length_wire_labels: "length (wire_labels ls) = sum_list (map (\<lambda>l. length l + 1) ls)"
  by (induction ls) (simp_all add: wire_labels_def)

lemma takeWhile_label:
  "DOT \<notin> set l \<Longrightarrow> takeWhile (\<lambda>c. c \<noteq> DOT) (l @ DOT # r) = l"
  "DOT \<notin> set l \<Longrightarrow> takeWhile (\<lambda>c. c \<noteq> DOT) l = l"
  by (auto simp: takeWhile_append takeWhile_eq_all_conv)

lemma dns_encode_labels:
  assumes "\<forall>l \<in> set ls. label_ok l" "off + length (wire_labels ls) + 1 \<le> mx"
  shows "dns_encode_loop mx (join_labels ls) off = Some (wire_labels ls)"
  using assms
proof (induction ls arbitrary: off rule: join_labels.induct)
  case 1
  then show ?case by (simp add: dns_encode_loop.simps wire_labels_def)
next
  case (2 l)
  then show ?case
    by (simp add: dns_encode_loop.simps [of _ l] dns_encode_loop.simps [of _ "[]"]
        wire_labels_def label_ok_def takeWhile_label Let_def)
next
  case (3 l l' ls)
  let ?r = "join_labels (l' # ls)"
  have l: "l \<noteq> []" "length l \<le> 63" "DOT \<notin> set l" using 3 by (auto simp: label_ok_def)
  have w: "wire_labels (l # l' # ls) = of_nat (length l) # l @ wire_labels (l' # ls)"
    by (simp add: wire_labels_def)
  have "dns_encode_loop mx ?r (off + 1 + length l) = Some (wire_labels (l' # ls))"
    using 3(2,3) by (intro 3(1)) (auto simp: w)
  moreover have "off + 1 + length l + 1 \<le> mx" using 3(3) by (simp add: w)
  ultimately show ?case
    using l by (subst dns_encode_loop.simps) (simp add: takeWhile_label w Let_def)
qed

lemma dns_encode_loop_length:
  "dns_encode_loop mx p off = Some r \<Longrightarrow> off + 1 \<le> mx \<Longrightarrow> off + length r + 1 \<le> mx"
proof (induction mx p off arbitrary: r rule: dns_encode_loop.induct)
  case (1 mx p off)
  show ?case
  proof (cases "p = []")
    case True
    then show ?thesis using 1(2,3) by (simp add: dns_encode_loop.simps)
  next
    case False
    let ?lab = "length (takeWhile (\<lambda>c. c \<noteq> DOT) p)"
    have g: "\<not> (?lab = 0 \<or> ?lab > 63 \<or> off + 1 + ?lab + 1 > mx)"
      using 1(2) False by (subst (asm) dns_encode_loop.simps) (auto simp: Let_def)
    then obtain r' where r': "dns_encode_loop mx (drop (?lab + 1) p) (off + 1 + ?lab) = Some r'"
        "r = [of_nat ?lab] @ take ?lab p @ r'"
      using 1(2) False by (subst (asm) dns_encode_loop.simps) (auto simp: Let_def split: option.splits)
    have "off + 1 + ?lab + length r' + 1 \<le> mx"
      using 1(1) [OF False refl g r'(1)] g by simp
    then show ?thesis using r'(2) length_takeWhile_le [of "\<lambda>c. c \<noteq> DOT" p] by simp
  qed
qed

lemma dns_encode_name_length: "dns_encode_name mx name = Some n \<Longrightarrow> length n \<le> mx"
  by (auto simp: dns_encode_name_def split: if_splits option.splits
      dest!: dns_encode_loop_length)

section \<open>Skipping names\<close>

lemma label_length_byte:
  assumes "0 < n" "n \<le> 63"
  shows "unat (of_nat n :: u8) = n" "(of_nat n :: u8) \<noteq> 0" "(of_nat n :: u8) AND 0xC0 \<noteq> 0xC0"
proof -
  show u: "unat (of_nat n :: u8) = n" using assms by (simp add: unat_of_nat)
  then show "(of_nat n :: u8) \<noteq> 0" using assms by (metis unat_0 less_irrefl)
  have "\<not> bit (of_nat n :: u8) 7"
  proof
    assume "bit (of_nat n :: u8) 7"
    then have "bit (unat (of_nat n :: u8)) 7" by (simp add: bit_unsigned_iff)
    then show False using assms u by (simp add: bit_iff_odd)
  qed
  moreover have "bit (0xC0 :: u8) 7" by simp
  ultimately show "(of_nat n :: u8) AND 0xC0 \<noteq> 0xC0" by (metis bit_and_iff)
qed

lemma skip64: "dns_skip_loop 64 = dns_skip_loop (Suc 63)"
  by simp

lemma dns_skip_labels:
  assumes "\<forall>l \<in> set ls. label_ok l" "length ls < hops"
    "length pre + length (wire_labels ls) + 1 \<le> len"
  shows "dns_skip_loop hops (pre @ wire_labels ls @ 0 # post) len (length pre)
    = Some (length pre + length (wire_labels ls) + 1)"
  using assms
proof (induction ls arbitrary: pre hops)
  case Nil
  then show ?case by (cases hops) (simp_all add: wire_labels_def)
next
  case (Cons l ls)
  obtain h where h: "hops = Suc h" using Cons.prems(2) by (cases hops) auto
  have l: "0 < length l" "length l \<le> 63" using Cons.prems(1) by (auto simp: label_ok_def)
  note b = label_length_byte [OF l]
  have w: "wire_labels (l # ls) = of_nat (length l) # l @ wire_labels ls"
    by (simp add: wire_labels_def)
  let ?pre = "pre @ of_nat (length l) # l"
  have "dns_skip_loop h (?pre @ wire_labels ls @ 0 # post) len (length ?pre)
      = Some (length ?pre + length (wire_labels ls) + 1)"
    using Cons.prems h by (intro Cons.IH) (auto simp: w)
  then show ?case using Cons.prems(3) b by (simp add: h w nth_append add.commute add.left_commute)
qed

section \<open>Reads stay inside the packet\<close>

definition same_upto :: "nat \<Rightarrow> bytes \<Rightarrow> bytes \<Rightarrow> bool" where
  "same_upto len p q \<longleftrightarrow> (\<forall>i < len. p ! i = q ! i)"

lemma dns_skip_loop_same:
  "same_upto len p q \<Longrightarrow> dns_skip_loop hops p len off = dns_skip_loop hops q len off"
  by (induction hops p len off rule: dns_skip_loop.induct) (auto simp: same_upto_def Let_def)

lemma be16_at_same: "same_upto len p q \<Longrightarrow> off + 2 \<le> len \<Longrightarrow> be16_at p off = be16_at q off"
  by (simp add: be16_at_def same_upto_def)

lemma be16_of_bytes: "push_bit 8 (ucast (ucast (drop_bit 8 x) :: u8)) OR ucast (ucast x :: u8) = x"
  for x :: u16
  by (rule u16_eqI_bytes) (auto simp: bit_simps)

lemma dns_answers_same:
  "same_upto len p q \<Longrightarrow> dns_answers n p len off = dns_answers n q len off"
proof (induction n arbitrary: off)
  case (Suc n)
  show ?case
  proof (cases "dns_skip_name q len off")
    case None
    then show ?thesis using dns_skip_loop_same [OF Suc.prems] by (simp add: dns_skip_name_def)
  next
    case (Some o1)
    have s: "dns_skip_name p len off = Some o1"
      using Some dns_skip_loop_same [OF Suc.prems] by (simp add: dns_skip_name_def)
    show ?thesis
    proof (cases "o1 + 10 > len")
      case True
      then show ?thesis using Some s by simp
    next
      case False
      then have e: "be16_at p o1 = be16_at q o1" "be16_at p (o1 + 2) = be16_at q (o1 + 2)"
          "be16_at p (o1 + 8) = be16_at q (o1 + 8)"
        using Suc.prems by (auto intro!: be16_at_same [of len])
      have b: "p ! i = q ! i" if "i < len" for i using Suc.prems that by (simp add: same_upto_def)
      show ?thesis
        using False Some s e Suc.IH [OF Suc.prems] b by (auto simp: Let_def)
    qed
  qed
qed simp

section \<open>Properties\<close>

text \<open>
  The reply parser reads only the bytes received: whatever lies behind them has no
  influence on the result. In particular no compression pointer, label length, answer count
  or record length in a hostile reply takes it out of the packet, and it returns on all of
  them.
\<close>

theorem dns_parse_a_bounds:
  assumes "len \<le> length pkt"
  shows "dns_parse_a (pkt @ junk) len ident = dns_parse_a (take len pkt) len ident"
proof -
  have s: "same_upto len (pkt @ junk) (take len pkt)"
    using assms by (auto simp: same_upto_def nth_append)
  have k: "dns_skip_name (pkt @ junk) len 12 = dns_skip_name (take len pkt) len 12"
    unfolding dns_skip_name_def by (rule dns_skip_loop_same [OF s])
  show ?thesis
  proof (cases "len < 12")
    case False
    then have "be16_at (pkt @ junk) 0 = be16_at (take len pkt) 0"
      "be16_at (pkt @ junk) 6 = be16_at (take len pkt) 6"
      "(pkt @ junk) ! 3 = take len pkt ! 3"
      using s be16_at_same [OF s] by (auto simp: same_upto_def)
    then show ?thesis unfolding dns_parse_a_def k dns_answers_same [OF s] by simp
  qed (simp add: dns_parse_a_def)
qed

theorem dns_parse_a_bounds_witness:
  "dns_parse_a (replicate 40 0xC0 @ [1]) 20 7 = dns_parse_a (take 20 (replicate 40 0xC0)) 20 7"
  by (rule dns_parse_a_bounds) simp

text \<open>
  A query is well-formed: for a name of at most 63 labels the packet has the question
  section's layout (identifier, one question, the labels of the name with their lengths,
  type A, class IN), never exceeds \<open>dst_max\<close>, and the kernel's own name skipper lands
  exactly on the question type.
\<close>

theorem dns_query_layout:
  assumes "\<forall>l \<in> set ls. label_ok l" "length ls \<le> 63"
    and "length (wire_labels ls) + 17 \<le> dst_max" "18 \<le> dst_max"
  shows "\<exists>q. dns_build_query dst_max ident (join_labels ls) = Some q \<and> length q \<le> dst_max \<and>
    be16_at q 0 = ident \<and> be16_at q 4 = 1 \<and>
    mem_get q 12 (length (wire_labels ls) + 1) = wire_labels ls @ [0] \<and>
    dns_skip_name q (length q) 12 = Some (length q - 4) \<and>
    be16_at q (length q - 4) = 1 \<and> be16_at q (length q - 2) = 1"
proof -
  let ?h = "[ucast (drop_bit 8 ident), ucast ident, 1, 0, 0, 1, 0, 0, 0, 0, 0, 0] :: bytes"
  let ?n = "length (wire_labels ls)"
  define q where "q = ?h @ wire_labels ls @ 0 # [0, 1, 0, 1]"
  have l: "length q = 17 + ?n" by (simp add: q_def)
  have e: "dns_encode_loop (dst_max - 16) (join_labels ls) 0 = Some (wire_labels ls)"
    using assms by (intro dns_encode_labels) auto
  have "dns_build_query dst_max ident (join_labels ls) = Some q"
    using assms(3,4) e by (simp add: dns_build_query_def dns_encode_name_def q_def)
  moreover have "be16_at q 0 = ident"
    by (simp add: q_def be16_at_def be16_of_bytes)
  moreover have "dns_skip_name q (length q) 12 = Some (13 + ?n)"
  proof -
    have "dns_skip_loop 64 q (length q) (length ?h) = Some (length ?h + ?n + 1)"
      unfolding q_def using assms(1,2) by (intro dns_skip_labels) auto
    moreover have "length ?h = 12" by simp
    ultimately show ?thesis unfolding dns_skip_name_def by (simp only:) simp
  qed
  moreover have "be16_at q (13 + ?n) = 1" "be16_at q (15 + ?n) = 1"
    by (simp_all add: q_def be16_at_def nth_append numeral_eq_Suc)
  moreover have "mem_get q 12 (?n + 1) = wire_labels ls @ [0]" by (simp add: q_def mem_get_def)
  moreover have "be16_at q 4 = 1" by (simp add: q_def be16_at_def)
  ultimately show ?thesis using assms(3) l by (intro exI [of _ q]) simp
qed

theorem dns_query_layout_witness:
  "\<exists>q. dns_build_query 512 7 [97, 46, 98] = Some q \<and> be16_at q 0 = 7 \<and> length q \<le> 512"
  using dns_query_layout [of "[[97], [98]]" 512 7]
  by (auto simp: label_ok_def wire_labels_def wire_defs)

text \<open>A reply to the query for \<open>ls\<close> with one compressed answer record of type A.\<close>

definition dns_reply :: "u16 \<Rightarrow> u8 \<Rightarrow> bytes list \<Rightarrow> bytes \<Rightarrow> u32 \<Rightarrow> bytes" where
  "dns_reply ident flags ls ttl ip =
     [ucast (drop_bit 8 ident), ucast ident, flags, 0x80, 0, 1, 0, 1, 0, 0, 0, 0] @
     wire_labels ls @ 0 # [0, 1, 0, 1] @ [0xC0, 12, 0, 1, 0, 1] @ ttl @ [0, 4] @
     [ucast (drop_bit 24 ip), ucast (drop_bit 16 ip), ucast (drop_bit 8 ip), ucast ip]"

text \<open>
  Resolution: a reply that repeats the question and answers it with one A record, name
  compressed, is parsed to the address in the record, for every address, identifier, name
  of at most 63 labels and time to live; with any other identifier it is rejected.
\<close>

theorem dns_reply_parsed:
  fixes ident :: u16 and flags :: u8 and ip :: u32
  assumes "\<forall>l \<in> set ls. label_ok l" "length ls \<le> 63" "length ttl = 4"
  defines "r \<equiv> dns_reply ident flags ls ttl ip"
  shows "dns_parse_a r (length r) expect = (if expect = ident then Some ip else None)"
proof -
  let ?n = "length (wire_labels ls)"
  let ?h = "[ucast (drop_bit 8 ident), ucast ident, flags, 0x80, 0, 1, 0, 1, 0, 0, 0, 0] :: bytes"
  obtain t0 t1 t2 t3 where ttl: "ttl = [t0, t1, t2, t3]"
    using assms(3) by (auto simp: length_Suc_conv numeral_eq_Suc)
  have l: "length r = 33 + ?n" by (simp add: r_def dns_reply_def ttl)
  have lh: "length ?h = 12" by simp
  have "dns_skip_loop 64 r (length r) (length ?h) = Some (length ?h + ?n + 1)"
    unfolding r_def dns_reply_def using assms(1,2) by (intro dns_skip_labels) auto
  then have s: "dns_skip_name r (length r) 12 = Some (13 + ?n)"
    unfolding dns_skip_name_def lh by simp
  let ?pre = "?h @ wire_labels ls"
  let ?tail = "[0, 0, 1, 0, 1, 0xC0, 12, 0, 1, 0, 1, t0, t1, t2, t3, 0, 4,
     ucast (drop_bit 24 ip), ucast (drop_bit 16 ip), ucast (drop_bit 8 ip), ucast ip] :: bytes"
  have r: "r = ?pre @ ?tail" by (simp add: r_def dns_reply_def ttl)
  have lp: "length ?pre = 12 + ?n" by simp
  have at: "r ! (12 + ?n + k) = ?tail ! k" for k
    unfolding r lp [symmetric] by (rule nth_append_length_plus)
  have f: "be16_at r (19 + ?n) = 1" "be16_at r (21 + ?n) = 1" "be16_at r (27 + ?n) = 4"
      "r ! (17 + ?n) = 0xC0"
    using at [of 7] at [of 8] at [of 9] at [of 10] at [of 15] at [of 16] at [of 5]
    by (simp_all add: be16_at_def)
  have a: "r ! (29 + ?n) = ucast (drop_bit 24 ip)" "r ! (30 + ?n) = ucast (drop_bit 16 ip)"
      "r ! (31 + ?n) = ucast (drop_bit 8 ip)" "r ! (32 + ?n) = ucast ip"
    using at [of 17] at [of 18] at [of 19] at [of 20] by simp_all
  have h: "be16_at r 0 = ident" "be16_at r 6 = 1" "r ! 3 AND 0x0F = 0"
    by (simp_all add: r be16_at_def be16_of_bytes)
  have k: "dns_skip_name r (length r) (17 + ?n) = Some (19 + ?n)"
    unfolding dns_skip_name_def skip64 dns_skip_loop.simps using f(4) l by (simp add: Let_def)
  have ip: "push_bit 24 (ucast (r ! (29 + ?n))) OR push_bit 16 (ucast (r ! (30 + ?n))) OR
      push_bit 8 (ucast (r ! (31 + ?n))) OR ucast (r ! (32 + ?n)) = ip"
    unfolding a using le32_of_bytes [of ip] by (simp add: le32_of_def le32_bytes_def or.commute or.left_commute)
  have e: "19 + ?n + 2 = 21 + ?n" "19 + ?n + 8 = 27 + ?n" "19 + ?n + 10 = 29 + ?n"
      "29 + ?n + 1 = 30 + ?n" "29 + ?n + 2 = 31 + ?n" "29 + ?n + 3 = 32 + ?n" by simp_all
  have "dns_answers (Suc 0) r (length r) (17 + ?n) = Some ip"
    unfolding dns_answers.simps k option.case Let_def e f(1-3) ip using l by simp
  then show ?thesis
    using s h l by (simp add: dns_parse_a_def)
qed

theorem dns_reply_parsed_witness:
  "\<exists>r. dns_parse_a r (length r) 0xD500 = Some 0x08080808"
  using dns_reply_parsed [of "[[103], [99, 111, 109]]" "[0, 0, 0, 60]" "0xD500" "0x81" "0x08080808" "0xD500"]
  by (auto simp: label_ok_def wire_defs)

end
