(* ===== verification/Net_State.thy ===== *)
theory Net_State
  imports Pbuf Arp Net_Headers Inet_Config Dhcp_Msg Dns_Msg
begin

text \<open>
  The state of the network stack: the packet-buffer pool, extended by the static variables
  of each source file of \<^verbatim>\<open>kernel/net/\<close> (one record per file) and by the variables of the
  virtio network driver. Pointers to interfaces, connection blocks and sockets are indices,
  a null pointer is \<open>None\<close>.

  The theory holds the invariant of that state and the calculus used by all the handlers:
  \<open>trip P C s s'\<close> says that a piece of code that turns \<open>s\<close> into \<open>s'\<close> under the condition
  \<open>P\<close> keeps the invariant, touches no memory out of bounds, and leaves every allocated
  buffer except those in \<open>C\<close> as it was.
\<close>

section \<open>The records\<close>

record netif =
  nif_mac :: bytes
  nif_ip :: u32
  nif_netmask :: u32
  nif_gateway :: u32
  nif_mtu :: u16
  nif_link_up :: u8
  nif_configured :: u8
  nif_dev :: "nat option"
  nif_arp :: arp_cache

record icmp_vars =
  ping_waiting :: bool
  ping_id :: u16
  ping_seq :: u16
  ping_src :: u32

record udp_vars =
  udp_wait :: bool
  udp_wait_sport :: u16
  udp_wait_dport :: u16
  udp_wait_payload :: bytes
  udp_wait_plen :: u32

record dns_vars =
  dns_waiting :: bool
  dns_rx :: bytes
  dns_rx_len :: u32
  dns_wait_port :: u16

datatype dhcp_st = DHCP_ST_INIT | DHCP_ST_BOUND | DHCP_ST_RENEWING | DHCP_ST_REBINDING

record dhcp_vars =
  dhcp_waiting :: bool
  dhcp_rx :: bytes
  dhcp_rx_len :: u32
  dhcp_active :: dhcp_lease
  dhcp_have_lease :: bool
  dhcp_state :: dhcp_st
  dhcp_t1_abs :: u32
  dhcp_t2_abs :: u32
  dhcp_lease_abs :: u32

datatype tcp_state = TCP_CLOSED | TCP_LISTEN | TCP_SYN_SENT | TCP_SYN_RCVD | TCP_ESTABLISHED
  | TCP_FIN_WAIT_1 | TCP_CLOSE_WAIT | TCP_LAST_ACK

record tcp_pcb =
  pc_state :: tcp_state
  pc_echo :: bool
  pc_in_use :: bool
  pc_pending_accept :: bool
  pc_local_port :: u16
  pc_remote_port :: u16
  pc_remote_ip :: u32
  pc_snd_una :: u32
  pc_snd_nxt :: u32
  pc_rcv_nxt :: u32
  pc_iss :: u32
  pc_rx_buf :: bytes
  pc_rx_len :: u32
  pc_una_buf :: bytes
  pc_una_len :: u32
  pc_una_seq :: u32
  pc_rto_deadline :: u32
  pc_rto_ticks :: u32
  pc_parent :: "nat option"
  pc_nif :: "nat option"

text \<open>
  \<open>pcbs_addr\<close> is the address of the array \<^verbatim>\<open>pcbs\<close>, from which the code derives initial
  sequence numbers. \<open>una_wrapped\<close> is no variable of the program: it records that the
  subtraction that takes back a failed send has wrapped around the unacknowledged length of
  a connection.
\<close>

record tcp_vars =
  pcbs :: "tcp_pcb list"
  ephemeral :: u16
  g_rexmit_count :: u32
  g_drop_next_data :: bool
  pcbs_addr :: u32
  una_wrapped :: bool

datatype sock_type = SOCK_TCP | SOCK_UDP

record sock =
  sk_type :: sock_type
  sk_listening :: bool
  sk_bound :: bool
  sk_refs :: int
  sk_local_port :: u16
  sk_local_ip :: u32
  sk_peer_ip :: u32
  sk_peer_port :: u16
  sk_pcb :: "nat option"
  sk_nif :: "nat option"
  sk_rx_buf :: bytes
  sk_rx_len :: u32
  sk_rx_from_ip :: u32
  sk_rx_from_port :: u16

record sock_vars =
  socks :: "nat \<Rightarrow> sock option"
  udp_socks :: "nat option list"
  udp_eph :: u16

record softnet_vars =
  softnet_started :: bool
  softnet_ticks_done :: u32
  softnet_last_dhcp_secs :: u32

text \<open>
  The virtio network driver: two queues, each with its descriptors, the ring of descriptors
  offered to the device, the buffers and a flag per descriptor, and the frames harvested but
  not yet delivered. What the device does is an input: for every harvest of a queue, the index
  and the ring it has published (with each element, the contents of the buffer the element
  names) and the timer ticks that have gone by. A device that has published nothing more is an
  empty list.
\<close>

record vdesc =
  vd_len :: u32
  vd_flags :: u16

record vnet_queue =
  vq_desc :: "vdesc list"
  vq_avail :: "u16 list"
  vq_qsize :: u16
  vq_avail_idx :: u16
  vq_last_used :: u16
  vq_bufs :: "bytes list"
  vq_free :: "bool list"

record used_elem =
  ue_id :: u32
  ue_len :: u32
  ue_buf :: bytes

record used_view =
  uv_idx :: u16
  uv_ring :: "used_elem list"
  uv_elapsed :: u32

record vnet_vars =
  vnet_ready :: bool
  vn_mac :: bytes
  vn_has_status :: bool
  vn_status :: u16
  vn_rx :: vnet_queue
  vn_tx :: vnet_queue
  vnet_rx_pending :: "nat list"
  vn_rx_dev :: "used_view list"
  vn_tx_dev :: "used_view list"

record net = pbuf_state +
  nifs :: "nat \<Rightarrow> netif"
  g_default_netif :: "nat option"
  ticks :: u32
  time_count :: u32
  ipv4_id_counter :: u16
  icmp_v :: icmp_vars
  udp_v :: udp_vars
  dns_v :: dns_vars
  dhcp_v :: dhcp_vars
  tcp_v :: tcp_vars
  sock_v :: sock_vars
  softnet_v :: softnet_vars
  vnet_v :: vnet_vars

section \<open>The invariant\<close>

definition TCP_PCB_MAX :: nat where "TCP_PCB_MAX = 8"
definition TCP_RX_MAX :: nat where "TCP_RX_MAX = 1024"
definition TCP_UNA_MAX :: nat where "TCP_UNA_MAX = 2048"
definition SOCK_UDP_RX_MAX :: nat where "SOCK_UDP_RX_MAX = 512"
definition SOCK_UDP_SLOTS :: nat where "SOCK_UDP_SLOTS = 8"
definition DHCP_RX_SIZE :: nat where "DHCP_RX_SIZE = 576"
definition UDP_WAIT_SIZE :: nat where "UDP_WAIT_SIZE = 64"

definition netif_ok :: "netif \<Rightarrow> bool" where
  "netif_ok n \<longleftrightarrow> length (nif_mac n) = ETH_ADDR_LEN \<and> arp_inv (nif_arp n)"

definition pcb_ok :: "tcp_pcb \<Rightarrow> bool" where
  "pcb_ok c \<longleftrightarrow> length (pc_rx_buf c) = TCP_RX_MAX \<and> unat (pc_rx_len c) \<le> TCP_RX_MAX \<and>
     length (pc_una_buf c) = TCP_UNA_MAX \<and> unat (pc_una_len c) \<le> TCP_UNA_MAX"

definition tcp_ok :: "tcp_vars \<Rightarrow> bool" where
  "tcp_ok t \<longleftrightarrow> length (pcbs t) = TCP_PCB_MAX \<and> (\<forall>c \<in> set (pcbs t). pcb_ok c)"

definition udp_ok :: "udp_vars \<Rightarrow> bool" where
  "udp_ok u \<longleftrightarrow> length (udp_wait_payload u) = UDP_WAIT_SIZE \<and> unat (udp_wait_plen u) \<le> UDP_WAIT_SIZE"

definition dns_ok :: "dns_vars \<Rightarrow> bool" where
  "dns_ok d \<longleftrightarrow> length (dns_rx d) = DNS_MAX_PKT \<and> unat (dns_rx_len d) \<le> DNS_MAX_PKT"

definition dhcp_ok :: "dhcp_vars \<Rightarrow> bool" where
  "dhcp_ok d \<longleftrightarrow> length (dhcp_rx d) = DHCP_RX_SIZE \<and> unat (dhcp_rx_len d) \<le> DHCP_RX_SIZE"

definition sk_ok :: "sock \<Rightarrow> bool" where
  "sk_ok s \<longleftrightarrow> length (sk_rx_buf s) = SOCK_UDP_RX_MAX \<and> unat (sk_rx_len s) \<le> SOCK_UDP_RX_MAX \<and>
     (\<forall>i. sk_pcb s = Some i \<longrightarrow> i < TCP_PCB_MAX)"

definition sock_ok :: "sock_vars \<Rightarrow> bool" where
  "sock_ok v \<longleftrightarrow> length (udp_socks v) = SOCK_UDP_SLOTS \<and>
     (\<forall>i. Some i \<in> set (udp_socks v) \<longrightarrow> socks v i \<noteq> None) \<and>
     (\<forall>i s. socks v i = Some s \<longrightarrow> sk_ok s)"

definition VNET_QUEUE_MAX :: nat where "VNET_QUEUE_MAX = 32"
definition VIRTIO_QUEUE_MAX :: nat where "VIRTIO_QUEUE_MAX = 128"
definition SIZEOF_VIRTIO_NET_HDR :: nat where "SIZEOF_VIRTIO_NET_HDR = 12"
definition VNET_BUF_SIZE :: nat where "VNET_BUF_SIZE = SIZEOF_VIRTIO_NET_HDR + ETH_MAX_FRAME"

definition vq_ok :: "vnet_queue \<Rightarrow> bool" where
  "vq_ok q \<longleftrightarrow> 0 < vq_qsize q \<and> unat (vq_qsize q) \<le> VNET_QUEUE_MAX \<and>
     length (vq_desc q) = unat (vq_qsize q) \<and> length (vq_avail q) = VIRTIO_QUEUE_MAX \<and>
     length (vq_free q) = VNET_QUEUE_MAX \<and> length (vq_bufs q) = unat (vq_qsize q) \<and>
     (\<forall>b \<in> set (vq_bufs q). length b = VNET_BUF_SIZE)"

text \<open>Between two calls of the stack no harvested frame waits for delivery.\<close>

definition vnet_ok :: "vnet_vars \<Rightarrow> bool" where
  "vnet_ok v \<longleftrightarrow> (vnet_ready v \<longrightarrow> vq_ok (vn_rx v) \<and> vq_ok (vn_tx v)) \<and> vnet_rx_pending v = []"

definition net_inv :: "net \<Rightarrow> bool" where
  "net_inv st \<longleftrightarrow> pbuf_inv st \<and> (\<forall>k. netif_ok (nifs st k)) \<and> udp_ok (udp_v st) \<and>
     dns_ok (dns_v st) \<and> dhcp_ok (dhcp_v st) \<and> tcp_ok (tcp_v st) \<and> sock_ok (sock_v st) \<and>
     vnet_ok (vnet_v st)"

section \<open>Frames of field updates and of pool operations\<close>

lemma more_fields:
  assumes "pbuf_state.more (st' :: net) = pbuf_state.more st"
  shows "nifs st' = nifs st \<and> g_default_netif st' = g_default_netif st \<and> ticks st' = ticks st \<and>
    time_count st' = time_count st \<and> ipv4_id_counter st' = ipv4_id_counter st \<and>
    icmp_v st' = icmp_v st \<and> udp_v st' = udp_v st \<and> dns_v st' = dns_v st \<and> dhcp_v st' = dhcp_v st \<and>
    tcp_v st' = tcp_v st \<and> sock_v st' = sock_v st \<and> softnet_v st' = softnet_v st \<and>
    vnet_v st' = vnet_v st"
  using assms by (cases st; cases st') simp

lemma pbuf_init_slot_more [simp]: "pbuf_state.more (pbuf_init_slot i st) = pbuf_state.more st"
  by (simp add: pbuf_init_slot_def set_pb_def)

lemma fold_init_more [simp]: "pbuf_state.more (fold pbuf_init_slot is st) = pbuf_state.more st"
  by (induction "is" arbitrary: st) simp_all

lemma pbuf_alloc_more: "pbuf_state.more (snd (pbuf_alloc n st)) = pbuf_state.more st"
  by (simp add: pbuf_alloc_def pbuf_pool_init_def Let_def set_pb_def split: option.splits)

lemma pbuf_free_more: "pbuf_state.more (pbuf_free p st) = pbuf_state.more st"
  by (simp add: pbuf_free_def Let_def set_pb_def split: option.splits)

lemma pb_write_more: "pbuf_state.more (pb_write i off bs st) = pbuf_state.more st"
  by (simp add: pb_write_def set_pb_def)

lemma pb_set_len_more: "pbuf_state.more (pb_set_len i n st) = pbuf_state.more st"
  by (simp add: pb_set_len_def set_pb_def)

lemmas pool_more = pbuf_alloc_more pbuf_free_more pb_write_more pb_set_len_more

text \<open>\<open>same_vars\<close>: nothing of the stack's own variables has changed.\<close>

definition same_vars :: "net \<Rightarrow> net \<Rightarrow> bool" where
  "same_vars st st' \<longleftrightarrow> nifs st' = nifs st \<and> g_default_netif st' = g_default_netif st \<and>
    ticks st' = ticks st \<and> time_count st' = time_count st \<and>
    ipv4_id_counter st' = ipv4_id_counter st \<and> icmp_v st' = icmp_v st \<and> udp_v st' = udp_v st \<and>
    dns_v st' = dns_v st \<and> dhcp_v st' = dhcp_v st \<and> tcp_v st' = tcp_v st \<and> sock_v st' = sock_v st \<and>
    softnet_v st' = softnet_v st \<and> (vnet_ok (vnet_v st) \<longrightarrow> vnet_ok (vnet_v st'))"

lemma same_vars_refl [simp]: "same_vars st st"
  by (simp add: same_vars_def)

lemma same_vars_trans: "same_vars s s1 \<Longrightarrow> same_vars s1 s2 \<Longrightarrow> same_vars s s2"
  by (simp add: same_vars_def)

lemma same_vars_more: "pbuf_state.more (st' :: net) = pbuf_state.more st \<Longrightarrow> same_vars st st'"
  using more_fields [of st' st] by (simp add: same_vars_def)

lemma same_vars_pool:
  "same_vars st (snd (pbuf_alloc n st))" "same_vars st (pbuf_free p st)"
  "same_vars st (pb_write i off bs st)" "same_vars st (pb_set_len i len st)"
  "same_vars st (ub_unless ok st)"
  by (rule same_vars_more, simp add: pool_more)+

lemmas same_vars_step = same_vars_pool [THEN [2] same_vars_trans]

lemma alloc_same_vars: "pbuf_alloc n st = (r, st') \<Longrightarrow> same_vars st st'"
  using same_vars_pool(1) [of st n] by simp

lemma net_inv_same: "same_vars st st' \<Longrightarrow> net_inv st \<Longrightarrow> pbuf_inv st' \<Longrightarrow> net_inv st'"
  by (simp add: same_vars_def net_inv_def)

lemma net_inv_pbuf: "net_inv st \<Longrightarrow> pbuf_inv st"
  by (simp add: net_inv_def)

section \<open>The calculus of handlers\<close>

definition wrapped :: "net \<Rightarrow> bool" where
  "wrapped st \<longleftrightarrow> una_wrapped (tcp_v st)"

definition sound :: "net \<Rightarrow> bool" where
  "sound st \<longleftrightarrow> net_inv st \<and> \<not> mem_fault st"

text \<open>
  What no handler changes. It creates, destroys and rebinds no socket, it changes at most the
  datagram queued on one. Of an interface it changes at most the ARP cache, and of the DHCP
  client at most the reply that the client is waiting for.
\<close>

definition sk_key :: "sock \<Rightarrow> sock" where
  "sk_key s = s\<lparr>sk_rx_buf := [], sk_rx_len := 0, sk_rx_from_ip := 0, sk_rx_from_port := 0\<rparr>"

definition nif_key :: "netif \<Rightarrow> netif" where
  "nif_key n = n\<lparr>nif_arp := []\<rparr>"

definition dhcp_key :: "dhcp_vars \<Rightarrow> dhcp_vars" where
  "dhcp_key d = d\<lparr>dhcp_waiting := False, dhcp_rx := [], dhcp_rx_len := 0\<rparr>"

definition var_frame :: "net \<Rightarrow> net \<Rightarrow> bool" where
  "var_frame s s' \<longleftrightarrow> udp_socks (sock_v s') = udp_socks (sock_v s) \<and>
     udp_eph (sock_v s') = udp_eph (sock_v s) \<and>
     (\<forall>j. map_option sk_key (socks (sock_v s') j) = map_option sk_key (socks (sock_v s) j)) \<and>
     (\<forall>k. nif_key (nifs s' k) = nif_key (nifs s k)) \<and> dhcp_key (dhcp_v s') = dhcp_key (dhcp_v s) \<and>
     time_count s' = time_count s"

lemma var_frame_refl [simp]: "var_frame s s"
  by (simp add: var_frame_def)

lemma var_frame_trans: "var_frame s s1 \<Longrightarrow> var_frame s1 s2 \<Longrightarrow> var_frame s s2"
  by (simp add: var_frame_def)

lemma var_frame_same:
  "sock_v s' = sock_v s \<Longrightarrow> nifs s' = nifs s \<Longrightarrow> dhcp_v s' = dhcp_v s \<Longrightarrow> time_count s' = time_count s \<Longrightarrow>
   var_frame s s'"
  by (simp add: var_frame_def)

definition trip :: "bool \<Rightarrow> nat set \<Rightarrow> net \<Rightarrow> net \<Rightarrow> bool" where
  "trip P C s s' \<longleftrightarrow> var_frame s s' \<and> (wrapped s \<longrightarrow> wrapped s') \<and>
     (P \<and> sound s \<longrightarrow> wrapped s' \<or> sound s' \<and> keeps C s s')"

lemma trip_refl [simp]: "trip P C s s"
  by (simp add: trip_def)

lemma trip_seq:
  assumes "trip P C s s1" "trip Q C s1 s2"
    and "P \<Longrightarrow> sound s \<Longrightarrow> sound s1 \<Longrightarrow> keeps C s s1 \<Longrightarrow> Q"
  shows "trip P C s s2"
  using assms keeps_trans var_frame_trans [of s s1 s2] by (auto simp: trip_def)

lemma trip_chain:
  assumes "trip P C s s1" "trip Q D s1 s2"
    and "P \<Longrightarrow> sound s \<Longrightarrow> sound s1 \<Longrightarrow> keeps C s s1 \<Longrightarrow> Q"
  shows "trip P (C \<union> D) s s2"
  using assms keeps_chain var_frame_trans [of s s1 s2] by (auto simp: trip_def)

lemma trip_weaken: "trip P C s s' \<Longrightarrow> C \<subseteq> D \<Longrightarrow> (Q \<Longrightarrow> sound s \<Longrightarrow> P) \<Longrightarrow> trip Q D s s'"
  using keeps_mono by (auto simp: trip_def)

lemma trip_fresh:
  "trip P (insert i C) s s' \<Longrightarrow> (P \<Longrightarrow> sound s \<Longrightarrow> \<not> live s i) \<Longrightarrow> trip P C s s'"
  using keeps_fresh by (auto simp: trip_def)

lemma trip_fresh_set:
  "trip P (C \<union> D) s s' \<Longrightarrow> (P \<Longrightarrow> sound s \<Longrightarrow> \<forall>i \<in> D. \<not> live s i) \<Longrightarrow> trip P C s s'"
  by (auto simp: trip_def keeps_def)

lemma trip_True: "trip True C s s' \<Longrightarrow> trip P C s s'"
  by (simp add: trip_def)

text \<open>An update of the stack's variables that leaves the pool alone.\<close>

lemma trip_vars:
  assumes "pbuf_pool s' = pbuf_pool s" "pbuf_free_list s' = pbuf_free_list s"
    "pbuf_inited s' = pbuf_inited s" "mem_fault s' = mem_fault s"
    and "wrapped s \<Longrightarrow> wrapped s'"
    and "P \<Longrightarrow> net_inv s \<Longrightarrow> pbuf_inv s' \<Longrightarrow> net_inv s'"
    and "var_frame s s'"
  shows "trip P C s s'"
proof -
  have "pbuf_inv s' = pbuf_inv s" using assms(1-3) by (rule pbuf_inv_cong)
  moreover have "keeps C s s'" using assms(1) by (simp add: keeps_def live_def pb_same_def)
  ultimately show ?thesis using assms(4-7) by (auto simp: trip_def sound_def net_inv_pbuf)
qed

lemma trip_same:
  assumes "same_vars s s'" and "P \<Longrightarrow> sound s \<Longrightarrow> pbuf_inv s' \<and> \<not> mem_fault s' \<and> keeps C s s'"
  shows "trip P C s s'"
  using assms net_inv_same [OF assms(1)] var_frame_same [of s' s]
  by (auto simp: trip_def sound_def wrapped_def same_vars_def)

lemma trip_alloc: "trip P {} s (snd (pbuf_alloc n s))"
proof (rule trip_same [OF same_vars_pool(1)])
  assume "sound s"
  then have inv: "pbuf_inv s" and nf: "\<not> mem_fault s" by (simp_all add: sound_def net_inv_def)
  show "pbuf_inv (snd (pbuf_alloc n s)) \<and> \<not> mem_fault (snd (pbuf_alloc n s)) \<and>
      keeps {} s (snd (pbuf_alloc n s))"
    by (rule pbuf_alloc_cases [OF inv, of n]) (use nf in auto)
qed

lemma trip_allocD: "pbuf_alloc n s = (r, s') \<Longrightarrow> trip P {} s s'"
  using trip_alloc [of P s n] by simp

lemma trip_free: "trip (\<forall>i. p = Some i \<longrightarrow> live s i) (set_option p) s (pbuf_free p s)"
proof (rule trip_same [OF same_vars_pool(2)])
  assume "\<forall>i. p = Some i \<longrightarrow> live s i" "sound s"
  then show "pbuf_inv (pbuf_free p s) \<and> \<not> mem_fault (pbuf_free p s) \<and>
      keeps (set_option p) s (pbuf_free p s)"
    using pbuf_free_live [of s] by (cases p) (auto simp: sound_def net_inv_def)
qed

lemma trip_write: "trip (live s i \<and> off + length bs \<le> PBUF_SIZE) {i} s (pb_write i off bs s)"
  using pb_write_live [of s i off bs]
  by (intro trip_same [OF same_vars_pool(3)]) (auto simp: sound_def net_inv_def)

lemma trip_set_len: "trip (live s i \<and> unat n \<le> PBUF_SIZE) {i} s (pb_set_len i n s)"
  using pb_set_len_live [of s i n]
  by (intro trip_same [OF same_vars_pool(4)]) (auto simp: sound_def net_inv_def)

lemma trip_ub: "trip ok C s (ub_unless ok s)"
  by (rule trip_same [OF same_vars_pool(5)]) (auto simp: sound_def net_inv_def)

lemma trip_trans: "trip P C s s1 \<Longrightarrow> trip P C s1 s2 \<Longrightarrow> trip P C s s2"
  by (rule trip_seq)

lemma trip_ub_if: "(P \<Longrightarrow> sound s \<Longrightarrow> ok) \<Longrightarrow> trip P C s (ub_unless ok s)"
  by (rule trip_weaken [OF trip_ub]) auto

text \<open>A handler opens with a check of an access that is within bounds.\<close>

lemma trip_guard:
  "trip P C (ub_unless ok s) s' \<Longrightarrow> (P \<Longrightarrow> sound s \<Longrightarrow> ok) \<Longrightarrow> trip P C s s'"
  by (rule trip_trans [OF trip_ub_if])

text \<open>A handler that holds its packet while it works and frees it at the end.\<close>

lemma trip_hold_free:
  assumes "trip P {} s s1" "P \<Longrightarrow> sound s \<Longrightarrow> live s q"
  shows "trip P {q} s (pbuf_free (Some q) s1)"
proof -
  have "trip (live s1 q) {q} s1 (pbuf_free (Some q) s1)" using trip_free [of "Some q" s1] by simp
  then have "trip P ({} \<union> {q}) s (pbuf_free (Some q) s1)"
    by (rule trip_chain [OF assms(1)]) (use assms(2) keepsD in blast)
  then show ?thesis by simp
qed

lemma sound_len: "sound s \<Longrightarrow> live s q \<Longrightarrow> unat (p_len (pb s q)) \<le> PBUF_SIZE"
  by (auto simp: sound_def net_inv_def dest: pbuf_inv_len)

text \<open>
  The operations that do change those variables (the DHCP client, the sockets, the
  configuration of an interface) keep the invariant and the buffers all the same.
\<close>

definition safe :: "bool \<Rightarrow> net \<Rightarrow> net \<Rightarrow> bool" where
  "safe P s s' \<longleftrightarrow> (wrapped s \<longrightarrow> wrapped s') \<and> (P \<and> sound s \<longrightarrow> wrapped s' \<or> sound s' \<and> keeps {} s s')"

lemma safe_trip: "trip P {} s s' \<Longrightarrow> safe P s s'"
  by (simp add: trip_def safe_def)

lemma safe_refl [simp]: "safe P s s"
  by (simp add: safe_def)

lemma safe_trans: "safe P s s1 \<Longrightarrow> safe P s1 s2 \<Longrightarrow> safe P s s2"
  using keeps_trans by (auto simp: safe_def)

lemma safe_seq:
  "safe P s s1 \<Longrightarrow> safe Q s1 s2 \<Longrightarrow> (P \<Longrightarrow> sound s \<Longrightarrow> sound s1 \<Longrightarrow> keeps {} s s1 \<Longrightarrow> Q) \<Longrightarrow> safe P s s2"
  using keeps_trans by (auto simp: safe_def)

lemma safe_weaken: "safe P s s' \<Longrightarrow> (Q \<Longrightarrow> sound s \<Longrightarrow> P) \<Longrightarrow> safe Q s s'"
  by (auto simp: safe_def)

lemma safe_vars:
  assumes "pbuf_pool s' = pbuf_pool s" "pbuf_free_list s' = pbuf_free_list s"
    "pbuf_inited s' = pbuf_inited s" "mem_fault s' = mem_fault s"
    and "wrapped s \<Longrightarrow> wrapped s'"
    and "P \<Longrightarrow> net_inv s \<Longrightarrow> pbuf_inv s' \<Longrightarrow> net_inv s'"
  shows "safe P s s'"
proof -
  have "pbuf_inv s' = pbuf_inv s" using assms(1-3) by (rule pbuf_inv_cong)
  moreover have "keeps {} s s'" using assms(1) by (simp add: keeps_def live_def pb_same_def)
  ultimately show ?thesis using assms(4-6) by (auto simp: safe_def sound_def net_inv_pbuf)
qed

text \<open>
  Of a socket the operations of other sockets see its reference count, its type and its
  connection. A calm operation keeps these, the table of UDP sockets and the invariant.
\<close>

definition sk_view :: "net \<Rightarrow> nat \<Rightarrow> (int \<times> sock_type \<times> nat option) option" where
  "sk_view st j = map_option (\<lambda>s. (sk_refs s, sk_type s, sk_pcb s)) (socks (sock_v st) j)"

definition calm :: "bool \<Rightarrow> net \<Rightarrow> net \<Rightarrow> bool" where
  "calm P s s' \<longleftrightarrow> safe P s s' \<and> sk_view s' = sk_view s \<and> udp_socks (sock_v s') = udp_socks (sock_v s)"

lemma calm_refl [simp]: "calm P s s"
  by (simp add: calm_def)

lemma calm_seq:
  "calm P s s1 \<Longrightarrow> calm Q s1 s2 \<Longrightarrow>
   (P \<Longrightarrow> sound s \<Longrightarrow> sound s1 \<Longrightarrow> sk_view s1 = sk_view s \<Longrightarrow> Q) \<Longrightarrow> calm P s s2"
  using safe_seq [of P s s1 Q s2] by (auto simp: calm_def)

lemma calm_trans: "calm P s s1 \<Longrightarrow> calm P s1 s2 \<Longrightarrow> calm P s s2"
  by (rule calm_seq)

lemma calm_weaken: "calm P s s' \<Longrightarrow> (Q \<Longrightarrow> sound s \<Longrightarrow> P) \<Longrightarrow> calm Q s s'"
  using safe_weaken [of P s s' Q] by (auto simp: calm_def)

lemma sk_view_key:
  assumes "map_option sk_key (socks (sock_v s') j) = map_option sk_key (socks (sock_v s) j)"
  shows "sk_view s' j = sk_view s j"
proof -
  have "sk_view st j = map_option (\<lambda>k. (sk_refs k, sk_type k, sk_pcb k)) (map_option sk_key (socks (sock_v st) j))" for st
    by (simp add: sk_view_def sk_key_def option.map_comp comp_def)
  then show ?thesis using assms by simp
qed

lemma calm_trip: "trip P {} s s' \<Longrightarrow> calm P s s'"
  using safe_trip [of P s s'] sk_view_key [of s' _ s] by (auto simp: calm_def trip_def var_frame_def)

lemma calm_vars:
  assumes "pbuf_pool s' = pbuf_pool s" "pbuf_free_list s' = pbuf_free_list s"
    "pbuf_inited s' = pbuf_inited s" "mem_fault s' = mem_fault s" "sock_v s' = sock_v s"
    and "wrapped s \<Longrightarrow> wrapped s'"
    and "P \<Longrightarrow> net_inv s \<Longrightarrow> pbuf_inv s' \<Longrightarrow> net_inv s'"
  shows "calm P s s'"
  using assms by (auto simp: calm_def sk_view_def fun_eq_iff intro: safe_vars)

text \<open>A packet that is allocated, filled in and handed to a function that consumes it.\<close>

lemma seg_out_trip:
  assumes al: "pbuf_alloc n st = (Some p, s1)"
    and seg: "P \<Longrightarrow> length seg \<le> PBUF_SIZE" "P \<Longrightarrow> unat l \<le> PBUF_SIZE"
    and mid: "trip P {} (pb_set_len p l (pb_write p 0 seg s1)) s4"
    and out: "trip (live s4 p) {p} s4 s5"
  shows "trip P {} st s5"
proof -
  let ?s2 = "pb_write p 0 seg s1" let ?s3 = "pb_set_len p l ?s2"
  have a: "live s1 p \<and> \<not> live st p \<and> pbuf_inv s1" if "sound st"
    using pbuf_alloc_Some [OF _ al] that by (simp add: sound_def net_inv_def)
  have l2: "live ?s2 p \<and> pbuf_inv ?s2" if "sound st" P
    using a [OF that(1)] pb_write_live [of s1 p 0 seg] seg(1) that(2) by simp
  have l3: "live ?s3 p" if "sound st" P
    using l2 [OF that] pb_set_len_live(2) [of ?s2 p l] seg(2) that(2) by simp
  have "trip P ({} \<union> {p}) st ?s2"
    by (rule trip_chain [OF trip_allocD [OF al] trip_write]) (use a seg in simp)
  then have "trip P ({p} \<union> {p}) st ?s3"
    using trip_chain [OF _ trip_set_len, of P "{p}" st ?s2 p l] l2 seg by simp
  then have t3: "trip P {p} st ?s3" by simp
  have "trip (P \<and> live ?s3 p) ({} \<union> {p}) ?s3 s5"
    by (rule trip_chain [OF trip_weaken [OF mid] out]) (auto dest: keepsD)
  then have "trip P ({p} \<union> {p}) st s5"
    using trip_chain [OF t3, of "P \<and> live ?s3 p" "{p}" s5] l3 by simp
  then have "trip P {p} st s5" by simp
  then show ?thesis using a by (blast intro: trip_fresh)
qed

end
