(* ===== verification/Net_Output.thy ===== *)
theory Net_Output
  imports Net_State
begin

text \<open>
  Interfaces and the output path: \<^verbatim>\<open>netif.c\<close>, \<^verbatim>\<open>netdev.h\<close>, \<^verbatim>\<open>netcfg.c\<close>,
  \<open>ethernet_output\<close> of \<^verbatim>\<open>ethernet.c\<close>, \<open>arp_resolve\<close> of \<^verbatim>\<open>arp.c\<close> and \<open>ipv4_output\<close> of
  \<^verbatim>\<open>ipv4.c\<close>. The functions of a device are pointers in the code; here they are an argument
  \<open>devs\<close>, and the locale \<open>net_driver\<close> is the contract the stack relies on. A poll may run
  the whole input path before it returns, so its contract is the one proved of that path.
\<close>

section \<open>Devices and interfaces\<close>

record netdev_ops =
  op_transmit :: "(nat option \<Rightarrow> net \<Rightarrow> int \<times> net) option"
  op_link_up :: "(net \<Rightarrow> bool) option"
  op_poll :: "(net \<Rightarrow> net) option"
  op_get_mac :: "(net \<Rightarrow> bytes) option"

record netdev =
  nd_ops :: "netdev_ops option"
  nd_name :: string

type_synonym devs = "nat \<Rightarrow> netdev"

definition upd_nif :: "nat \<Rightarrow> (netif \<Rightarrow> netif) \<Rightarrow> net \<Rightarrow> net" where
  "upd_nif n f st = st\<lparr>nifs := (nifs st)(n := f (nifs st n))\<rparr>"

definition netif_set_default :: "nat option \<Rightarrow> net \<Rightarrow> net" where
  "netif_set_default nif st = st\<lparr>g_default_netif := nif\<rparr>"

definition netif_default :: "net \<Rightarrow> nat option" where
  "netif_default st = g_default_netif st"

definition netif_init :: "devs \<Rightarrow> nat \<Rightarrow> nat option \<Rightarrow> net \<Rightarrow> net" where
  "netif_init devs nif dev st =
     (let zero = \<lparr>nif_mac = replicate ETH_ADDR_LEN 0, nif_ip = 0, nif_netmask = 0, nif_gateway = 0,
            nif_mtu = of_nat ETH_MTU, nif_link_up = 0, nif_configured = 0, nif_dev = dev,
            nif_arp = arp_cache_init (replicate ARP_CACHE_SIZE
              \<lparr>ae_ip = 0, ae_mac = replicate ETH_ADDR_LEN 0, ae_valid = 0\<rparr>)\<rparr>;
          get_mac = (case dev of None \<Rightarrow> None | Some d \<Rightarrow>
            (case nd_ops (devs d) of None \<Rightarrow> None | Some ops \<Rightarrow> op_get_mac ops))
      in upd_nif nif (\<lambda>_. case get_mac of None \<Rightarrow> zero
           | Some f \<Rightarrow> zero\<lparr>nif_mac := take ETH_ADDR_LEN (f st)\<rparr>) st)"

definition netif_set_addr :: "nat \<Rightarrow> u32 \<Rightarrow> u32 \<Rightarrow> u32 \<Rightarrow> net \<Rightarrow> net" where
  "netif_set_addr nif ip nmask gw st =
     upd_nif nif (\<lambda>n. n\<lparr>nif_ip := ip, nif_netmask := nmask, nif_gateway := gw, nif_configured := 1\<rparr>) st"

definition netif_set_up :: "nat \<Rightarrow> net \<Rightarrow> net" where
  "netif_set_up nif st = upd_nif nif (\<lambda>n. n\<lparr>nif_link_up := 1\<rparr>) st"

definition net_ip_on_link :: "netif \<Rightarrow> u32 \<Rightarrow> bool" where
  "net_ip_on_link nif ip_host \<longleftrightarrow> ip_host AND nif_netmask nif = nif_ip nif AND nif_netmask nif"

definition net_ip_route :: "netif \<Rightarrow> u32 \<Rightarrow> u32" where
  "net_ip_route nif dst_host = (if net_ip_on_link nif dst_host then dst_host else nif_gateway nif)"

text \<open>The operations of the device behind an interface, if all the pointers are set.\<close>

definition dev_ops :: "devs \<Rightarrow> nat option \<Rightarrow> net \<Rightarrow> netdev_ops option" where
  "dev_ops devs nif st =
     (case nif of None \<Rightarrow> None | Some n \<Rightarrow>
      case nif_dev (nifs st n) of None \<Rightarrow> None | Some d \<Rightarrow> nd_ops (devs d))"

definition netif_output :: "devs \<Rightarrow> nat option \<Rightarrow> nat option \<Rightarrow> net \<Rightarrow> int \<times> net" where
  "netif_output devs nif p st =
     (case dev_ops devs nif st of None \<Rightarrow> (-1, st) | Some ops \<Rightarrow>
      case op_transmit ops of None \<Rightarrow> (-1, st) | Some transmit \<Rightarrow>
        if nif_link_up (nifs st (the nif)) = 0 then (-1, st) else transmit p st)"

definition netif_poll :: "devs \<Rightarrow> nat option \<Rightarrow> net \<Rightarrow> net" where
  "netif_poll devs nif st =
     (case dev_ops devs nif st of None \<Rightarrow> st | Some ops \<Rightarrow>
      case op_poll ops of None \<Rightarrow> st | Some poll \<Rightarrow> poll st)"

section \<open>Configuration from user space\<close>

definition EINVAL :: int where "EINVAL = 22"
definition ENODEV :: int where "ENODEV = 19"
definition EFAULT :: int where "EFAULT = 14"

record netcfg_info =
  nc_ip :: u32
  nc_netmask :: u32
  nc_gateway :: u32
  nc_mac :: bytes
  nc_link_up :: u8
  nc_configured :: u8
  nc_name :: string

text \<open>
  The result carries what \<^verbatim>\<open>NETCFG_GET\<close> stores through its pointer argument (any non-zero
  \<open>a1\<close>), if it does.
\<close>

definition sys_netcfg ::
  "devs \<Rightarrow> int \<Rightarrow> u64 \<Rightarrow> u64 \<Rightarrow> u64 \<Rightarrow> net \<Rightarrow> (int \<times> netcfg_info option) \<times> net" where
  "sys_netcfg devs op a1 a2 a3 st =
     (case netif_default st of None \<Rightarrow> ((- ENODEV, None), st) | Some n \<Rightarrow>
      let nif = nifs st n in
      case nif_dev nif of None \<Rightarrow> ((- ENODEV, None), st) | Some d \<Rightarrow>
        if op = 1 then
          if a1 = 0 then ((- EFAULT, None), st)
          else ((0, Some \<lparr>nc_ip = nif_ip nif, nc_netmask = nif_netmask nif, nc_gateway = nif_gateway nif,
                  nc_mac = take 6 (nif_mac nif), nc_link_up = nif_link_up nif,
                  nc_configured = nif_configured nif,
                  nc_name = (if nd_name (devs d) \<noteq> [] then take 15 (nd_name (devs d)) else ''eth0'')\<rparr>), st)
        else if op = 2 then
          let ip = (if a1 \<noteq> 0 then ucast a1 else nif_ip nif);
              nmask = (if a2 \<noteq> 0 then ucast a2 else nif_netmask nif);
              gw = (if a3 \<noteq> 0 then ucast a3 else nif_gateway nif);
              st = netif_set_addr n ip nmask gw st
          in ((0, None), if nif_link_up (nifs st n) \<noteq> 0 then netif_set_up n st else st)
        else if op = 3 then ((0, None), netif_set_up n st)
        else if op = 4 then ((0, None), upd_nif n (\<lambda>n. n\<lparr>nif_link_up := 0\<rparr>) st)
        else if op = 5 then
          if a1 = 0 then ((- EINVAL, None), st)
          else ((0, None), upd_nif n (\<lambda>n. n\<lparr>nif_gateway := ucast a1\<rparr>) st)
        else ((- EINVAL, None), st))"

section \<open>Ethernet output\<close>

definition ethernet_output ::
  "devs \<Rightarrow> nat option \<Rightarrow> nat option \<Rightarrow> bytes \<Rightarrow> u16 \<Rightarrow> net \<Rightarrow> int \<times> net" where
  "ethernet_output devs nif p dst_mac ethertype st =
     (case (nif, p) of
        (Some n, Some i) \<Rightarrow>
          (let st = ub_unless (live st i) st;
               len = unat (p_len (pb st i))
           in if len + ETH_HDR_LEN > PBUF_SIZE then (-1, pbuf_free p st)
              else case pbuf_alloc (of_nat (len + ETH_HDR_LEN)) st of
                (None, st) \<Rightarrow> (-1, pbuf_free p st)
              | (Some f, st) \<Rightarrow>
                  (let eh = eth_hdr_bytes \<lparr>eh_dst = take ETH_ADDR_LEN dst_mac,
                         eh_src = take ETH_ADDR_LEN (nif_mac (nifs st n)),
                         eh_ethertype = net_htons ethertype\<rparr>;
                       st = pb_write f 0 eh st;
                       (d, st) = pb_read i 0 len st;
                       st = pb_write f ETH_HDR_LEN d st;
                       st = pbuf_free p st;
                       (r, st) = netif_output devs nif (Some f) st
                   in (if r \<noteq> 0 then -1 else 0, pbuf_free (Some f) st)))
      | _ \<Rightarrow> (-1, pbuf_free p st))"

section \<open>Address resolution\<close>

definition eth_broadcast :: bytes where "eth_broadcast = replicate ETH_ADDR_LEN 0xFF"
definition eth_zero :: bytes where "eth_zero = replicate ETH_ADDR_LEN 0"

text \<open>
  The waiting loop; \<open>n\<close> is the number of iterations that may still follow this one, so the
  loop runs at most 2000001 times, as the counter \<^verbatim>\<open>spins\<close> in the code has it.
\<close>

fun arp_wait :: "devs \<Rightarrow> nat \<Rightarrow> u32 \<Rightarrow> u32 \<Rightarrow> u32 \<Rightarrow> nat \<Rightarrow> net \<Rightarrow> bytes option \<times> net" where
  "arp_wait devs nif target start timeout n st =
     (let st = netif_poll devs (Some nif) st in
      case arp_cache_lookup (nif_arp (nifs st nif)) target of
        Some mac \<Rightarrow> (Some mac, st)
      | None \<Rightarrow>
          if ticks st \<noteq> start \<and> ticks st - start \<ge> timeout then (None, st)
          else case n of 0 \<Rightarrow> (None, st) | Suc n \<Rightarrow> arp_wait devs nif target start timeout n st)"

declare arp_wait.simps [simp del]

definition ARP_SPINS :: nat where "ARP_SPINS = 2000000"

definition arp_resolve :: "devs \<Rightarrow> nat option \<Rightarrow> u32 \<Rightarrow> u32 \<Rightarrow> net \<Rightarrow> bytes option \<times> net" where
  "arp_resolve devs nif ip_host timeout st =
     (case nif of None \<Rightarrow> (None, st) | Some n \<Rightarrow>
      let target = net_ip_route (nifs st n) ip_host in
      case arp_cache_lookup (nif_arp (nifs st n)) target of
        Some mac \<Rightarrow> (Some mac, st)
      | None \<Rightarrow>
          let pkt = arp_build ARP_OP_REQUEST (nif_mac (nifs st n)) (nif_ip (nifs st n)) (Some eth_zero) target
          in case pbuf_alloc (of_nat ARP_PKT_LEN) st of
            (None, st) \<Rightarrow> (None, st)
          | (Some req, st) \<Rightarrow>
              let st = pb_write req 0 pkt st;
                  (r, st) = ethernet_output devs nif (Some req) eth_broadcast ETH_TYPE_ARP st
              in if r \<noteq> 0 then (None, st) else arp_wait devs n target (ticks st) timeout ARP_SPINS st)"

section \<open>IPv4 output\<close>

definition ipv4_output ::
  "devs \<Rightarrow> nat option \<Rightarrow> nat option \<Rightarrow> u32 \<Rightarrow> u8 \<Rightarrow> net \<Rightarrow> int \<times> net" where
  "ipv4_output devs nif payload dst_host proto st =
     (case (nif, payload) of
        (Some n, Some i) \<Rightarrow>
          if nif_configured (nifs st n) = 0 then (-1, st)
          else
            let st = ub_unless (live st i) st;
                len = unat (p_len (pb st i));
                total = IPV4_HDR_MIN + len
            in if total > PBUF_SIZE then (-1, st)
               else case pbuf_alloc (of_nat total) st of
                 (None, st) \<Rightarrow> (-1, st)
               | (Some pkt, st) \<Rightarrow>
                   let ip = ipv4_hdr_bytes \<lparr>ip_ver_ihl = IPV4_VERSION_IHL, ip_tos = 0,
                         ip_total_len = net_htons (of_nat total), ip_id = net_htons (ipv4_id_counter st),
                         ip_frag_off = 0, ip_ttl = 64, ip_proto = proto, ip_checksum = 0,
                         ip_src = net_htonl (nif_ip (nifs st n)), ip_dst = net_htonl dst_host\<rparr>;
                       st = st\<lparr>ipv4_id_counter := ipv4_id_counter st + 1\<rparr>;
                       st = pb_write pkt 0 (ipv4_set_checksum ip) st;
                       (d, st) = pb_read i 0 len st;
                       st = pb_write pkt IPV4_HDR_MIN d st;
                       st = pbuf_free payload st;
                       (dmac, st) = arp_resolve devs nif dst_host 200 st
                   in case dmac of
                        None \<Rightarrow> (-1, pbuf_free (Some pkt) st)
                      | Some mac \<Rightarrow> ethernet_output devs nif (Some pkt) mac ETH_TYPE_IPV4 st
      | _ \<Rightarrow> (-1, st))"

section \<open>Encapsulation: header, then the payload of another buffer\<close>

lemma encapsulate:
  fixes s1 :: "'a pbuf_state_scheme"
  assumes inv: "pbuf_inv s1" and lv: "live s1 i" "live s1 f" "i \<noteq> f"
    and fits: "length hdr + len \<le> PBUF_SIZE"
  defines "s2 \<equiv> pb_write f 0 hdr s1"
  defines "s3 \<equiv> pb_write f (length hdr) (mem_get (p_data (pb s2 i)) 0 len) (ub_unless (pb_ok i 0 len s2) s2)"
  defines "s4 \<equiv> pbuf_free (Some i) s3"
  shows "pbuf_inv s4" "mem_fault s4 = mem_fault s1" "keeps {i, f} s1 s4"
    "live s4 = (live s1)(i := False)" "live s4 f" "p_len (pb s4 f) = p_len (pb s1 f)"
    "take (length hdr + len) (p_data (pb s4 f)) = hdr @ take len (p_data (pb s1 i))"
    "pbuf_state.more s4 = pbuf_state.more s1"
proof -
  have f2: "live s1 f" "0 + length hdr \<le> PBUF_SIZE" using lv fits by simp_all
  note w2 = pb_write_live [OF inv f2, folded s2_def]
  have i2: "live s2 i" "p_data (pb s2 i) = p_data (pb s1 i)"
    using keepsD [OF w2(3) lv(1)] lv by (auto simp: pb_same_def)
  have ok2: "ub_unless (pb_ok i 0 len s2) s2 = s2"
    using i2(1) fits by (simp add: pb_ok_def)
  let ?d = "mem_get (p_data (pb s2 i)) 0 len"
  have di: "length (p_data (pb s1 i)) = PBUF_SIZE" using inv lv(1) by (rule pbuf_inv_data)
  have df: "length (p_data (pb s1 f)) = PBUF_SIZE" using inv lv(2) by (rule pbuf_inv_data)
  have ld: "length ?d = len" using di i2(2) fits by simp
  have f3: "live s2 f" "length hdr + length ?d \<le> PBUF_SIZE" using w2(2) lv fits ld by simp_all
  have s3: "s3 = pb_write f (length hdr) ?d s2" by (simp add: s3_def ok2)
  note w3 = pb_write_live [OF w2(1) f3, folded s3]
  have i3: "live s3 i" using w3(2) i2 by simp
  note w4 = pbuf_free_live [OF w3(1) i3, folded s4_def]
  have f4: "live s3 f" "p_len (pb s4 f) = p_len (pb s3 f)" "p_data (pb s4 f) = p_data (pb s3 f)"
    using keepsD [OF w4(3), of f] w3(2) f3(1) lv(3) by (auto simp: pb_same_def)
  show "pbuf_inv s4" by (rule w4(1))
  show "mem_fault s4 = mem_fault s1" using w2(4) w3(4) w4(4) by simp
  show "live s4 = (live s1)(i := False)" using w2(2) w3(2) w4(2) by simp
  then show "live s4 f" using lv by simp
  show "p_len (pb s4 f) = p_len (pb s1 f)" using f4(2) w2(6) w3(6) by simp
  show "pbuf_state.more s4 = pbuf_state.more s1" using w2(5) w3(5) w4(5) by simp
  have "keeps {i, f} s1 s2" "keeps {i, f} s2 s3" "keeps {i, f} s3 s4"
    using keeps_mono [OF w2(3)] keeps_mono [OF w3(3)] keeps_mono [OF w4(3)] by auto
  then show "keeps {i, f} s1 s4" by (blast intro: keeps_trans)
  show "take (length hdr + len) (p_data (pb s4 f)) = hdr @ take len (p_data (pb s1 i))"
    using fits df di ld unfolding f4(3) w3(7) w2(7) i2(2)
    by (simp add: mem_put_def mem_get_def)
qed

section \<open>The contract of a driver\<close>

text \<open>
  Transmitting reads the frame and changes only the driver's own variables; polling may
  deliver frames to the stack. Neither releases a buffer it was not given.
\<close>

definition tx_ok :: "nat \<Rightarrow> net \<Rightarrow> net \<Rightarrow> bool" where
  "tx_ok f st st' \<longleftrightarrow> same_vars st st' \<and>
     (sound st \<and> live st f \<longrightarrow> pbuf_inv st' \<and> \<not> mem_fault st' \<and> keeps {} st st' \<and> live st' = live st)"

text \<open>
  \<open>ethernet_output\<close> on all its paths: it changes none of the stack's variables, and it
  consumes exactly the buffer it is given.
\<close>

definition eth_out_ok :: "bool \<Rightarrow> nat option \<Rightarrow> net \<Rightarrow> net \<Rightarrow> bool" where
  "eth_out_ok Q p st st' \<longleftrightarrow> same_vars st st' \<and>
     (Q \<and> sound st \<and> (\<forall>i. p = Some i \<longrightarrow> live st i) \<longrightarrow>
        pbuf_inv st' \<and> \<not> mem_fault st' \<and> keeps (set_option p) st st' \<and>
        live st' = (\<lambda>j. live st j \<and> p \<noteq> Some j))"

lemma eth_out_ok_free: "eth_out_ok Q p st (pbuf_free p st)"
  using pbuf_free_live [of st] same_vars_pool(2) [of st p]
  by (cases p) (auto simp: eth_out_ok_def sound_def net_inv_def fun_eq_iff)

lemma eth_out_ok_ub: "eth_out_ok Q (Some i) (ub_unless (live st i) st) st' \<Longrightarrow> eth_out_ok Q (Some i) st st'"
  using same_vars_trans [OF same_vars_pool(5)]
  by (cases "live st i") (auto simp: eth_out_ok_def)

lemma eth_out_ok_alloc_fail:
  assumes "pbuf_alloc n st = (None, s1)"
  shows "eth_out_ok Q p st (pbuf_free p s1)"
proof -
  have sv: "same_vars st s1" using same_vars_pool(1) [of st n] assms by simp
  have "pbuf_inv s1 \<and> \<not> mem_fault s1 \<and> keeps {} st s1 \<and> live s1 = live st" if "sound st"
  proof -
    have "pbuf_inv st" "\<not> mem_fault st" using that by (simp_all add: sound_def net_inv_def)
    then show ?thesis using pbuf_alloc_None [OF _ assms] by simp
  qed
  note s1 = this
  have fr: "eth_out_ok Q p s1 (pbuf_free p s1)" by (rule eth_out_ok_free)
  have k: "keeps (set_option p) st s1" if "sound st" using keeps_mono s1 [OF that] by blast
  show ?thesis
    using fr same_vars_trans [OF sv] net_inv_same [OF sv] s1 keeps_trans [OF k]
    by (auto simp: eth_out_ok_def sound_def)
qed

text \<open>The successful path, up to the point where the frame is handed to the driver.\<close>

lemma eth_frame_built:
  assumes sd: "sound st" and lv: "live st i" and fits: "len + ETH_HDR_LEN \<le> PBUF_SIZE"
    and al: "pbuf_alloc (of_nat (len + ETH_HDR_LEN)) st = (Some f, s1)"
    and hdr: "length hdr = ETH_HDR_LEN"
  defines "s2 \<equiv> pb_write f 0 hdr s1"
  defines "s3 \<equiv> pb_write f ETH_HDR_LEN (mem_get (p_data (pb s2 i)) 0 len) (ub_unless (pb_ok i 0 len s2) s2)"
  defines "s4 \<equiv> pbuf_free (Some i) s3"
  shows "sound s4" "keeps {i} st s4" "live s4 = (\<lambda>j. j = f \<or> live st j \<and> j \<noteq> i)" "\<not> live st f"
    "p_len (pb s4 f) = of_nat (len + ETH_HDR_LEN)" "same_vars st s4" "vnet_v s4 = vnet_v st"
    "take (ETH_HDR_LEN + len) (p_data (pb s4 f)) = hdr @ take len (p_data (pb st i))"
proof -
  have inv: "pbuf_inv st" and nf: "\<not> mem_fault st" using sd by (simp_all add: sound_def net_inv_def)
  have s1: "pbuf_inv s1" "\<not> mem_fault s1" "keeps {} st s1" "live s1 = (live st)(f := True)" "\<not> live st f"
      "p_len (pb s1 f) = of_nat (len + ETH_HDR_LEN)" "pbuf_state.more s1 = pbuf_state.more st"
    using nf pbuf_alloc_Some [OF inv al] by simp_all
  have ne: "i \<noteq> f" using lv s1(5) by auto
  have i1: "live s1 i" "p_data (pb s1 i) = p_data (pb st i)"
    using keepsD [OF s1(3) lv] by (auto simp: pb_same_def)
  have f1: "live s1 f" using s1(4) by simp
  have ft: "length hdr + len \<le> PBUF_SIZE" using fits hdr by simp
  note e = encapsulate [OF s1(1) i1(1) f1 ne ft, folded hdr [symmetric], unfolded hdr,
      folded s2_def, folded s3_def, folded s4_def]
  show "keeps {i} st s4"
    using keeps_trans [OF keeps_mono [OF s1(3)] e(3)] s1(5) by (auto intro: keeps_fresh simp: insert_commute)
  show "live s4 = (\<lambda>j. j = f \<or> live st j \<and> j \<noteq> i)" using e(4) s1(4) ne by (auto simp: fun_eq_iff)
  show "\<not> live st f" by (rule s1(5))
  show "p_len (pb s4 f) = of_nat (len + ETH_HDR_LEN)" using e(6) s1(6) by simp
  show sv: "same_vars st s4" and "vnet_v s4 = vnet_v st"
    using e(8) s1(7) same_vars_more [of s4 st] more_fields [of s4 st] by simp_all
  show "take (ETH_HDR_LEN + len) (p_data (pb s4 f)) = hdr @ take len (p_data (pb st i))"
    using e(7) i1(2) by simp
  show "sound s4"
    using sd e(1,2) s1(2) net_inv_same [OF sv] by (simp add: sound_def)
qed

lemma eth_out_trip:
  "eth_out_ok Q p st st' \<Longrightarrow> trip (Q \<and> (\<forall>i. p = Some i \<longrightarrow> live st i)) (set_option p) st st'"
  by (rule trip_same) (auto simp: eth_out_ok_def)

text \<open>The datagram \<open>ipv4_output\<close> builds, up to address resolution.\<close>

lemma ipv4_built:
  fixes c :: u16
  assumes sd: "sound st" and lv: "live st i" and fits: "IPV4_HDR_MIN + len \<le> PBUF_SIZE"
    and al: "pbuf_alloc (of_nat (IPV4_HDR_MIN + len)) st = (Some f, s1)"
    and hdr: "length hdr = IPV4_HDR_MIN"
  defines "s1' \<equiv> s1\<lparr>ipv4_id_counter := c\<rparr>"
  defines "s2 \<equiv> pb_write f 0 hdr s1'"
  defines "s3 \<equiv> pb_write f IPV4_HDR_MIN (mem_get (p_data (pb s2 i)) 0 len) (ub_unless (pb_ok i 0 len s2) s2)"
  defines "s4 \<equiv> pbuf_free (Some i) s3"
  shows "sound s4" "keeps {i} st s4" "live s4 = (\<lambda>j. j = f \<or> live st j \<and> j \<noteq> i)" "\<not> live st f"
    "p_len (pb s4 f) = of_nat (IPV4_HDR_MIN + len)"
    "take (IPV4_HDR_MIN + len) (p_data (pb s4 f)) = hdr @ take len (p_data (pb st i))"
proof -
  have inv: "pbuf_inv st" and nf: "\<not> mem_fault st" using sd by (simp_all add: sound_def net_inv_def)
  note a = pbuf_alloc_Some [OF inv al]
  have pool: "pbuf_pool s1' = pbuf_pool s1" "pbuf_free_list s1' = pbuf_free_list s1"
      "pbuf_inited s1' = pbuf_inited s1" "mem_fault s1' = mem_fault s1"
    by (simp_all add: s1'_def)
  have inv1: "pbuf_inv s1'" using pbuf_inv_cong [OF pool(1-3)] a(1) by simp
  have lv1: "live s1' = (live st)(f := True)" using a(5) pool(1) by (simp add: live_def fun_eq_iff)
  have k1: "keeps {} st s1'" using a(4) pool(1) by (simp add: keeps_def live_def pb_same_def)
  have ne: "i \<noteq> f" using lv a(6) by auto
  have i1: "live s1' i" "p_data (pb s1' i) = p_data (pb st i)"
    using keepsD [OF k1 lv] by (auto simp: pb_same_def)
  have f1: "live s1' f" using lv1 by simp
  have ft: "length hdr + len \<le> PBUF_SIZE" using fits hdr by simp
  note e = encapsulate [OF inv1 i1(1) f1 ne ft, unfolded hdr, folded s2_def, folded s3_def, folded s4_def]
  show "keeps {i} st s4"
    using keeps_trans [OF keeps_mono [OF k1] e(3)] a(6) by (auto intro: keeps_fresh simp: insert_commute)
  show "live s4 = (\<lambda>j. j = f \<or> live st j \<and> j \<noteq> i)" using e(4) lv1 ne by (auto simp: fun_eq_iff)
  show "\<not> live st f" by (rule a(6))
  show "p_len (pb s4 f) = of_nat (IPV4_HDR_MIN + len)" using e(6) pool(1) a(7) by simp
  show "take (IPV4_HDR_MIN + len) (p_data (pb s4 f)) = hdr @ take len (p_data (pb st i))"
    using e(7) i1(2) by simp
  have "net_inv s1'"
    using net_inv_same [OF same_vars_more [OF a(3)]] sd a(1) inv1
    by (simp add: sound_def net_inv_def s1'_def)
  then have "net_inv s4" using net_inv_same [OF same_vars_more [OF e(8)]] e(1) by simp
  then show "sound s4" using e(2) pool(4) a(2) nf by (simp add: sound_def)
qed

locale net_driver =
  fixes devs :: devs
  assumes transmit: "nd_ops (devs d) = Some ops \<Longrightarrow> op_transmit ops = Some tx \<Longrightarrow>
      tx (Some f) st = (r, st') \<Longrightarrow> tx_ok f st st'"
    and poll: "nd_ops (devs d) = Some ops \<Longrightarrow> op_poll ops = Some pl \<Longrightarrow> trip True {} st (pl st)"
begin

lemma netif_output_ok: "netif_output devs nif (Some f) st = (r, st') \<Longrightarrow> tx_ok f st st'"
  using transmit
  by (auto simp: netif_output_def dev_ops_def tx_ok_def sound_def net_inv_def
      split: option.splits if_splits)

lemma netif_poll_trip: "trip P {} st (netif_poll devs nif st)"
  using poll trip_True
  by (auto simp: netif_poll_def dev_ops_def split: option.splits)

lemma eth_sent_ok:
  fixes hdr :: bytes and i :: nat
  assumes fits: "len + ETH_HDR_LEN \<le> PBUF_SIZE"
    and al: "pbuf_alloc (of_nat (len + ETH_HDR_LEN)) st = (Some f, s1)"
  defines "s2 \<equiv> pb_write f 0 hdr s1"
  defines "s3 \<equiv> pb_write f ETH_HDR_LEN (mem_get (p_data (pb s2 i)) 0 len) (ub_unless (pb_ok i 0 len s2) s2)"
  defines "s4 \<equiv> pbuf_free (Some i) s3"
  assumes tx: "netif_output devs nif (Some f) s4 = (r, s5)"
  shows "eth_out_ok (length hdr = ETH_HDR_LEN) (Some i) st (pbuf_free (Some f) s5)"
proof -
  have "same_vars st s1" by (rule alloc_same_vars [OF al])
  then have "same_vars st s4"
    unfolding s4_def s3_def s2_def by (intro same_vars_step)
  moreover have tx': "tx_ok f s4 s5" by (rule netif_output_ok [OF tx])
  ultimately have "same_vars st s5"
    using same_vars_trans [of st s4 s5] by (simp add: tx_ok_def)
  then have sv: "same_vars st (pbuf_free (Some f) s5)" by (rule same_vars_step)
  have "pbuf_inv (pbuf_free (Some f) s5) \<and> \<not> mem_fault (pbuf_free (Some f) s5) \<and>
      keeps {i} st (pbuf_free (Some f) s5) \<and>
      live (pbuf_free (Some f) s5) = (\<lambda>j. live st j \<and> Some i \<noteq> Some j)"
    if h: "length hdr = ETH_HDR_LEN" "sound st" "live st i"
  proof -
    note b = eth_frame_built [OF h(2,3) fits al h(1), folded s2_def, folded s3_def, folded s4_def]
    have f4: "live s4 f" using b(3) by simp
    have s5: "pbuf_inv s5" "\<not> mem_fault s5" "keeps {} s4 s5" "live s5 = live s4"
      using tx' b(1) f4 by (auto simp: tx_ok_def)
    have f5: "live s5 f" using s5(4) f4 by simp
    note fr = pbuf_free_live [OF s5(1) f5]
    have "keeps {f, i} st (pbuf_free (Some f) s5)"
      using keeps_chain [OF keeps_chain [OF b(2) s5(3)] fr(3)] by (simp add: insert_commute)
    then have "keeps {i} st (pbuf_free (Some f) s5)" using b(4) by (rule keeps_fresh)
    then show ?thesis using fr s5 b(3,4) by (auto simp: fun_eq_iff)
  qed
  then show ?thesis using sv by (simp add: eth_out_ok_def)
qed

lemma ethernet_output_ok:
  assumes "ethernet_output devs nif p mac ety st = (r, st')"
  shows "eth_out_ok (length mac = ETH_ADDR_LEN) p st st'"
proof (cases "\<exists>n i. nif = Some n \<and> p = Some i")
  case False
  then have "st' = pbuf_free p st"
    using assms by (auto simp: ethernet_output_def split: option.splits)
  then show ?thesis by (simp add: eth_out_ok_free)
next
  case True
  then obtain n i where np: "nif = Some n" "p = Some i" by auto
  define s0 where "s0 = ub_unless (live st i) st"
  let ?len = "unat (p_len (pb s0 i))"
  have "eth_out_ok (length mac = ETH_ADDR_LEN) (Some i) s0 st'"
  proof (cases "?len + ETH_HDR_LEN > PBUF_SIZE")
    case True
    then show ?thesis using assms by (auto simp: ethernet_output_def np s0_def [symmetric] eth_out_ok_free)
  next
    case fits: False
    obtain fo s1 where al: "pbuf_alloc (of_nat (?len + ETH_HDR_LEN)) s0 = (fo, s1)" by fastforce
    show ?thesis
    proof (cases fo)
      case None
      then show ?thesis
        using assms fits al eth_out_ok_alloc_fail
        by (auto simp: ethernet_output_def np s0_def [symmetric])
    next
      case (Some f)
      define hdr where "hdr = eth_hdr_bytes \<lparr>eh_dst = take ETH_ADDR_LEN mac,
        eh_src = take ETH_ADDR_LEN (nif_mac (nifs s1 n)), eh_ethertype = net_htons ety\<rparr>"
      define s2 where "s2 = pb_write f 0 hdr s1"
      define s3 where "s3 = pb_write f ETH_HDR_LEN (mem_get (p_data (pb s2 i)) 0 ?len)
        (ub_unless (pb_ok i 0 ?len s2) s2)"
      define s4 where "s4 = pbuf_free (Some i) s3"
      obtain r' s5 where tx: "netif_output devs nif (Some f) s4 = (r', s5)" by fastforce
      have st': "st' = pbuf_free (Some f) s5"
        using assms fits al tx
        by (simp add: ethernet_output_def np Some s0_def [symmetric] hdr_def [symmetric] pb_read_def
            s2_def [symmetric] s3_def [symmetric] s4_def [symmetric])
      have "eth_out_ok (length hdr = ETH_HDR_LEN) (Some i) s0 st'"
        unfolding st'
        by (rule eth_sent_ok [OF _ al [unfolded Some] tx [unfolded s4_def s3_def s2_def]])
          (use fits in simp)
      moreover have "length hdr = ETH_HDR_LEN" if "length mac = ETH_ADDR_LEN" "sound s0"
      proof -
        have "nifs s1 = nifs s0" using alloc_same_vars [OF al] by (simp add: same_vars_def)
        then show ?thesis
          using that by (simp add: hdr_def eth_hdr_bytes_def sound_def net_inv_def netif_ok_def wire_defs)
      qed
      ultimately show ?thesis by (auto simp: eth_out_ok_def)
    qed
  qed
  then show ?thesis using eth_out_ok_ub by (simp add: s0_def np)
qed

lemma arp_wait_trip: "trip P {} st (snd (arp_wait devs nif target start timeout n st))"
proof (induction n arbitrary: st P)
  case 0
  then show ?case
    using netif_poll_trip [of P st "Some nif"]
    by (subst arp_wait.simps) (auto simp: Let_def split: option.splits)
next
  case (Suc n)
  let ?s = "netif_poll devs (Some nif) st"
  have p: "trip P {} st ?s" by (rule netif_poll_trip)
  then have "trip P {} st (snd (arp_wait devs nif target start timeout n ?s))"
    using Suc [of True ?s] by (rule trip_seq) simp
  then show ?case
    using p by (subst arp_wait.simps) (auto simp: Let_def split: option.splits)
qed

lemma arp_wait_mac:
  "arp_wait devs nif target start timeout n st = (Some mac, st') \<Longrightarrow> sound st' \<Longrightarrow>
   length mac = ETH_ADDR_LEN"
proof (induction n arbitrary: st)
  case (Suc n)
  then show ?case
    by (subst (asm) (2) arp_wait.simps)
      (auto simp: Let_def sound_def net_inv_def netif_ok_def dest: arp_lookup_length
        split: option.splits if_splits)
next
  case 0
  then show ?case
    by (subst (asm) arp_wait.simps)
      (auto simp: Let_def sound_def net_inv_def netif_ok_def dest: arp_lookup_length
        split: option.splits if_splits)
qed

lemma arp_request_trip:
  assumes "pbuf_alloc (of_nat ARP_PKT_LEN) st = (Some req, s1)" and len: "length pkt \<le> PBUF_SIZE"
    and "ethernet_output devs nif (Some req) eth_broadcast ety (pb_write req 0 pkt s1) = (r, s3)"
  shows "trip P {} st s3"
proof -
  let ?s2 = "pb_write req 0 pkt s1"
  have al: "live s1 req \<and> \<not> live st req" if "sound st"
    using pbuf_alloc_Some [OF _ assms(1)] that by (simp add: sound_def net_inv_def)
  have "trip P {} st s1" by (rule trip_allocD [OF assms(1)])
  moreover have "trip (live s1 req) {req} s1 ?s2"
    using trip_write [of s1 req 0 pkt] len by simp
  ultimately have t2: "trip P {req} st ?s2"
    using trip_chain [of P "{}" st s1 "live s1 req" "{req}" ?s2] al by simp
  have t3: "trip (live ?s2 req) {req} ?s2 s3"
    using eth_out_trip [OF ethernet_output_ok [OF assms(3)]] by (simp add: eth_broadcast_def)
  have "live ?s2 req" if "sound st"
  proof -
    have "pbuf_inv s1" using pbuf_alloc_Some(1) [OF _ assms(1)] that by (simp add: sound_def net_inv_def)
    then show ?thesis using pb_write_live(2) [of s1 req 0 pkt] al [OF that] len by simp
  qed
  then have "trip P {req} st s3" using trip_seq [OF t2 t3] by simp
  then show ?thesis using al trip_fresh [of P req "{}"] by simp
qed

lemma arp_resolve_trip: "trip P {} st (snd (arp_resolve devs nif ip timeout st))"
proof (cases nif)
  case (Some n)
  let ?target = "net_ip_route (nifs st n) ip"
  let ?pkt = "arp_build ARP_OP_REQUEST (nif_mac (nifs st n)) (nif_ip (nifs st n)) (Some eth_zero) ?target"
  obtain ro s1 where al: "pbuf_alloc (of_nat ARP_PKT_LEN) st = (ro, s1)" by fastforce
  show ?thesis
  proof (cases ro)
    case None
    then show ?thesis
      using trip_alloc [of P st "of_nat ARP_PKT_LEN"] al Some
      by (auto simp: arp_resolve_def Let_def split: option.splits)
  next
    case req: (Some req)
    obtain r s3 where e: "ethernet_output devs nif (Some req) eth_broadcast ETH_TYPE_ARP
        (pb_write req 0 ?pkt s1) = (r, s3)" by fastforce
    have "length ?pkt \<le> PBUF_SIZE"
      by (simp add: arp_build_def arp_hdr_bytes_def eth_zero_def wire_defs)
    then have t: "trip P {} st s3" using arp_request_trip al req e by blast
    then have "trip P {} st (snd (arp_wait devs n ?target (ticks s3) timeout ARP_SPINS s3))"
      using arp_wait_trip [of True] by (rule trip_seq) simp
    then show ?thesis using t al Some req e
      by (auto simp: arp_resolve_def Let_def split: option.splits)
  qed
qed (simp add: arp_resolve_def)

lemma arp_resolve_mac:
  assumes "arp_resolve devs nif ip timeout st = (Some mac, st')" "sound st'"
  shows "length mac = ETH_ADDR_LEN"
proof -
  obtain n where n: "nif = Some n" using assms(1) by (cases nif) (auto simp: arp_resolve_def)
  show ?thesis
  proof (cases "arp_cache_lookup (nif_arp (nifs st n)) (net_ip_route (nifs st n) ip)")
    case (Some m)
    then show ?thesis
      using assms n by (auto simp: arp_resolve_def Let_def sound_def net_inv_def netif_ok_def
          dest: arp_lookup_length)
  next
    case None
    then show ?thesis
      using assms n arp_wait_mac
      by (auto simp: arp_resolve_def Let_def split: option.splits prod.splits if_splits)
  qed
qed

lemma ipv4_tail_trip:
  assumes ar: "arp_resolve devs nif dst 200 s4 = (dm, s5)"
  shows "trip (live s4 f) {f} s4
    (snd (case dm of None \<Rightarrow> (-1, pbuf_free (Some f) s5)
          | Some mac \<Rightarrow> ethernet_output devs nif (Some f) mac ETH_TYPE_IPV4 s5))"
proof -
  have t5: "trip (live s4 f) {} s4 s5" using arp_resolve_trip [of "live s4 f" s4] ar by (metis snd_conv)
  have l5: "live s5 f" if "live s4 f" "keeps {} s4 s5" using keepsD [OF that(2,1)] by simp
  show ?thesis
  proof (cases dm)
    case None
    have "trip (live s5 f) {f} s5 (pbuf_free (Some f) s5)" using trip_free [of "Some f" s5] by simp
    with t5 have "trip (live s4 f) ({} \<union> {f}) s4 (pbuf_free (Some f) s5)"
      by (rule trip_chain) (rule l5)
    then show ?thesis using None by simp
  next
    case (Some mac)
    obtain r s6 where e: "ethernet_output devs nif (Some f) mac ETH_TYPE_IPV4 s5 = (r, s6)" by fastforce
    have "trip (length mac = ETH_ADDR_LEN \<and> live s5 f) {f} s5 s6"
      using eth_out_trip [OF ethernet_output_ok [OF e]] by simp
    with t5 have "trip (live s4 f) ({} \<union> {f}) s4 s6"
      by (rule trip_chain) (use l5 arp_resolve_mac [of nif dst 200 s4 mac s5] ar Some in auto)
    then show ?thesis using Some e by simp
  qed
qed

lemma ipv4_output_trip:
  "trip (\<forall>i. payload = Some i \<longrightarrow> live st i) (set_option payload) st
     (snd (ipv4_output devs nif payload dst proto st))"
proof (cases "\<exists>n i. nif = Some n \<and> payload = Some i \<and> nif_configured (nifs st n) \<noteq> 0")
  case False
  then have "snd (ipv4_output devs nif payload dst proto st) = st"
    by (auto simp: ipv4_output_def split: option.splits)
  then show ?thesis by simp
next
  case True
  then obtain n i where np: "nif = Some n" "payload = Some i" "nif_configured (nifs st n) \<noteq> 0" by auto
  define s0 where "s0 = ub_unless (live st i) st"
  let ?len = "unat (p_len (pb s0 i))"
  have t0: "trip (live st i) {i} st s0" unfolding s0_def by (rule trip_ub)
  have s0': "live st i \<Longrightarrow> s0 = st" by (simp add: s0_def)
  show ?thesis
  proof (cases "IPV4_HDR_MIN + ?len > PBUF_SIZE")
    case True
    then show ?thesis using np t0 by (simp add: ipv4_output_def s0_def [symmetric])
  next
    case fits: False
    obtain fo s1 where al: "pbuf_alloc (of_nat (IPV4_HDR_MIN + ?len)) s0 = (fo, s1)" by fastforce
    show ?thesis
    proof (cases fo)
      case None
      have "trip (live st i) {i} st s1"
        using trip_chain [OF t0 trip_allocD [OF al]] by simp
      then show ?thesis using np al fits None by (simp add: ipv4_output_def s0_def [symmetric])
    next
      case (Some f)
      define hdr where "hdr = ipv4_set_checksum (ipv4_hdr_bytes \<lparr>ip_ver_ihl = IPV4_VERSION_IHL, ip_tos = 0,
         ip_total_len = net_htons (of_nat (IPV4_HDR_MIN + ?len)), ip_id = net_htons (ipv4_id_counter s1),
         ip_frag_off = 0, ip_ttl = 64, ip_proto = proto, ip_checksum = 0,
         ip_src = net_htonl (nif_ip (nifs s1 n)), ip_dst = net_htonl dst\<rparr>)"
      define s1' where "s1' = s1\<lparr>ipv4_id_counter := ipv4_id_counter s1 + 1\<rparr>"
      define s2 where "s2 = pb_write f 0 hdr s1'"
      define s3 where "s3 = pb_write f IPV4_HDR_MIN (mem_get (p_data (pb s2 i)) 0 ?len)
        (ub_unless (pb_ok i 0 ?len s2) s2)"
      define s4 where "s4 = pbuf_free (Some i) s3"
      obtain dm s5 where ar: "arp_resolve devs nif dst 200 s4 = (dm, s5)" by fastforce
      let ?r = "case dm of None \<Rightarrow> (-1, pbuf_free (Some f) s5)
          | Some mac \<Rightarrow> ethernet_output devs nif (Some f) mac ETH_TYPE_IPV4 s5"
      have out: "ipv4_output devs nif payload dst proto st = ?r"
        using np fits al [unfolded Some] ar [unfolded s4_def s3_def s2_def s1'_def hdr_def]
        by (simp add: ipv4_output_def s0_def [symmetric] pb_read_def Let_def split: option.splits)
      have hl: "length hdr = IPV4_HDR_MIN" by (simp add: hdr_def wire_defs)
      have "same_vars s1' s4" unfolding s4_def s3_def s2_def by (intro same_vars_step same_vars_refl)
      then have w4: "wrapped s4 = wrapped st"
        and f4: "var_frame st s4"
        using alloc_same_vars [OF al]
        by (simp_all add: same_vars_def wrapped_def var_frame_def s1'_def s0_def ub_unless_def)
      have b: "sound s4 \<and> keeps {i} st s4 \<and> live s4 f \<and> \<not> live st f" if "sound st" "live st i"
        using ipv4_built(1-3) [OF _ _ _ al [unfolded Some] hl, where i = i and c = "ipv4_id_counter s1 + 1",
            folded s1'_def, folded s2_def, folded s3_def, folded s4_def]
          ipv4_built(4) [OF _ _ _ al [unfolded Some] hl, where i = i] that fits s0' by simp
      have "trip (live st i) {i} st s4" using b w4 f4 by (auto simp: trip_def)
      then have "trip (live st i) ({i} \<union> {f}) st (snd ?r)"
        using ipv4_tail_trip [OF ar] by (rule trip_chain) (use b in simp)
      then have "trip (live st i) (insert f {i}) st (snd ?r)" by (simp add: insert_commute)
      then have "trip (live st i) {i} st (snd ?r)" using b by (blast intro: trip_fresh)
      then show ?thesis using out np by simp
    qed
  qed
qed

end

end
