(* ===== verification/Tcp.thy ===== *)
theory Tcp
  imports Net_Output
begin

text \<open>
  \<^verbatim>\<open>kernel/net/tcp.c\<close>: connection blocks, output and retransmission, the segment handler and
  the functions the socket layer calls. A \<^verbatim>\<open>struct tcp_pcb *\<close> is an index into the array
  \<open>pcbs\<close>; the block on the stack that \<^verbatim>\<open>tcp_input\<close> uses to send a reset is a value of its
  own. The calls of \<open>net_unlock\<close> and \<open>net_lock\<close> around a poll do nothing here; the lock is
  the subject of theory \<open>Net_Sync\<close>. Waiting loops are bounded by a spin count in the code;
  that count is the argument the recursion runs over.
\<close>

section \<open>Connection blocks\<close>

definition TCP_MSS :: nat where "TCP_MSS = 1024"
definition TCP_ECHO_PORT :: u16 where "TCP_ECHO_PORT = 7"
definition TCP_TEST_PORT :: u16 where "TCP_TEST_PORT = 7778"
definition TCP_RTO_TICKS :: u32 where "TCP_RTO_TICKS = 40"
definition TCP_RTO_MAX_TICKS :: u32 where "TCP_RTO_MAX_TICKS = 800"

text \<open>The size of \<^verbatim>\<open>struct tcp_pcb\<close> on x86-64.\<close>

definition SIZEOF_TCP_PCB :: nat where "SIZEOF_TCP_PCB = 3136"

definition zero_pcb :: tcp_pcb where
  "zero_pcb = \<lparr>pc_state = TCP_CLOSED, pc_echo = False, pc_in_use = False, pc_pending_accept = False,
     pc_local_port = 0, pc_remote_port = 0, pc_remote_ip = 0, pc_snd_una = 0, pc_snd_nxt = 0,
     pc_rcv_nxt = 0, pc_iss = 0, pc_rx_buf = replicate TCP_RX_MAX 0, pc_rx_len = 0,
     pc_una_buf = replicate TCP_UNA_MAX 0, pc_una_len = 0, pc_una_seq = 0, pc_rto_deadline = 0,
     pc_rto_ticks = 0, pc_parent = None, pc_nif = None\<rparr>"

abbreviation pcb :: "net \<Rightarrow> nat \<Rightarrow> tcp_pcb" where
  "pcb st i \<equiv> pcbs (tcp_v st) ! i"

definition upd_tcp :: "(tcp_vars \<Rightarrow> tcp_vars) \<Rightarrow> net \<Rightarrow> net" where
  "upd_tcp f st = st\<lparr>tcp_v := f (tcp_v st)\<rparr>"

definition upd_pcb :: "nat \<Rightarrow> (tcp_pcb \<Rightarrow> tcp_pcb) \<Rightarrow> net \<Rightarrow> net" where
  "upd_pcb i f st = upd_tcp (\<lambda>t. t\<lparr>pcbs := (pcbs t)[i := f (pcbs t ! i)]\<rparr>) st"

definition tcp_test_drop_next_data :: "bool \<Rightarrow> net \<Rightarrow> net" where
  "tcp_test_drop_next_data enable st = upd_tcp (\<lambda>t. t\<lparr>g_drop_next_data := enable\<rparr>) st"

definition tcp_rexmit_count :: "net \<Rightarrow> u32" where
  "tcp_rexmit_count st = g_rexmit_count (tcp_v st)"

text \<open>The body of the search loop of \<^verbatim>\<open>tcp_find\<close>, and the loop.\<close>

definition tcp_found :: "u16 \<Rightarrow> u16 \<Rightarrow> u32 \<Rightarrow> bool \<Rightarrow> tcp_pcb \<Rightarrow> bool" where
  "tcp_found local remote remote_ip allow_listen c \<longleftrightarrow>
     pc_in_use c \<and>
     (if pc_state c = TCP_LISTEN then allow_listen \<and> pc_local_port c = local
      else pc_local_port c = local \<and> pc_remote_port c = remote \<and> pc_remote_ip c = remote_ip)"

fun first_index :: "('a \<Rightarrow> bool) \<Rightarrow> 'a list \<Rightarrow> nat option" where
  "first_index P [] = None"
| "first_index P (x # xs) = (if P x then Some 0 else map_option Suc (first_index P xs))"

definition tcp_find :: "u16 \<Rightarrow> u16 \<Rightarrow> u32 \<Rightarrow> bool \<Rightarrow> net \<Rightarrow> nat option" where
  "tcp_find local remote remote_ip allow_listen st =
     first_index (tcp_found local remote remote_ip allow_listen) (pcbs (tcp_v st))"

definition tcp_pcb_new :: "nat option \<Rightarrow> net \<Rightarrow> nat option \<times> net" where
  "tcp_pcb_new nif st =
     (case first_index (\<lambda>c. \<not> pc_in_use c) (pcbs (tcp_v st)) of
        None \<Rightarrow> (None, st)
      | Some i \<Rightarrow> (Some i, upd_pcb i (\<lambda>_. zero_pcb\<lparr>pc_in_use := True, pc_state := TCP_CLOSED, pc_nif := nif,
                             pc_rto_ticks := TCP_RTO_TICKS\<rparr>) st))"

definition tcp_pcb_free :: "nat option \<Rightarrow> net \<Rightarrow> net" where
  "tcp_pcb_free p st = (case p of None \<Rightarrow> st | Some i \<Rightarrow> upd_pcb i (\<lambda>_. zero_pcb) st)"

definition tcp_pcb_bind :: "nat option \<Rightarrow> u16 \<Rightarrow> net \<Rightarrow> int \<times> net" where
  "tcp_pcb_bind p port st =
     (case p of None \<Rightarrow> (-1, st) | Some i \<Rightarrow>
        if port = 0 then (-1, st) else (0, upd_pcb i (\<lambda>c. c\<lparr>pc_local_port := port\<rparr>) st))"

definition tcp_pcb_state :: "nat option \<Rightarrow> net \<Rightarrow> tcp_state" where
  "tcp_pcb_state p st = (case p of None \<Rightarrow> TCP_CLOSED | Some i \<Rightarrow> pc_state (pcb st i))"

definition tcp_pcb_remote_ip :: "nat option \<Rightarrow> net \<Rightarrow> u32" where
  "tcp_pcb_remote_ip p st = (case p of None \<Rightarrow> 0 | Some i \<Rightarrow> pc_remote_ip (pcb st i))"

definition tcp_pcb_remote_port :: "nat option \<Rightarrow> net \<Rightarrow> u16" where
  "tcp_pcb_remote_port p st = (case p of None \<Rightarrow> 0 | Some i \<Rightarrow> pc_remote_port (pcb st i))"

definition tcp_rcv_wnd :: "tcp_pcb \<Rightarrow> u16" where
  "tcp_rcv_wnd c = (if unat (pc_rx_len c) \<ge> TCP_RX_MAX then 0
                    else ucast (of_nat TCP_RX_MAX - pc_rx_len c))"

section \<open>Output\<close>

text \<open>The sequence number after a segment: a SYN and a FIN count one, data its length.\<close>

definition tcp_seq_after :: "u8 \<Rightarrow> bytes \<Rightarrow> u32 \<Rightarrow> u32" where
  "tcp_seq_after flags payload seq =
     (let nxt = (if flags AND TCP_SYN \<noteq> 0 then seq + 1
                 else if payload \<noteq> [] then seq + of_nat (length payload) else seq)
      in if flags AND TCP_FIN \<noteq> 0 then nxt + 1 else nxt)"

text \<open>
  \<^verbatim>\<open>tcp_output\<close> on the block \<open>c\<close>; \<open>store\<close> writes its field \<^verbatim>\<open>snd_nxt\<close>, which happens before
  the segment is sent. The payload is at most one segment in every call.
\<close>

definition tcp_output_with ::
  "devs \<Rightarrow> tcp_pcb \<Rightarrow> (u32 \<Rightarrow> net \<Rightarrow> net) \<Rightarrow> u8 \<Rightarrow> bytes \<Rightarrow> net \<Rightarrow> int \<times> net" where
  "tcp_output_with devs c store flags payload st =
     (case pc_nif c of None \<Rightarrow> (-1, st) | Some n \<Rightarrow>
      if TCP_HDR_MIN + length payload > PBUF_SIZE then (-1, st)
      else
        let seq = pc_snd_nxt c in
        case pbuf_alloc (of_nat (TCP_HDR_MIN + length payload)) st of
          (None, st) \<Rightarrow> (-1, st)
        | (Some p, st) \<Rightarrow>
            let (tcp_len, seg) = tcp_build_win (pc_local_port c) (pc_remote_port c) seq (pc_rcv_nxt c)
                  flags payload (nif_ip (nifs st n)) (pc_remote_ip c) (tcp_rcv_wnd c);
                st = pb_write p 0 seg st;
                st = pb_set_len p (ucast tcp_len) st;
                st = store (tcp_seq_after flags payload seq) st
            in if payload \<noteq> [] \<and> g_drop_next_data (tcp_v st)
               then (0, pbuf_free (Some p) (upd_tcp (\<lambda>t. t\<lparr>g_drop_next_data := False\<rparr>) st))
               else ipv4_output devs (Some n) (Some p) (pc_remote_ip c) IPV4_PROTO_TCP st)"

definition tcp_output :: "devs \<Rightarrow> nat \<Rightarrow> u8 \<Rightarrow> bytes \<Rightarrow> net \<Rightarrow> int \<times> net" where
  "tcp_output devs i flags payload st =
     tcp_output_with devs (pcb st i) (\<lambda>nxt. upd_pcb i (\<lambda>c. c\<lparr>pc_snd_nxt := nxt\<rparr>)) flags payload st"

definition tcp_rexmit_una :: "devs \<Rightarrow> nat \<Rightarrow> net \<Rightarrow> int \<times> net" where
  "tcp_rexmit_una devs i st =
     (let c = pcb st i in
      if pc_una_len c = 0 then (-1, st)
      else case pc_nif c of None \<Rightarrow> (-1, st) | Some n \<Rightarrow>
        let seg = (if unat (pc_una_len c) < TCP_MSS then unat (pc_una_len c) else TCP_MSS) in
        if TCP_HDR_MIN + seg > PBUF_SIZE then (-1, st)
        else case pbuf_alloc (of_nat (TCP_HDR_MIN + seg)) st of
          (None, st) \<Rightarrow> (-1, st)
        | (Some p, st) \<Rightarrow>
            let (tcp_len, sg) = tcp_build_win (pc_local_port c) (pc_remote_port c) (pc_una_seq c)
                  (pc_rcv_nxt c) (TCP_PSH OR TCP_ACK) (mem_get (pc_una_buf c) 0 seg)
                  (nif_ip (nifs st n)) (pc_remote_ip c) (tcp_rcv_wnd c);
                st = pb_write p 0 sg st;
                st = pb_set_len p (ucast tcp_len) st;
                st = upd_tcp (\<lambda>t. t\<lparr>g_rexmit_count := g_rexmit_count t + 1\<rparr>) st
            in ipv4_output devs (Some n) (Some p) (pc_remote_ip c) IPV4_PROTO_TCP st)"

definition tcp_arm_rto :: "nat \<Rightarrow> net \<Rightarrow> net" where
  "tcp_arm_rto i st = upd_pcb i (\<lambda>c. c\<lparr>pc_rto_deadline := ticks st + pc_rto_ticks c\<rparr>) st"

definition tcp_on_ack :: "nat \<Rightarrow> u32 \<Rightarrow> net \<Rightarrow> net" where
  "tcp_on_ack i ack st =
     (let c = pcb st i in
      if pc_una_len c = 0 then st
      else if sint (ack - pc_una_seq c) \<le> 0 then st
      else
        let acked = ack - pc_una_seq c;
            st = (if acked \<ge> pc_una_len c
                  then upd_pcb i (\<lambda>c. c\<lparr>pc_una_len := 0, pc_rto_ticks := TCP_RTO_TICKS, pc_rto_deadline := 0\<rparr>) st
                  else
                    let st = ub_unless (unat (pc_una_len c) \<le> TCP_UNA_MAX) st;
                        st = upd_pcb i (\<lambda>c. c\<lparr>pc_una_buf := mem_put (pc_una_buf c) 0
                               (mem_get (pc_una_buf c) (unat acked) (unat (pc_una_len c - acked)))\<rparr>) st;
                        st = upd_pcb i (\<lambda>c. c\<lparr>pc_una_len := pc_una_len c - acked, pc_una_seq := ack\<rparr>) st
                    in tcp_arm_rto i st)
        in upd_pcb i (\<lambda>c. c\<lparr>pc_snd_una := ack\<rparr>) st)"

section \<open>Retransmission\<close>

definition tcp_timer_one :: "devs \<Rightarrow> u32 \<Rightarrow> nat \<Rightarrow> net \<Rightarrow> net" where
  "tcp_timer_one devs now i st =
     (let c = pcb st i in
      if \<not> pc_in_use c \<or> pc_una_len c = 0 then st
      else if pc_state c \<noteq> TCP_ESTABLISHED \<and> pc_state c \<noteq> TCP_FIN_WAIT_1 then st
      else if pc_rto_deadline c \<noteq> 0 \<and> sint (now - pc_rto_deadline c) < 0 then st
      else
        let st = snd (tcp_rexmit_una devs i st);
            st = (if pc_rto_ticks (pcb st i) < TCP_RTO_MAX_TICKS
                  then upd_pcb i (\<lambda>c. let r = pc_rto_ticks c * 2 in
                         c\<lparr>pc_rto_ticks := (if r > TCP_RTO_MAX_TICKS then TCP_RTO_MAX_TICKS else r)\<rparr>) st
                  else st)
        in tcp_arm_rto i st)"

definition tcp_timer :: "devs \<Rightarrow> u32 \<Rightarrow> net \<Rightarrow> net" where
  "tcp_timer devs now st = fold (tcp_timer_one devs now) [0..<TCP_PCB_MAX] st"

definition tcp_maybe_rexmit_spin :: "devs \<Rightarrow> nat \<Rightarrow> u32 \<Rightarrow> net \<Rightarrow> net" where
  "tcp_maybe_rexmit_spin devs i spins st =
     (if pc_una_len (pcb st i) = 0 then st
      else if spins mod 100000 = 99999
      then let st = upd_pcb i (\<lambda>c. c\<lparr>pc_rto_deadline := 0\<rparr>) st in tcp_timer devs (ticks st) st
      else st)"

section \<open>Sending\<close>

text \<open>One round of a waiting loop: let the driver deliver, then run the timers.\<close>

definition tcp_spin :: "devs \<Rightarrow> nat option \<Rightarrow> net \<Rightarrow> net" where
  "tcp_spin devs nif st = (let st = netif_poll devs nif st in tcp_timer devs (ticks st) st)"

definition TCP_SEND_SPINS :: nat where "TCP_SEND_SPINS = 4000000"

fun tcp_send_wait :: "devs \<Rightarrow> nat \<Rightarrow> nat \<Rightarrow> net \<Rightarrow> net" where
  "tcp_send_wait devs i 0 st = st"
| "tcp_send_wait devs i (Suc n) st =
     (if unat (pc_una_len (pcb st i)) \<ge> TCP_UNA_MAX
      then let st = tcp_spin devs (pc_nif (pcb st i)) st;
               st = tcp_maybe_rexmit_spin devs i (of_nat (TCP_SEND_SPINS - n)) st
           in tcp_send_wait devs i n st
      else st)"

text \<open>Appending a chunk to the unacknowledged data and arming the timer.\<close>

definition tcp_enqueue :: "nat \<Rightarrow> bytes \<Rightarrow> net \<Rightarrow> net" where
  "tcp_enqueue i chunk st =
     (let st = (if pc_una_len (pcb st i) = 0
                then upd_pcb i (\<lambda>c. c\<lparr>pc_una_seq := pc_snd_nxt c\<rparr>) st else st);
          st = ub_unless (unat (pc_una_len (pcb st i)) + length chunk \<le> TCP_UNA_MAX) st;
          st = upd_pcb i (\<lambda>c. c\<lparr>pc_una_buf := mem_put (pc_una_buf c) (unat (pc_una_len c)) chunk\<rparr>) st;
          st = upd_pcb i (\<lambda>c. c\<lparr>pc_una_len := pc_una_len c + of_nat (length chunk),
                 pc_rto_ticks := TCP_RTO_TICKS\<rparr>) st
      in tcp_arm_rto i st)"

definition tcp_send_len :: "bytes \<Rightarrow> u32 \<Rightarrow> nat" where
  "tcp_send_len buf space =
     (let n = (if length buf < unat space then length buf else unat space)
      in if n > TCP_MSS then TCP_MSS else n)"

text \<open>Taking a chunk back whose segment could not be sent.\<close>

definition tcp_take_back :: "nat \<Rightarrow> nat \<Rightarrow> net \<Rightarrow> net" where
  "tcp_take_back i n st =
     upd_pcb i (\<lambda>c. c\<lparr>pc_una_len := pc_una_len c - of_nat n\<rparr>)
       (upd_tcp (\<lambda>t. t\<lparr>una_wrapped := una_wrapped t \<or> unat (pc_una_len (pcb st i)) < n\<rparr>) st)"

definition tcp_pcb_send :: "devs \<Rightarrow> nat option \<Rightarrow> bytes \<Rightarrow> net \<Rightarrow> int \<times> net" where
  "tcp_pcb_send devs p buf st =
     (case p of None \<Rightarrow> (-1, st) | Some i \<Rightarrow>
      if pc_state (pcb st i) \<noteq> TCP_ESTABLISHED \<or> buf = [] then (-1, st)
      else
        let st = tcp_send_wait devs i TCP_SEND_SPINS st;
            space = of_nat TCP_UNA_MAX - pc_una_len (pcb st i)
        in if space = 0 then (-1, st)
           else
             let n = tcp_send_len buf space;
                 st = tcp_enqueue i (take n buf) st;
                 (r, st) = tcp_output devs i (TCP_PSH OR TCP_ACK) (take n buf) st
             in if r \<noteq> 0 then (-1, tcp_take_back i n st) else (int n, st))"

section \<open>The segment handler\<close>

definition tcp_rx_append :: "nat \<Rightarrow> bytes \<Rightarrow> net \<Rightarrow> net" where
  "tcp_rx_append i data st =
     (if data = [] then st
      else
        let space = of_nat TCP_RX_MAX - pc_rx_len (pcb st i);
            n = (if length data < unat space then length data else unat space);
            st = ub_unless (unat (pc_rx_len (pcb st i)) + n \<le> TCP_RX_MAX) st;
            st = upd_pcb i (\<lambda>c. c\<lparr>pc_rx_buf := mem_put (pc_rx_buf c) (unat (pc_rx_len c)) (take n data)\<rparr>) st
        in upd_pcb i (\<lambda>c. c\<lparr>pc_rx_len := pc_rx_len c + of_nat n\<rparr>) st)"

definition has :: "u8 \<Rightarrow> u8 \<Rightarrow> bool" where
  "has flags f \<longleftrightarrow> flags AND f \<noteq> 0"

text \<open>A connection request on a listening block.\<close>

definition tcp_handle_listen :: "devs \<Rightarrow> nat option \<Rightarrow> nat \<Rightarrow> u32 \<Rightarrow> u8 \<Rightarrow> u16 \<Rightarrow> u32 \<Rightarrow> net \<Rightarrow> net" where
  "tcp_handle_listen devs nif i seq flags sport sip st =
     (if \<not> has flags TCP_SYN \<or> has flags TCP_ACK then st
      else case tcp_pcb_new nif st of
        (None, st) \<Rightarrow> st
      | (Some ch, st) \<Rightarrow>
          let l = pcb st i;
              iss = 2000 + (pcbs_addr (tcp_v st) + of_nat (ch * SIZEOF_TCP_PCB));
              st = upd_pcb ch (\<lambda>c. c\<lparr>pc_state := TCP_SYN_RCVD, pc_echo := pc_echo l, pc_parent := Some i,
                     pc_local_port := pc_local_port l, pc_remote_port := sport, pc_remote_ip := sip,
                     pc_iss := iss, pc_snd_nxt := iss, pc_snd_una := iss, pc_rcv_nxt := seq + 1\<rparr>) st
          in snd (tcp_output devs ch (TCP_SYN OR TCP_ACK) [] st))"

definition tcp_handle_syn_sent :: "devs \<Rightarrow> nat \<Rightarrow> u32 \<Rightarrow> u32 \<Rightarrow> u8 \<Rightarrow> net \<Rightarrow> net" where
  "tcp_handle_syn_sent devs i seq ack flags st =
     (if flags AND (TCP_SYN OR TCP_ACK) = TCP_SYN OR TCP_ACK
      then let st = upd_pcb i (\<lambda>c. c\<lparr>pc_rcv_nxt := seq + 1, pc_snd_una := ack, pc_state := TCP_ESTABLISHED\<rparr>) st
           in snd (tcp_output devs i TCP_ACK [] st)
      else if has flags TCP_RST then upd_pcb i (\<lambda>c. c\<lparr>pc_state := TCP_CLOSED\<rparr>) st
      else st)"

text \<open>
  The three parts of the established state: the acknowledgement, the data, the FIN. The
  payload lies in the packet, which the caller holds until the handler returns.
\<close>

definition tcp_est_ack :: "nat \<Rightarrow> u32 \<Rightarrow> u8 \<Rightarrow> net \<Rightarrow> net" where
  "tcp_est_ack i ack flags st =
     (if has flags TCP_ACK
      then tcp_on_ack i ack (upd_pcb i (\<lambda>c. c\<lparr>pc_snd_una := ack\<rparr>) st) else st)"

definition tcp_est_data :: "devs \<Rightarrow> nat \<Rightarrow> u32 \<Rightarrow> bytes \<Rightarrow> net \<Rightarrow> net" where
  "tcp_est_data devs i seq payload st =
     (let plen = of_nat (length payload) in
      if payload \<noteq> [] \<and> seq = pc_rcv_nxt (pcb st i)
      then let space = of_nat TCP_RX_MAX - pc_rx_len (pcb st i) in
        if plen \<le> space
        then let st = upd_pcb i (\<lambda>c. c\<lparr>pc_rcv_nxt := seq + plen\<rparr>) st;
                 st = tcp_rx_append i payload st
             in if pc_echo (pcb st i) then snd (tcp_pcb_send devs (Some i) payload st)
                else snd (tcp_output devs i TCP_ACK [] st)
        else snd (tcp_output devs i TCP_ACK [] st)
      else st)"

definition tcp_est_fin :: "devs \<Rightarrow> nat \<Rightarrow> u32 \<Rightarrow> u8 \<Rightarrow> bytes \<Rightarrow> net \<Rightarrow> net" where
  "tcp_est_fin devs i seq flags payload st =
     (let plen = of_nat (length payload) in
      if has flags TCP_FIN \<and>
         (seq = pc_rcv_nxt (pcb st i) \<or> payload \<noteq> [] \<and> seq + plen = pc_rcv_nxt (pcb st i))
      then let st = upd_pcb i (\<lambda>c. c\<lparr>pc_rcv_nxt := seq + plen + 1\<rparr>) st in
        if pc_state (pcb st i) = TCP_ESTABLISHED \<or> pc_state (pcb st i) = TCP_SYN_RCVD
        then let st = upd_pcb i (\<lambda>c. c\<lparr>pc_state := TCP_CLOSE_WAIT\<rparr>) st;
                 st = snd (tcp_output devs i TCP_ACK [] st)
             in if pc_echo (pcb st i)
                then let st = snd (tcp_output devs i (TCP_FIN OR TCP_ACK) [] st)
                     in upd_pcb i (\<lambda>c. c\<lparr>pc_state := TCP_LAST_ACK\<rparr>) st
                else st
        else st
      else st)"

definition tcp_handle_fin_wait :: "devs \<Rightarrow> nat \<Rightarrow> u32 \<Rightarrow> u32 \<Rightarrow> u8 \<Rightarrow> net \<Rightarrow> net" where
  "tcp_handle_fin_wait devs i seq ack flags st =
     (let st = (if has flags TCP_ACK then tcp_on_ack i ack st else st);
          st = (if has flags TCP_ACK \<and> ack = pc_snd_nxt (pcb st i)
                then upd_pcb i (\<lambda>c. c\<lparr>pc_state := TCP_CLOSED\<rparr>) st else st)
      in if has flags TCP_FIN
         then let st = upd_pcb i (\<lambda>c. c\<lparr>pc_rcv_nxt := seq + 1\<rparr>) st;
                  st = snd (tcp_output devs i TCP_ACK [] st)
              in upd_pcb i (\<lambda>c. c\<lparr>pc_state := TCP_CLOSED\<rparr>) st
         else st)"

definition tcp_handle ::
  "devs \<Rightarrow> nat option \<Rightarrow> nat \<Rightarrow> u32 \<Rightarrow> u32 \<Rightarrow> u8 \<Rightarrow> bytes \<Rightarrow> u16 \<Rightarrow> u32 \<Rightarrow> net \<Rightarrow> net" where
  "tcp_handle devs nif i seq ack flags payload sport sip st =
     (if pc_state (pcb st i) = TCP_LISTEN then tcp_handle_listen devs nif i seq flags sport sip st
      else if pc_state (pcb st i) = TCP_SYN_SENT then tcp_handle_syn_sent devs i seq ack flags st
      else
        let st = (if pc_state (pcb st i) = TCP_SYN_RCVD \<and> has flags TCP_ACK
                  then upd_pcb i (\<lambda>c. c\<lparr>pc_snd_una := ack, pc_state := TCP_ESTABLISHED, pc_pending_accept := True\<rparr>) st
                  else st)
        in if pc_state (pcb st i) \<in> {TCP_ESTABLISHED, TCP_CLOSE_WAIT, TCP_SYN_RCVD}
           then let st = tcp_est_ack i ack flags st;
                    st = tcp_est_data devs i seq payload st
                in tcp_est_fin devs i seq flags payload st
           else if pc_state (pcb st i) = TCP_FIN_WAIT_1 then tcp_handle_fin_wait devs i seq ack flags st
           else if pc_state (pcb st i) = TCP_LAST_ACK
           then (if has flags TCP_ACK then upd_pcb i (\<lambda>c. c\<lparr>pc_state := TCP_CLOSED\<rparr>) st else st)
           else st)"

definition tcp_input :: "devs \<Rightarrow> nat option \<Rightarrow> nat option \<Rightarrow> nat \<Rightarrow> net \<Rightarrow> net" where
  "tcp_input devs nif p ip_hdr_len st =
     (case (nif, p) of
        (Some n, Some q) \<Rightarrow>
          let st = ub_unless (live st q) st;
              len = unat (p_len (pb st q))
          in if len < ip_hdr_len + TCP_HDR_MIN then pbuf_free p st
             else
               let (ipb, st) = pb_read q 0 IPV4_HDR_MIN st;
                   (thb, st) = pb_read q ip_hdr_len TCP_HDR_MIN st;
                   ip = ipv4_hdr_of ipb; th = tcp_hdr_of thb;
                   thl = unat (tcp_hdr_len th)
               in if thl < TCP_HDR_MIN \<or> ip_hdr_len + thl > len then pbuf_free p st
                  else
                    let plen = len - ip_hdr_len - thl;
                        sport = net_ntohs (th_src_port th); dport = net_ntohs (th_dst_port th);
                        seq = net_ntohl (th_seq th); ack = net_ntohl (th_ack th);
                        flags = th_flags th; sip = net_ntohl (ip_src ip);
                        (payload, st) = pb_read q (ip_hdr_len + thl) plen st;
                        found = (case tcp_find dport sport sip False st of Some i \<Rightarrow> Some i
                                 | None \<Rightarrow> tcp_find dport 0 0 True st)
                    in case found of
                      None \<Rightarrow>
                        let st = (if \<not> has flags TCP_RST
                              then let tmp = zero_pcb\<lparr>pc_in_use := True, pc_nif := nif, pc_local_port := dport,
                                        pc_remote_port := sport, pc_remote_ip := sip, pc_snd_nxt := ack,
                                        pc_rcv_nxt := seq + (if has flags TCP_SYN then 1 else of_nat plen)\<rparr>
                                   in snd (tcp_output_with devs tmp (\<lambda>_ s. s) (TCP_RST OR TCP_ACK) [] st)
                              else st)
                        in pbuf_free p st
                    | Some i \<Rightarrow>
                        pbuf_free p (tcp_handle devs nif i seq ack flags payload sport sip st)
      | _ \<Rightarrow> pbuf_free p st)"

section \<open>Setting up, accepting, connecting\<close>

definition tcp_init :: "net \<Rightarrow> net" where
  "tcp_init st = upd_tcp (\<lambda>t. t\<lparr>pcbs := replicate TCP_PCB_MAX zero_pcb, ephemeral := 41000,
     g_rexmit_count := 0, g_drop_next_data := False\<rparr>) st"

definition tcp_listen_echo :: "u16 \<Rightarrow> net \<Rightarrow> net" where
  "tcp_listen_echo port st =
     (case tcp_pcb_new (netif_default st) st of
        (None, st) \<Rightarrow> st
      | (Some i, st) \<Rightarrow> upd_pcb i (\<lambda>c. c\<lparr>pc_state := TCP_LISTEN, pc_local_port := port, pc_echo := True\<rparr>) st)"

definition tcp_pcb_listen :: "nat option \<Rightarrow> u16 \<Rightarrow> net \<Rightarrow> int \<times> net" where
  "tcp_pcb_listen p port st =
     (case p of None \<Rightarrow> (-1, st)
      | Some i \<Rightarrow> (0, upd_pcb i (\<lambda>c. c\<lparr>pc_state := TCP_LISTEN, pc_local_port := port, pc_echo := False\<rparr>) st))"

definition or_default :: "nat option \<Rightarrow> net \<Rightarrow> nat option" where
  "or_default nif st = (case nif of None \<Rightarrow> netif_default st | Some n \<Rightarrow> Some n)"

fun tcp_accept_loop :: "devs \<Rightarrow> nat \<Rightarrow> nat \<Rightarrow> net \<Rightarrow> nat option \<times> net" where
  "tcp_accept_loop devs l 0 st = (None, st)"
| "tcp_accept_loop devs l (Suc n) st =
     (let st = tcp_spin devs (or_default (pc_nif (pcb st l)) st) st in
      case first_index (\<lambda>c. pc_in_use c \<and> pc_parent c = Some l \<and> pc_pending_accept c \<and>
                             pc_state c = TCP_ESTABLISHED) (pcbs (tcp_v st)) of
        Some i \<Rightarrow> (Some i, upd_pcb i (\<lambda>c. c\<lparr>pc_pending_accept := False\<rparr>) st)
      | None \<Rightarrow> tcp_accept_loop devs l n st)"

definition tcp_pcb_accept :: "devs \<Rightarrow> nat option \<Rightarrow> u32 \<Rightarrow> net \<Rightarrow> nat option \<times> net" where
  "tcp_pcb_accept devs listener timeout_spins st =
     (case listener of None \<Rightarrow> (None, st) | Some l \<Rightarrow>
        if pc_state (pcb st l) \<noteq> TCP_LISTEN then (None, st)
        else tcp_accept_loop devs l (unat timeout_spins) st)"

text \<open>\<open>budget\<close> is the bound of the loop, \<open>n\<close> what is left of it; \<^verbatim>\<open>spins\<close> is their difference.\<close>

fun tcp_connect_loop :: "devs \<Rightarrow> nat \<Rightarrow> nat \<Rightarrow> nat \<Rightarrow> nat \<Rightarrow> net \<Rightarrow> int \<times> net" where
  "tcp_connect_loop devs i budget syn_retries n st =
     (if pc_state (pcb st i) = TCP_ESTABLISHED then (0, st)
      else case n of 0 \<Rightarrow> (-1, st) | Suc n \<Rightarrow>
        let spins = budget - Suc n;
            st = tcp_spin devs (pc_nif (pcb st i)) st
        in if pc_state (pcb st i) = TCP_CLOSED then (-1, st)
           else if pc_state (pcb st i) = TCP_SYN_SENT \<and> spins mod 200000 = 199999 \<and> syn_retries < 5
           then let st = upd_pcb i (\<lambda>c. c\<lparr>pc_snd_nxt := pc_iss c\<rparr>) st;
                    st = snd (tcp_output devs i TCP_SYN [] st)
                in tcp_connect_loop devs i budget (syn_retries + 1) n st
           else tcp_connect_loop devs i budget syn_retries n st)"

declare tcp_connect_loop.simps [simp del]

definition tcp_pcb_connect :: "devs \<Rightarrow> nat option \<Rightarrow> u32 \<Rightarrow> u16 \<Rightarrow> u32 \<Rightarrow> net \<Rightarrow> int \<times> net" where
  "tcp_pcb_connect devs p dst_host dst_port timeout_spins st =
     (case p of None \<Rightarrow> (-1, st) | Some i \<Rightarrow>
      if pc_nif (pcb st i) = None then (-1, st)
      else
        let st = (if pc_local_port (pcb st i) = 0
                  then let e = ephemeral (tcp_v st);
                           st = upd_pcb i (\<lambda>c. c\<lparr>pc_local_port := e\<rparr>) st
                       in upd_tcp (\<lambda>t. t\<lparr>ephemeral := (if e + 1 < 41000 then 41000 else e + 1)\<rparr>) st
                  else st);
            st = upd_pcb i (\<lambda>c. let iss = 1000 + ucast (pc_local_port c) in
                   c\<lparr>pc_remote_port := dst_port, pc_remote_ip := dst_host, pc_iss := iss, pc_snd_nxt := iss,
                     pc_snd_una := iss, pc_rcv_nxt := 0, pc_rx_len := 0, pc_una_len := 0,
                     pc_rto_ticks := TCP_RTO_TICKS, pc_state := TCP_SYN_SENT\<rparr>) st;
            (r, st) = tcp_output devs i TCP_SYN [] st
        in if r \<noteq> 0 then (-1, upd_pcb i (\<lambda>c. c\<lparr>pc_state := TCP_CLOSED\<rparr>) st)
           else tcp_connect_loop devs i (unat timeout_spins) 0 (unat timeout_spins) st)"

section \<open>Receiving and closing\<close>

fun tcp_recv_wait :: "devs \<Rightarrow> nat \<Rightarrow> nat \<Rightarrow> nat \<Rightarrow> net \<Rightarrow> net" where
  "tcp_recv_wait devs i budget 0 st = st"
| "tcp_recv_wait devs i budget (Suc n) st =
     (if pc_rx_len (pcb st i) = 0 \<and> pc_state (pcb st i) = TCP_ESTABLISHED
      then let st = tcp_spin devs (or_default (pc_nif (pcb st i)) st) st;
               st = tcp_maybe_rexmit_spin devs i (of_nat (budget - n)) st
           in tcp_recv_wait devs i budget n st
      else st)"

text \<open>Moving the first \<open>n\<close> received bytes out and the rest to the front of the buffer.\<close>

definition tcp_rx_take :: "nat \<Rightarrow> u32 \<Rightarrow> net \<Rightarrow> bytes \<times> net" where
  "tcp_rx_take i n st =
     (let c = pcb st i;
          st = ub_unless (unat (pc_rx_len c) \<le> TCP_RX_MAX) st;
          out = mem_get (pc_rx_buf c) 0 (unat n);
          st = (if n < pc_rx_len c
                then upd_pcb i (\<lambda>c. c\<lparr>pc_rx_buf := mem_put (pc_rx_buf c) 0
                       (mem_get (pc_rx_buf c) (unat n) (unat (pc_rx_len c - n)))\<rparr>) st
                else st)
      in (out, upd_pcb i (\<lambda>c. c\<lparr>pc_rx_len := pc_rx_len c - n\<rparr>) st))"

text \<open>\<open>len\<close> is the size of the caller's buffer; the result carries the bytes stored in it.\<close>

definition tcp_pcb_recv :: "devs \<Rightarrow> nat option \<Rightarrow> u32 \<Rightarrow> u32 \<Rightarrow> net \<Rightarrow> (int \<times> bytes) \<times> net" where
  "tcp_pcb_recv devs p len timeout_spins st =
     (case p of None \<Rightarrow> ((-1, []), st) | Some i \<Rightarrow>
      if len = 0 then ((-1, []), st)
      else
        let st = tcp_recv_wait devs i (unat timeout_spins) (unat timeout_spins) st;
            c = pcb st i
        in if pc_rx_len c = 0
           then (if pc_state c \<in> {TCP_CLOSE_WAIT, TCP_CLOSED, TCP_LAST_ACK} then ((0, []), st)
                 else ((if pc_state c = TCP_ESTABLISHED then 0 else -1, []), st))
           else
             let old_wnd = tcp_rcv_wnd c;
                 n = (if pc_rx_len c < len then pc_rx_len c else len);
                 (out, st) = tcp_rx_take i n st;
                 st = (if old_wnd = 0 \<and> tcp_rcv_wnd (pcb st i) \<noteq> 0 then snd (tcp_output devs i TCP_ACK [] st) else st)
             in ((int (unat n), out), st))"

definition TCP_DRAIN_SPINS :: nat where "TCP_DRAIN_SPINS = 8000000"
definition TCP_CLOSE_SPINS :: nat where "TCP_CLOSE_SPINS = 200000"

fun tcp_drain :: "devs \<Rightarrow> nat \<Rightarrow> nat \<Rightarrow> net \<Rightarrow> net" where
  "tcp_drain devs i 0 st = st"
| "tcp_drain devs i (Suc n) st =
     (if pc_una_len (pcb st i) \<noteq> 0
      then let st = tcp_spin devs (pc_nif (pcb st i)) st;
               st = tcp_maybe_rexmit_spin devs i (of_nat (TCP_DRAIN_SPINS - Suc n)) st
           in tcp_drain devs i n st
      else st)"

fun tcp_close_wait :: "devs \<Rightarrow> nat \<Rightarrow> nat \<Rightarrow> net \<Rightarrow> net" where
  "tcp_close_wait devs i 0 st = st"
| "tcp_close_wait devs i (Suc n) st =
     (if pc_state (pcb st i) \<noteq> TCP_CLOSED
      then tcp_close_wait devs i n (tcp_spin devs (pc_nif (pcb st i)) st) else st)"

definition tcp_pcb_close :: "devs \<Rightarrow> nat option \<Rightarrow> net \<Rightarrow> int \<times> net" where
  "tcp_pcb_close devs p st =
     (case p of None \<Rightarrow> (-1, st) | Some i \<Rightarrow>
        let st = tcp_drain devs i TCP_DRAIN_SPINS st;
            st = (if pc_state (pcb st i) = TCP_ESTABLISHED \<or> pc_state (pcb st i) = TCP_CLOSE_WAIT
                  then let st = snd (tcp_output devs i (TCP_FIN OR TCP_ACK) [] st);
                           st = upd_pcb i (\<lambda>c. c\<lparr>pc_state :=
                                  (if pc_state c = TCP_CLOSE_WAIT then TCP_LAST_ACK else TCP_FIN_WAIT_1)\<rparr>) st
                       in tcp_close_wait devs i TCP_CLOSE_SPINS st
                  else st)
        in (0, tcp_pcb_free p st))"

definition tcp_echo_payload :: bytes where
  "tcp_echo_payload = [73, 67, 83, 45, 84, 67, 80, 33]"

definition tcp_echo_client :: "devs \<Rightarrow> nat option \<Rightarrow> u32 \<Rightarrow> u16 \<Rightarrow> u32 \<Rightarrow> net \<Rightarrow> int \<times> net" where
  "tcp_echo_client devs nif dst_host dst_port timeout_spins st =
     (case tcp_pcb_new nif st of
        (None, st) \<Rightarrow> (-1, st)
      | (Some i, st) \<Rightarrow>
          (case tcp_pcb_connect devs (Some i) dst_host dst_port timeout_spins st of (r, st) \<Rightarrow>
           if r \<noteq> 0 then (-1, tcp_pcb_free (Some i) st)
           else case tcp_pcb_send devs (Some i) tcp_echo_payload st of (r, st) \<Rightarrow>
           if r < 0 then (-1, snd (tcp_pcb_close devs (Some i) st))
           else case tcp_pcb_recv devs (Some i) 16 timeout_spins st of ((n, out), st) \<Rightarrow>
           (if n \<noteq> 8 \<or> out \<noteq> tcp_echo_payload then -1 else 0, snd (tcp_pcb_close devs (Some i) st))))"

definition tcp_rexmit_payload :: bytes where
  "tcp_rexmit_payload = [73, 67, 83, 45, 82, 88, 84, 33]"

definition tcp_echo_rexmit_selftest :: "devs \<Rightarrow> nat option \<Rightarrow> u32 \<Rightarrow> u16 \<Rightarrow> u32 \<Rightarrow> net \<Rightarrow> int \<times> net" where
  "tcp_echo_rexmit_selftest devs nif dst_host dst_port timeout_spins st =
     (let before = g_rexmit_count (tcp_v st);
          (r, st) = (case tcp_pcb_new nif st of
            (None, st) \<Rightarrow> (-1, st)
          | (Some i, st) \<Rightarrow>
              (case tcp_pcb_connect devs (Some i) dst_host dst_port timeout_spins st of (r, st) \<Rightarrow>
               if r \<noteq> 0 then (-1, tcp_pcb_free (Some i) st)
               else case tcp_pcb_send devs (Some i) tcp_rexmit_payload (tcp_test_drop_next_data True st) of (r, st) \<Rightarrow>
               if r < 0 then (-1, snd (tcp_pcb_close devs (Some i) st))
               else case tcp_pcb_recv devs (Some i) 16 timeout_spins st of ((n, out), st) \<Rightarrow>
               (if n \<noteq> 8 \<or> out \<noteq> tcp_rexmit_payload \<or> g_rexmit_count (tcp_v st) \<le> before then -1 else 0,
                snd (tcp_pcb_close devs (Some i) st))))
      in (r, tcp_test_drop_next_data False st))"

end
