(* ===== verification/Tcp_Safety.thy ===== *)
theory Tcp_Safety
  imports Tcp
begin

text \<open>
  Safety of \<^verbatim>\<open>tcp.c\<close>: every operation keeps the stack's invariant (in particular that the
  receive and retransmission buffers of each connection hold at most 1024 and 2048 bytes),
  stays inside all buffers and leaves the packet buffers of its callers alone, as long as
  the driver does what \<open>net_driver\<close> asks. The one exception is written into \<open>trip\<close>: after a
  failed send has been taken back from a length that a nested acknowledgement had already
  reduced, nothing is claimed.
\<close>

section \<open>Steps on connection blocks\<close>

lemma upd_tcp_pool [simp]:
  "pbuf_pool (upd_tcp f st) = pbuf_pool st" "pbuf_free_list (upd_tcp f st) = pbuf_free_list st"
  "pbuf_inited (upd_tcp f st) = pbuf_inited st" "mem_fault (upd_tcp f st) = mem_fault st"
  "tcp_v (upd_tcp f st) = f (tcp_v st)" "nifs (upd_tcp f st) = nifs st" "ticks (upd_tcp f st) = ticks st"
  "g_default_netif (upd_tcp f st) = g_default_netif st" "icmp_v (upd_tcp f st) = icmp_v st"
  "udp_v (upd_tcp f st) = udp_v st" "dns_v (upd_tcp f st) = dns_v st" "dhcp_v (upd_tcp f st) = dhcp_v st"
  "sock_v (upd_tcp f st) = sock_v st" "vnet_v (upd_tcp f st) = vnet_v st"
  "time_count (upd_tcp f st) = time_count st"
  by (simp_all add: upd_tcp_def)

lemma upd_pcb_tcp [simp]:
  "una_wrapped (tcp_v (upd_pcb i f st)) = una_wrapped (tcp_v st)"
  "pcbs (tcp_v (upd_pcb i f st)) = (pcbs (tcp_v st))[i := f (pcb st i)]"
  "g_drop_next_data (tcp_v (upd_pcb i f st)) = g_drop_next_data (tcp_v st)"
  "nifs (upd_pcb i f st) = nifs st" "ticks (upd_pcb i f st) = ticks st"
  by (simp_all add: upd_pcb_def)

lemma trip_upd_tcp:
  assumes "una_wrapped (tcp_v st) \<Longrightarrow> una_wrapped (f (tcp_v st))"
    and "P \<Longrightarrow> tcp_ok (tcp_v st) \<Longrightarrow> tcp_ok (f (tcp_v st))"
  shows "trip P C st (upd_tcp f st)"
  using assms by (intro trip_vars) (auto simp: wrapped_def net_inv_def intro: var_frame_same)

lemma trip_upd_pcb:
  assumes "P \<Longrightarrow> i < TCP_PCB_MAX \<and> (pcb_ok (pcb st i) \<longrightarrow> pcb_ok (f (pcb st i)))"
  shows "trip P C st (upd_pcb i f st)"
  unfolding upd_pcb_def
proof (rule trip_upd_tcp)
  assume P and t: "tcp_ok (tcp_v st)"
  then have "pcb_ok (pcb st i)" and "pcb_ok (f (pcb st i))" using assms by (auto simp: tcp_ok_def)
  then show "tcp_ok (tcp_v st\<lparr>pcbs := (pcbs (tcp_v st))[i := f (pcbs (tcp_v st) ! i)]\<rparr>)"
    using t set_update_subset_insert [of "pcbs (tcp_v st)" i "f (pcb st i)"] by (auto simp: tcp_ok_def)
qed simp

text \<open>An update that keeps every block well-formed, whatever the index.\<close>

lemma trip_map_pcb:
  assumes "\<And>c. pcb_ok c \<Longrightarrow> pcb_ok (f c)"
  shows "trip P C st (upd_pcb i f st)"
proof (cases "i < TCP_PCB_MAX")
  case True
  then show ?thesis using assms by (intro trip_upd_pcb) simp
next
  case False
  then show ?thesis
    unfolding upd_pcb_def by (intro trip_upd_tcp) (simp_all add: tcp_ok_def list_update_beyond)
qed

lemma sound_pcb: "sound st \<Longrightarrow> i < TCP_PCB_MAX \<Longrightarrow> pcb_ok (pcb st i)"
  by (auto simp: sound_def net_inv_def tcp_ok_def)

lemma pcb_ok_zero [simp]: "pcb_ok zero_pcb"
  by (simp add: pcb_ok_def zero_pcb_def TCP_RX_MAX_def TCP_UNA_MAX_def)

lemma pcb_ok_fields [simp]:
  "pcb_ok (c\<lparr>pc_state := a\<rparr>) = pcb_ok c" "pcb_ok (c\<lparr>pc_echo := b\<rparr>) = pcb_ok c"
  "pcb_ok (c\<lparr>pc_in_use := b\<rparr>) = pcb_ok c" "pcb_ok (c\<lparr>pc_pending_accept := b\<rparr>) = pcb_ok c"
  "pcb_ok (c\<lparr>pc_local_port := p\<rparr>) = pcb_ok c" "pcb_ok (c\<lparr>pc_remote_port := p\<rparr>) = pcb_ok c"
  "pcb_ok (c\<lparr>pc_remote_ip := x\<rparr>) = pcb_ok c" "pcb_ok (c\<lparr>pc_snd_una := x\<rparr>) = pcb_ok c"
  "pcb_ok (c\<lparr>pc_snd_nxt := x\<rparr>) = pcb_ok c" "pcb_ok (c\<lparr>pc_rcv_nxt := x\<rparr>) = pcb_ok c"
  "pcb_ok (c\<lparr>pc_iss := x\<rparr>) = pcb_ok c" "pcb_ok (c\<lparr>pc_una_seq := x\<rparr>) = pcb_ok c"
  "pcb_ok (c\<lparr>pc_rto_deadline := x\<rparr>) = pcb_ok c" "pcb_ok (c\<lparr>pc_rto_ticks := x\<rparr>) = pcb_ok c"
  "pcb_ok (c\<lparr>pc_parent := q\<rparr>) = pcb_ok c" "pcb_ok (c\<lparr>pc_nif := q\<rparr>) = pcb_ok c"
  by (simp_all add: pcb_ok_def)

lemma pcb_ok_lens [simp]:
  "pcb_ok c \<Longrightarrow> pcb_ok (c\<lparr>pc_una_len := 0\<rparr>)" "pcb_ok c \<Longrightarrow> pcb_ok (c\<lparr>pc_rx_len := 0\<rparr>)"
  by (simp_all add: pcb_ok_def)

lemma pcb_upd_pcb: "i < length (pcbs (tcp_v st)) \<Longrightarrow> pcb (upd_pcb i f st) i = f (pcb st i)"
  by simp

lemma first_index_bound: "first_index P xs = Some i \<Longrightarrow> i < length xs \<and> P (xs ! i)"
  by (induction xs arbitrary: i) (auto split: if_splits)

lemma tcp_find_bound: "sound st \<Longrightarrow> tcp_find l r ip b st = Some i \<Longrightarrow> i < TCP_PCB_MAX"
  by (auto simp: tcp_find_def sound_def net_inv_def tcp_ok_def dest: first_index_bound)

text \<open>Words below a small bound.\<close>

lemma unat_space: "unat x \<le> n \<Longrightarrow> n < 4294967296 \<Longrightarrow> unat (of_nat n - x) = n - unat x" for x :: u32
  by (subst unat_sub) (simp_all add: word_le_nat_alt unat_of_nat_u32)

lemma unat_plus_nat:
  "unat x + n < 4294967296 \<Longrightarrow> unat (x + of_nat n) = unat x + n" for x :: u32
  by (simp add: unat_word_ariths unat_of_nat)

lemma unat_minus_le: "y \<le> x \<Longrightarrow> unat (x - y) = unat x - unat y" for x y :: u32
  by (rule unat_sub)

lemma seg_len_u16:
  "20 + n \<le> PBUF_SIZE \<Longrightarrow> unat (ucast (20 + of_nat n :: u32) :: u16) = 20 + n"
  using unat_plus_nat [of 20 n] by (subst unat_ucast_eq) (auto simp: wire_defs)

section \<open>Output\<close>

context net_driver
begin

lemma tcp_output_with_trip:
  assumes store: "\<And>nxt s. trip P {} s (store nxt s)"
  shows "trip P {} st (snd (tcp_output_with devs c store flags payload st))"
proof (cases "pc_nif c = None \<or> TCP_HDR_MIN + length payload > PBUF_SIZE")
  case True
  then have "snd (tcp_output_with devs c store flags payload st) = st"
    by (cases "pc_nif c") (simp_all add: tcp_output_with_def)
  then show ?thesis by simp
next
  case False
  then obtain n where n: "pc_nif c = Some n" by auto
  obtain po s1 where al: "pbuf_alloc (of_nat (TCP_HDR_MIN + length payload)) st = (po, s1)" by fastforce
  show ?thesis
  proof (cases po)
    case None
    then have "snd (tcp_output_with devs c store flags payload st) = s1"
      using n False al by (simp add: tcp_output_with_def)
    then show ?thesis using trip_allocD [OF al] by simp
  next
    case (Some p)
    define b where "b = tcp_build_win (pc_local_port c) (pc_remote_port c) (pc_snd_nxt c) (pc_rcv_nxt c)
                  flags payload (nif_ip (nifs s1 n)) (pc_remote_ip c) (tcp_rcv_wnd c)"
    define s3 where "s3 = pb_set_len p (ucast (fst b)) (pb_write p 0 (snd b) s1)"
    define s4 where "s4 = store (tcp_seq_after flags payload (pc_snd_nxt c)) s3"
    have r: "snd (tcp_output_with devs c store flags payload st) =
       (if payload \<noteq> [] \<and> g_drop_next_data (tcp_v s4)
        then pbuf_free (Some p) (upd_tcp (\<lambda>t. t\<lparr>g_drop_next_data := False\<rparr>) s4)
        else snd (ipv4_output devs (Some n) (Some p) (pc_remote_ip c) IPV4_PROTO_TCP s4))"
      using n False al Some
      by (simp add: tcp_output_with_def Let_def b_def s3_def s4_def split_beta)
    have lb: "length (snd b) = TCP_HDR_MIN + length payload"
      "unat (ucast (fst b) :: u16) = TCP_HDR_MIN + length payload"
      using False seg_len_u16 by (simp_all add: b_def fst_tcp_build_win wire_defs)
    have f: "length (snd b) \<le> PBUF_SIZE" "unat (ucast (fst b) :: u16) \<le> PBUF_SIZE" using lb False by simp_all
    let ?s4' = "upd_tcp (\<lambda>t. t\<lparr>g_drop_next_data := False\<rparr>) s4"
    have m: "trip P {} s3 s4" unfolding s4_def by (rule store)
    moreover have "trip P {} s4 ?s4'" by (rule trip_upd_tcp) (simp_all add: tcp_ok_def)
    ultimately have m': "trip P {} s3 ?s4'" by (rule trip_trans)
    have "trip P {} st (pbuf_free (Some p) ?s4')"
      using trip_free [of "Some p" ?s4']
      by (intro seg_out_trip [OF al [unfolded Some] f, folded s3_def, OF m']) simp
    moreover have "trip P {} st (snd (ipv4_output devs (Some n) (Some p) (pc_remote_ip c) IPV4_PROTO_TCP s4))"
      using ipv4_output_trip [of "Some p" s4]
      by (intro seg_out_trip [OF al [unfolded Some] f, folded s3_def, OF m]) simp
    ultimately show ?thesis unfolding r by simp
  qed
qed

lemma tcp_output_trip: "trip (i < TCP_PCB_MAX) {} st (snd (tcp_output devs i flags payload st))"
  unfolding tcp_output_def by (intro tcp_output_with_trip trip_upd_pcb) simp

lemma tcp_rexmit_una_trip: "trip (i < TCP_PCB_MAX) {} st (snd (tcp_rexmit_una devs i st))"
proof (cases "pc_una_len (pcb st i) = 0 \<or> pc_nif (pcb st i) = None")
  case True
  then have "snd (tcp_rexmit_una devs i st) = st"
    by (auto simp: tcp_rexmit_una_def Let_def)
  then show ?thesis by simp
next
  case False
  then obtain n where n: "pc_nif (pcb st i) = Some n" "pc_una_len (pcb st i) \<noteq> 0" by auto
  let ?c = "pcb st i"
  define k where "k = (if unat (pc_una_len ?c) < TCP_MSS then unat (pc_una_len ?c) else TCP_MSS)"
  have k: "k \<le> 1024" by (simp add: k_def TCP_MSS_def)
  then have fits: "\<not> TCP_HDR_MIN + k > PBUF_SIZE" by (simp add: wire_defs)
  obtain po s1 where al: "pbuf_alloc (of_nat (TCP_HDR_MIN + k)) st = (po, s1)" by fastforce
  show ?thesis
  proof (cases po)
    case None
    then have "snd (tcp_rexmit_una devs i st) = s1"
      using n al fits by (simp add: tcp_rexmit_una_def Let_def k_def)
    then show ?thesis using trip_allocD [OF al] by simp
  next
    case (Some p)
    define b where "b = tcp_build_win (pc_local_port ?c) (pc_remote_port ?c) (pc_una_seq ?c)
                  (pc_rcv_nxt ?c) (TCP_PSH OR TCP_ACK) (mem_get (pc_una_buf ?c) 0 k)
                  (nif_ip (nifs s1 n)) (pc_remote_ip ?c) (tcp_rcv_wnd ?c)"
    define s3 where "s3 = pb_set_len p (ucast (fst b)) (pb_write p 0 (snd b) s1)"
    define s4 where "s4 = upd_tcp (\<lambda>t. t\<lparr>g_rexmit_count := g_rexmit_count t + 1\<rparr>) s3"
    have r: "snd (tcp_rexmit_una devs i st)
        = snd (ipv4_output devs (Some n) (Some p) (pc_remote_ip ?c) IPV4_PROTO_TCP s4)"
      using n al fits Some
      by (simp add: tcp_rexmit_una_def Let_def k_def b_def s3_def s4_def split_beta)
    have l: "length (mem_get (pc_una_buf ?c) 0 k) \<le> 1024" using k by simp
    have f: "length (snd b) \<le> PBUF_SIZE" "unat (ucast (fst b) :: u16) \<le> PBUF_SIZE"
      using l seg_len_u16 by (simp_all add: b_def fst_tcp_build_win wire_defs)
    have m: "trip (i < TCP_PCB_MAX) {} s3 s4"
      unfolding s4_def by (rule trip_upd_tcp) (simp_all add: tcp_ok_def)
    show ?thesis
      unfolding r using ipv4_output_trip [of "Some p" s4]
      by (intro seg_out_trip [OF al [unfolded Some] f, folded s3_def, OF m]) simp
  qed
qed

lemma tcp_arm_rto_trip: "trip (i < TCP_PCB_MAX) C st (tcp_arm_rto i st)"
  unfolding tcp_arm_rto_def by (rule trip_upd_pcb) simp

lemma pcb_ok_drop_una:
  assumes "pcb_ok c" "acked < pc_una_len c"
  shows "pcb_ok (c\<lparr>pc_una_buf := mem_put (pc_una_buf c) 0
      (mem_get (pc_una_buf c) (unat acked) (unat (pc_una_len c - acked)))\<rparr>)"
    "pcb_ok (c\<lparr>pc_una_len := pc_una_len c - acked, pc_una_seq := x\<rparr>)"
proof -
  have "unat acked < unat (pc_una_len c)" using assms(2) by (simp add: word_less_nat_alt)
  moreover have "unat (pc_una_len c - acked) = unat (pc_una_len c) - unat acked"
    using assms(2) by (simp add: unat_sub)
  ultimately show "pcb_ok (c\<lparr>pc_una_buf := mem_put (pc_una_buf c) 0
      (mem_get (pc_una_buf c) (unat acked) (unat (pc_una_len c - acked)))\<rparr>)"
    "pcb_ok (c\<lparr>pc_una_len := pc_una_len c - acked, pc_una_seq := x\<rparr>)"
    using assms(1) by (auto simp: pcb_ok_def)
qed

lemma tcp_on_ack_trip: "trip (i < TCP_PCB_MAX) C st (tcp_on_ack i ack st)"
proof (cases "pc_una_len (pcb st i) = 0 \<or> sint (ack - pc_una_seq (pcb st i)) \<le> 0")
  case True
  then have "tcp_on_ack i ack st = st" by (auto simp: tcp_on_ack_def Let_def)
  then show ?thesis by simp
next
  case False
  let ?P = "i < TCP_PCB_MAX" and ?acked = "ack - pc_una_seq (pcb st i)"
  have fin: "trip ?P C s (upd_pcb i (\<lambda>c. c\<lparr>pc_snd_una := ack\<rparr>) s)" for s by (rule trip_upd_pcb) simp
  show ?thesis
  proof (cases "?acked \<ge> pc_una_len (pcb st i)")
    case True
    let ?s = "upd_pcb i (\<lambda>c. c\<lparr>pc_una_len := 0, pc_rto_ticks := TCP_RTO_TICKS, pc_rto_deadline := 0\<rparr>) st"
    have "trip ?P C st ?s" by (rule trip_upd_pcb) simp
    from trip_trans [OF this fin] show ?thesis using False True by (simp add: tcp_on_ack_def Let_def)
  next
    case part: False
    let ?u = "ub_unless (unat (pc_una_len (pcb st i)) \<le> TCP_UNA_MAX) st"
    let ?f = "\<lambda>c. c\<lparr>pc_una_buf := mem_put (pc_una_buf c) 0
        (mem_get (pc_una_buf c) (unat ?acked) (unat (pc_una_len c - ?acked)))\<rparr>"
    let ?g = "\<lambda>c. c\<lparr>pc_una_len := pc_una_len c - ?acked, pc_una_seq := ack\<rparr>"
    have u: "pcbs (tcp_v ?u) = pcbs (tcp_v st)" by (simp add: ub_unless_def)
    have lt: "?acked < pc_una_len (pcb st i)" using part by simp
    have t1: "trip ?P C st ?u"
      by (rule trip_ub_if) (use sound_pcb [of st i] in \<open>simp add: pcb_ok_def\<close>)
    have t2: "trip ?P C ?u (upd_pcb i ?f ?u)"
      by (rule trip_upd_pcb) (use lt pcb_ok_drop_una(1) u in auto)
    have t3: "trip (?P \<and> i < length (pcbs (tcp_v ?u))) C (upd_pcb i ?f ?u) (upd_pcb i ?g (upd_pcb i ?f ?u))"
      by (rule trip_upd_pcb) (use lt pcb_ok_drop_una(2) [of "?f (pcb st i)" ?acked ack] u in simp)
    have "trip ?P C st (upd_pcb i ?f ?u)" using t1 t2 by (rule trip_trans)
    then have "trip ?P C st (upd_pcb i ?g (upd_pcb i ?f ?u))"
      using t3 by (rule trip_seq) (auto simp: sound_def net_inv_def tcp_ok_def u)
    from trip_trans [OF trip_trans [OF this tcp_arm_rto_trip] fin]
    show ?thesis using False part by (simp add: tcp_on_ack_def Let_def)
  qed
qed

section \<open>Timers and sending\<close>

lemma tcp_timer_one_trip: "trip (i < TCP_PCB_MAX) {} st (tcp_timer_one devs now i st)"
proof -
  let ?P = "i < TCP_PCB_MAX"
  let ?s1 = "snd (tcp_rexmit_una devs i st)"
  let ?f = "\<lambda>c. let r = pc_rto_ticks c * 2 in
     c\<lparr>pc_rto_ticks := (if r > TCP_RTO_MAX_TICKS then TCP_RTO_MAX_TICKS else r)\<rparr>"
  let ?s2 = "if pc_rto_ticks (pcb ?s1 i) < TCP_RTO_MAX_TICKS then upd_pcb i ?f ?s1 else ?s1"
  have "trip ?P {} ?s1 ?s2" by (auto simp: Let_def intro: trip_upd_pcb)
  then have "trip ?P {} st ?s2" using tcp_rexmit_una_trip by (blast intro: trip_trans)
  then have "trip ?P {} st (tcp_arm_rto i ?s2)" using tcp_arm_rto_trip by (rule trip_trans)
  then show ?thesis by (simp add: tcp_timer_one_def Let_def)
qed

lemma fold_trip:
  assumes "\<And>x s. x \<in> set xs \<Longrightarrow> trip P C s (f x s)"
  shows "trip P C st (fold f xs st)"
  using assms by (induction xs arbitrary: st) (auto intro: trip_trans)

lemma tcp_timer_trip: "trip P {} st (tcp_timer devs now st)"
  unfolding tcp_timer_def
  by (rule fold_trip, rule trip_weaken [OF tcp_timer_one_trip]) auto

lemma tcp_spin_trip: "trip P {} st (tcp_spin devs nif st)"
  unfolding tcp_spin_def Let_def by (rule trip_trans [OF netif_poll_trip tcp_timer_trip])

lemma tcp_maybe_rexmit_spin_trip: "trip (i < TCP_PCB_MAX) {} st (tcp_maybe_rexmit_spin devs i spins st)"
proof -
  have "trip (i < TCP_PCB_MAX) {} st (upd_pcb i (\<lambda>c. c\<lparr>pc_rto_deadline := 0\<rparr>) st)"
    by (rule trip_upd_pcb) simp
  from trip_trans [OF this tcp_timer_trip] show ?thesis by (simp add: tcp_maybe_rexmit_spin_def Let_def)
qed

lemma tcp_send_wait_trip: "trip (i < TCP_PCB_MAX) {} st (tcp_send_wait devs i n st)"
proof (induction n arbitrary: st)
  case (Suc n)
  then show ?case
    using trip_trans [OF trip_trans [OF tcp_spin_trip tcp_maybe_rexmit_spin_trip] Suc]
    by (simp add: Let_def)
qed simp

lemma una_rollback_trip:
  "trip (i < TCP_PCB_MAX) {} st (tcp_take_back i n st)"
proof (cases "unat (pc_una_len (pcb st i)) < n")
  case True
  then show ?thesis by (simp add: trip_def wrapped_def upd_pcb_def tcp_take_back_def var_frame_same)
next
  case False
  let ?s = "upd_tcp (\<lambda>t. t\<lparr>una_wrapped := una_wrapped t \<or> unat (pc_una_len (pcb st i)) < n\<rparr>) st"
  have t1: "trip (i < TCP_PCB_MAX) {} st ?s" by (rule trip_upd_tcp) (simp_all add: tcp_ok_def)
  have n: "n < 4294967296" using False unat_u32_bound [of "pc_una_len (pcb st i)"] by linarith
  have le: "of_nat n \<le> pc_una_len (pcb st i)"
    using False n by (simp add: word_le_nat_alt unat_of_nat_u32)
  have "pcb_ok (c\<lparr>pc_una_len := pc_una_len c - of_nat n\<rparr>)" if "pcb_ok c" "of_nat n \<le> pc_una_len c" for c
    using that unat_sub [of "of_nat n" "pc_una_len c"] by (auto simp: pcb_ok_def)
  then show ?thesis
    using le unfolding tcp_take_back_def by (intro trip_trans [OF t1] trip_upd_pcb) auto
qed

lemma tcp_enqueue_trip:
  "trip (i < TCP_PCB_MAX \<and> unat (pc_una_len (pcb st i)) + length chunk \<le> TCP_UNA_MAX) {} st
     (tcp_enqueue i chunk st)"
proof -
  let ?room = "\<lambda>s. i < TCP_PCB_MAX \<and> unat (pc_una_len (pcb s i)) + length chunk \<le> TCP_UNA_MAX"
  let ?P = "?room st"
  define s1 where "s1 = (if pc_una_len (pcb st i) = 0
     then upd_pcb i (\<lambda>c. c\<lparr>pc_una_seq := pc_snd_nxt c\<rparr>) st else st)"
  define s2 where "s2 = ub_unless (unat (pc_una_len (pcb s1 i)) + length chunk \<le> TCP_UNA_MAX) s1"
  define s3 where "s3 = upd_pcb i (\<lambda>c. c\<lparr>pc_una_buf := mem_put (pc_una_buf c) (unat (pc_una_len c)) chunk\<rparr>) s2"
  define s4 where "s4 = upd_pcb i (\<lambda>c. c\<lparr>pc_una_len := pc_una_len c + of_nat (length chunk),
     pc_rto_ticks := TCP_RTO_TICKS\<rparr>) s3"
  have n8: "length (pcbs (tcp_v s)) = TCP_PCB_MAX" if "sound s" for s
    using that by (simp add: sound_def net_inv_def tcp_ok_def)
  have t1: "trip ?P {} st s1" unfolding s1_def by (auto intro: trip_upd_pcb)
  have r1: "?room s1" if ?P "sound st"
    using that n8 [of st] by (auto simp: s1_def)
  have p2: "pcbs (tcp_v s2) = pcbs (tcp_v s1)" by (simp add: s2_def ub_unless_def)
  have t2: "trip (?room s1) {} s1 s2" unfolding s2_def by (rule trip_ub_if) simp
  have t3: "trip (?room s1) {} s2 s3"
    unfolding s3_def by (rule trip_upd_pcb) (simp add: p2 pcb_ok_def)
  have "pcb_ok (c\<lparr>pc_una_len := pc_una_len c + of_nat (length chunk), pc_rto_ticks := x\<rparr>)"
    if "pcb_ok c" "unat (pc_una_len c) + length chunk \<le> TCP_UNA_MAX" for c x
    using that unat_plus_nat [of "pc_una_len c" "length chunk"] by (simp add: pcb_ok_def TCP_UNA_MAX_def)
  note grow = this [of "f (pcb s1 i)" for f]
  have t4: "trip (?room s1 \<and> i < length (pcbs (tcp_v s2))) {} s3 s4"
    unfolding s4_def
    by (rule trip_upd_pcb)
      (use grow [of "\<lambda>c. c\<lparr>pc_una_buf := mem_put (pc_una_buf c) (unat (pc_una_len c)) chunk\<rparr>"]
        in \<open>simp add: s3_def p2\<close>)
  have "trip (?room s1) {} s1 s3" using t2 t3 by (rule trip_trans)
  then have "trip (?room s1) {} s1 s4" using t4 by (rule trip_seq) (use n8 [of s3] in \<open>auto simp: s3_def\<close>)
  then have "trip (?room s1) {} s1 (tcp_arm_rto i s4)"
    using trip_weaken [OF tcp_arm_rto_trip [of i "{}" s4], of "{}" "?room s1"] trip_trans by blast
  then have "trip ?P {} st (tcp_arm_rto i s4)" using trip_seq [OF t1] r1 by simp
  then show ?thesis by (simp add: tcp_enqueue_def Let_def s1_def s2_def s3_def s4_def)
qed

lemma tcp_pcb_send_trip: "trip (\<forall>i. p = Some i \<longrightarrow> i < TCP_PCB_MAX) {} st (snd (tcp_pcb_send devs p buf st))"
proof (cases "\<exists>i. p = Some i \<and> pc_state (pcb st i) = TCP_ESTABLISHED \<and> buf \<noteq> []")
  case False
  then have "snd (tcp_pcb_send devs p buf st) = st" by (auto simp: tcp_pcb_send_def split: option.splits)
  then show ?thesis by simp
next
  case True
  then obtain i where i: "p = Some i" "pc_state (pcb st i) = TCP_ESTABLISHED" "buf \<noteq> []" by auto
  let ?P = "i < TCP_PCB_MAX"
  define s1 where "s1 = tcp_send_wait devs i TCP_SEND_SPINS st"
  define space where "space = of_nat TCP_UNA_MAX - pc_una_len (pcb s1 i)"
  define n where "n = tcp_send_len buf space"
  have t1: "trip ?P {} st s1" unfolding s1_def by (rule tcp_send_wait_trip)
  have ln: "length (take n buf) = n" by (auto simp: n_def tcp_send_len_def Let_def)
  have room: "unat (pc_una_len (pcb s1 i)) + n \<le> TCP_UNA_MAX" if ?P "sound s1"
    using sound_pcb [OF that(2,1)] unat_space [of "pc_una_len (pcb s1 i)" TCP_UNA_MAX]
    by (auto simp: n_def tcp_send_len_def space_def Let_def pcb_ok_def TCP_UNA_MAX_def)
  show ?thesis
  proof (cases "space = 0")
    case True
    then show ?thesis using i t1 by (simp add: tcp_pcb_send_def Let_def s1_def space_def)
  next
    case False
    define s2 where "s2 = tcp_enqueue i (take n buf) s1"
    obtain r s3 where o: "tcp_output devs i (TCP_PSH OR TCP_ACK) (take n buf) s2 = (r, s3)" by fastforce
    have "trip ?P {} st s2"
      unfolding s2_def using t1 tcp_enqueue_trip by (rule trip_seq) (use room ln in simp)
    then have t3: "trip ?P {} st s3"
      using tcp_output_trip [of i s2 "TCP_PSH OR TCP_ACK" "take n buf"] o by (auto intro: trip_trans)
    have "snd (tcp_pcb_send devs p buf st) = (if r \<noteq> 0 then tcp_take_back i n s3 else s3)"
      using i False o [unfolded s2_def n_def space_def s1_def]
      by (simp add: tcp_pcb_send_def Let_def s1_def space_def n_def)
    then show ?thesis
      using i t3 trip_trans [OF t3 una_rollback_trip [of i s3 n]] by simp
  qed
qed

section \<open>The segment handler\<close>

lemma tcp_rx_append_trip: "trip (i < TCP_PCB_MAX) {} st (tcp_rx_append i data st)"
proof -
  let ?P = "i < TCP_PCB_MAX"
  define space where "space = of_nat TCP_RX_MAX - pc_rx_len (pcb st i)"
  define n where "n = (if length data < unat space then length data else unat space)"
  let ?u = "ub_unless (unat (pc_rx_len (pcb st i)) + n \<le> TCP_RX_MAX) st"
  let ?f = "\<lambda>c. c\<lparr>pc_rx_buf := mem_put (pc_rx_buf c) (unat (pc_rx_len c)) (take n data)\<rparr>"
  let ?g = "\<lambda>c. c\<lparr>pc_rx_len := pc_rx_len c + of_nat n\<rparr>"
  have u: "pcbs (tcp_v ?u) = pcbs (tcp_v st)" by (simp add: ub_unless_def)
  have room: "unat (pc_rx_len c) + n \<le> TCP_RX_MAX" if "pcb_ok c" "c = pcb st i" for c
    using that unat_space [of "pc_rx_len (pcb st i)" TCP_RX_MAX]
    by (auto simp: n_def space_def pcb_ok_def TCP_RX_MAX_def)
  have t1: "trip ?P {} st ?u" by (rule trip_ub_if) (use room sound_pcb [of st i] in simp)
  have ln: "length (take n data) = n" by (simp add: n_def)
  have t2: "trip ?P {} ?u (upd_pcb i ?f ?u)"
    by (rule trip_upd_pcb) (use room ln u in \<open>auto simp: pcb_ok_def\<close>)
  have g: "pcb_ok (?g c)" if "pcb_ok c" "unat (pc_rx_len c) + n \<le> TCP_RX_MAX" for c
    using that unat_plus_nat [of "pc_rx_len c" n] by (simp add: pcb_ok_def TCP_RX_MAX_def)
  have t3: "trip (?P \<and> i < length (pcbs (tcp_v ?u)) \<and> unat (pc_rx_len (pcb st i)) + n \<le> TCP_RX_MAX) {}
      (upd_pcb i ?f ?u) (upd_pcb i ?g (upd_pcb i ?f ?u))"
    by (rule trip_upd_pcb) (use g [of "?f (pcb st i)"] u in simp)
  have "trip ?P {} st (upd_pcb i ?g (upd_pcb i ?f ?u))"
    by (rule trip_seq [OF trip_trans [OF t1 t2] t3])
      (use room sound_pcb [of st i] in \<open>auto simp: sound_def net_inv_def tcp_ok_def u\<close>)
  then show ?thesis
    unfolding tcp_rx_append_def Let_def n_def space_def by (simp only: trip_refl split: if_split) blast
qed

lemma tcp_pcb_new_trip: "tcp_pcb_new nif st = (r, st') \<Longrightarrow> trip P C st st'"
proof -
  have "trip P C st (upd_pcb i (\<lambda>_. zero_pcb\<lparr>pc_in_use := True, pc_state := TCP_CLOSED, pc_nif := nif,
      pc_rto_ticks := TCP_RTO_TICKS\<rparr>) st)" if "first_index (\<lambda>c. \<not> pc_in_use c) (pcbs (tcp_v st)) = Some i" for i
  proof (cases "sound st")
    case True
    then show ?thesis
      using first_index_bound [OF that]
      by (intro trip_upd_pcb) (auto simp: sound_def net_inv_def tcp_ok_def)
  next
    case False
    then show ?thesis by (simp add: trip_def wrapped_def var_frame_same upd_pcb_def)
  qed
  then show "tcp_pcb_new nif st = (r, st') \<Longrightarrow> trip P C st st'"
    by (auto simp: tcp_pcb_new_def split: option.splits)
qed

lemma tcp_pcb_new_bound: "tcp_pcb_new nif st = (Some i, st') \<Longrightarrow> sound st \<Longrightarrow> i < TCP_PCB_MAX"
  by (auto simp: tcp_pcb_new_def sound_def net_inv_def tcp_ok_def split: option.splits
      dest!: first_index_bound)

lemma upd_output_trip:
  assumes "\<And>c. pcb_ok c \<Longrightarrow> pcb_ok (f c)"
  shows "trip (i < TCP_PCB_MAX) {} st (snd (tcp_output devs i flags payload (upd_pcb i f st)))"
  using assms by (intro trip_trans [OF trip_upd_pcb tcp_output_trip]) auto

lemma tcp_handle_listen_trip: "trip P {} st (tcp_handle_listen devs nif i seq flags sport sip st)"
proof -
  obtain ro s1 where n: "tcp_pcb_new nif st = (ro, s1)" by fastforce
  have t1: "trip P {} st s1" by (rule tcp_pcb_new_trip [OF n])
  show ?thesis
  proof (cases ro)
    case None
    then show ?thesis using t1 n by (simp add: tcp_handle_listen_def)
  next
    case (Some ch)
    have "trip P {} st (snd (tcp_output devs ch (TCP_SYN OR TCP_ACK) [] (upd_pcb ch f s1)))"
      if "\<And>c. pcb_ok c \<Longrightarrow> pcb_ok (f c)" for f
      by (rule trip_seq [OF t1 upd_output_trip])
        (use that tcp_pcb_new_bound [OF n [unfolded Some]] in blast)+
    then show ?thesis using n Some by (simp add: tcp_handle_listen_def Let_def)
  qed
qed

lemma tcp_handle_syn_sent_trip: "trip (i < TCP_PCB_MAX) {} st (tcp_handle_syn_sent devs i seq ack flags st)"
  by (auto simp: tcp_handle_syn_sent_def Let_def intro!: upd_output_trip trip_upd_pcb)

lemma tcp_est_ack_trip: "trip (i < TCP_PCB_MAX) {} st (tcp_est_ack i ack flags st)"
  by (auto simp: tcp_est_ack_def intro!: trip_trans [OF trip_upd_pcb tcp_on_ack_trip])

lemma tcp_est_data_trip: "trip (i < TCP_PCB_MAX) {} st (tcp_est_data devs i seq payload st)"
proof -
  let ?P = "i < TCP_PCB_MAX"
  let ?s1 = "upd_pcb i (\<lambda>c. c\<lparr>pc_rcv_nxt := seq + of_nat (length payload)\<rparr>) st"
  let ?s2 = "tcp_rx_append i payload ?s1"
  have t2: "trip ?P {} st ?s2" by (rule trip_trans [OF trip_upd_pcb tcp_rx_append_trip]) simp
  have "trip ?P {} st (snd (tcp_pcb_send devs (Some i) payload ?s2))"
    using tcp_pcb_send_trip [of "Some i" ?s2 payload] by (intro trip_trans [OF t2]) simp
  moreover have "trip ?P {} st (snd (tcp_output devs i TCP_ACK [] ?s2))"
    by (rule trip_trans [OF t2 tcp_output_trip])
  ultimately show ?thesis
    using tcp_output_trip trip_refl by (auto simp only: tcp_est_data_def Let_def split: if_split)
qed

lemma tcp_est_fin_trip: "trip (i < TCP_PCB_MAX) {} st (tcp_est_fin devs i seq flags payload st)"
proof -
  let ?P = "i < TCP_PCB_MAX"
  let ?s1 = "upd_pcb i (\<lambda>c. c\<lparr>pc_rcv_nxt := seq + of_nat (length payload) + 1\<rparr>) st"
  let ?s2 = "snd (tcp_output devs i TCP_ACK [] (upd_pcb i (\<lambda>c. c\<lparr>pc_state := TCP_CLOSE_WAIT\<rparr>) ?s1))"
  let ?s3 = "upd_pcb i (\<lambda>c. c\<lparr>pc_state := TCP_LAST_ACK\<rparr>) (snd (tcp_output devs i (TCP_FIN OR TCP_ACK) [] ?s2))"
  have t1: "trip ?P {} st ?s1" by (rule trip_upd_pcb) simp
  then have t2: "trip ?P {} st ?s2" by (rule trip_trans) (simp add: upd_output_trip)
  then have "trip ?P {} st (snd (tcp_output devs i (TCP_FIN OR TCP_ACK) [] ?s2))"
    using tcp_output_trip by (rule trip_trans)
  then have t3: "trip ?P {} st ?s3" by (rule trip_trans) (simp add: trip_upd_pcb)
  show ?thesis
    using t1 t2 t3 trip_refl by (auto simp only: tcp_est_fin_def Let_def split: if_split)
qed

lemma tcp_handle_fin_wait_trip: "trip (i < TCP_PCB_MAX) {} st (tcp_handle_fin_wait devs i seq ack flags st)"
proof -
  let ?P = "i < TCP_PCB_MAX"
  define s1 where "s1 = (if has flags TCP_ACK then tcp_on_ack i ack st else st)"
  define s2 where "s2 = (if has flags TCP_ACK \<and> ack = pc_snd_nxt (pcb s1 i)
    then upd_pcb i (\<lambda>c. c\<lparr>pc_state := TCP_CLOSED\<rparr>) s1 else s1)"
  let ?s3 = "snd (tcp_output devs i TCP_ACK [] (upd_pcb i (\<lambda>c. c\<lparr>pc_rcv_nxt := seq + 1\<rparr>) s2))"
  have t1: "trip ?P {} st s1" by (simp add: s1_def tcp_on_ack_trip)
  have "trip ?P {} s1 s2" by (auto simp: s2_def intro: trip_upd_pcb)
  with t1 have t2: "trip ?P {} st s2" by (rule trip_trans)
  then have "trip ?P {} st ?s3" by (rule trip_trans) (simp add: upd_output_trip)
  then have "trip ?P {} st (upd_pcb i (\<lambda>c. c\<lparr>pc_state := TCP_CLOSED\<rparr>) ?s3)"
    by (rule trip_trans) (simp add: trip_upd_pcb)
  then show ?thesis
    using t2 unfolding tcp_handle_fin_wait_def Let_def s1_def [symmetric] s2_def [symmetric] by simp
qed

lemma tcp_handle_trip: "trip (i < TCP_PCB_MAX) {} st (tcp_handle devs nif i seq ack flags payload sport sip st)"
proof -
  let ?P = "i < TCP_PCB_MAX"
  define s1 where "s1 = (if pc_state (pcb st i) = TCP_SYN_RCVD \<and> has flags TCP_ACK
    then upd_pcb i (\<lambda>c. c\<lparr>pc_snd_una := ack, pc_state := TCP_ESTABLISHED, pc_pending_accept := True\<rparr>) st
    else st)"
  have t1: "trip ?P {} st s1" by (auto simp: s1_def intro: trip_upd_pcb)
  have "trip ?P {} st (tcp_est_fin devs i seq flags payload
      (tcp_est_data devs i seq payload (tcp_est_ack i ack flags s1)))"
    by (rule trip_trans [OF trip_trans [OF trip_trans [OF t1 tcp_est_ack_trip] tcp_est_data_trip] tcp_est_fin_trip])
  moreover have "trip ?P {} st (tcp_handle_fin_wait devs i seq ack flags s1)"
    by (rule trip_trans [OF t1 tcp_handle_fin_wait_trip])
  moreover have "trip ?P {} st (upd_pcb i (\<lambda>c. c\<lparr>pc_state := TCP_CLOSED\<rparr>) s1)"
    by (rule trip_trans [OF t1]) (simp add: trip_upd_pcb)
  ultimately show ?thesis
    using t1 tcp_handle_listen_trip tcp_handle_syn_sent_trip
    unfolding tcp_handle_def Let_def s1_def [symmetric] by simp
qed

text \<open>The answer to a segment that no block wants.\<close>

lemma tcp_rst_trip: "trip P {} st (snd (tcp_output_with devs c (\<lambda>_ s. s) flags [] st))"
  by (rule tcp_output_with_trip) simp

lemma tcp_input_trip:
  "trip (\<forall>i. p = Some i \<longrightarrow> live st i) (set_option p) st (tcp_input devs nif p ihl st)"
proof (cases "\<exists>n q. nif = Some n \<and> p = Some q")
  case False
  then show ?thesis using trip_free [of p st] by (auto simp: tcp_input_def split: option.splits)
next
  case True
  then obtain n q where np: "nif = Some n" "p = Some q" by auto
  let ?P = "live st q" and ?len = "unat (p_len (pb st q))"
  define s0 where "s0 = ub_unless ?P st"
  define s1 where "s1 = ub_unless (pb_ok q ihl TCP_HDR_MIN s0) (ub_unless (pb_ok q 0 IPV4_HDR_MIN s0) s0)"
  define th where "th = tcp_hdr_of (mem_get (p_data (pb st q)) ihl TCP_HDR_MIN)"
  define ip where "ip = ipv4_hdr_of (mem_get (p_data (pb st q)) 0 IPV4_HDR_MIN)"
  let ?thl = "unat (tcp_hdr_len th)"
  define s2 where "s2 = ub_unless (pb_ok q (ihl + ?thl) (?len - ihl - ?thl) s1) s1"
  have same: "pbuf_pool s0 = pbuf_pool st" "pbuf_pool s1 = pbuf_pool st" "live s0 = live st" "live s1 = live st"
    "live s2 = live st" by (simp_all add: s0_def s1_def s2_def)
  have t0: "trip ?P {} st s0" unfolding s0_def by (rule trip_ub_if)
  have len: "?len \<le> PBUF_SIZE" if "sound s" "live s q" "pbuf_pool s = pbuf_pool st" for s
    using sound_len [OF that(1,2)] that(3) by simp
  have t1: "trip ?P {} st s1" if "\<not> ?len < ihl + TCP_HDR_MIN"
    unfolding s1_def
    by (rule trip_trans [OF t0], rule trip_guard, rule trip_guard, rule trip_refl)
      (use that len [of s0] same in \<open>auto simp: pb_ok_def wire_defs\<close>)
  have t2: "trip ?P {} st s2" if "\<not> ?len < ihl + TCP_HDR_MIN" "\<not> ihl + ?thl > ?len"
    unfolding s2_def using t1 [OF that(1)]
    by (rule trip_trans) (rule trip_ub_if, use that len [of s1] same in \<open>auto simp: pb_ok_def\<close>)
  have free: "trip ?P {q} st (pbuf_free (Some q) s)" if "trip ?P {} st s" for s
    using that by (rule trip_hold_free)
  show ?thesis
  proof (cases "?len < ihl + TCP_HDR_MIN \<or> ?thl < TCP_HDR_MIN \<or> ihl + ?thl > ?len")
    case True
    then show ?thesis
      using free [OF t0] free [OF t1]
      by (auto simp: tcp_input_def np s0_def s1_def th_def pb_read_def pb_ok_def Let_def)
  next
    case False
    let ?hd = "\<lambda>i. tcp_handle devs nif i (net_ntohl (th_seq th)) (net_ntohl (th_ack th)) (th_flags th)
      (mem_get (p_data (pb st q)) (ihl + ?thl) (?len - ihl - ?thl)) (net_ntohs (th_src_port th))
      (net_ntohl (ip_src ip)) s2"
    have handle: "trip ?P {} st (?hd i)" if "tcp_find l r a b s2 = Some i" for i l r a b
      by (rule trip_seq [OF t2 tcp_handle_trip]) (use False tcp_find_bound [OF _ that] in auto)
    have rst: "trip ?P {} st (snd (tcp_output_with devs c (\<lambda>_ s. s) f [] s2))" for c f
      by (rule trip_trans [OF t2 tcp_rst_trip]) (use False in auto)
    have "trip ?P {q} st (tcp_input devs nif p ihl st)"
      using False free [OF t2] free [OF handle] free [OF rst]
      by (auto simp: tcp_input_def np s0_def s1_def s2_def th_def ip_def pb_read_def pb_ok_def Let_def
          split: option.splits)
    then show ?thesis using np by simp
  qed
qed

section \<open>The calls of the socket layer\<close>

lemma tcp_listen_echo_trip: "trip P {} st (tcp_listen_echo port st)"
proof -
  obtain ro s1 where n: "tcp_pcb_new (netif_default st) st = (ro, s1)" by fastforce
  have t: "trip P {} st s1" by (rule tcp_pcb_new_trip [OF n])
  have "trip P {} st (upd_pcb i (\<lambda>c. c\<lparr>pc_state := TCP_LISTEN, pc_local_port := port, pc_echo := True\<rparr>) s1)" for i
    by (rule trip_trans [OF t trip_map_pcb]) (simp add: pcb_ok_def)
  then show ?thesis using n t by (auto simp: tcp_listen_echo_def split: option.splits)
qed

lemma tcp_accept_loop_trip: "trip P {} st (snd (tcp_accept_loop devs l n st))"
proof (induction n arbitrary: st)
  case (Suc n)
  let ?s = "tcp_spin devs (or_default (pc_nif (pcb st l)) st) st"
  have t: "trip P {} st ?s" by (rule tcp_spin_trip)
  have "trip P {} st (snd (tcp_accept_loop devs l n ?s))" using t Suc by (rule trip_trans)
  moreover have "trip P {} st (upd_pcb i (\<lambda>c. c\<lparr>pc_pending_accept := False\<rparr>) ?s)" for i
    by (rule trip_trans [OF t trip_map_pcb]) (simp add: pcb_ok_def)
  ultimately show ?case by (simp add: Let_def split: option.splits)
qed simp

lemma tcp_accept_loop_bound:
  "tcp_accept_loop devs l n st = (Some i, st') \<Longrightarrow> sound st' \<Longrightarrow> i < TCP_PCB_MAX"
proof (induction n arbitrary: st)
  case (Suc n)
  then show ?case
    by (auto simp: Let_def sound_def net_inv_def tcp_ok_def split: option.splits dest!: first_index_bound)
qed simp

lemma tcp_pcb_accept_trip: "trip P {} st (snd (tcp_pcb_accept devs l w st))"
  using tcp_accept_loop_trip by (auto simp: tcp_pcb_accept_def split: option.splits)

lemma tcp_pcb_accept_bound:
  "tcp_pcb_accept devs l w st = (Some i, st') \<Longrightarrow> sound st' \<Longrightarrow> i < TCP_PCB_MAX"
  using tcp_accept_loop_bound by (auto simp: tcp_pcb_accept_def split: option.splits if_splits)

lemma tcp_connect_loop_trip: "trip (i < TCP_PCB_MAX) {} st (snd (tcp_connect_loop devs i b k n st))"
proof (induction n arbitrary: k st)
  case 0
  then show ?case by (subst tcp_connect_loop.simps) simp
next
  case (Suc n)
  let ?P = "i < TCP_PCB_MAX" and ?s = "tcp_spin devs (pc_nif (pcb st i)) st"
  let ?r = "snd (tcp_output devs i TCP_SYN [] (upd_pcb i (\<lambda>c. c\<lparr>pc_snd_nxt := pc_iss c\<rparr>) ?s))"
  have t: "trip ?P {} st ?s" by (rule tcp_spin_trip)
  have "trip ?P {} st (snd (tcp_connect_loop devs i b k n ?s))" using t Suc by (rule trip_trans)
  moreover have "trip ?P {} st ?r" by (rule trip_trans [OF t upd_output_trip]) simp
  then have "trip ?P {} st (snd (tcp_connect_loop devs i b (k + 1) n ?r))" using Suc by (rule trip_trans)
  ultimately show ?case using t by (subst tcp_connect_loop.simps) (simp add: Let_def)
qed

lemma tcp_pcb_connect_trip:
  "trip (\<forall>i. p = Some i \<longrightarrow> i < TCP_PCB_MAX) {} st (snd (tcp_pcb_connect devs p host port w st))"
proof (cases p)
  case (Some i)
  let ?P = "i < TCP_PCB_MAX" and ?e = "ephemeral (tcp_v st)"
  define s1 where "s1 = (if pc_local_port (pcb st i) = 0
    then upd_tcp (\<lambda>t. t\<lparr>ephemeral := (if ?e + 1 < 41000 then 41000 else ?e + 1)\<rparr>)
      (upd_pcb i (\<lambda>c. c\<lparr>pc_local_port := ?e\<rparr>) st) else st)"
  define s2 where "s2 = upd_pcb i (\<lambda>c. let iss = 1000 + ucast (pc_local_port c) in
     c\<lparr>pc_remote_port := port, pc_remote_ip := host, pc_iss := iss, pc_snd_nxt := iss,
       pc_snd_una := iss, pc_rcv_nxt := 0, pc_rx_len := 0, pc_una_len := 0,
       pc_rto_ticks := TCP_RTO_TICKS, pc_state := TCP_SYN_SENT\<rparr>) s1"
  obtain r s3 where o: "tcp_output devs i TCP_SYN [] s2 = (r, s3)" by fastforce
  have "trip ?P {} (upd_pcb i (\<lambda>c. c\<lparr>pc_local_port := ?e\<rparr>) st)
      (upd_tcp (\<lambda>t. t\<lparr>ephemeral := (if ?e + 1 < 41000 then 41000 else ?e + 1)\<rparr>)
      (upd_pcb i (\<lambda>c. c\<lparr>pc_local_port := ?e\<rparr>) st))"
    by (rule trip_upd_tcp) (auto simp: tcp_ok_def)
  from trip_trans [OF trip_map_pcb this] have t1: "trip ?P {} st s1"
    unfolding s1_def by (simp add: pcb_ok_def)
  have "trip ?P {} s1 s2" unfolding s2_def by (rule trip_upd_pcb) (simp add: Let_def pcb_ok_def)
  from trip_trans [OF t1 this] have "trip ?P {} st (snd (tcp_output devs i TCP_SYN [] s2))"
    using tcp_output_trip by (rule trip_trans)
  then have t3: "trip ?P {} st s3" using o by simp
  have "trip ?P {} st (upd_pcb i (\<lambda>c. c\<lparr>pc_state := TCP_CLOSED\<rparr>) s3)"
    by (rule trip_trans [OF t3 trip_upd_pcb]) simp
  moreover have "trip ?P {} st (snd (tcp_connect_loop devs i (unat w) 0 (unat w) s3))"
    using t3 tcp_connect_loop_trip by (rule trip_trans)
  moreover have "tcp_pcb_connect devs p host port w st =
      (if pc_nif (pcb st i) = None then (-1, st)
       else if r \<noteq> 0 then (-1, upd_pcb i (\<lambda>c. c\<lparr>pc_state := TCP_CLOSED\<rparr>) s3)
       else tcp_connect_loop devs i (unat w) 0 (unat w) s3)"
    unfolding tcp_pcb_connect_def Let_def Some option.case
      s1_def [symmetric] s2_def [unfolded Let_def, symmetric] by (simp add: o)
  ultimately show ?thesis using Some by simp
qed (simp add: tcp_pcb_connect_def)

lemma tcp_recv_wait_trip: "trip (i < TCP_PCB_MAX) {} st (tcp_recv_wait devs i b n st)"
proof (induction n arbitrary: st)
  case (Suc n)
  then show ?case
    using trip_trans [OF trip_trans [OF tcp_spin_trip tcp_maybe_rexmit_spin_trip] Suc]
    by (simp add: Let_def)
qed simp

lemma tcp_rx_take_trip:
  "trip (i < TCP_PCB_MAX \<and> n \<le> pc_rx_len (pcb st i)) {} st (snd (tcp_rx_take i n st))"
proof -
  let ?P = "i < TCP_PCB_MAX \<and> n \<le> pc_rx_len (pcb st i)"
  let ?u = "ub_unless (unat (pc_rx_len (pcb st i)) \<le> TCP_RX_MAX) st"
  let ?f = "\<lambda>c. c\<lparr>pc_rx_buf := mem_put (pc_rx_buf c) 0
    (mem_get (pc_rx_buf c) (unat n) (unat (pc_rx_len c - n)))\<rparr>"
  define s1 where "s1 = (if n < pc_rx_len (pcb st i) then upd_pcb i ?f ?u else ?u)"
  have u: "pcbs (tcp_v ?u) = pcbs (tcp_v st)" by (simp add: ub_unless_def)
  have t0: "trip ?P {} st ?u" by (rule trip_ub_if) (use sound_pcb [of st i] in \<open>simp add: pcb_ok_def\<close>)
  have sub: "unat (pc_rx_len c - n) = unat (pc_rx_len c) - unat n \<and> unat n \<le> unat (pc_rx_len c)"
    if "n \<le> pc_rx_len c" for c
    using that by (simp add: unat_sub word_le_nat_alt)
  have "trip ?P {} ?u s1"
    unfolding s1_def
    by (auto intro!: trip_upd_pcb simp: u pcb_ok_def dest!: sub)
  with t0 have t1: "trip ?P {} st s1" by (rule trip_trans)
  have len: "pc_rx_len (pcb s1 i) = pc_rx_len (pcb st i)" if "i < TCP_PCB_MAX" "sound st"
    using that u by (auto simp: s1_def sound_def net_inv_def tcp_ok_def)
  have "trip (i < TCP_PCB_MAX \<and> n \<le> pc_rx_len (pcb s1 i)) {} s1
      (upd_pcb i (\<lambda>c. c\<lparr>pc_rx_len := pc_rx_len c - n\<rparr>) s1)"
    by (rule trip_upd_pcb) (auto simp: pcb_ok_def dest!: sub)
  with t1 have "trip ?P {} st (upd_pcb i (\<lambda>c. c\<lparr>pc_rx_len := pc_rx_len c - n\<rparr>) s1)"
    by (rule trip_seq) (use len in auto)
  then show ?thesis by (simp add: tcp_rx_take_def Let_def s1_def u)
qed

lemma tcp_pcb_recv_trip:
  "trip (\<forall>i. p = Some i \<longrightarrow> i < TCP_PCB_MAX) {} st (snd (tcp_pcb_recv devs p len w st))"
proof (cases p)
  case (Some i)
  let ?P = "i < TCP_PCB_MAX"
  define s1 where "s1 = tcp_recv_wait devs i (unat w) (unat w) st"
  define n where "n = (if pc_rx_len (pcb s1 i) < len then pc_rx_len (pcb s1 i) else len)"
  obtain out s2 where x: "tcp_rx_take i n s1 = (out, s2)" by fastforce
  have t1: "trip ?P {} st s1" unfolding s1_def by (rule tcp_recv_wait_trip)
  have "trip (?P \<and> n \<le> pc_rx_len (pcb s1 i)) {} s1 s2" using tcp_rx_take_trip [of i n s1] x by simp
  with t1 have t2: "trip ?P {} st s2" by (rule trip_seq) (simp add: n_def not_less)
  moreover have "trip ?P {} st (snd (tcp_output devs i TCP_ACK [] s2))"
    using t2 tcp_output_trip by (rule trip_trans)
  ultimately show ?thesis
    using t1 Some x by (simp add: tcp_pcb_recv_def Let_def s1_def [symmetric] n_def [symmetric])
qed (simp add: tcp_pcb_recv_def)

lemma tcp_pcb_free_trip: "trip P C st (tcp_pcb_free p st)"
  by (auto simp: tcp_pcb_free_def split: option.splits intro!: trip_map_pcb)

lemma tcp_drain_trip: "trip (i < TCP_PCB_MAX) {} st (tcp_drain devs i n st)"
proof (induction n arbitrary: st)
  case (Suc n)
  then show ?case
    using trip_trans [OF trip_trans [OF tcp_spin_trip tcp_maybe_rexmit_spin_trip] Suc]
    by (simp add: Let_def)
qed simp

lemma tcp_close_wait_trip: "trip P {} st (tcp_close_wait devs i n st)"
proof (induction n arbitrary: st)
  case (Suc n)
  then show ?case using trip_trans [OF tcp_spin_trip Suc] by simp
qed simp

lemma tcp_pcb_close_trip:
  "trip (\<forall>i. p = Some i \<longrightarrow> i < TCP_PCB_MAX) {} st (snd (tcp_pcb_close devs p st))"
proof (cases p)
  case (Some i)
  let ?P = "i < TCP_PCB_MAX" and ?d = "tcp_drain devs i TCP_DRAIN_SPINS st"
  let ?s = "upd_pcb i (\<lambda>c. c\<lparr>pc_state := (if pc_state c = TCP_CLOSE_WAIT then TCP_LAST_ACK else TCP_FIN_WAIT_1)\<rparr>)
    (snd (tcp_output devs i (TCP_FIN OR TCP_ACK) [] ?d))"
  have d: "trip ?P {} st ?d" by (rule tcp_drain_trip)
  then have "trip ?P {} st (snd (tcp_output devs i (TCP_FIN OR TCP_ACK) [] ?d))"
    using tcp_output_trip by (rule trip_trans)
  then have "trip ?P {} st ?s" by (rule trip_trans) (rule trip_map_pcb, simp add: pcb_ok_def)
  then have "trip ?P {} st (tcp_close_wait devs i TCP_CLOSE_SPINS ?s)"
    using tcp_close_wait_trip by (rule trip_trans)
  from trip_trans [OF this tcp_pcb_free_trip] trip_trans [OF d tcp_pcb_free_trip] show ?thesis
    using Some by (simp add: tcp_pcb_close_def Let_def)
qed (simp add: tcp_pcb_close_def)

text \<open>The self tests: open a connection, send, receive, close; \<open>g\<close> is what the second one does before it sends.\<close>

definition echo_session where
  "echo_session g payload test nif host port w st =
     (case tcp_pcb_new nif st of
        (None, st) \<Rightarrow> (-1, st)
      | (Some i, st) \<Rightarrow>
          (case tcp_pcb_connect devs (Some i) host port w st of (r, st) \<Rightarrow>
           if r \<noteq> 0 then (-1, tcp_pcb_free (Some i) st)
           else case tcp_pcb_send devs (Some i) payload (g st) of (r, st) \<Rightarrow>
           if r < 0 then (-1, snd (tcp_pcb_close devs (Some i) st))
           else case tcp_pcb_recv devs (Some i) 16 w st of ((n, out), st) \<Rightarrow>
           (if test n out st then -1 else (0 :: int), snd (tcp_pcb_close devs (Some i) st))))"

lemma echo_session_trip:
  assumes g: "\<And>P s. trip P {} s (g s)"
  shows "trip P {} st (snd (echo_session g payload test nif host port w st))"
proof -
  obtain ro s1 where n: "tcp_pcb_new nif st = (ro, s1)" by fastforce
  have t1: "trip P {} st s1" by (rule tcp_pcb_new_trip [OF n])
  show ?thesis
  proof (cases ro)
    case None
    then show ?thesis using t1 n by (simp add: echo_session_def)
  next
    case (Some i)
    let ?P = "i < TCP_PCB_MAX"
    obtain r2 s2 where c: "tcp_pcb_connect devs (Some i) host port w s1 = (r2, s2)" by fastforce
    obtain r3 s3 where d: "tcp_pcb_send devs (Some i) payload (g s2) = (r3, s3)" by fastforce
    obtain k out s4 where e: "tcp_pcb_recv devs (Some i) 16 w s3 = ((k, out), s4)" by (metis surj_pair)
    have t2: "trip ?P {} s1 s2" using tcp_pcb_connect_trip [of "Some i" s1 host port w] c by simp
    have "trip ?P {} (g s2) s3" using tcp_pcb_send_trip [of "Some i" "g s2" payload] d by simp
    from trip_trans [OF trip_trans [OF t2 g] this] have t3: "trip ?P {} s1 s3" .
    have "trip ?P {} s3 s4" using tcp_pcb_recv_trip [of "Some i" s3 16 w] e by simp
    with t3 have t4: "trip ?P {} s1 s4" by (rule trip_trans)
    have close: "trip ?P {} s1 (snd (tcp_pcb_close devs (Some i) s))" if "trip ?P {} s1 s" for s
      using tcp_pcb_close_trip [of "Some i" s] by (intro trip_trans [OF that]) simp
    have "trip ?P {} s1 (snd (echo_session g payload test nif host port w st))"
      using n c d e Some close [OF t3] close [OF t4] trip_trans [OF t2 tcp_pcb_free_trip]
      by (simp add: echo_session_def)
    then show ?thesis
      by (rule trip_seq [OF t1]) (use tcp_pcb_new_bound n Some in blast)
  qed
qed

lemma tcp_echo_client_trip: "trip P {} st (snd (tcp_echo_client devs nif host port w st))"
  using echo_session_trip [of "\<lambda>s. s" P st tcp_echo_payload "\<lambda>n out s. n \<noteq> 8 \<or> out \<noteq> tcp_echo_payload"
    nif host port w, OF trip_refl]
  unfolding echo_session_def tcp_echo_client_def .

lemma tcp_drop_hook_trip: "trip P C st (tcp_test_drop_next_data b st)"
  unfolding tcp_test_drop_next_data_def by (rule trip_upd_tcp) (simp_all add: tcp_ok_def)

lemma tcp_echo_rexmit_selftest_trip:
  "trip P {} st (snd (tcp_echo_rexmit_selftest devs nif host port w st))"
proof -
  let ?s = "snd (echo_session (tcp_test_drop_next_data True) tcp_rexmit_payload
    (\<lambda>n out s. n \<noteq> 8 \<or> out \<noteq> tcp_rexmit_payload \<or> g_rexmit_count (tcp_v s) \<le> g_rexmit_count (tcp_v st))
    nif host port w st)"
  have "trip P {} st ?s" using tcp_drop_hook_trip by (rule echo_session_trip)
  from trip_trans [OF this tcp_drop_hook_trip] show ?thesis
    unfolding echo_session_def tcp_echo_rexmit_selftest_def Let_def by (simp only: split_beta snd_conv)
qed

end

end
