(* ===== verification/Udp.thy ===== *)
theory Udp
  imports Tcp_Safety
begin

text \<open>
  \<^verbatim>\<open>kernel/net/udp.c\<close> and the three functions an incoming datagram is offered to: the DHCP
  client (\<^verbatim>\<open>dhcp_udp_deliver\<close>), the DNS client (\<^verbatim>\<open>dns_udp_deliver\<close>) and the sockets
  (\<^verbatim>\<open>sock_udp_deliver\<close>). A payload is a list of bytes; lengths are computed in 32 bits, as
  the code does. The lemmas show that the code stays within its buffers, with the one
  condition under which \<^verbatim>\<open>udp_send\<close> does.
\<close>

section \<open>Delivery\<close>

definition upd_dhcp :: "(dhcp_vars \<Rightarrow> dhcp_vars) \<Rightarrow> net \<Rightarrow> net" where
  "upd_dhcp f st = st\<lparr>dhcp_v := f (dhcp_v st)\<rparr>"

definition upd_dns :: "(dns_vars \<Rightarrow> dns_vars) \<Rightarrow> net \<Rightarrow> net" where
  "upd_dns f st = st\<lparr>dns_v := f (dns_v st)\<rparr>"

definition upd_udp :: "(udp_vars \<Rightarrow> udp_vars) \<Rightarrow> net \<Rightarrow> net" where
  "upd_udp f st = st\<lparr>udp_v := f (udp_v st)\<rparr>"

definition dhcp_udp_deliver :: "u16 \<Rightarrow> bytes \<Rightarrow> net \<Rightarrow> bool \<times> net" where
  "dhcp_udp_deliver dport payload st =
     (if \<not> dhcp_waiting (dhcp_v st) \<or> dport \<noteq> DHCP_CLIENT_PORT \<or> payload = [] then (False, st)
      else if dhcp_rx_len (dhcp_v st) \<noteq> 0 then (True, st)
      else
        let plen = (if length payload > DHCP_RX_SIZE then DHCP_RX_SIZE else length payload)
        in (True, upd_dhcp (\<lambda>d. d\<lparr>dhcp_rx := mem_put (dhcp_rx d) 0 (take plen payload),
                                    dhcp_rx_len := of_nat plen\<rparr>) st))"

definition dns_udp_deliver :: "u16 \<Rightarrow> bytes \<Rightarrow> net \<Rightarrow> bool \<times> net" where
  "dns_udp_deliver dport payload st =
     (if \<not> dns_waiting (dns_v st) \<or> dport \<noteq> dns_wait_port (dns_v st) \<or> payload = [] then (False, st)
      else if dns_rx_len (dns_v st) \<noteq> 0 then (True, st)
      else
        let plen = (if length payload > DNS_MAX_PKT then DNS_MAX_PKT else length payload)
        in (True, upd_dns (\<lambda>d. d\<lparr>dns_rx := mem_put (dns_rx d) 0 (take plen payload),
                                  dns_rx_len := of_nat plen\<rparr>) st))"

text \<open>
  The socket table. \<open>udp_scan\<close> is the search loop of \<^verbatim>\<open>sock_udp_deliver\<close>; its first component
  is false when the loop dereferences a socket that has been freed.
\<close>

definition upd_sk :: "nat \<Rightarrow> (sock \<Rightarrow> sock) \<Rightarrow> net \<Rightarrow> net" where
  "upd_sk j f st = st\<lparr>sock_v := (sock_v st)\<lparr>socks := (socks (sock_v st))(j := map_option f (socks (sock_v st) j))\<rparr>\<rparr>"

definition udp_wants :: "u16 \<Rightarrow> u16 \<Rightarrow> u32 \<Rightarrow> sock \<Rightarrow> bool" where
  "udp_wants dport sport sip s \<longleftrightarrow>
     sk_type s = SOCK_UDP \<and> sk_bound s \<and> sk_local_port s = dport \<and>
     \<not> (sk_peer_port s \<noteq> 0 \<and> (sk_peer_ip s \<noteq> sip \<or> sk_peer_port s \<noteq> sport))"

fun udp_scan :: "u16 \<Rightarrow> u16 \<Rightarrow> u32 \<Rightarrow> (nat \<Rightarrow> sock option) \<Rightarrow> nat option list \<Rightarrow> bool \<times> nat option" where
  "udp_scan dport sport sip heap [] = (True, None)"
| "udp_scan dport sport sip heap (None # slots) = udp_scan dport sport sip heap slots"
| "udp_scan dport sport sip heap (Some j # slots) =
     (case heap j of
        None \<Rightarrow> (False, None)
      | Some s \<Rightarrow> if udp_wants dport sport sip s then (True, Some j) else udp_scan dport sport sip heap slots)"

definition sock_udp_deliver :: "u16 \<Rightarrow> u16 \<Rightarrow> u32 \<Rightarrow> bytes \<Rightarrow> net \<Rightarrow> bool \<times> net" where
  "sock_udp_deliver dport sport sip payload st =
     (let (ok, found) = udp_scan dport sport sip (socks (sock_v st)) (udp_socks (sock_v st));
          st = ub_unless ok st
      in case found of None \<Rightarrow> (False, st) | Some j \<Rightarrow>
           if sk_rx_len (the (socks (sock_v st) j)) \<noteq> 0 then (True, st)
           else
             let n = (if length payload < SOCK_UDP_RX_MAX then length payload else SOCK_UDP_RX_MAX)
             in (True, upd_sk j (\<lambda>s. s\<lparr>sk_rx_buf := mem_put (sk_rx_buf s) 0 (take n payload),
                    sk_rx_len := of_nat n, sk_rx_from_ip := sip, sk_rx_from_port := sport\<rparr>) st))"

section \<open>Sending and receiving datagrams\<close>

definition udp_send :: "devs \<Rightarrow> nat option \<Rightarrow> u32 \<Rightarrow> u16 \<Rightarrow> u16 \<Rightarrow> bytes \<Rightarrow> net \<Rightarrow> int \<times> net" where
  "udp_send devs nif dst_host src_port dst_port payload st =
     (case nif of None \<Rightarrow> (-1, st) | Some n \<Rightarrow>
      if nif_configured (nifs st n) = 0 then (-1, st)
      else
        let total = (of_nat UDP_HDR_LEN + of_nat (length payload) :: u32) in
        if total > of_nat PBUF_SIZE then (-1, st)
        else case pbuf_alloc (ucast total) st of
          (None, st) \<Rightarrow> (-1, st)
        | (Some p, st) \<Rightarrow>
            let (udp_len, dgram) = udp_build src_port dst_port payload (nif_ip (nifs st n)) dst_host;
                st = pb_write p 0 dgram st;
                st = pb_set_len p (ucast udp_len) st
            in ipv4_output devs nif (Some p) dst_host IPV4_PROTO_UDP st)"

text \<open>What \<^verbatim>\<open>udp_input\<close> does with a datagram whose lengths are consistent.\<close>

definition udp_dispatch :: "devs \<Rightarrow> nat \<Rightarrow> u16 \<Rightarrow> u16 \<Rightarrow> u32 \<Rightarrow> bytes \<Rightarrow> net \<Rightarrow> net" where
  "udp_dispatch devs n sport dport sip payload st =
     (case dhcp_udp_deliver dport payload st of (True, st) \<Rightarrow> st | (False, st) \<Rightarrow>
      case dns_udp_deliver dport payload st of (True, st) \<Rightarrow> st | (False, st) \<Rightarrow>
      if dport = UDP_ECHO_PORT \<and> nif_configured (nifs st n) \<noteq> 0
      then snd (udp_send devs (Some n) sip UDP_ECHO_PORT sport payload st)
      else case sock_udp_deliver dport sport sip payload st of (True, st) \<Rightarrow> st | (False, st) \<Rightarrow>
        if udp_wait (udp_v st) \<and> dport = udp_wait_sport (udp_v st) \<and> sport = udp_wait_dport (udp_v st) \<and>
           of_nat (length payload) = udp_wait_plen (udp_v st)
        then let st = ub_unless (length payload \<le> UDP_WAIT_SIZE) st
             in if payload = take (length payload) (udp_wait_payload (udp_v st))
                then upd_udp (\<lambda>u. u\<lparr>udp_wait := False\<rparr>) st else st
        else st)"

definition udp_input :: "devs \<Rightarrow> nat option \<Rightarrow> nat option \<Rightarrow> nat \<Rightarrow> net \<Rightarrow> net" where
  "udp_input devs nif p ip_hdr_len st =
     (case (nif, p) of
        (Some n, Some q) \<Rightarrow>
          let st = ub_unless (live st q) st;
              len = unat (p_len (pb st q))
          in if len < ip_hdr_len + UDP_HDR_LEN then pbuf_free p st
             else
               let (ipb, st) = pb_read q 0 IPV4_HDR_MIN st;
                   (uhb, st) = pb_read q ip_hdr_len UDP_HDR_LEN st;
                   ip = ipv4_hdr_of ipb; uh = udp_hdr_of uhb;
                   udp_len = unat (net_ntohs (uh_length uh))
               in if udp_len < UDP_HDR_LEN \<or> ip_hdr_len + udp_len > len then pbuf_free p st
                  else
                    let (payload, st) = pb_read q (ip_hdr_len + UDP_HDR_LEN) (udp_len - UDP_HDR_LEN) st
                    in pbuf_free p (udp_dispatch devs n (net_ntohs (uh_src_port uh)) (net_ntohs (uh_dst_port uh))
                         (net_ntohl (ip_src ip)) payload st)
      | _ \<Rightarrow> pbuf_free p st)"

definition udp_echo_payload :: bytes where
  "udp_echo_payload = [73, 67, 83, 45, 85, 68, 80, 33]"

fun udp_wait_loop :: "devs \<Rightarrow> nat option \<Rightarrow> nat \<Rightarrow> net \<Rightarrow> net" where
  "udp_wait_loop devs nif 0 st = st"
| "udp_wait_loop devs nif (Suc n) st =
     (if udp_wait (udp_v st) then udp_wait_loop devs nif n (netif_poll devs nif st) else st)"

definition udp_echo_client :: "devs \<Rightarrow> nat option \<Rightarrow> u32 \<Rightarrow> u16 \<Rightarrow> u32 \<Rightarrow> net \<Rightarrow> int \<times> net" where
  "udp_echo_client devs nif dst_host dst_port timeout_spins st =
     (case nif of None \<Rightarrow> (-1, st) | Some n \<Rightarrow>
      if nif_configured (nifs st n) = 0 then (-1, st)
      else
        let st = upd_udp (\<lambda>u. u\<lparr>udp_wait_plen := 8,
                   udp_wait_payload := mem_put (udp_wait_payload u) 0 udp_echo_payload,
                   udp_wait_sport := 40000, udp_wait_dport := dst_port, udp_wait := True\<rparr>) st;
            (r, st) = udp_send devs nif dst_host 40000 dst_port udp_echo_payload st
        in if r \<noteq> 0 then (-1, upd_udp (\<lambda>u. u\<lparr>udp_wait := False\<rparr>) st)
           else
             let st = udp_wait_loop devs nif (unat timeout_spins) st
             in if udp_wait (udp_v st) then (-1, upd_udp (\<lambda>u. u\<lparr>udp_wait := False\<rparr>) st) else (0, st))"

section \<open>Bounds\<close>

lemma trip_upd_dhcp:
  assumes "P \<Longrightarrow> dhcp_ok (dhcp_v st) \<Longrightarrow> dhcp_ok (f (dhcp_v st))"
    and "dhcp_key (f (dhcp_v st)) = dhcp_key (dhcp_v st)"
  shows "trip P C st (upd_dhcp f st)"
  using assms by (intro trip_vars) (auto simp: upd_dhcp_def wrapped_def net_inv_def var_frame_def)

lemma trip_upd_dns:
  assumes "P \<Longrightarrow> dns_ok (dns_v st) \<Longrightarrow> dns_ok (f (dns_v st))"
  shows "trip P C st (upd_dns f st)"
  using assms by (intro trip_vars) (auto simp: upd_dns_def wrapped_def net_inv_def var_frame_def)

lemma trip_upd_udp:
  assumes "P \<Longrightarrow> udp_ok (udp_v st) \<Longrightarrow> udp_ok (f (udp_v st))"
  shows "trip P C st (upd_udp f st)"
  using assms by (intro trip_vars) (auto simp: upd_udp_def wrapped_def net_inv_def var_frame_def)

lemma dhcp_udp_deliver_trip: "trip P C st (snd (dhcp_udp_deliver dport payload st))"
  by (auto simp: dhcp_udp_deliver_def Let_def dhcp_ok_def dhcp_key_def DHCP_RX_SIZE_def unat_of_nat_u32 intro!: trip_upd_dhcp)

lemma dns_udp_deliver_trip: "trip P C st (snd (dns_udp_deliver dport payload st))"
  by (auto simp: dns_udp_deliver_def Let_def dns_ok_def DNS_MAX_PKT_def unat_of_nat_u32 intro!: trip_upd_dns)

text \<open>The search never touches a freed socket, because the table holds allocated ones only.\<close>

lemma udp_scan_ok:
  assumes "\<forall>j. Some j \<in> set slots \<longrightarrow> heap j \<noteq> None"
  shows "fst (udp_scan dport sport sip heap slots)"
  using assms by (induction slots rule: udp_scan.induct) (auto split: option.splits)

lemma udp_scan_Some:
  "udp_scan dport sport sip heap slots = (ok, Some j) \<Longrightarrow>
   ok \<and> Some j \<in> set slots \<and> (\<exists>s. heap j = Some s \<and> udp_wants dport sport sip s)"
  by (induction slots rule: udp_scan.induct) (auto split: option.splits if_splits)

lemma trip_upd_sk:
  assumes "\<And>s. sk_key (f s) = sk_key s" "\<And>s. sk_ok s \<Longrightarrow> sk_ok (f s)"
  shows "trip P C st (upd_sk j f st)"
  using assms
  by (intro trip_vars)
    (auto simp: upd_sk_def wrapped_def net_inv_def sock_ok_def var_frame_def option.map_comp comp_def split: option.splits)

lemma sock_udp_deliver_trip: "trip P C st (snd (sock_udp_deliver dport sport sip payload st))"
proof -
  obtain ok found where s: "udp_scan dport sport sip (socks (sock_v st)) (udp_socks (sock_v st)) = (ok, found)"
    by fastforce
  let ?u = "ub_unless ok st"
  have u: "sock_v ?u = sock_v st" by (simp add: ub_unless_def)
  have t: "trip P C st ?u"
    using udp_scan_ok [of "udp_socks (sock_v st)" "socks (sock_v st)" dport sport sip] s
    by (intro trip_ub_if) (auto simp: sound_def net_inv_def sock_ok_def)
  have "trip P C st (upd_sk j (\<lambda>s. s\<lparr>sk_rx_buf := mem_put (sk_rx_buf s) 0 (take n payload),
      sk_rx_len := of_nat n, sk_rx_from_ip := sip, sk_rx_from_port := sport\<rparr>) ?u)"
    if "n \<le> SOCK_UDP_RX_MAX" for j n
    using that
    by (intro trip_trans [OF t trip_upd_sk]) (auto simp: sk_key_def sk_ok_def SOCK_UDP_RX_MAX_def unat_of_nat_u32)
  from this [of "length payload"] this [of SOCK_UDP_RX_MAX] show ?thesis
    using t s u by (auto simp: sock_udp_deliver_def Let_def split: option.splits)
qed

text \<open>A datagram built in a buffer of its own and handed to a function that consumes it.\<close>

lemma udp_out_trip:
  fixes payload :: bytes
  defines "tot \<equiv> of_nat UDP_HDR_LEN + of_nat (length payload) :: u32"
  assumes al: "pbuf_alloc (ucast tot) st = (Some p, s1)" and fits: "\<not> tot > of_nat PBUF_SIZE"
    and b: "udp_build sp dp payload src dst = (ul, dg)"
    and len: "P \<Longrightarrow> UDP_HDR_LEN + length payload < 2 ^ 32"
    and out: "trip (live (pb_set_len p (ucast ul) (pb_write p 0 dg s1)) p) {p}
      (pb_set_len p (ucast ul) (pb_write p 0 dg s1)) s4"
  shows "trip P {} st s4"
proof -
  have dg: "length dg = UDP_HDR_LEN + length payload" "ul = tot"
    using b length_udp_build [of sp dp payload src dst] fst_udp_build [of sp dp payload src dst]
    by (simp_all add: tot_def UDP_HDR_LEN_def)
  have u: "UDP_HDR_LEN + length payload \<le> PBUF_SIZE \<and> unat tot = UDP_HDR_LEN + length payload" if P
  proof -
    have "unat tot = UDP_HDR_LEN + length payload"
      using len [OF that] unat_of_nat_u32 [of "UDP_HDR_LEN + length payload"] by (simp add: tot_def)
    then show ?thesis using fits by (simp add: word_less_nat_alt wire_defs)
  qed
  show ?thesis
    by (rule seg_out_trip [OF al _ _ trip_refl out])
      (use u dg in \<open>auto simp: unat_ucast_eq wire_defs\<close>)
qed

context net_driver
begin

text \<open>
  Sending stays within the packet buffer if the payload length does not wrap around when
  the header length is added to it in 32 bits.
\<close>

lemma udp_send_trip:
  "trip (UDP_HDR_LEN + length payload < 2 ^ 32) {} st (snd (udp_send devs nif dst sp dp payload st))"
proof (cases nif)
  case (Some n)
  let ?P = "UDP_HDR_LEN + length payload < 2 ^ 32"
  let ?total = "of_nat UDP_HDR_LEN + of_nat (length payload) :: u32"
  obtain po s1 where al: "pbuf_alloc (ucast ?total) st = (po, s1)" by fastforce
  have t1: "trip ?P {} st s1" by (rule trip_allocD [OF al])
  show ?thesis
  proof (cases "nif_configured (nifs st n) = 0 \<or> ?total > of_nat PBUF_SIZE \<or> po = None")
    case True
    then show ?thesis using t1 al Some by (auto simp: udp_send_def Let_def)
  next
    case False
    then obtain p where p: "po = Some p" by auto
    obtain ul dg where b: "udp_build sp dp payload (nif_ip (nifs s1 n)) dst = (ul, dg)" by fastforce
    let ?s3 = "pb_set_len p (ucast ul) (pb_write p 0 dg s1)"
    have "trip (live ?s3 p) {p} ?s3 (snd (ipv4_output devs nif (Some p) dst IPV4_PROTO_UDP ?s3))"
      using ipv4_output_trip [of "Some p" ?s3] by simp
    then have "trip ?P {} st (snd (ipv4_output devs nif (Some p) dst IPV4_PROTO_UDP ?s3))"
      by (intro udp_out_trip [OF al [unfolded p] _ b]) (use False in simp_all)
    then show ?thesis using False al p b Some by (simp add: udp_send_def Let_def)
  qed
qed (simp add: udp_send_def)

lemma udp_dispatch_trip:
  assumes "length payload \<le> 65535"
  shows "trip P {} st (udp_dispatch devs n sport dport sip payload st)"
proof -
  let ?u = "\<lambda>s. ub_unless (length payload \<le> UDP_WAIT_SIZE) s"
  let ?c = "upd_udp (\<lambda>u. u\<lparr>udp_wait := False\<rparr>)"
  have send: "trip P {} s (snd (udp_send devs (Some n) sip UDP_ECHO_PORT sport payload s))" for s
    by (rule trip_weaken [OF udp_send_trip]) (use assms in \<open>auto simp: wire_defs\<close>)
  have guard: "trip P {} s (?u s)" if "of_nat (length payload) = udp_wait_plen (udp_v s)" for s
  proof (rule trip_ub_if)
    assume "sound s"
    moreover have "unat (of_nat (length payload) :: u32) = length payload"
      using assms by (simp add: unat_of_nat_u32)
    ultimately show "length payload \<le> UDP_WAIT_SIZE"
      using that by (auto simp: sound_def net_inv_def udp_ok_def)
  qed
  have clear: "trip P {} s (?c s)" for s by (rule trip_upd_udp) (simp add: udp_ok_def)
  obtain b1 s1 where 1: "dhcp_udp_deliver dport payload st = (b1, s1)" by fastforce
  obtain b2 s2 where 2: "dns_udp_deliver dport payload s1 = (b2, s2)" by fastforce
  obtain b3 s3 where 3: "sock_udp_deliver dport sport sip payload s2 = (b3, s3)" by fastforce
  have t1: "trip P {} st s1" using dhcp_udp_deliver_trip [of P "{}" st dport payload] 1 by simp
  have t2: "trip P {} st s2"
    using trip_trans [OF t1] dns_udp_deliver_trip [of P "{}" s1 dport payload] 2 by simp
  have t3: "trip P {} st s3"
    using trip_trans [OF t2] sock_udp_deliver_trip [of P "{}" s2 dport sport sip payload] 3 by simp
  have u: "udp_v (?u s3) = udp_v s3" by (simp add: ub_unless_def)
  have t4: "trip P {} st (?u s3)" "trip P {} st (?c (?u s3))"
    if "of_nat (length payload) = udp_wait_plen (udp_v s3)"
    using trip_trans [OF t3 guard [OF that]] trip_trans [OF trip_trans [OF t3 guard [OF that]] clear] by simp_all
  show ?thesis
    using t1 t2 t3 t4 trip_trans [OF t2 send]
    by (simp add: udp_dispatch_def Let_def 1 2 3 u split: bool.splits)
qed

lemma udp_input_trip:
  "trip (\<forall>i. p = Some i \<longrightarrow> live st i) (set_option p) st (udp_input devs nif p ihl st)"
proof (cases "\<exists>n q. nif = Some n \<and> p = Some q")
  case False
  then show ?thesis using trip_free [of p st] by (auto simp: udp_input_def split: option.splits)
next
  case True
  then obtain n q where np: "nif = Some n" "p = Some q" by auto
  let ?P = "live st q" and ?len = "unat (p_len (pb st q))"
  define s0 where "s0 = ub_unless ?P st"
  define s1 where "s1 = ub_unless (pb_ok q ihl UDP_HDR_LEN s0) (ub_unless (pb_ok q 0 IPV4_HDR_MIN s0) s0)"
  define uh where "uh = udp_hdr_of (mem_get (p_data (pb st q)) ihl UDP_HDR_LEN)"
  define ip where "ip = ipv4_hdr_of (mem_get (p_data (pb st q)) 0 IPV4_HDR_MIN)"
  let ?ul = "unat (net_ntohs (uh_length uh))"
  let ?pl = "mem_get (p_data (pb st q)) (ihl + UDP_HDR_LEN) (?ul - UDP_HDR_LEN)"
  define s2 where "s2 = ub_unless (pb_ok q (ihl + UDP_HDR_LEN) (?ul - UDP_HDR_LEN) s1) s1"
  have same: "pbuf_pool s0 = pbuf_pool st" "pbuf_pool s1 = pbuf_pool st" "live s0 = live st"
    "live s1 = live st" "live s2 = live st" by (simp_all add: s0_def s1_def s2_def)
  have t0: "trip ?P {} st s0" unfolding s0_def by (rule trip_ub_if)
  have len: "?len \<le> PBUF_SIZE" if "sound s" "live s q" "pbuf_pool s = pbuf_pool st" for s
    using sound_len [OF that(1,2)] that(3) by simp
  have t1: "trip ?P {} st s1" if "\<not> ?len < ihl + UDP_HDR_LEN"
    unfolding s1_def
    by (rule trip_trans [OF t0], rule trip_guard, rule trip_guard, rule trip_refl)
      (use that len [of s0] same in \<open>auto simp: pb_ok_def wire_defs\<close>)
  have t2: "trip ?P {} st s2" if "\<not> ?len < ihl + UDP_HDR_LEN" "\<not> ihl + ?ul > ?len" "\<not> ?ul < UDP_HDR_LEN"
    unfolding s2_def using t1 [OF that(1)]
    by (rule trip_trans) (rule trip_ub_if, use that len [of s1] same in \<open>auto simp: pb_ok_def\<close>)
  have free: "trip ?P {q} st (pbuf_free (Some q) s)" if "trip ?P {} st s" for s
    using that by (rule trip_hold_free)
  have pl: "length ?pl \<le> 65535"
    using unat_u16_bound [of "net_ntohs (uh_length uh)"] by (simp add: mem_get_def)
  have "trip ?P {q} st (udp_input devs nif p ihl st)"
  proof (cases "?len < ihl + UDP_HDR_LEN \<or> ?ul < UDP_HDR_LEN \<or> ihl + ?ul > ?len")
    case True
    then show ?thesis
      using free [OF t0] free [OF t1]
      by (auto simp: udp_input_def np s0_def s1_def uh_def pb_read_def pb_ok_def Let_def)
  next
    case False
    then have "trip ?P {} st (udp_dispatch devs n (net_ntohs (uh_src_port uh)) (net_ntohs (uh_dst_port uh))
        (net_ntohl (ip_src ip)) ?pl s2)"
      by (intro trip_trans [OF t2 udp_dispatch_trip [OF pl]]) auto
    from free [OF this] False show ?thesis
      by (auto simp: udp_input_def np s0_def s1_def s2_def uh_def ip_def pb_read_def pb_ok_def Let_def)
  qed
  then show ?thesis using np by simp
qed

lemma udp_wait_loop_trip: "trip P {} st (udp_wait_loop devs nif n st)"
proof (induction n arbitrary: st)
  case (Suc n)
  then show ?case using trip_trans [OF netif_poll_trip Suc] by simp
qed simp

lemma udp_echo_client_trip: "trip P {} st (snd (udp_echo_client devs nif host port w st))"
proof (cases nif)
  case (Some n)
  let ?s1 = "upd_udp (\<lambda>u. u\<lparr>udp_wait_plen := 8, udp_wait_payload := mem_put (udp_wait_payload u) 0 udp_echo_payload,
     udp_wait_sport := 40000, udp_wait_dport := port, udp_wait := True\<rparr>) st"
  let ?c = "upd_udp (\<lambda>u. u\<lparr>udp_wait := False\<rparr>)"
  obtain r s2 where s: "udp_send devs nif host 40000 port udp_echo_payload ?s1 = (r, s2)" by fastforce
  have "trip P {} st ?s1"
    by (rule trip_upd_udp) (simp add: udp_ok_def udp_echo_payload_def UDP_WAIT_SIZE_def)
  moreover have "trip P {} ?s1 s2"
    using trip_weaken [OF udp_send_trip [of udp_echo_payload ?s1 nif host 40000 port], of "{}" P] s
    by (simp add: udp_echo_payload_def wire_defs)
  ultimately have t2: "trip P {} st s2" by (rule trip_trans)
  have clear: "trip P {} st (?c s)" if "trip P {} st s" for s
    by (rule trip_trans [OF that trip_upd_udp]) (simp add: udp_ok_def)
  show ?thesis
    using s Some clear [OF t2] clear [OF trip_trans [OF t2 udp_wait_loop_trip]] trip_trans [OF t2 udp_wait_loop_trip]
    by (simp add: udp_echo_client_def Let_def)
qed (simp add: udp_echo_client_def)

end

end
