(* ===== verification/Net_Input.thy ===== *)
theory Net_Input
  imports Udp
begin

text \<open>
  The way of a frame up the stack: \<^verbatim>\<open>netif_input\<close> and \<^verbatim>\<open>ethernet_input\<close>, \<^verbatim>\<open>arp_input\<close>,
  \<^verbatim>\<open>ipv4_input\<close> and \<^verbatim>\<open>icmp_input\<close> (\<^verbatim>\<open>tcp_input\<close> and \<^verbatim>\<open>udp_input\<close> are in theories \<open>Tcp\<close> and
  \<open>Udp\<close>), and the echo client \<^verbatim>\<open>icmp_ping\<close>. The lemmas show that whatever the bytes of a
  frame are, each function consumes the packet it is given and nothing else.
\<close>

section \<open>ARP\<close>

definition arp_init :: "nat option \<Rightarrow> net \<Rightarrow> net" where
  "arp_init nif st = (case nif of None \<Rightarrow> st | Some n \<Rightarrow> upd_nif n (\<lambda>i. i\<lparr>nif_arp := arp_cache_init (nif_arp i)\<rparr>) st)"

definition arp_learn :: "nat \<Rightarrow> arp_fields \<Rightarrow> net \<Rightarrow> net" where
  "arp_learn n f st =
     (if af_spa f \<noteq> 0
      then upd_nif n (\<lambda>i. i\<lparr>nif_arp := arp_cache_insert (nif_arp i) (af_spa f) (af_sha f)\<rparr>) st else st)"

definition arp_reply :: "devs \<Rightarrow> nat \<Rightarrow> arp_fields \<Rightarrow> net \<Rightarrow> net" where
  "arp_reply devs n f st =
     (if af_op f = ARP_OP_REQUEST \<and> nif_configured (nifs st n) \<noteq> 0 \<and> af_tpa f = nif_ip (nifs st n)
      then
        let pkt = arp_build ARP_OP_REPLY (nif_mac (nifs st n)) (nif_ip (nifs st n)) (Some (af_sha f)) (af_spa f)
        in case pbuf_alloc (of_nat ARP_PKT_LEN) st of
             (None, st) \<Rightarrow> st
           | (Some r, st) \<Rightarrow> snd (ethernet_output devs (Some n) (Some r) (af_sha f) ETH_TYPE_ARP (pb_write r 0 pkt st))
      else st)"

definition arp_input :: "devs \<Rightarrow> nat option \<Rightarrow> nat option \<Rightarrow> net \<Rightarrow> net" where
  "arp_input devs nif p st =
     (case (nif, p) of
        (Some n, Some q) \<Rightarrow>
          let st = ub_unless (live st q) st in
          (case arp_parse (p_data (pb st q)) (unat (p_len (pb st q))) of
             None \<Rightarrow> pbuf_free p st
           | Some f \<Rightarrow> pbuf_free p (arp_reply devs n f (arp_learn n f st)))
      | _ \<Rightarrow> pbuf_free p st)"

section \<open>ICMP\<close>

definition upd_icmp :: "(icmp_vars \<Rightarrow> icmp_vars) \<Rightarrow> net \<Rightarrow> net" where
  "upd_icmp f st = st\<lparr>icmp_v := f (icmp_v st)\<rparr>"

text \<open>The answer to an echo request is made in place, in the request's own buffer.\<close>

definition icmp_answer :: "devs \<Rightarrow> nat \<Rightarrow> nat \<Rightarrow> net \<Rightarrow> net" where
  "icmp_answer devs n q st =
     (let (pkt, st) = pb_read q 0 PBUF_SIZE st in
      case icmp_echo_reply_transform pkt (unat (p_len (pb st q))) of
        None \<Rightarrow> pbuf_free (Some q) st
      | Some pkt \<Rightarrow>
          let st = pb_write q 0 pkt st;
              dst = net_ntohl (ip_dst (ipv4_hdr_of (p_data (pb st q))));
              (dmac, st) = arp_resolve devs (Some n) dst 200 st
          in case dmac of
               None \<Rightarrow> pbuf_free (Some q) st
             | Some mac \<Rightarrow> snd (ethernet_output devs (Some n) (Some q) mac ETH_TYPE_IPV4 st))"

definition icmp_input :: "devs \<Rightarrow> nat option \<Rightarrow> nat option \<Rightarrow> nat \<Rightarrow> net \<Rightarrow> net" where
  "icmp_input devs nif p ip_hdr_len st =
     (case (nif, p) of
        (Some n, Some q) \<Rightarrow>
          let st = ub_unless (live st q) st in
          if unat (p_len (pb st q)) < ip_hdr_len + ICMP_HDR_LEN then pbuf_free p st
          else
            let (ipb, st) = pb_read q 0 IPV4_HDR_MIN st;
                (icb, st) = pb_read q ip_hdr_len ICMP_HDR_LEN st;
                ip = ipv4_hdr_of ipb; ic = icmp_hdr_of icb
            in if ic_type ic = ICMP_TYPE_ECHO_REQUEST \<and> ic_code ic = 0 \<and> nif_configured (nifs st n) \<noteq> 0
               then icmp_answer devs n q st
               else if ic_type ic = ICMP_TYPE_ECHO_REPLY \<and> ic_code ic = 0
               then let v = icmp_v st;
                        st = (if ping_waiting v \<and> net_ntohs (ic_id ic) = ping_id v \<and> net_ntohs (ic_seq ic) = ping_seq v
                              then upd_icmp (\<lambda>v. v\<lparr>ping_src := net_ntohl (ip_src ip), ping_waiting := False\<rparr>) st
                              else st)
                    in pbuf_free p st
               else pbuf_free p st
      | _ \<Rightarrow> pbuf_free p st)"

definition ping_payload :: bytes where
  "ping_payload = [73, 67, 83, 45, 79, 83, 33, 33]"

text \<open>As in \<open>arp_wait\<close>, \<open>n\<close> is the number of iterations that may follow this one.\<close>

fun ping_wait :: "devs \<Rightarrow> nat option \<Rightarrow> u32 \<Rightarrow> u32 \<Rightarrow> nat \<Rightarrow> net \<Rightarrow> net" where
  "ping_wait devs nif start timeout n st =
     (if \<not> ping_waiting (icmp_v st) then st
      else let st = netif_poll devs nif st in
        if ticks st \<noteq> start \<and> ticks st - start \<ge> timeout then st
        else case n of 0 \<Rightarrow> st | Suc n \<Rightarrow> ping_wait devs nif start timeout n st)"

declare ping_wait.simps [simp del]

definition PING_SPINS :: nat where "PING_SPINS = 2000000"

definition icmp_ping :: "devs \<Rightarrow> nat option \<Rightarrow> u32 \<Rightarrow> u32 \<Rightarrow> net \<Rightarrow> int \<times> net" where
  "icmp_ping devs nif dst_host timeout st =
     (case nif of None \<Rightarrow> (-1, st) | Some n \<Rightarrow>
      if nif_configured (nifs st n) = 0 then (-1, st)
      else
        let st = upd_icmp (\<lambda>v. v\<lparr>ping_id := 0x1C50, ping_seq := ping_seq v + 1, ping_waiting := True, ping_src := 0\<rparr>) st;
            buf = icmp_build_echo_request (ping_id (icmp_v st)) (ping_seq (icmp_v st)) ping_payload
        in case pbuf_alloc (of_nat (length buf)) st of
             (None, st) \<Rightarrow> (-1, upd_icmp (\<lambda>v. v\<lparr>ping_waiting := False\<rparr>) st)
           | (Some p, st) \<Rightarrow>
               let st = pb_write p 0 buf st;
                   (r, st) = ipv4_output devs nif (Some p) dst_host IPV4_PROTO_ICMP st
               in if r \<noteq> 0 then (-1, upd_icmp (\<lambda>v. v\<lparr>ping_waiting := False\<rparr>) st)
                  else
                    let st = ping_wait devs nif (ticks st) timeout PING_SPINS st
                    in if ping_waiting (icmp_v st) then (-1, upd_icmp (\<lambda>v. v\<lparr>ping_waiting := False\<rparr>) st)
                       else (0, st))"

section \<open>IPv4 and Ethernet\<close>

text \<open>The length a datagram is cut to: the total length of its header if that is plausible.\<close>

definition ipv4_trim :: "nat \<Rightarrow> nat \<Rightarrow> u16 \<Rightarrow> net \<Rightarrow> net" where
  "ipv4_trim q ihl tot st =
     (if unat tot < ihl \<or> tot > p_len (pb st q) then st else pb_set_len q tot st)"

definition ipv4_accepts :: "netif \<Rightarrow> u32 \<Rightarrow> bool" where
  "ipv4_accepts nif dst \<longleftrightarrow>
     \<not> (nif_configured nif \<noteq> 0 \<and> dst \<noteq> nif_ip nif \<and> dst \<noteq> 0xFFFFFFFF \<and>
        dst \<noteq> nif_ip nif OR NOT (nif_netmask nif))"

definition ipv4_input :: "devs \<Rightarrow> nat option \<Rightarrow> nat option \<Rightarrow> net \<Rightarrow> net" where
  "ipv4_input devs nif p st =
     (case (nif, p) of
        (Some n, Some q) \<Rightarrow>
          let st = ub_unless (live st q) st in
          if unat (p_len (pb st q)) < IPV4_HDR_MIN then pbuf_free p st
          else
            let (ipb, st) = pb_read q 0 IPV4_HDR_MIN st;
                ip = ipv4_hdr_of ipb
            in if drop_bit 4 (ip_ver_ihl ip) \<noteq> 4 then pbuf_free p st
               else
                 let ihl = unat (ipv4_hdr_len ip)
                 in if ihl < IPV4_HDR_MIN \<or> unat (p_len (pb st q)) < ihl then pbuf_free p st
                    else
                      let st = ipv4_trim q ihl (net_ntohs (ip_total_len ip)) st
                      in if \<not> ipv4_accepts (nifs st n) (net_ntohl (ip_dst ip)) then pbuf_free p st
                         else if ip_proto ip = IPV4_PROTO_ICMP then icmp_input devs nif p ihl st
                         else if ip_proto ip = IPV4_PROTO_UDP then udp_input devs nif p ihl st
                         else if ip_proto ip = IPV4_PROTO_TCP then tcp_input devs nif p ihl st
                         else pbuf_free p st
      | _ \<Rightarrow> pbuf_free p st)"

definition ethernet_input :: "devs \<Rightarrow> nat option \<Rightarrow> nat option \<Rightarrow> net \<Rightarrow> net" where
  "ethernet_input devs nif p st =
     (case (nif, p) of
        (Some n, Some q) \<Rightarrow>
          let st = ub_unless (live st q) st;
              len = unat (p_len (pb st q))
          in if len < ETH_HDR_LEN then pbuf_free p st
             else
               let (ehb, st) = pb_read q 0 ETH_HDR_LEN st;
                   etype = net_ntohs (eh_ethertype (eth_hdr_of ehb))
               in case pbuf_alloc (of_nat (len - ETH_HDR_LEN)) st of
                    (None, st) \<Rightarrow> pbuf_free p st
                  | (Some f, st) \<Rightarrow>
                      let (d, st) = pb_read q ETH_HDR_LEN (len - ETH_HDR_LEN) st;
                          st = pb_write f 0 d st;
                          st = pbuf_free p st
                      in if etype = ETH_TYPE_ARP then arp_input devs nif (Some f) st
                         else if etype = ETH_TYPE_IPV4 then ipv4_input devs nif (Some f) st
                         else pbuf_free (Some f) st
      | _ \<Rightarrow> pbuf_free p st)"

definition netif_input :: "devs \<Rightarrow> nat option \<Rightarrow> nat option \<Rightarrow> net \<Rightarrow> net" where
  "netif_input devs nif p st =
     (if nif = None \<or> p = None then st else ethernet_input devs nif p st)"

section \<open>Bounds\<close>

lemma trip_upd_icmp: "trip P C st (upd_icmp f st)"
  by (rule trip_vars) (auto simp: upd_icmp_def wrapped_def net_inv_def var_frame_def)

lemma trip_upd_nif:
  assumes "\<And>i. P \<Longrightarrow> netif_ok i \<Longrightarrow> netif_ok (f i)" "\<And>i. nif_key (f i) = nif_key i"
  shows "trip P C st (upd_nif n f st)"
  using assms by (intro trip_vars) (auto simp: upd_nif_def wrapped_def net_inv_def var_frame_def)

lemma arp_init_trip: "trip P C st (arp_init nif st)"
  by (auto simp: arp_init_def netif_ok_def nif_key_def arp_inv_def arp_cache_init_def intro!: trip_upd_nif split: option.splits)

lemma icmp_transform_length:
  assumes "icmp_echo_reply_transform pkt len = Some pkt'" "len \<le> length pkt"
  shows "length pkt' = length pkt"
proof -
  note t = icmp_transform_Some [OF assms(1)]
  have b: "20 \<le> unat (ipv4_hdr_len (ipv4_hdr_of pkt))" "unat (ipv4_hdr_len (ipv4_hdr_of pkt)) + 8 \<le> length pkt"
    using t assms(2) by simp_all
  then show ?thesis using t by simp
qed

text \<open>As \<open>seg_out_trip\<close>, for a packet whose length is the one it was allocated with.\<close>

lemma msg_out_trip:
  assumes al: "pbuf_alloc n st = (Some p, s1)" and seg: "length seg \<le> PBUF_SIZE"
    and out: "trip (Q \<and> live (pb_write p 0 seg s1) p) {p} (pb_write p 0 seg s1) s3"
  shows "trip Q {} st s3"
proof -
  let ?s2 = "pb_write p 0 seg s1"
  have a: "live s1 p \<and> \<not> live st p \<and> live ?s2 p" if "sound st"
    using pbuf_alloc_Some [OF _ al] that pb_write_live(2) [of s1 p 0 seg] seg
    by (simp add: sound_def net_inv_def)
  have "trip Q ({} \<union> {p}) st ?s2"
    by (rule trip_chain [OF trip_allocD [OF al] trip_write]) (use a seg in simp)
  from trip_chain [OF this out] have "trip Q {p} st s3" using a by simp
  then show ?thesis using a trip_fresh [of Q p "{}"] by simp
qed

context net_driver
begin

lemma arp_reply_trip: "trip (length (af_sha f) = ETH_ADDR_LEN) {} st (arp_reply devs n f st)"
proof -
  let ?pkt = "arp_build ARP_OP_REPLY (nif_mac (nifs st n)) (nif_ip (nifs st n)) (Some (af_sha f)) (af_spa f)"
  obtain ro s1 where al: "pbuf_alloc (of_nat ARP_PKT_LEN) st = (ro, s1)" by fastforce
  show ?thesis
  proof (cases ro)
    case None
    then show ?thesis using trip_allocD [OF al] al by (simp add: arp_reply_def Let_def)
  next
    case (Some r)
    let ?s2 = "pb_write r 0 ?pkt s1"
    obtain x s3 where e: "ethernet_output devs (Some n) (Some r) (af_sha f) ETH_TYPE_ARP ?s2 = (x, s3)" by fastforce
    have lp: "length ?pkt \<le> PBUF_SIZE" by (simp add: arp_build_def arp_hdr_bytes_def wire_defs)
    have "trip (length (af_sha f) = ETH_ADDR_LEN) {} st s3"
      by (rule msg_out_trip [OF al [unfolded Some] lp])
        (use eth_out_trip [OF ethernet_output_ok [OF e]] in simp)
    then show ?thesis using al Some e by (simp add: arp_reply_def Let_def)
  qed
qed

lemma arp_input_trip:
  "trip (\<forall>i. p = Some i \<longrightarrow> live st i) (set_option p) st (arp_input devs nif p st)"
proof (cases "\<exists>n q. nif = Some n \<and> p = Some q")
  case False
  then show ?thesis using trip_free [of p st] by (auto simp: arp_input_def split: option.splits)
next
  case True
  then obtain n q where np: "nif = Some n" "p = Some q" by auto
  let ?P = "live st q" and ?s0 = "ub_unless (live st q) st"
  have t0: "trip ?P {} st ?s0" by (rule trip_ub_if)
  have rep: "trip ?P {} st (arp_reply devs n f (arp_learn n f ?s0))"
    if f: "arp_parse (p_data (pb st q)) (unat (p_len (pb st q))) = Some f" for f
  proof -
    have len: "length (af_sha f) = ETH_ADDR_LEN" if ?P "sound st"
    proof -
      have "length (p_data (pb st q)) = PBUF_SIZE"
        using that by (auto simp: sound_def net_inv_def intro: pbuf_inv_data)
      then show ?thesis using arp_parse_lengths [OF f] by (simp add: wire_defs)
    qed
    have "trip (length (af_sha f) = ETH_ADDR_LEN) {} ?s0 (arp_learn n f ?s0)"
      by (auto simp: arp_learn_def netif_ok_def nif_key_def intro!: trip_upd_nif arp_insert_inv)
    from trip_trans [OF this arp_reply_trip] show ?thesis
      by (rule trip_seq [OF t0]) (rule len)
  qed
  show ?thesis
    using np trip_hold_free [OF t0] trip_hold_free [OF rep]
    by (auto simp: arp_input_def Let_def split: option.splits)
qed

lemma icmp_answer_trip: "trip (live st q) {q} st (icmp_answer devs n q st)"
proof -
  let ?P = "live st q" and ?len = "unat (p_len (pb st q))"
  define s1 where "s1 = ub_unless (pb_ok q 0 PBUF_SIZE st) st"
  let ?pkt = "mem_get (p_data (pb st q)) 0 PBUF_SIZE"
  have t1: "trip ?P {} st s1" unfolding s1_def by (rule trip_ub_if) (simp add: pb_ok_def)
  have same: "live s1 = live st" "pbuf_pool s1 = pbuf_pool st" by (simp_all add: s1_def)
  have free: "trip ?P {q} st (pbuf_free (Some q) s1)" by (rule trip_hold_free [OF t1])
  show ?thesis
  proof (cases "icmp_echo_reply_transform ?pkt ?len")
    case None
    then show ?thesis using free by (simp add: icmp_answer_def pb_read_def Let_def s1_def)
  next
    case (Some pkt')
    let ?s2 = "pb_write q 0 pkt' s1"
    let ?dst = "net_ntohl (ip_dst (ipv4_hdr_of (p_data (pb ?s2 q))))"
    obtain dm s3 where ar: "arp_resolve devs (Some n) ?dst 200 ?s2 = (dm, s3)" by fastforce
    let ?r = "snd (case dm of None \<Rightarrow> (-1, pbuf_free (Some q) s3)
          | Some mac \<Rightarrow> ethernet_output devs (Some n) (Some q) mac ETH_TYPE_IPV4 s3)"
    have len: "length pkt' \<le> PBUF_SIZE" if "sound st" ?P
    proof -
      have "length (p_data (pb st q)) = PBUF_SIZE"
        using that by (auto simp: sound_def net_inv_def intro: pbuf_inv_data)
      then show ?thesis using icmp_transform_length [OF Some] sound_len [OF that] by simp
    qed
    have l2: "live ?s2 q" if "sound s1" "length pkt' \<le> PBUF_SIZE" "live s1 q"
      using pb_write_live(2) [of s1 q 0 pkt'] that by (simp add: sound_def net_inv_def)
    have "trip (?P \<and> length pkt' \<le> PBUF_SIZE) ({q} \<union> {q}) s1 ?r"
      by (rule trip_chain [OF trip_weaken [OF trip_write] ipv4_tail_trip [OF ar]]) (use same l2 in auto)
    then have "trip ?P ({} \<union> {q}) st ?r"
      using trip_chain [OF t1, of "?P \<and> length pkt' \<le> PBUF_SIZE" "{q}" ?r] len by simp
    then show ?thesis
      using ar Some same(2)
      by (cases dm) (simp_all add: icmp_answer_def pb_read_def Let_def s1_def [symmetric])
  qed
qed

lemma icmp_input_trip:
  "trip (\<forall>i. p = Some i \<longrightarrow> live st i) (set_option p) st (icmp_input devs nif p ihl st)"
proof (cases "\<exists>n q. nif = Some n \<and> p = Some q")
  case False
  then show ?thesis using trip_free [of p st] by (auto simp: icmp_input_def split: option.splits)
next
  case True
  then obtain n q where np: "nif = Some n" "p = Some q" by auto
  let ?P = "live st q" and ?len = "unat (p_len (pb st q))"
  define s0 where "s0 = ub_unless ?P st"
  define s1 where "s1 = ub_unless (pb_ok q ihl ICMP_HDR_LEN s0) (ub_unless (pb_ok q 0 IPV4_HDR_MIN s0) s0)"
  have same: "pbuf_pool s0 = pbuf_pool st" "live s0 = live st" "live s1 = live st"
    by (simp_all add: s0_def s1_def)
  have t0: "trip ?P {} st s0" unfolding s0_def by (rule trip_ub_if)
  have t1: "trip ?P {} st s1" if "\<not> ?len < ihl + ICMP_HDR_LEN"
    unfolding s1_def
    by (rule trip_trans [OF t0], rule trip_guard, rule trip_guard, rule trip_refl)
      (use that sound_len [of s0 q] same in \<open>auto simp: pb_ok_def wire_defs\<close>)
  have free: "trip ?P {q} st (pbuf_free (Some q) s)" if "trip ?P {} st s" for s
    using that by (rule trip_hold_free)
  have "trip ?P {q} st (icmp_input devs nif p ihl st)"
  proof (cases "?len < ihl + ICMP_HDR_LEN")
    case True
    then show ?thesis using free [OF t0] by (simp add: icmp_input_def np s0_def)
  next
    case False
    have "trip ?P ({} \<union> {q}) st (icmp_answer devs n q s1)"
      by (rule trip_chain [OF t1 [OF False] icmp_answer_trip]) (use same in simp)
    moreover have "trip ?P {q} st (pbuf_free (Some q) (upd_icmp f s1))" for f
      by (rule free [OF trip_trans [OF t1 [OF False] trip_upd_icmp]])
    ultimately show ?thesis
      using False free [OF t1 [OF False]]
      by (simp add: icmp_input_def np s0_def [symmetric] s1_def pb_read_def pb_ok_def same Let_def)
  qed
  then show ?thesis using np by simp
qed

lemma ping_wait_trip: "trip P {} st (ping_wait devs nif start w n st)"
proof (induction n arbitrary: st)
  case 0
  show ?case using netif_poll_trip [of P st nif] by (subst ping_wait.simps) (simp add: Let_def)
next
  case (Suc n)
  show ?case
    using netif_poll_trip [of P st nif] trip_trans [OF netif_poll_trip Suc]
    by (subst ping_wait.simps) (simp add: Let_def)
qed

lemma icmp_ping_trip: "trip P {} st (snd (icmp_ping devs nif host w st))"
proof (cases nif)
  case (Some n)
  define s1 where "s1 = upd_icmp (\<lambda>v. v\<lparr>ping_id := 0x1C50, ping_seq := ping_seq v + 1, ping_waiting := True,
    ping_src := 0\<rparr>) st"
  define buf where "buf = icmp_build_echo_request (ping_id (icmp_v s1)) (ping_seq (icmp_v s1)) ping_payload"
  let ?c = "upd_icmp (\<lambda>v. v\<lparr>ping_waiting := False\<rparr>)"
  obtain po s2 where al: "pbuf_alloc (of_nat (length buf)) s1 = (po, s2)" by fastforce
  have t1: "trip P {} st s1" unfolding s1_def by (rule trip_upd_icmp)
  have lb: "length buf \<le> PBUF_SIZE" by (simp add: buf_def ping_payload_def wire_defs)
  have clear: "trip P {} st (?c s)" if "trip P {} st s" for s
    using that trip_upd_icmp by (rule trip_trans)
  show ?thesis
  proof (cases po)
    case None
    then show ?thesis
      using clear [OF trip_trans [OF t1 trip_allocD [OF al]]] al Some
      unfolding icmp_ping_def Let_def s1_def [symmetric] buf_def [symmetric] by simp
  next
    case p: (Some p)
    obtain r s3 where o: "ipv4_output devs nif (Some p) host IPV4_PROTO_ICMP (pb_write p 0 buf s2) = (r, s3)"
      by fastforce
    have "trip (live (pb_write p 0 buf s2) p) {p} (pb_write p 0 buf s2) s3"
      using ipv4_output_trip [of "Some p" "pb_write p 0 buf s2" nif host IPV4_PROTO_ICMP] o by simp
    then have "trip P {} s1 s3"
      by (intro msg_out_trip [OF al [unfolded p] lb]) (auto elim: trip_weaken)
    with t1 have t3: "trip P {} st s3" by (rule trip_trans)
    show ?thesis
      using al o Some p clear [OF t3] trip_trans [OF t3 ping_wait_trip] clear [OF trip_trans [OF t3 ping_wait_trip]]
      unfolding icmp_ping_def Let_def s1_def [symmetric] buf_def [symmetric] by simp
  qed
qed (simp add: icmp_ping_def)

lemma ipv4_trim_trip: "trip (live st q) {q} st (ipv4_trim q ihl tot st)"
proof (cases "unat tot < ihl \<or> tot > p_len (pb st q)")
  case False
  then have "unat tot \<le> unat (p_len (pb st q))" by (simp add: word_le_nat_alt not_less)
  then have "trip (live st q) {q} st (pb_set_len q tot st)"
    by (intro trip_weaken [OF trip_set_len]) (auto dest: sound_len)
  then show ?thesis using False by (simp add: ipv4_trim_def)
qed (simp add: ipv4_trim_def)

lemma ipv4_trim_live: "sound st \<Longrightarrow> live st q \<Longrightarrow> live (ipv4_trim q ihl tot st) q"
  using pb_set_len_live(2) [of st q tot] sound_len [of st q]
  by (auto simp: ipv4_trim_def sound_def net_inv_def not_less word_le_nat_alt)

lemma ipv4_input_trip:
  "trip (\<forall>i. p = Some i \<longrightarrow> live st i) (set_option p) st (ipv4_input devs nif p st)"
proof (cases "\<exists>n q. nif = Some n \<and> p = Some q")
  case False
  then show ?thesis using trip_free [of p st] by (auto simp: ipv4_input_def split: option.splits)
next
  case True
  then obtain n q where np: "nif = Some n" "p = Some q" by auto
  let ?P = "live st q"
  define s0 where "s0 = ub_unless ?P st"
  define s1 where "s1 = ub_unless (pb_ok q 0 IPV4_HDR_MIN s0) s0"
  define ip where "ip = ipv4_hdr_of (mem_get (p_data (pb st q)) 0 IPV4_HDR_MIN)"
  define ihl where "ihl = unat (ipv4_hdr_len ip)"
  define s2 where "s2 = ipv4_trim q ihl (net_ntohs (ip_total_len ip)) s1"
  have same: "pbuf_pool s0 = pbuf_pool st" "pbuf_pool s1 = pbuf_pool st" "live s0 = live st" "live s1 = live st"
    by (simp_all add: s0_def s1_def)
  have t0: "trip ?P {} st s0" unfolding s0_def by (rule trip_ub_if)
  have t1: "trip ?P {} st s1"
    unfolding s1_def by (rule trip_trans [OF t0 trip_ub_if]) (use same in \<open>simp add: pb_ok_def wire_defs\<close>)
  have "trip ?P ({} \<union> {q}) st s2"
    unfolding s2_def by (rule trip_chain [OF t1 ipv4_trim_trip]) (use same in simp)
  then have t2: "trip ?P {q} st s2" by simp
  have l2: "live s2 q" if "sound s1" "live s1 q" unfolding s2_def using that by (rule ipv4_trim_live)
  have nxt: "trip ?P {q} st s" if "trip (live s2 q) {q} s2 s" for s
  proof -
    have "trip ?P {q} s1 s"
      by (rule trip_seq [OF _ that]) (use ipv4_trim_trip [of s1 q ihl] same l2 in \<open>auto simp: s2_def\<close>)
    then have "trip ?P ({} \<union> {q}) st s" by (rule trip_chain [OF t1])
    then show ?thesis by simp
  qed
  have "trip ?P {q} st (ipv4_input devs nif p st)"
    using trip_hold_free [OF t0, of q] trip_hold_free [OF t1, of q] nxt [of "pbuf_free (Some q) s2"]
      nxt [of "icmp_input devs nif p ihl s2"] nxt [of "udp_input devs nif p ihl s2"]
      nxt [of "tcp_input devs nif p ihl s2"] trip_free [of p s2] icmp_input_trip [of p s2 nif ihl]
      udp_input_trip [of p s2 nif ihl] tcp_input_trip [of p s2 nif ihl]
    by (simp add: ipv4_input_def np Let_def pb_read_def same s0_def [symmetric] s1_def [symmetric]
        ip_def [symmetric] ihl_def [symmetric] s2_def [symmetric])
  then show ?thesis using np by simp
qed

text \<open>The payload of a frame is copied to a buffer of its own before the frame is freed.\<close>

lemma decap_trip:
  fixes q :: nat
  assumes al: "pbuf_alloc (of_nat (len - k)) s1 = (Some f, s2)"
    and len: "sound s1 \<Longrightarrow> live s1 q \<Longrightarrow> len \<le> PBUF_SIZE"
  defines "s3 \<equiv> ub_unless (pb_ok q k (len - k) s2) s2"
  defines "s5 \<equiv> pbuf_free (Some q) (pb_write f 0 (mem_get (p_data (pb s2 q)) k (len - k)) s3)"
  assumes h: "trip (live s5 f) {f} s5 s6" and k: "k \<le> len"
  shows "trip (live s1 q) {q} s1 s6"
proof -
  let ?P = "live s1 q" and ?d = "mem_get (p_data (pb s2 q)) k (len - k)"
  let ?s4 = "pb_write f 0 ?d s3"
  have ld: "length ?d \<le> PBUF_SIZE" if "sound s1" ?P using len [OF that] by (simp add: mem_get_def)
  have L: "live s2 f \<and> \<not> live s1 f \<and> live s2 q \<and> s3 = s2 \<and> live ?s4 q \<and> live s5 f" if "sound s1" ?P
  proof -
    have inv: "pbuf_inv s1" using that by (simp add: sound_def net_inv_def)
    note a = pbuf_alloc_Some [OF inv al]
    have 2: "live s2 f" "\<not> live s1 f" "live s2 q" "pbuf_inv s2" "q \<noteq> f" using a that(2) by auto
    then have 3: "s3 = s2" using len [OF that] k by (simp add: s3_def pb_ok_def)
    have 4: "live ?s4 = live s2" "pbuf_inv ?s4" using pb_write_live(1,2) [of s2 f 0 ?d] 2 3 ld [OF that] by simp_all
    have "live s5 = (live ?s4)(q := False)"
      unfolding s5_def using 4 2 by (intro pbuf_free_live(2)) simp_all
    then show ?thesis using 2 3 4 by simp
  qed
  have t2: "trip ?P {} s1 s2" by (rule trip_allocD [OF al])
  have t3: "trip ?P {} s1 s3"
    unfolding s3_def by (rule trip_seq [OF t2 trip_ub]) (use L k len keepsD in \<open>auto simp: pb_ok_def\<close>)
  have t4: "trip ?P ({} \<union> {f}) s1 ?s4"
    by (rule trip_chain [OF t3 trip_write]) (use L ld in auto)
  have "trip (live ?s4 q) {q} ?s4 s5" unfolding s5_def using trip_free [of "Some q" ?s4] by simp
  with t4 have "trip ?P ({} \<union> {f} \<union> {q}) s1 s5" by (rule trip_chain) (use L in blast)
  then have "trip ?P ({} \<union> {f} \<union> {q} \<union> {f}) s1 s6" by (rule trip_chain [OF _ h]) (use L in blast)
  then have "trip ?P (insert f {q}) s1 s6" by (simp add: insert_commute)
  then show ?thesis using L by (blast intro: trip_fresh)
qed

lemma ethernet_input_trip:
  "trip (\<forall>i. p = Some i \<longrightarrow> live st i) (set_option p) st (ethernet_input devs nif p st)"
proof (cases "\<exists>n q. nif = Some n \<and> p = Some q")
  case False
  then show ?thesis using trip_free [of p st] by (auto simp: ethernet_input_def split: option.splits)
next
  case True
  then obtain n q where np: "nif = Some n" "p = Some q" by auto
  let ?P = "live st q" and ?len = "unat (p_len (pb st q))"
  define s0 where "s0 = ub_unless ?P st"
  define s1 where "s1 = ub_unless (pb_ok q 0 ETH_HDR_LEN s0) s0"
  have same: "pbuf_pool s0 = pbuf_pool st" "pbuf_pool s1 = pbuf_pool st" "live s0 = live st" "live s1 = live st"
    by (simp_all add: s0_def s1_def)
  have t0: "trip ?P {} st s0" unfolding s0_def by (rule trip_ub_if)
  have t1: "trip ?P {} st s1"
    unfolding s1_def by (rule trip_trans [OF t0 trip_ub_if]) (use same in \<open>simp add: pb_ok_def wire_defs\<close>)
  obtain fo s2 where al: "pbuf_alloc (of_nat (?len - ETH_HDR_LEN)) s1 = (fo, s2)" by fastforce
  have t2: "trip ?P {} st s2" by (rule trip_trans [OF t1 trip_allocD [OF al]])
  have "trip ?P {q} st (ethernet_input devs nif p st)"
  proof (cases "?len < ETH_HDR_LEN \<or> fo = None")
    case True
    then show ?thesis
      using trip_hold_free [OF t0, of q] trip_hold_free [OF t2, of q] al
      by (auto simp: ethernet_input_def np Let_def pb_read_def same s0_def [symmetric] s1_def [symmetric])
  next
    case False
    then obtain f where f: "fo = Some f" by auto
    define s5 where "s5 = pbuf_free (Some q) (pb_write f 0 (mem_get (p_data (pb s2 q)) ETH_HDR_LEN (?len - ETH_HDR_LEN))
      (ub_unless (pb_ok q ETH_HDR_LEN (?len - ETH_HDR_LEN) s2) s2))"
    have nxt: "trip ?P {q} st s" if "trip (live s5 f) {f} s5 s" for s
    proof -
      have "trip (live s1 q) {q} s1 s"
        by (rule decap_trip [OF al [unfolded f]])
          (use that False sound_len [of s1 q] same in \<open>simp_all add: s5_def\<close>)
      then have "trip ?P ({} \<union> {q}) st s" by (rule trip_chain [OF t1]) (use same in simp)
      then show ?thesis by simp
    qed
    show ?thesis
      using False f al nxt [of "pbuf_free (Some f) s5"] nxt [of "arp_input devs nif (Some f) s5"]
        nxt [of "ipv4_input devs nif (Some f) s5"] trip_free [of "Some f" s5] arp_input_trip [of "Some f" s5 nif]
        ipv4_input_trip [of "Some f" s5 nif]
      by (simp add: ethernet_input_def np Let_def pb_read_def same s0_def [symmetric] s1_def [symmetric]
          s5_def [symmetric])
  qed
  then show ?thesis using np by simp
qed

lemma netif_input_trip:
  "trip (\<forall>i. p = Some i \<longrightarrow> live st i) (set_option p) st (netif_input devs nif p st)"
  using ethernet_input_trip [of p st nif] by (auto simp: netif_input_def)

end

end
