(* ===== verification/Virtio_Net.thy ===== *)
theory Virtio_Net
  imports Net_Input
begin

text \<open>
  The data path of \<^verbatim>\<open>kernel/hardware/virtio/virtio_net.c\<close>: posting and harvesting of
  receive buffers, delivery to the stack, transmission, and the table of operations that the
  stack calls. The driver is the provider of the contract \<open>net_driver\<close>: its poll runs
  \<open>netif_input\<close> on what it has harvested, and that may poll again. The nesting is the argument
  of \<open>vnet_devs\<close>; at depth 0 the device has nothing to deliver. The interpretation at the end
  shows that the driver keeps the contract at every depth, whatever the device publishes.
\<close>

section \<open>The queues\<close>

definition VNET_RX_PENDING_MAX :: nat where "VNET_RX_PENDING_MAX = 16"
definition VIRTQ_DESC_F_WRITE :: u16 where "VIRTQ_DESC_F_WRITE = 2"

definition upd_vnet :: "(vnet_vars \<Rightarrow> vnet_vars) \<Rightarrow> net \<Rightarrow> net" where
  "upd_vnet f st = st\<lparr>vnet_v := f (vnet_v st)\<rparr>"

text \<open>The accesses of \<^verbatim>\<open>vnet_rx_post\<close> and \<^verbatim>\<open>vnet_transmit\<close> to the arrays of a queue are in bounds.\<close>

definition vq_in :: "vnet_queue \<Rightarrow> u16 \<Rightarrow> bool" where
  "vq_in q idx \<longleftrightarrow> vq_qsize q \<noteq> 0 \<and> unat idx < length (vq_free q) \<and> unat idx < length (vq_desc q) \<and>
     unat idx < length (vq_bufs q) \<and> unat (vq_avail_idx q mod vq_qsize q) < length (vq_avail q)"

definition vq_offer :: "u16 \<Rightarrow> u32 \<Rightarrow> u16 \<Rightarrow> vnet_queue \<Rightarrow> vnet_queue" where
  "vq_offer idx len flags q =
     q\<lparr>vq_free := (vq_free q)[unat idx := False],
       vq_desc := (vq_desc q)[unat idx := \<lparr>vd_len = len, vd_flags = flags\<rparr>],
       vq_avail := (vq_avail q)[unat (vq_avail_idx q mod vq_qsize q) := idx],
       vq_avail_idx := vq_avail_idx q + 1\<rparr>"

definition vnet_rx_post :: "u16 \<Rightarrow> net \<Rightarrow> net" where
  "vnet_rx_post idx st =
     upd_vnet (\<lambda>v. v\<lparr>vn_rx := vq_offer idx (of_nat VNET_BUF_SIZE) VIRTQ_DESC_F_WRITE (vn_rx v)\<rparr>)
       (ub_unless (vq_in (vn_rx (vnet_v st)) idx) st)"

definition vnet_rx_fill :: "net \<Rightarrow> net" where
  "vnet_rx_fill st =
     fold (\<lambda>i st. if vq_free (vn_rx (vnet_v st)) ! i then vnet_rx_post (of_nat i) st else st)
       [0..<unat (vq_qsize (vn_rx (vnet_v st)))] st"

section \<open>Receiving\<close>

text \<open>One iteration of the loop of \<^verbatim>\<open>vnet_harvest_rx\<close>.\<close>

definition vnet_rx_frame :: "used_elem \<Rightarrow> net \<Rightarrow> net" where
  "vnet_rx_frame e st =
     (if ue_len e > of_nat SIZEOF_VIRTIO_NET_HDR \<and> length (vnet_rx_pending (vnet_v st)) < VNET_RX_PENDING_MAX
      then
        let n = unat (ue_len e - of_nat SIZEOF_VIRTIO_NET_HDR);
            frame_len = (if n > ETH_MAX_FRAME then ETH_MAX_FRAME else n)
        in case pbuf_alloc (of_nat frame_len) st of
             (None, st) \<Rightarrow> st
           | (Some p, st) \<Rightarrow>
               let st = ub_unless (SIZEOF_VIRTIO_NET_HDR + frame_len \<le> VNET_BUF_SIZE) st;
                   st = pb_write p 0 (mem_get (ue_buf e) SIZEOF_VIRTIO_NET_HDR frame_len) st
               in upd_vnet (\<lambda>v. v\<lparr>vnet_rx_pending := vnet_rx_pending v @ [p]\<rparr>) st
      else st)"

definition vnet_rx_one :: "used_view \<Rightarrow> net \<Rightarrow> net" where
  "vnet_rx_one view st =
     (let q = vn_rx (vnet_v st);
          st = ub_unless (vq_qsize q \<noteq> 0) st;
          e = uv_ring view ! unat (vq_last_used q mod vq_qsize q);
          head = ucast (ue_id e);
          st = upd_vnet (\<lambda>v. v\<lparr>vn_rx := (vn_rx v)\<lparr>vq_last_used := vq_last_used (vn_rx v) + 1\<rparr>\<rparr>) st
      in if head \<ge> vq_qsize q then st
         else vnet_rx_post head (vnet_rx_frame e st))"

text \<open>
  The loop runs while \<^verbatim>\<open>last_used\<close> differs from the published index, and every iteration
  advances \<^verbatim>\<open>last_used\<close> by one: it runs as often as their 16-bit difference says.
\<close>

fun vnet_rx_loop :: "used_view \<Rightarrow> nat \<Rightarrow> net \<Rightarrow> net" where
  "vnet_rx_loop view 0 st = st"
| "vnet_rx_loop view (Suc n) st = vnet_rx_loop view n (vnet_rx_one view st)"

definition vnet_harvest_rx :: "net \<Rightarrow> net" where
  "vnet_harvest_rx st =
     (case vn_rx_dev (vnet_v st) of
        [] \<Rightarrow> st
      | view # views \<Rightarrow>
          vnet_rx_loop view (unat (uv_idx view - vq_last_used (vn_rx (vnet_v st))))
            (upd_vnet (\<lambda>v. v\<lparr>vn_rx_dev := views\<rparr>) (st\<lparr>ticks := ticks st + uv_elapsed view\<rparr>)))"

definition vnet_steal_pending :: "net \<Rightarrow> nat list \<times> net" where
  "vnet_steal_pending st = (vnet_rx_pending (vnet_v st), upd_vnet (\<lambda>v. v\<lparr>vnet_rx_pending := []\<rparr>) st)"

text \<open>\<open>input\<close> is \<^verbatim>\<open>netif_input\<close>; the interface of the driver has index 0.\<close>

definition vnet_deliver_pending :: "(nat option \<Rightarrow> nat option \<Rightarrow> net \<Rightarrow> net) \<Rightarrow> net \<Rightarrow> net" where
  "vnet_deliver_pending input st =
     (let (frames, st) = vnet_steal_pending st in fold (\<lambda>p. input (Some 0) (Some p)) frames st)"

section \<open>Transmitting\<close>

definition vnet_tx_one :: "used_view \<Rightarrow> vnet_queue \<Rightarrow> vnet_queue" where
  "vnet_tx_one view q =
     (let head = ucast (ue_id (uv_ring view ! unat (vq_last_used q mod vq_qsize q)));
          q = q\<lparr>vq_last_used := vq_last_used q + 1\<rparr>
      in if head < vq_qsize q then q\<lparr>vq_free := (vq_free q)[unat head := True]\<rparr> else q)"

definition vnet_harvest_tx :: "net \<Rightarrow> net" where
  "vnet_harvest_tx st =
     (case vn_tx_dev (vnet_v st) of
        [] \<Rightarrow> st
      | view # views \<Rightarrow>
          let n = unat (uv_idx view - vq_last_used (vn_tx (vnet_v st)));
              st = ub_unless (n = 0 \<or> vq_qsize (vn_tx (vnet_v st)) \<noteq> 0) st
          in upd_vnet (\<lambda>v. v\<lparr>vn_tx := (vnet_tx_one view ^^ n) (vn_tx v), vn_tx_dev := views\<rparr>) st)"

definition vnet_poll_locked :: "net \<Rightarrow> net" where
  "vnet_poll_locked st = vnet_harvest_tx (vnet_harvest_rx st)"

definition vnet_poll_ops :: "(nat option \<Rightarrow> nat option \<Rightarrow> net \<Rightarrow> net) \<Rightarrow> net \<Rightarrow> net" where
  "vnet_poll_ops input st =
     (if \<not> vnet_ready (vnet_v st) then st
      else vnet_deliver_pending input (vnet_poll_locked st))"

definition vnet_transmit :: "nat option \<Rightarrow> net \<Rightarrow> int \<times> net" where
  "vnet_transmit p st =
     (case p of None \<Rightarrow> (-1, st) | Some i \<Rightarrow>
      if \<not> vnet_ready (vnet_v st) then (-1, st)
      else
        let st = ub_unless (live st i) st;
            len = unat (p_len (pb st i));
            tot = SIZEOF_VIRTIO_NET_HDR + len
        in if tot > VNET_BUF_SIZE then (-1, st)
           else
             let st = vnet_harvest_tx st;
                 q = vn_tx (vnet_v st)
             in case first_index (\<lambda>b. b) (take (unat (vq_qsize q)) (vq_free q)) of
                  None \<Rightarrow> (-1, st)
                | Some k \<Rightarrow>
                    let idx = of_nat k;
                        (d, st) = pb_read i 0 len st;
                        st = ub_unless (vq_in q idx) st
                    in (0, upd_vnet (\<lambda>v. v\<lparr>vn_tx := vq_offer idx (of_nat tot) 0
                             ((vn_tx v)\<lparr>vq_bufs := (vq_bufs (vn_tx v))[k :=
                                mem_put (vq_bufs (vn_tx v) ! k) 0 (replicate SIZEOF_VIRTIO_NET_HDR 0 @ d)]\<rparr>)\<rparr>) st))"

definition VIRTIO_NET_S_LINK_UP :: u16 where "VIRTIO_NET_S_LINK_UP = 1"

definition vnet_link_up :: "net \<Rightarrow> bool" where
  "vnet_link_up st \<longleftrightarrow>
     (if \<not> vn_has_status (vnet_v st) then True else vn_status (vnet_v st) AND VIRTIO_NET_S_LINK_UP \<noteq> 0)"

definition vnet_get_mac :: "net \<Rightarrow> bytes" where
  "vnet_get_mac st = take ETH_ADDR_LEN (vn_mac (vnet_v st))"

section \<open>The device as the stack sees it\<close>

definition vnet_ndev :: "(net \<Rightarrow> net) \<Rightarrow> netdev" where
  "vnet_ndev poll = \<lparr>nd_ops = Some \<lparr>op_transmit = Some vnet_transmit, op_link_up = Some vnet_link_up,
     op_poll = Some poll, op_get_mac = Some vnet_get_mac\<rparr>, nd_name = ''eth0''\<rparr>"

fun vnet_devs :: "nat \<Rightarrow> devs" where
  "vnet_devs 0 = (\<lambda>d. vnet_ndev (\<lambda>st. st))"
| "vnet_devs (Suc n) = (\<lambda>d. vnet_ndev (vnet_poll_ops (netif_input (vnet_devs n))))"

text \<open>The entry points: a poll from the outside and the interrupt handler.\<close>

definition virtio_net_poll :: "nat \<Rightarrow> net \<Rightarrow> net" where
  "virtio_net_poll n st = vnet_poll_ops (netif_input (vnet_devs n)) st"

definition virtio_net_irq :: "bool \<Rightarrow> nat \<Rightarrow> net \<Rightarrow> net" where
  "virtio_net_irq entered n st =
     (if \<not> entered then st
      else if vnet_ready (vnet_v st)
      then vnet_deliver_pending (netif_input (vnet_devs n)) (vnet_poll_locked st)
      else st)"

section \<open>The rings stay well-formed\<close>

lemma upd_vnet_simps [simp]:
  "pbuf_pool (upd_vnet f st) = pbuf_pool st" "pbuf_free_list (upd_vnet f st) = pbuf_free_list st"
  "pbuf_inited (upd_vnet f st) = pbuf_inited st" "mem_fault (upd_vnet f st) = mem_fault st"
  "vnet_v (upd_vnet f st) = f (vnet_v st)"
  by (simp_all add: upd_vnet_def)

lemma upd_vnet_pool [simp]:
  "pbuf_inv (upd_vnet f st) = pbuf_inv st" "live (upd_vnet f st) = live st"
  "keeps C s (upd_vnet f st) = keeps C s st"
  by (rule pbuf_inv_cong, simp_all add: keeps_def pb_same_def fun_eq_iff live_def)

lemma vnet_v_ub [simp]: "vnet_v (ub_unless ok st) = vnet_v st"
  by (simp add: ub_unless_def)

lemma vq_ok_offer: "vq_ok q \<Longrightarrow> vq_ok (vq_offer idx len flags q)"
  by (simp add: vq_ok_def vq_offer_def)

lemma vq_ok_last_used [simp]: "vq_ok (q\<lparr>vq_last_used := x\<rparr>) = vq_ok q"
  by (simp add: vq_ok_def)

lemma vq_in_ok: "vq_ok q \<Longrightarrow> idx < vq_qsize q \<Longrightarrow> vq_in q idx"
proof -
  assume q: "vq_ok q" and i: "idx < vq_qsize q"
  have "vq_avail_idx q mod vq_qsize q < vq_qsize q" using q by (simp add: vq_ok_def word_mod_less_divisor)
  then have "unat (vq_avail_idx q mod vq_qsize q) < unat (vq_qsize q)" by (simp add: word_less_nat_alt)
  moreover have "unat idx < unat (vq_qsize q)" using i by (simp add: word_less_nat_alt)
  ultimately show ?thesis
    using q by (auto simp: vq_ok_def vq_in_def VNET_QUEUE_MAX_def VIRTIO_QUEUE_MAX_def)
qed

lemma vq_ok_tx_one: "vq_ok q \<Longrightarrow> vq_ok (vnet_tx_one view q)"
  by (simp add: vnet_tx_one_def Let_def vq_ok_def)

lemma vq_ok_tx_loop: "vq_ok q \<Longrightarrow> vq_ok ((vnet_tx_one view ^^ n) q)"
  by (induction n) (simp_all add: vq_ok_tx_one)

text \<open>What the driver does to its own variables leaves the rest of the stack alone.\<close>

lemma same_vars_vnet:
  assumes "vnet_ok (vnet_v st) \<Longrightarrow> vnet_ok (f (vnet_v st))"
  shows "same_vars st (upd_vnet f st)"
  using assms by (simp add: same_vars_def upd_vnet_def)

lemma tx_ok_vnet:
  assumes "vnet_ok (vnet_v st) \<Longrightarrow> vnet_ok (f (vnet_v st))"
    and "sound st \<Longrightarrow> live st p \<Longrightarrow> ok"
  shows "tx_ok p st (upd_vnet f (ub_unless ok st))"
proof -
  have "same_vars st (upd_vnet f (ub_unless ok st))"
    using assms(1) by (intro same_vars_trans [OF same_vars_pool(5) same_vars_vnet]) simp
  then show ?thesis using assms(2) by (auto simp: tx_ok_def sound_def net_inv_def)
qed

lemma tx_ok_refl: "tx_ok p st st"
  by (auto simp: tx_ok_def sound_def net_inv_def)

lemma tx_ok_ub: "(sound st \<Longrightarrow> live st p \<Longrightarrow> ok) \<Longrightarrow> tx_ok p st (ub_unless ok st)"
  using tx_ok_refl [of p st] same_vars_pool(5) [of st ok] by (auto simp: tx_ok_def)

lemma tx_ok_trans: "tx_ok p st s1 \<Longrightarrow> tx_ok p s1 s2 \<Longrightarrow> tx_ok p st s2"
  using same_vars_trans [of st s1 s2] net_inv_same [of st s1] keeps_trans [of "{}" st s1 s2]
  by (auto simp: tx_ok_def sound_def)

lemma harvest_tx_ok: "vnet_ready (vnet_v st) \<Longrightarrow> tx_ok p st (vnet_harvest_tx st)"
proof (cases "vn_tx_dev (vnet_v st)")
  case (Cons view views)
  assume "vnet_ready (vnet_v st)"
  then show ?thesis
    using Cons by (auto simp: vnet_harvest_tx_def Let_def vnet_ok_def sound_def net_inv_def vq_ok_def [of "vn_tx _"]
        intro!: tx_ok_vnet vq_ok_tx_loop)
qed (simp add: vnet_harvest_tx_def tx_ok_refl)

lemma harvest_tx_ready [simp]: "vnet_ready (vnet_v (vnet_harvest_tx st)) = vnet_ready (vnet_v st)"
  by (simp add: vnet_harvest_tx_def Let_def split: list.splits)

lemma vq_ok_fill:
  assumes "vq_ok q" "length d \<le> VNET_BUF_SIZE" "k < length (vq_bufs q)"
  shows "vq_ok (q\<lparr>vq_bufs := (vq_bufs q)[k := mem_put (vq_bufs q ! k) 0 d]\<rparr>)"
  using assms set_update_subset_insert [of "vq_bufs q" k "mem_put (vq_bufs q ! k) 0 d"]
  by (auto simp: vq_ok_def)

lemma transmit_ok: "tx_ok i st (snd (vnet_transmit (Some i) st))"
proof (cases "vnet_ready (vnet_v st) \<and> SIZEOF_VIRTIO_NET_HDR + unat (p_len (pb st i)) \<le> VNET_BUF_SIZE")
  case False
  have "tx_ok i st (ub_unless (live st i) st)" by (rule tx_ok_ub)
  then show ?thesis using False tx_ok_refl by (auto simp: vnet_transmit_def Let_def)
next
  case True
  let ?len = "unat (p_len (pb st i))"
  define s1 where "s1 = ub_unless (live st i) st"
  define s2 where "s2 = vnet_harvest_tx s1"
  define q where "q = vn_tx (vnet_v s2)"
  have r: "vnet_ready (vnet_v s1)" "vnet_ready (vnet_v s2)" using True by (simp_all add: s1_def s2_def)
  have t2: "tx_ok i st s2"
    unfolding s2_def using r(1) by (intro tx_ok_trans [OF _ harvest_tx_ok]) (simp_all add: s1_def tx_ok_ub)
  show ?thesis
  proof (cases "first_index (\<lambda>b. b) (take (unat (vq_qsize q)) (vq_free q))")
    case None
    then show ?thesis
      using True t2 by (simp add: vnet_transmit_def Let_def s1_def [symmetric] s2_def [symmetric] q_def [symmetric])
        (simp add: s1_def)
  next
    case (Some k)
    have k: "k < unat (vq_qsize q)" using first_index_bound [OF Some] by simp
    let ?d = "mem_get (p_data (pb s2 i)) 0 ?len"
    let ?s3 = "ub_unless (pb_ok i 0 ?len s2) s2"
    let ?f = "\<lambda>v. v\<lparr>vn_tx := vq_offer (of_nat k) (of_nat (SIZEOF_VIRTIO_NET_HDR + ?len)) 0
       ((vn_tx v)\<lparr>vq_bufs := (vq_bufs (vn_tx v))[k :=
          mem_put (vq_bufs (vn_tx v) ! k) 0 (replicate SIZEOF_VIRTIO_NET_HDR 0 @ ?d)]\<rparr>)\<rparr>"
    have idx: "(of_nat k :: u16) < vq_qsize q" if "vq_ok q"
      using k that by (simp add: word_less_nat_alt unat_of_nat_u16 vq_ok_def VNET_QUEUE_MAX_def)
    have "length (replicate SIZEOF_VIRTIO_NET_HDR 0 @ ?d) \<le> VNET_BUF_SIZE"
      using True by (auto simp: mem_get_def min_def)
    then have f: "vnet_ok (?f (vnet_v s2))" if "vnet_ok (vnet_v s2)"
      using that k r(2) vq_ok_offer [OF vq_ok_fill] by (auto simp: vnet_ok_def q_def vq_ok_def [of "vn_tx _"])
    have "tx_ok i s2 ?s3"
    proof (rule tx_ok_ub)
      assume "live s2 i"
      then show "pb_ok i 0 ?len s2"
        using True by (simp add: pb_ok_def VNET_BUF_SIZE_def PBUF_SIZE_def)
    qed
    moreover have "tx_ok i ?s3 (upd_vnet ?f (ub_unless (vq_in q (of_nat k)) ?s3))"
      using f idx vq_in_ok [of q "of_nat k"] r(2)
      by (intro tx_ok_vnet) (auto simp: sound_def net_inv_def vnet_ok_def q_def)
    ultimately have "tx_ok i st (upd_vnet ?f (ub_unless (vq_in q (of_nat k)) ?s3))"
      using tx_ok_trans [OF tx_ok_trans [OF t2]] by blast
    then show ?thesis
      using True Some
      unfolding vnet_transmit_def Let_def option.case s1_def [symmetric] s2_def [symmetric] q_def [symmetric]
        pb_read_def
      by (simp add: s1_def)
  qed
qed

section \<open>Harvesting\<close>

text \<open>
  While frames are harvested the stack's invariant does not hold: the pending frames belong to
  the driver. They are buffers that were free before, each listed once.
\<close>

definition harvested :: "net \<Rightarrow> net \<Rightarrow> bool" where
  "harvested s s' \<longleftrightarrow> nifs s' = nifs s \<and> icmp_v s' = icmp_v s \<and> udp_v s' = udp_v s \<and> dns_v s' = dns_v s \<and>
     dhcp_v s' = dhcp_v s \<and> tcp_v s' = tcp_v s \<and> sock_v s' = sock_v s \<and>
     vnet_ready (vnet_v s') = vnet_ready (vnet_v s) \<and> time_count s' = time_count s \<and>
     (sound s \<and> vnet_ready (vnet_v s) \<longrightarrow>
        pbuf_inv s' \<and> \<not> mem_fault s' \<and> keeps {} s s' \<and> vq_ok (vn_rx (vnet_v s')) \<and> vq_ok (vn_tx (vnet_v s')) \<and>
        distinct (vnet_rx_pending (vnet_v s')) \<and>
        (\<forall>p \<in> set (vnet_rx_pending (vnet_v s')). live s' p \<and> \<not> live s p))"

lemma harvested_refl: "harvested s s"
  by (auto simp: harvested_def sound_def net_inv_def vnet_ok_def)

lemma harvested_vnet:
  assumes "harvested s s1" "\<And>v. vnet_ready (f v) = vnet_ready v" "\<And>v. vnet_rx_pending (f v) = vnet_rx_pending v"
    and "vq_ok (vn_rx (vnet_v s1)) \<Longrightarrow> vq_ok (vn_tx (vnet_v s1)) \<Longrightarrow>
      vq_ok (vn_rx (f (vnet_v s1))) \<and> vq_ok (vn_tx (f (vnet_v s1))) \<and> ok"
  shows "harvested s (upd_vnet f (ub_unless ok s1))"
proof -
  have "nifs (upd_vnet f (ub_unless ok s1)) = nifs s1" "icmp_v (upd_vnet f (ub_unless ok s1)) = icmp_v s1"
    "udp_v (upd_vnet f (ub_unless ok s1)) = udp_v s1" "dns_v (upd_vnet f (ub_unless ok s1)) = dns_v s1"
    "dhcp_v (upd_vnet f (ub_unless ok s1)) = dhcp_v s1" "tcp_v (upd_vnet f (ub_unless ok s1)) = tcp_v s1"
    "sock_v (upd_vnet f (ub_unless ok s1)) = sock_v s1"
    "time_count (upd_vnet f (ub_unless ok s1)) = time_count s1"
    by (simp_all add: upd_vnet_def ub_unless_def)
  moreover have "keeps {} s (ub_unless ok s1) = keeps {} s s1" by (simp add: keeps_def pb_same_def)
  ultimately show ?thesis using assms by (simp add: harvested_def)
qed

lemma harvested_rx_post: "harvested s s1 \<Longrightarrow> idx < vq_qsize (vn_rx (vnet_v s1)) \<Longrightarrow> harvested s (vnet_rx_post idx s1)"
  unfolding vnet_rx_post_def
  by (rule harvested_vnet) (simp_all add: vq_ok_offer vq_in_ok)

lemma harvested_pool:
  assumes h: "harvested s s1" and more: "pbuf_state.more s2 = pbuf_state.more s1"
    and pool: "pbuf_inv s1 \<Longrightarrow> \<not> mem_fault s1 \<Longrightarrow> pbuf_inv s2 \<and> \<not> mem_fault s2 \<and> keeps {} s1 s2"
  shows "harvested s s2"
proof -
  note m = more_fields [OF more]
  have k: "keeps {} s s2" "\<forall>p. live s1 p \<longrightarrow> live s2 p"
    if "keeps {} s s1" "pbuf_inv s1" "\<not> mem_fault s1"
    using that pool keeps_trans [of "{}" s s1 s2] keepsD [of "{}" s1 s2] by auto
  show ?thesis using h m pool k by (auto simp: harvested_def)
qed

lemma harvested_push:
  assumes h: "harvested s s1" and al: "pbuf_alloc n s1 = (Some p, s2)" and len: "length d \<le> PBUF_SIZE"
  shows "harvested s (upd_vnet (\<lambda>v. v\<lparr>vnet_rx_pending := vnet_rx_pending v @ [p]\<rparr>) (pb_write p 0 d s2))"
    (is "harvested s ?s4")
proof -
  have more: "pbuf_state.more (pb_write p 0 d s2) = pbuf_state.more s1"
    using pb_write_more [of p 0 d s2] pbuf_alloc_more [of n s1] al by simp
  have fields: "nifs ?s4 = nifs s1 \<and> icmp_v ?s4 = icmp_v s1 \<and> udp_v ?s4 = udp_v s1 \<and> dns_v ?s4 = dns_v s1 \<and>
      dhcp_v ?s4 = dhcp_v s1 \<and> tcp_v ?s4 = tcp_v s1 \<and> sock_v ?s4 = sock_v s1 \<and>
      time_count ?s4 = time_count s1 \<and> vnet_v (pb_write p 0 d s2) = vnet_v s1"
    using more_fields [OF more] by (simp add: upd_vnet_def)
  have "pbuf_inv ?s4 \<and> \<not> mem_fault ?s4 \<and> keeps {} s ?s4 \<and> distinct (vnet_rx_pending (vnet_v ?s4)) \<and>
      (\<forall>i \<in> set (vnet_rx_pending (vnet_v ?s4)). live ?s4 i \<and> \<not> live s i)"
    if "sound s" "vnet_ready (vnet_v s)"
  proof -
    have 1: "pbuf_inv s1" "\<not> mem_fault s1" "keeps {} s s1" "distinct (vnet_rx_pending (vnet_v s1))"
        "\<forall>i \<in> set (vnet_rx_pending (vnet_v s1)). live s1 i \<and> \<not> live s i"
      using h that by (auto simp: harvested_def)
    note a = pbuf_alloc_Some [OF 1(1) al]
    have p: "\<not> live s1 p" "\<not> live s p" using a keepsD [OF 1(3), of p] by auto
    have l2: "live s2 p" "pbuf_inv s2" using a by auto
    note w = pb_write_live [OF l2(2) l2(1), of 0 d]
    have w': "0 + length d \<le> PBUF_SIZE" using len by simp
    have "keeps {} s s2" using a 1(3) by (auto intro: keeps_trans)
    from keeps_chain [OF this w(3) [OF w']] have "keeps {p} s (pb_write p 0 d s2)" by simp
    then have "keeps {} s (pb_write p 0 d s2)" using p(2) by (rule keeps_fresh)
    moreover have "live (pb_write p 0 d s2) = (live s1)(p := True)" using w(2) [OF w'] a by simp
    ultimately show ?thesis using 1 p w(1,4) [OF w'] a fields by auto
  qed
  then show ?thesis using h fields by (auto simp: harvested_def)
qed

lemma harvested_frame: "harvested s s1 \<Longrightarrow> harvested s (vnet_rx_frame e s1)"
proof -
  assume h: "harvested s s1"
  define n where "n = unat (ue_len e - of_nat SIZEOF_VIRTIO_NET_HDR)"
  define k where "k = (if n > ETH_MAX_FRAME then ETH_MAX_FRAME else n)"
  obtain po s2 where al: "pbuf_alloc (of_nat k) s1 = (po, s2)" by fastforce
  have k: "k \<le> ETH_MAX_FRAME" by (simp add: k_def)
  show "harvested s (vnet_rx_frame e s1)"
  proof (cases po)
    case None
    have "harvested s s2"
      by (rule harvested_pool [OF h])
        (use pbuf_alloc_more [of "of_nat k" s1] pbuf_alloc_None [OF _ al [unfolded None]] al in auto)
    then show ?thesis
      using h al None by (simp add: vnet_rx_frame_def Let_def n_def [symmetric] k_def [symmetric])
  next
    case (Some p)
    have ok: "SIZEOF_VIRTIO_NET_HDR + k \<le> VNET_BUF_SIZE" using k by (simp add: VNET_BUF_SIZE_def)
    have "length (mem_get (ue_buf e) SIZEOF_VIRTIO_NET_HDR k) \<le> PBUF_SIZE"
      using k by (auto simp: mem_get_def PBUF_SIZE_def)
    note harvested_push [OF h al [unfolded Some] this]
    then show ?thesis
      using h al Some ok by (simp add: vnet_rx_frame_def Let_def n_def [symmetric] k_def [symmetric])
  qed
qed

lemma rx_frame_queue [simp]: "vn_rx (vnet_v (vnet_rx_frame e st)) = vn_rx (vnet_v st)"
proof -
  define n where "n = unat (ue_len e - of_nat SIZEOF_VIRTIO_NET_HDR)"
  define k where "k = (if n > ETH_MAX_FRAME then ETH_MAX_FRAME else n)"
  obtain po s2 where al: "pbuf_alloc (of_nat k) st = (po, s2)" by fastforce
  have ok: "SIZEOF_VIRTIO_NET_HDR + k \<le> VNET_BUF_SIZE" by (simp add: VNET_BUF_SIZE_def k_def)
  have m: "pbuf_state.more s2 = pbuf_state.more st" using al pbuf_alloc_more [of "of_nat k" st] by simp
  have "vnet_v s2 = vnet_v st" using more_fields [OF m] by simp
  moreover have "vnet_v (pb_write p 0 d s2) = vnet_v st" for p d
    using more_fields [of "pb_write p 0 d s2" st] m pb_write_more [of p 0 d s2] by simp
  ultimately show ?thesis
    using al ok
    by (cases po) (simp_all add: vnet_rx_frame_def Let_def n_def [symmetric] k_def [symmetric])
qed

lemma harvested_one: "harvested s s1 \<Longrightarrow> harvested s (vnet_rx_one view s1)"
proof -
  assume h: "harvested s s1"
  let ?q = "vn_rx (vnet_v s1)"
  let ?s2 = "upd_vnet (\<lambda>v. v\<lparr>vn_rx := (vn_rx v)\<lparr>vq_last_used := vq_last_used (vn_rx v) + 1\<rparr>\<rparr>)
    (ub_unless (vq_qsize ?q \<noteq> 0) s1)"
  have 2: "harvested s ?s2" by (rule harvested_vnet [OF h]) (auto, auto simp: vq_ok_def)
  have "vq_qsize (vn_rx (vnet_v (vnet_rx_frame e ?s2))) = vq_qsize ?q" for e by simp
  then show ?thesis
    using 2 harvested_rx_post [OF harvested_frame [OF 2]]
    unfolding vnet_rx_one_def Let_def by (simp del: rx_frame_queue add: not_le)
qed

lemma harvested_loop: "harvested s s1 \<Longrightarrow> harvested s (vnet_rx_loop view n s1)"
  by (induction n arbitrary: s1) (simp_all add: harvested_one)

lemma harvested_rx: "harvested s s1 \<Longrightarrow> harvested s (vnet_harvest_rx s1)"
proof (cases "vn_rx_dev (vnet_v s1)")
  case (Cons view views)
  assume h: "harvested s s1"
  let ?s2 = "s1\<lparr>ticks := ticks s1 + uv_elapsed view\<rparr>"
  have p: "pbuf_inv ?s2 = pbuf_inv s1" by (rule pbuf_inv_cong) simp_all
  have "live ?s2 = live s1" "keeps {} s ?s2 = keeps {} s s1"
    by (simp_all add: live_def keeps_def pb_same_def fun_eq_iff)
  then have "harvested s ?s2" using h p by (simp add: harvested_def)
  from harvested_vnet [OF this, of "\<lambda>v. v\<lparr>vn_rx_dev := views\<rparr>" True] show ?thesis
    using Cons by (simp add: vnet_harvest_rx_def harvested_loop)
qed (simp add: vnet_harvest_rx_def)

lemma harvested_tx: "harvested s s1 \<Longrightarrow> harvested s (vnet_harvest_tx s1)"
  by (cases "vn_tx_dev (vnet_v s1)")
    (auto simp: vnet_harvest_tx_def Let_def vq_ok_def [of "vn_tx _"] intro!: harvested_vnet vq_ok_tx_loop)

lemma harvested_poll: "harvested s (vnet_poll_locked s)"
  unfolding vnet_poll_locked_def by (intro harvested_tx harvested_rx harvested_refl)

text \<open>Taking the pending frames over: they are the only buffers that are new.\<close>

lemma steal_trip:
  assumes "vnet_ready (vnet_v s)" "vnet_steal_pending (vnet_poll_locked s) = (frames, s1)"
  shows "trip P {} s s1" and "sound s \<Longrightarrow> distinct frames \<and> (\<forall>p \<in> set frames. live s1 p \<and> \<not> live s p)"
proof -
  let ?h = "vnet_poll_locked s"
  have h: "harvested s ?h" by (rule harvested_poll)
  have s1: "s1 = upd_vnet (\<lambda>v. v\<lparr>vnet_rx_pending := []\<rparr>) ?h" and fr: "frames = vnet_rx_pending (vnet_v ?h)"
    using assms(2) by (simp_all add: vnet_steal_pending_def)
  have f: "nifs s1 = nifs ?h" "icmp_v s1 = icmp_v ?h" "udp_v s1 = udp_v ?h" "dns_v s1 = dns_v ?h"
      "dhcp_v s1 = dhcp_v ?h" "tcp_v s1 = tcp_v ?h" "sock_v s1 = sock_v ?h"
      "time_count s1 = time_count ?h"
    by (simp_all add: s1 upd_vnet_def)
  have "sound s1 \<and> keeps {} s s1" if "sound s"
    using h f that assms(1) unfolding s1
    by (auto simp: harvested_def sound_def net_inv_def vnet_ok_def)
  then show "trip P {} s s1"
    using h f by (auto simp: trip_def wrapped_def var_frame_def harvested_def)
  show "sound s \<Longrightarrow> distinct frames \<and> (\<forall>p \<in> set frames. live s1 p \<and> \<not> live s p)"
    using h assms(1) by (auto simp: fr s1 harvested_def)
qed

text \<open>Delivering them one by one; each call may free the frame it is given, and only that one.\<close>

lemma deliver_trip:
  assumes input: "\<And>p s. trip (live s p) {p} s (input (Some 0) (Some p) s)"
  shows "trip (distinct frames \<and> (\<forall>p \<in> set frames. live s p)) (set frames) s
    (fold (\<lambda>p. input (Some 0) (Some p)) frames s)"
proof (induction frames arbitrary: s)
  case (Cons p frames)
  let ?s1 = "input (Some 0) (Some p) s"
  have 1: "trip (distinct (p # frames) \<and> (\<forall>q \<in> set (p # frames). live s q)) {p} s ?s1"
    by (rule trip_weaken [OF input]) auto
  have "trip (distinct (p # frames) \<and> (\<forall>q \<in> set (p # frames). live s q)) ({p} \<union> set frames) s
      (fold (\<lambda>p. input (Some 0) (Some p)) frames ?s1)"
    by (rule trip_chain [OF 1 Cons]) (auto dest: keepsD)
  then show ?case by simp
qed simp

lemma poll_deliver_trip:
  assumes "\<And>p s. trip (live s p) {p} s (input (Some 0) (Some p) s)" "vnet_ready (vnet_v st)"
  shows "trip P {} st (vnet_deliver_pending input (vnet_poll_locked st))"
proof -
  obtain frames s1 where s: "vnet_steal_pending (vnet_poll_locked st) = (frames, s1)" by fastforce
  note t = steal_trip [OF assms(2) s]
  have "trip P ({} \<union> set frames) st (fold (\<lambda>p. input (Some 0) (Some p)) frames s1)"
    by (rule trip_chain [OF t(1) deliver_trip [of input, OF assms(1)]]) (use t(2) in blast)
  then have "trip P {} st (fold (\<lambda>p. input (Some 0) (Some p)) frames s1)"
    by (rule trip_fresh_set) (use t(2) in blast)
  then show ?thesis using s by (simp add: vnet_deliver_pending_def)
qed

section \<open>The driver keeps the contract\<close>

lemma net_driver_ndev:
  assumes "\<And>st. trip True {} st (poll st)"
  shows "net_driver (\<lambda>d. vnet_ndev poll)"
proof
  fix d ops tx f st r st'
  assume "nd_ops (vnet_ndev poll) = Some ops" "op_transmit ops = Some tx" "tx (Some f) st = (r, st')"
  then show "tx_ok f st st'" using transmit_ok [of f st] by (auto simp: vnet_ndev_def)
next
  fix d ops pl st
  assume "nd_ops (vnet_ndev poll) = Some ops" "op_poll ops = Some pl"
  then show "trip True {} st (pl st)" using assms by (auto simp: vnet_ndev_def)
qed

lemma vnet_net_driver: "net_driver (vnet_devs n)"
proof (induction n)
  case 0
  have "net_driver (\<lambda>d. vnet_ndev (\<lambda>st. st))" by (rule net_driver_ndev) simp
  then show ?case by simp
next
  case (Suc n)
  have "trip (live s p) {p} s (netif_input (vnet_devs n) (Some 0) (Some p) s)" for p s
    using net_driver.netif_input_trip [OF Suc, of "Some p" s "Some 0"] by simp
  then have "trip True {} st (vnet_poll_ops (netif_input (vnet_devs n)) st)" for st
    by (simp add: vnet_poll_ops_def poll_deliver_trip)
  from net_driver_ndev [OF this] show ?case by simp
qed

interpretation vnet: net_driver "vnet_devs n" for n
  by (rule vnet_net_driver)

lemma vnet_poll_trip: "trip P {} st (virtio_net_poll n st)"
proof -
  have "trip (live s p) {p} s (netif_input (vnet_devs n) (Some 0) (Some p) s)" for p s
    using vnet.netif_input_trip [of "Some p" s n "Some 0"] by simp
  then show ?thesis by (simp add: virtio_net_poll_def vnet_poll_ops_def poll_deliver_trip)
qed

lemma vnet_irq_trip: "trip P {} st (virtio_net_irq entered n st)"
  using vnet_poll_trip [of P st n] by (auto simp: virtio_net_irq_def virtio_net_poll_def vnet_poll_ops_def)

end
