(* ===== verification/Dhcp.thy ===== *)
theory Dhcp
  imports Net_Input
begin

text \<open>
  The DHCP client of \<^verbatim>\<open>kernel/net/dhcp.c\<close>: the exchange that acquires a lease, its renewal
  and rebinding, the timers and the service routine that the network thread calls. The
  messages themselves are in \<open>Dhcp_Msg\<close>. The variables of the client that the code keeps in
  a caller's \<^verbatim>\<open>struct inet_config\<close> are passed in and returned.

  The lemmas show that the client stays within its buffers whatever arrives while it waits,
  and what a run of the service routine leaves behind: the state of the lease, its timers
  and the address of the interface.
\<close>

section \<open>Timers\<close>

definition dhcp_arm_timers :: "u32 \<Rightarrow> u32 \<Rightarrow> net \<Rightarrow> net" where
  "dhcp_arm_timers now_secs lease_secs st =
     (let ls = (if lease_secs \<noteq> 0 then lease_secs else 86400)
      in upd_dhcp (\<lambda>d. d\<lparr>dhcp_t1_abs := now_secs + dhcp_t1_secs ls, dhcp_t2_abs := now_secs + dhcp_t2_secs ls,
           dhcp_lease_abs := now_secs + ls,
           dhcp_state := if dhcp_have_lease d then DHCP_ST_BOUND else dhcp_state d\<rparr>) st)"

definition dhcp_force_timer_due :: "u32 \<Rightarrow> bool \<Rightarrow> net \<Rightarrow> net" where
  "dhcp_force_timer_due now_secs past_t2 st =
     (let before = (if now_secs \<noteq> 0 then now_secs - 1 else 0)
      in if past_t2
         then upd_dhcp (\<lambda>d. d\<lparr>dhcp_t1_abs := before, dhcp_t2_abs := before, dhcp_state := DHCP_ST_RENEWING\<rparr>) st
         else upd_dhcp (\<lambda>d. d\<lparr>dhcp_t1_abs := before, dhcp_t2_abs := now_secs + 3600,
                dhcp_state := DHCP_ST_BOUND\<rparr>) st)"

definition dhcp_lease_state :: "net \<Rightarrow> dhcp_st" where
  "dhcp_lease_state st = dhcp_state (dhcp_v st)"

section \<open>Sending\<close>

text \<open>
  The broadcast path builds the IP packet itself, because the interface need not have an
  address yet. \<open>dhcp_ip_wrap\<close> is its second half: the datagram in \<open>udp\<close> is copied behind an
  IP header into a buffer of its own.
\<close>

definition dhcp_ip_wrap :: "devs \<Rightarrow> nat \<Rightarrow> nat \<Rightarrow> net \<Rightarrow> int \<times> net" where
  "dhcp_ip_wrap devs n udp st =
     (let len = unat (p_len (pb st udp));
          total = IPV4_HDR_MIN + len
      in case pbuf_alloc (of_nat total) st of
           (None, st) \<Rightarrow> (-1, pbuf_free (Some udp) st)
         | (Some pkt, st) \<Rightarrow>
             let ip = ipv4_hdr_bytes \<lparr>ip_ver_ihl = IPV4_VERSION_IHL, ip_tos = 0,
                   ip_total_len = net_htons (of_nat total), ip_id = net_htons 1,
                   ip_frag_off = 0, ip_ttl = 64, ip_proto = IPV4_PROTO_UDP, ip_checksum = 0,
                   ip_src = net_htonl (if nif_configured (nifs st n) \<noteq> 0 then nif_ip (nifs st n) else 0),
                   ip_dst = net_htonl 0xFFFFFFFF\<rparr>;
                 st = pb_write pkt 0 (ipv4_set_checksum ip) st;
                 (d, st) = pb_read udp 0 len st;
                 st = pb_write pkt IPV4_HDR_MIN d st;
                 st = pbuf_free (Some udp) st
             in ethernet_output devs (Some n) (Some pkt) eth_broadcast ETH_TYPE_IPV4 st)"

definition dhcp_xmit :: "devs \<Rightarrow> nat option \<Rightarrow> bytes \<Rightarrow> net \<Rightarrow> int \<times> net" where
  "dhcp_xmit devs nif payload st =
     (case nif of None \<Rightarrow> (-1, st) | Some n \<Rightarrow>
      if payload = [] then (-1, st)
      else
        let total = (of_nat UDP_HDR_LEN + of_nat (length payload) :: u32) in
        if total > of_nat PBUF_SIZE then (-1, st)
        else case pbuf_alloc (ucast total) st of
          (None, st) \<Rightarrow> (-1, st)
        | (Some udp, st) \<Rightarrow>
            let (udp_len, dgram) = udp_build DHCP_CLIENT_PORT DHCP_SERVER_PORT payload
                  (if nif_configured (nifs st n) \<noteq> 0 then nif_ip (nifs st n) else 0) 0xFFFFFFFF;
                st = pb_write udp 0 dgram st;
                st = pb_set_len udp (ucast udp_len) st
            in dhcp_ip_wrap devs n udp st)"

definition dhcp_xmit_unicast :: "devs \<Rightarrow> nat option \<Rightarrow> u32 \<Rightarrow> bytes \<Rightarrow> net \<Rightarrow> int \<times> net" where
  "dhcp_xmit_unicast devs nif dst_host payload st =
     (case nif of None \<Rightarrow> (-1, st) | Some n \<Rightarrow>
      if nif_configured (nifs st n) = 0 \<or> payload = [] \<or> dst_host = 0 then (-1, st)
      else
        let total = (of_nat UDP_HDR_LEN + of_nat (length payload) :: u32) in
        if total > of_nat PBUF_SIZE then (-1, st)
        else case pbuf_alloc (ucast total) st of
          (None, st) \<Rightarrow> (-1, st)
        | (Some udp, st) \<Rightarrow>
            let (udp_len, dgram) = udp_build DHCP_CLIENT_PORT DHCP_SERVER_PORT payload
                  (nif_ip (nifs st n)) dst_host;
                st = pb_write udp 0 dgram st;
                st = pb_set_len udp (ucast udp_len) st
            in ipv4_output devs nif (Some udp) dst_host IPV4_PROTO_UDP st)"

section \<open>Waiting for a reply\<close>

fun dhcp_wait_loop :: "devs \<Rightarrow> nat option \<Rightarrow> u32 \<Rightarrow> u8 \<Rightarrow> nat \<Rightarrow> net \<Rightarrow> dhcp_lease option \<times> net" where
  "dhcp_wait_loop devs nif xid want_type 0 st = (None, upd_dhcp (\<lambda>d. d\<lparr>dhcp_waiting := False\<rparr>) st)"
| "dhcp_wait_loop devs nif xid want_type (Suc n) st =
     (let st = netif_poll devs nif st;
          len = unat (dhcp_rx_len (dhcp_v st))
      in if len = 0 then dhcp_wait_loop devs nif xid want_type n st
         else
           let st = ub_unless (len \<le> DHCP_RX_SIZE) st
           in case dhcp_parse_reply (dhcp_rx (dhcp_v st)) len xid of
                Some (mtype, lease) \<Rightarrow>
                  if mtype = want_type
                  then (Some lease, upd_dhcp (\<lambda>d. d\<lparr>dhcp_waiting := False, dhcp_rx_len := 0\<rparr>) st)
                  else dhcp_wait_loop devs nif xid want_type n (upd_dhcp (\<lambda>d. d\<lparr>dhcp_rx_len := 0\<rparr>) st)
              | None \<Rightarrow> dhcp_wait_loop devs nif xid want_type n (upd_dhcp (\<lambda>d. d\<lparr>dhcp_rx_len := 0\<rparr>) st))"

definition dhcp_wait_reply :: "devs \<Rightarrow> nat option \<Rightarrow> u32 \<Rightarrow> u8 \<Rightarrow> u32 \<Rightarrow> net \<Rightarrow> dhcp_lease option \<times> net" where
  "dhcp_wait_reply devs nif xid want_type timeout_spins st =
     dhcp_wait_loop devs nif xid want_type (unat timeout_spins)
       (upd_dhcp (\<lambda>d. d\<lparr>dhcp_rx_len := 0, dhcp_waiting := True\<rparr>) st)"

section \<open>Acquiring a lease\<close>

definition DHCP_PKT_SIZE :: nat where "DHCP_PKT_SIZE = 512"

definition or_else :: "u32 \<Rightarrow> u32 \<Rightarrow> u32" where
  "or_else x y = (if x \<noteq> 0 then x else y)"

definition dhcp_xid :: "netif \<Rightarrow> u32" where
  "dhcp_xid n = or_else ((0xC0DE0000 XOR push_bit 8 (ucast (nif_mac n ! 4))) XOR ucast (nif_mac n ! 5)) 0x12345678"

text \<open>A message and the reply to it; \<open>msg\<close> is \<open>None\<close> when the builder has returned 0.\<close>

definition dhcp_exchange ::
  "(bytes \<Rightarrow> net \<Rightarrow> int \<times> net) \<Rightarrow> bytes option \<Rightarrow> (net \<Rightarrow> dhcp_lease option \<times> net) \<Rightarrow> net \<Rightarrow> dhcp_lease option \<times> net" where
  "dhcp_exchange xmit msg await st =
     (case msg of None \<Rightarrow> (None, st) | Some m \<Rightarrow>
        let (r, st) = xmit m st in if r \<noteq> 0 then (None, st) else await st)"

definition dhcp_client :: "devs \<Rightarrow> nat option \<Rightarrow> inet_config \<Rightarrow> u32 \<Rightarrow> net \<Rightarrow> int \<times> inet_config \<times> net" where
  "dhcp_client devs nif cfg timeout_spins st =
     (case nif of None \<Rightarrow> (-1, cfg, st) | Some n \<Rightarrow>
      let xid = dhcp_xid (nifs st n);
          mac = nif_mac (nifs st n);
          (offer, st) = dhcp_exchange (dhcp_xmit devs nif) (dhcp_build_discover DHCP_PKT_SIZE xid mac)
            (dhcp_wait_reply devs nif xid DHCP_OFFER timeout_spins) st
      in case offer of None \<Rightarrow> (-1, cfg, st) | Some offer \<Rightarrow>
         let server = or_else (dl_server offer) NET_SLIRP_GATEWAY;
             mac = nif_mac (nifs st n);
             (ack, st) = dhcp_exchange (dhcp_xmit devs nif)
               (dhcp_build_request DHCP_PKT_SIZE xid mac (dl_ip offer) server)
               (dhcp_wait_reply devs nif xid DHCP_ACK timeout_spins) st
         in case ack of None \<Rightarrow> (-1, cfg, st) | Some ack \<Rightarrow>
            let cfg = cfg\<lparr>cfg_ip := dl_ip ack, cfg_netmask := or_else (dl_netmask ack) NET_SLIRP_MASK,
                  cfg_gateway := or_else (dl_gateway ack) server\<rparr>;
                active = ack\<lparr>dl_server := or_else (dl_server ack) server,
                  dl_netmask := or_else (dl_netmask ack) (cfg_netmask cfg),
                  dl_gateway := or_else (dl_gateway ack) (cfg_gateway cfg)\<rparr>;
                st = upd_dhcp (\<lambda>d. d\<lparr>dhcp_active := active, dhcp_have_lease := True,
                  dhcp_state := DHCP_ST_BOUND\<rparr>) st
            in (0, cfg, dhcp_arm_timers (time_count st) (dl_lease_secs (dhcp_active (dhcp_v st))) st))"

section \<open>Keeping a lease\<close>

definition dhcp_apply_ack :: "nat \<Rightarrow> inet_config \<Rightarrow> dhcp_lease \<Rightarrow> net \<Rightarrow> inet_config \<times> net" where
  "dhcp_apply_ack n cfg ack st =
     (let cfg = cfg\<lparr>cfg_ip := or_else (dl_ip ack) (nif_ip (nifs st n)),
            cfg_netmask := or_else (dl_netmask ack) (cfg_netmask cfg),
            cfg_gateway := or_else (dl_gateway ack) (cfg_gateway cfg)\<rparr>;
          st = upd_dhcp (\<lambda>d. d\<lparr>dhcp_active := (dhcp_active d)\<lparr>
                 dl_server := or_else (dl_server ack) (dl_server (dhcp_active d)),
                 dl_ip := cfg_ip cfg, dl_netmask := cfg_netmask cfg, dl_gateway := cfg_gateway cfg,
                 dl_lease_secs := or_else (dl_lease_secs ack) (dl_lease_secs (dhcp_active d))\<rparr>\<rparr>) st;
          st = netif_set_addr n (cfg_ip cfg) (cfg_netmask cfg) (cfg_gateway cfg) st;
          st = upd_dhcp (\<lambda>d. d\<lparr>dhcp_state := DHCP_ST_BOUND\<rparr>) st
      in (cfg, dhcp_arm_timers (time_count st) (dl_lease_secs (dhcp_active (dhcp_v st))) st))"

definition dhcp_renew_or_rebind ::
  "devs \<Rightarrow> nat option \<Rightarrow> inet_config \<Rightarrow> u32 \<Rightarrow> bool \<Rightarrow> net \<Rightarrow> int \<times> inet_config \<times> net" where
  "dhcp_renew_or_rebind devs nif cfg timeout_spins rebind st =
     (case nif of None \<Rightarrow> (-1, cfg, st) | Some n \<Rightarrow>
      if nif_configured (nifs st n) = 0 \<or> \<not> dhcp_have_lease (dhcp_v st) then (-1, cfg, st)
      else
        let xid = or_else (0xA11E0000 XOR dl_ip (dhcp_active (dhcp_v st))) 0x87654321;
            mac = nif_mac (nifs st n); ip = nif_ip (nifs st n);
            msg = (if rebind then dhcp_build_rebind DHCP_PKT_SIZE xid mac ip
                   else dhcp_build_renew DHCP_PKT_SIZE xid mac ip);
            xmit = (if rebind then dhcp_xmit devs nif
                    else dhcp_xmit_unicast devs nif (dl_server (dhcp_active (dhcp_v st))));
            (ack, st) = dhcp_exchange xmit msg (dhcp_wait_reply devs nif xid DHCP_ACK timeout_spins) st
        in case ack of None \<Rightarrow> (-1, cfg, st)
           | Some ack \<Rightarrow> let (cfg, st) = dhcp_apply_ack n cfg ack st in (0, cfg, st))"

definition dhcp_renew :: "devs \<Rightarrow> nat option \<Rightarrow> inet_config \<Rightarrow> u32 \<Rightarrow> net \<Rightarrow> int \<times> inet_config \<times> net" where
  "dhcp_renew devs nif cfg timeout_spins st = dhcp_renew_or_rebind devs nif cfg timeout_spins False st"

definition dhcp_rebind :: "devs \<Rightarrow> nat option \<Rightarrow> inet_config \<Rightarrow> u32 \<Rightarrow> net \<Rightarrow> int \<times> inet_config \<times> net" where
  "dhcp_rebind devs nif cfg timeout_spins st = dhcp_renew_or_rebind devs nif cfg timeout_spins True st"

text \<open>
  The service routine is three tests in a row, each of which may end it. \<open>try_then\<close> is such a
  test: under the condition the state of the lease is set and a request made, and the rest
  runs unless the request has succeeded.
\<close>

definition set_dhcp_state :: "dhcp_st \<Rightarrow> net \<Rightarrow> net" where
  "set_dhcp_state s st = upd_dhcp (\<lambda>d. d\<lparr>dhcp_state := s\<rparr>) st"

definition try_then ::
  "bool \<Rightarrow> (net \<Rightarrow> int \<times> inet_config \<times> net) \<Rightarrow> (inet_config \<Rightarrow> net \<Rightarrow> int \<times> inet_config \<times> net) \<Rightarrow>
   inet_config \<Rightarrow> net \<Rightarrow> int \<times> inet_config \<times> net" where
  "try_then c request rest cfg st =
     (if c then case request st of (r, cfg, st) \<Rightarrow> if r = 0 then (0, cfg, st) else rest cfg st
      else rest cfg st)"

definition dhcp_service :: "devs \<Rightarrow> nat option \<Rightarrow> inet_config \<Rightarrow> u32 \<Rightarrow> u32 \<Rightarrow> net \<Rightarrow> int \<times> inet_config \<times> net" where
  "dhcp_service devs nif cfg now_secs timeout_spins st =
     (case nif of None \<Rightarrow> (-1, cfg, st) | Some n \<Rightarrow>
      if \<not> dhcp_have_lease (dhcp_v st) \<or> nif_configured (nifs st n) = 0 then (-1, cfg, st)
      else
        try_then (dhcp_state (dhcp_v st) = DHCP_ST_BOUND \<and> now_secs \<ge> dhcp_t1_abs (dhcp_v st))
          (\<lambda>st. dhcp_renew devs nif cfg timeout_spins (set_dhcp_state DHCP_ST_RENEWING st))
          (\<lambda>cfg st.
             try_then ((dhcp_state (dhcp_v st) = DHCP_ST_RENEWING \<or> dhcp_state (dhcp_v st) = DHCP_ST_BOUND) \<and>
                 now_secs \<ge> dhcp_t2_abs (dhcp_v st))
               (\<lambda>st. dhcp_rebind devs nif cfg timeout_spins (set_dhcp_state DHCP_ST_REBINDING st))
               (\<lambda>cfg st.
                  try_then (dhcp_state (dhcp_v st) = DHCP_ST_REBINDING \<and> now_secs \<ge> dhcp_t2_abs (dhcp_v st))
                    (dhcp_rebind devs nif cfg timeout_spins)
                    (\<lambda>cfg st. (-1, cfg, st)) cfg st)
               cfg st)
          cfg st)"

section \<open>Bounds\<close>

lemma calm_upd_dhcp:
  assumes "P \<Longrightarrow> dhcp_ok (dhcp_v st) \<Longrightarrow> dhcp_ok (f (dhcp_v st))"
  shows "calm P st (upd_dhcp f st)"
  using assms by (intro calm_vars) (auto simp: upd_dhcp_def wrapped_def net_inv_def)

lemma calm_upd_nif:
  assumes "\<And>i. P \<Longrightarrow> netif_ok i \<Longrightarrow> netif_ok (f i)"
  shows "calm P st (upd_nif n f st)"
  using assms by (intro calm_vars) (auto simp: upd_nif_def wrapped_def net_inv_def)

lemma dhcp_arm_timers_calm: "calm P st (dhcp_arm_timers now ls st)"
  unfolding dhcp_arm_timers_def Let_def by (rule calm_upd_dhcp) (simp add: dhcp_ok_def)

lemma dhcp_force_timer_due_calm: "calm P st (dhcp_force_timer_due now past st)"
  by (auto simp: dhcp_force_timer_due_def Let_def dhcp_ok_def intro!: calm_upd_dhcp)

lemma dhcp_apply_ack_calm: "calm P st (snd (dhcp_apply_ack n cfg ack st))"
  unfolding dhcp_apply_ack_def Let_def snd_conv netif_set_addr_def
  by (rule calm_trans [OF _ dhcp_arm_timers_calm], rule calm_trans [OF _ calm_upd_dhcp],
      rule calm_trans [OF calm_upd_dhcp calm_upd_nif]) (simp_all add: dhcp_ok_def netif_ok_def)

lemma dhcp_build_length:
  "dhcp_build_discover sz xid mac = Some d \<Longrightarrow> length d \<le> 280"
  "dhcp_build_request sz xid mac ip server = Some d \<Longrightarrow> length d \<le> 280"
  "dhcp_build_renew sz xid mac ip = Some d \<Longrightarrow> length d \<le> 280"
  "dhcp_build_rebind sz xid mac ip = Some d \<Longrightarrow> length d \<le> 280"
  by (auto simp: dhcp_build_discover_def dhcp_build_request_def dhcp_build_renew_def dhcp_build_rebind_def
      dhcp_build_common_def dhcp_msg_bytes_def opt_put_def opt_put_u8_def opt_put_u32_be_def wire_defs
      split: option.splits if_splits)

context net_driver
begin

lemma dhcp_ip_wrap_trip: "trip (live st udp) {udp} st (snd (dhcp_ip_wrap devs n udp st))"
proof -
  let ?len = "unat (p_len (pb st udp))"
  obtain fo s1 where al: "pbuf_alloc (of_nat (IPV4_HDR_MIN + ?len)) st = (fo, s1)" by fastforce
  show ?thesis
  proof (cases fo)
    case None
    then show ?thesis
      using trip_hold_free [OF trip_allocD [OF al], of "live st udp" udp] al
      by (simp add: dhcp_ip_wrap_def Let_def)
  next
    case (Some f)
    define hdr where "hdr = ipv4_set_checksum (ipv4_hdr_bytes \<lparr>ip_ver_ihl = IPV4_VERSION_IHL, ip_tos = 0,
      ip_total_len = net_htons (of_nat (IPV4_HDR_MIN + ?len)), ip_id = net_htons 1,
      ip_frag_off = 0, ip_ttl = 64, ip_proto = IPV4_PROTO_UDP, ip_checksum = 0,
      ip_src = net_htonl (if nif_configured (nifs s1 n) \<noteq> 0 then nif_ip (nifs s1 n) else 0),
      ip_dst = net_htonl 0xFFFFFFFF\<rparr>)"
    define s2 where "s2 = pb_write f 0 hdr s1"
    define s3 where "s3 = pb_write f IPV4_HDR_MIN (mem_get (p_data (pb s2 udp)) 0 ?len)
        (ub_unless (pb_ok udp 0 ?len s2) s2)"
    define s4 where "s4 = pbuf_free (Some udp) s3"
    obtain r s5 where e: "ethernet_output devs (Some n) (Some f) eth_broadcast ETH_TYPE_IPV4 s4 = (r, s5)" by fastforce
    have out: "dhcp_ip_wrap devs n udp st = (r, s5)"
      using al [unfolded Some] e [unfolded s4_def s3_def s2_def hdr_def]
      by (simp add: dhcp_ip_wrap_def pb_read_def Let_def)
    have hl: "length hdr = IPV4_HDR_MIN" by (simp add: hdr_def wire_defs)
    have same: "same_vars st s4"
      using alloc_same_vars [OF al] unfolding s4_def s3_def s2_def
      by (rule same_vars_trans) (intro same_vars_step same_vars_refl)
    have b: "sound s4 \<and> keeps {udp} st s4 \<and> live s4 f \<and> \<not> live st f" if "sound st" "live st udp"
    proof -
      have l: "unat (of_nat (IPV4_HDR_MIN + ?len) :: u16) = IPV4_HDR_MIN + ?len"
        using sound_len [OF that] by (intro unat_of_nat_u16) (simp add: wire_defs)
      have fits: "IPV4_HDR_MIN + ?len \<le> PBUF_SIZE"
        using pbuf_alloc_Some(8) [OF _ al [unfolded Some]] that l by (simp add: sound_def net_inv_def)
      have s1: "s1\<lparr>ipv4_id_counter := ipv4_id_counter s1\<rparr> = s1" by simp
      show ?thesis
        using ipv4_built(1-3) [OF that fits al [unfolded Some] hl, where c = "ipv4_id_counter s1",
            unfolded s1, folded s2_def, folded s3_def, folded s4_def]
          ipv4_built(4) [OF that fits al [unfolded Some] hl] by simp
    qed
    have "trip (live st udp) {udp} st s4"
      using b same by (intro trip_same) (auto simp: sound_def net_inv_def)
    moreover have "trip (live s4 f) {f} s4 s5"
      using eth_out_trip [OF ethernet_output_ok [OF e]] by (simp add: eth_broadcast_def)
    ultimately have "trip (live st udp) ({udp} \<union> {f}) st s5" by (rule trip_chain) (use b in simp)
    then have "trip (live st udp) {udp} st s5" by (rule trip_fresh_set) (use b in blast)
    then show ?thesis using out by simp
  qed
qed

lemma dhcp_xmit_trip:
  "trip (UDP_HDR_LEN + length payload < 2 ^ 32) {} st (snd (dhcp_xmit devs nif payload st))"
proof (cases nif)
  case (Some n)
  let ?total = "of_nat UDP_HDR_LEN + of_nat (length payload) :: u32"
  obtain po s1 where al: "pbuf_alloc (ucast ?total) st = (po, s1)" by fastforce
  show ?thesis
  proof (cases "payload = [] \<or> ?total > of_nat PBUF_SIZE \<or> po = None")
    case True
    then show ?thesis using trip_allocD [OF al] al Some by (auto simp: dhcp_xmit_def Let_def)
  next
    case False
    then obtain p where p: "po = Some p" by auto
    obtain ul dg where b: "udp_build DHCP_CLIENT_PORT DHCP_SERVER_PORT payload
      (if nif_configured (nifs s1 n) \<noteq> 0 then nif_ip (nifs s1 n) else 0) 0xFFFFFFFF = (ul, dg)" by fastforce
    show ?thesis
      using udp_out_trip [OF al [unfolded p] _ b _ dhcp_ip_wrap_trip] False Some al p b
      by (simp add: dhcp_xmit_def Let_def)
  qed
qed (simp add: dhcp_xmit_def)

lemma dhcp_xmit_unicast_trip:
  "trip (UDP_HDR_LEN + length payload < 2 ^ 32) {} st (snd (dhcp_xmit_unicast devs nif dst payload st))"
proof (cases nif)
  case (Some n)
  let ?total = "of_nat UDP_HDR_LEN + of_nat (length payload) :: u32"
  obtain po s1 where al: "pbuf_alloc (ucast ?total) st = (po, s1)" by fastforce
  show ?thesis
  proof (cases "nif_configured (nifs st n) = 0 \<or> payload = [] \<or> dst = 0 \<or> ?total > of_nat PBUF_SIZE \<or> po = None")
    case True
    then show ?thesis using trip_allocD [OF al] al Some by (auto simp: dhcp_xmit_unicast_def Let_def)
  next
    case False
    then obtain p where p: "po = Some p" by auto
    obtain ul dg where b: "udp_build DHCP_CLIENT_PORT DHCP_SERVER_PORT payload (nif_ip (nifs s1 n)) dst = (ul, dg)"
      by fastforce
    have "trip (live s p) {p} s (snd (ipv4_output devs (Some n) (Some p) dst IPV4_PROTO_UDP s))" for s
      using ipv4_output_trip [of "Some p" s] by simp
    from udp_out_trip [OF al [unfolded p] _ b _ this] show ?thesis
      using False Some al p b by (simp add: dhcp_xmit_unicast_def Let_def)
  qed
qed (simp add: dhcp_xmit_unicast_def)

lemma dhcp_wait_loop_trip: "trip P {} st (snd (dhcp_wait_loop devs nif xid want n st))"
proof (induction n arbitrary: st)
  case 0
  show ?case by (auto simp: dhcp_ok_def dhcp_key_def intro!: trip_upd_dhcp)
next
  case (Suc n)
  let ?s1 = "netif_poll devs nif st"
  let ?len = "unat (dhcp_rx_len (dhcp_v ?s1))"
  let ?s2 = "ub_unless (?len \<le> DHCP_RX_SIZE) ?s1"
  have t1: "trip P {} st ?s1" by (rule netif_poll_trip)
  have t2: "trip P {} st ?s2"
    by (rule trip_trans [OF t1 trip_ub_if]) (simp add: sound_def net_inv_def dhcp_ok_def)
  have t3: "trip P {} st (upd_dhcp (\<lambda>d. d\<lparr>dhcp_rx_len := 0\<rparr>) ?s2)"
    "trip P {} st (upd_dhcp (\<lambda>d. d\<lparr>dhcp_waiting := False, dhcp_rx_len := 0\<rparr>) ?s2)"
    by (rule trip_trans [OF t2 trip_upd_dhcp]; simp add: dhcp_ok_def dhcp_key_def)+
  have v: "dhcp_v ?s2 = dhcp_v ?s1" by (simp add: ub_unless_def)
  show ?case
    using trip_trans [OF t1 Suc] trip_trans [OF t3(1) Suc] t3(2) v
    by (auto simp: Let_def split: option.splits)
qed

lemma dhcp_wait_reply_trip: "trip P {} st (snd (dhcp_wait_reply devs nif xid want w st))"
  unfolding dhcp_wait_reply_def
  by (rule trip_trans [OF trip_upd_dhcp dhcp_wait_loop_trip]) (simp_all add: dhcp_ok_def dhcp_key_def)

lemma dhcp_exchange_trip:
  assumes "\<And>m s. msg = Some m \<Longrightarrow> trip P {} s (snd (xmit m s))"
  shows "trip P {} st (snd (dhcp_exchange xmit msg (dhcp_wait_reply devs nif xid want w) st))"
proof (cases msg)
  case (Some m)
  obtain r s1 where x: "xmit m st = (r, s1)" by fastforce
  have "trip P {} st s1" using assms [OF Some, of st] x by simp
  then show ?thesis
    using x Some trip_trans [OF _ dhcp_wait_reply_trip] by (simp add: dhcp_exchange_def)
qed (simp add: dhcp_exchange_def)

lemma dhcp_exchange_xmit_trip:
  assumes "\<And>m. msg = Some m \<Longrightarrow> length m \<le> 280"
  shows "trip P {} st (snd (dhcp_exchange (dhcp_xmit devs nif) msg (dhcp_wait_reply devs nif xid want w) st))"
    "trip P {} st (snd (dhcp_exchange (dhcp_xmit_unicast devs nif dst) msg (dhcp_wait_reply devs nif xid want w) st))"
proof -
  have l: "UDP_HDR_LEN + length m < 2 ^ 32" if "msg = Some m" for m
    using assms [OF that] by (simp add: wire_defs)
  show "trip P {} st (snd (dhcp_exchange (dhcp_xmit devs nif) msg (dhcp_wait_reply devs nif xid want w) st))"
    by (rule dhcp_exchange_trip, rule trip_weaken [OF dhcp_xmit_trip]) (use l in simp_all)
  show "trip P {} st (snd (dhcp_exchange (dhcp_xmit_unicast devs nif dst) msg (dhcp_wait_reply devs nif xid want w) st))"
    by (rule dhcp_exchange_trip, rule trip_weaken [OF dhcp_xmit_unicast_trip]) (use l in simp_all)
qed

lemma dhcp_client_calm: "calm P st (snd (snd (dhcp_client devs nif cfg w st)))"
proof (cases nif)
  case (Some n)
  let ?xid = "dhcp_xid (nifs st n)"
  obtain offer s1 where 1: "dhcp_exchange (dhcp_xmit devs nif)
      (dhcp_build_discover DHCP_PKT_SIZE ?xid (nif_mac (nifs st n)))
      (dhcp_wait_reply devs nif ?xid DHCP_OFFER w) st = (offer, s1)" by fastforce
  have t1: "trip P {} st s1"
    using dhcp_exchange_xmit_trip(1) [of "dhcp_build_discover DHCP_PKT_SIZE ?xid (nif_mac (nifs st n))" P st nif ?xid
        DHCP_OFFER w] 1 dhcp_build_length(1) by (metis snd_conv)
  show ?thesis
  proof (cases offer)
    case None
    then show ?thesis using 1 Some calm_trip [OF t1] by (simp add: dhcp_client_def Let_def)
  next
    case (Some off)
    define msg where "msg = dhcp_build_request DHCP_PKT_SIZE ?xid (nif_mac (nifs s1 n)) (dl_ip off)
      (or_else (dl_server off) NET_SLIRP_GATEWAY)"
    obtain ack s2 where 2: "dhcp_exchange (dhcp_xmit devs nif) msg
        (dhcp_wait_reply devs nif ?xid DHCP_ACK w) s1 = (ack, s2)" by fastforce
    have "trip P {} s1 s2"
      using dhcp_exchange_xmit_trip(1) [of msg P s1 nif ?xid DHCP_ACK w] 2 dhcp_build_length(2)
      unfolding msg_def by (metis snd_conv)
    then have t2: "calm P st s2" using calm_trip [OF trip_trans [OF t1]] by simp
    have u: "calm P st (upd_dhcp (\<lambda>d. d\<lparr>dhcp_active := a, dhcp_have_lease := True, dhcp_state := DHCP_ST_BOUND\<rparr>) s2)" for a
      by (rule calm_trans [OF t2 calm_upd_dhcp]) (simp add: dhcp_ok_def)
    show ?thesis
      using 1 2 \<open>nif = Some n\<close> Some t2 calm_trans [OF u dhcp_arm_timers_calm]
      by (simp add: dhcp_client_def Let_def msg_def split: option.splits)
  qed
qed (simp add: dhcp_client_def)

end

section \<open>The state of the lease\<close>

text \<open>
  After a successful request: the lease is bound, its timers run from now, and the interface,
  the configuration handed back and the recorded lease agree on the addresses.
\<close>

definition lease_renewed :: "nat \<Rightarrow> inet_config \<Rightarrow> net \<Rightarrow> bool" where
  "lease_renewed n cfg st \<longleftrightarrow>
     (let d = dhcp_v st; a = dhcp_active d; i = nifs st n; secs = or_else (dl_lease_secs a) 86400
      in dhcp_state d = DHCP_ST_BOUND \<and> dhcp_have_lease d \<and>
         dhcp_t1_abs d = time_count st + dhcp_t1_secs secs \<and> dhcp_t2_abs d = time_count st + dhcp_t2_secs secs \<and>
         dhcp_lease_abs d = time_count st + secs \<and>
         nif_configured i \<noteq> 0 \<and> nif_ip i = cfg_ip cfg \<and> nif_netmask i = cfg_netmask cfg \<and> nif_gateway i = cfg_gateway cfg \<and>
         dl_ip a = cfg_ip cfg \<and> dl_netmask a = cfg_netmask cfg \<and> dl_gateway a = cfg_gateway cfg)"

text \<open>The state a service run without an answer leaves, from the clock and the timers alone.\<close>

definition dhcp_next :: "u32 \<Rightarrow> dhcp_vars \<Rightarrow> dhcp_st" where
  "dhcp_next now d =
     (if dhcp_state d = DHCP_ST_BOUND \<and> now \<ge> dhcp_t1_abs d \<and> now < dhcp_t2_abs d then DHCP_ST_RENEWING
      else if dhcp_state d \<in> {DHCP_ST_BOUND, DHCP_ST_RENEWING} \<and> now \<ge> dhcp_t2_abs d then DHCP_ST_REBINDING
      else dhcp_state d)"

definition dhcp_due :: "u32 \<Rightarrow> dhcp_vars \<Rightarrow> bool" where
  "dhcp_due now d \<longleftrightarrow> dhcp_state d = DHCP_ST_BOUND \<and> now \<ge> dhcp_t1_abs d \<or>
     dhcp_state d \<noteq> DHCP_ST_INIT \<and> now \<ge> dhcp_t2_abs d"

definition dhcp_kept :: "net \<Rightarrow> net \<Rightarrow> bool" where
  "dhcp_kept s s' \<longleftrightarrow> dhcp_key (dhcp_v s') = dhcp_key (dhcp_v s) \<and> (\<forall>k. nif_key (nifs s' k) = nif_key (nifs s k)) \<and>
     time_count s' = time_count s"

lemma dhcp_key_eq:
  "dhcp_key d' = dhcp_key d \<longleftrightarrow> dhcp_active d' = dhcp_active d \<and> dhcp_have_lease d' = dhcp_have_lease d \<and>
     dhcp_state d' = dhcp_state d \<and> dhcp_t1_abs d' = dhcp_t1_abs d \<and> dhcp_t2_abs d' = dhcp_t2_abs d \<and>
     dhcp_lease_abs d' = dhcp_lease_abs d"
  by (cases d; cases d') (auto simp: dhcp_key_def)

lemma nif_key_eq:
  "nif_key i' = nif_key i \<longleftrightarrow> nif_mac i' = nif_mac i \<and> nif_ip i' = nif_ip i \<and> nif_netmask i' = nif_netmask i \<and>
     nif_gateway i' = nif_gateway i \<and> nif_mtu i' = nif_mtu i \<and> nif_link_up i' = nif_link_up i \<and>
     nif_configured i' = nif_configured i \<and> nif_dev i' = nif_dev i"
  by (cases i; cases i') (auto simp: nif_key_def)

lemma dhcp_apply_ack_renewed:
  assumes "dhcp_apply_ack n cfg ack st = (cfg', st')" "dhcp_have_lease (dhcp_v st)"
  shows "lease_renewed n cfg' st' \<and> time_count st' = time_count st"
  using assms
  by (auto simp: dhcp_apply_ack_def Let_def lease_renewed_def dhcp_arm_timers_def upd_dhcp_def netif_set_addr_def
      upd_nif_def or_else_def)

context net_driver
begin

lemma renew_or_rebind_ack:
  assumes "dhcp_renew_or_rebind devs (Some n) cfg w rb st = (r, cfg', st')"
    and "nif_configured (nifs st n) \<noteq> 0" "dhcp_have_lease (dhcp_v st)"
  obtains ack s1 where "trip True {} st s1"
    "case ack of None \<Rightarrow> r = -1 \<and> cfg' = cfg \<and> st' = s1 | Some a \<Rightarrow> r = 0 \<and> dhcp_apply_ack n cfg a s1 = (cfg', st')"
proof -
  let ?xid = "or_else (0xA11E0000 XOR dl_ip (dhcp_active (dhcp_v st))) 0x87654321"
  define msg where "msg = (if rb then dhcp_build_rebind DHCP_PKT_SIZE ?xid (nif_mac (nifs st n)) (nif_ip (nifs st n))
    else dhcp_build_renew DHCP_PKT_SIZE ?xid (nif_mac (nifs st n)) (nif_ip (nifs st n)))"
  define xmit where "xmit = (if rb then dhcp_xmit devs (Some n)
    else dhcp_xmit_unicast devs (Some n) (dl_server (dhcp_active (dhcp_v st))))"
  obtain ack s1 where e: "dhcp_exchange xmit msg (dhcp_wait_reply devs (Some n) ?xid DHCP_ACK w) st = (ack, s1)"
    by fastforce
  have "\<And>m. msg = Some m \<Longrightarrow> length m \<le> 280"
    using dhcp_build_length(3,4) by (auto simp: msg_def split: if_splits)
  note trips = dhcp_exchange_xmit_trip [where msg = msg and P = True and st = st and nif = "Some n" and xid = ?xid and
        want = DHCP_ACK and w = w, OF this]
  have "trip True {} st (snd (dhcp_exchange xmit msg (dhcp_wait_reply devs (Some n) ?xid DHCP_ACK w) st))"
    using trips by (simp add: xmit_def)
  then have "trip True {} st s1" by (simp only: e snd_conv)
  moreover have "case ack of None \<Rightarrow> r = -1 \<and> cfg' = cfg \<and> st' = s1
      | Some a \<Rightarrow> r = 0 \<and> dhcp_apply_ack n cfg a s1 = (cfg', st')"
    using assms e
    unfolding dhcp_renew_or_rebind_def option.case Let_def msg_def [symmetric] xmit_def [symmetric]
    by (auto split: option.splits prod.splits)
  ultimately show ?thesis by (rule that)
qed

lemma renew_or_rebind_calm: "calm P st (snd (snd (dhcp_renew_or_rebind devs nif cfg w rb st)))"
proof (cases "\<exists>n. nif = Some n \<and> nif_configured (nifs st n) \<noteq> 0 \<and> dhcp_have_lease (dhcp_v st)")
  case True
  then obtain n where n: "nif = Some n" "nif_configured (nifs st n) \<noteq> 0" "dhcp_have_lease (dhcp_v st)" by auto
  obtain r cfg' st' where r: "dhcp_renew_or_rebind devs (Some n) cfg w rb st = (r, cfg', st')" by (metis prod_cases3)
  obtain ack s1 where a: "trip True {} st s1"
    "case ack of None \<Rightarrow> r = -1 \<and> cfg' = cfg \<and> st' = s1 | Some a \<Rightarrow> r = 0 \<and> dhcp_apply_ack n cfg a s1 = (cfg', st')"
    using renew_or_rebind_ack [OF r n(2,3)] .
  have t: "calm P st s1" using calm_trip [OF trip_True [OF a(1)]] .
  have "calm P st st'"
  proof (cases ack)
    case (Some b)
    then have "st' = snd (dhcp_apply_ack n cfg b s1)" using a(2) by simp
    then show ?thesis using calm_trans [OF t dhcp_apply_ack_calm] by simp
  qed (use a(2) t in simp)
  then show ?thesis using r n(1) by simp
next
  case False
  then consider "nif = None" | n where "nif = Some n" "nif_configured (nifs st n) = 0 \<or> \<not> dhcp_have_lease (dhcp_v st)"
    by (cases nif) auto
  then show ?thesis by cases (simp_all add: dhcp_renew_or_rebind_def)
qed

lemma renew_or_rebind_outcome:
  assumes "dhcp_renew_or_rebind devs (Some n) cfg w rb st = (r, cfg', st')"
    and "nif_configured (nifs st n) \<noteq> 0" "dhcp_have_lease (dhcp_v st)"
  shows "time_count st' = time_count st \<and>
    (r = 0 \<and> lease_renewed n cfg' st' \<or> r = -1 \<and> cfg' = cfg \<and> dhcp_kept st st')"
proof -
  obtain ack s1 where a: "trip True {} st s1"
    "case ack of None \<Rightarrow> r = -1 \<and> cfg' = cfg \<and> st' = s1 | Some a \<Rightarrow> r = 0 \<and> dhcp_apply_ack n cfg a s1 = (cfg', st')"
    using renew_or_rebind_ack [OF assms] .
  have k: "dhcp_kept st s1" using a(1) by (simp add: trip_def var_frame_def dhcp_kept_def)
  then have "dhcp_have_lease (dhcp_v s1)" using assms(3) by (simp add: dhcp_kept_def dhcp_key_eq)
  then show ?thesis
    using a(2) k dhcp_apply_ack_renewed by (cases ack) (auto simp: dhcp_kept_def)
qed

lemma dhcp_service_calm: "calm P st (snd (snd (dhcp_service devs nif cfg now w st)))"
proof -
  have s: "calm P s (set_dhcp_state x s)" for s x
    unfolding set_dhcp_state_def by (rule calm_upd_dhcp) (simp add: dhcp_ok_def)
  have attempt: "calm P s (snd (snd (try_then c q rest cfg s)))"
    if "\<And>s. calm P s (snd (snd (q s)))" "\<And>cfg s. calm P s (snd (snd (rest cfg s)))" for c q rest cfg s
  proof -
    obtain r cfg1 s1 where q: "q s = (r, cfg1, s1)" by (metis prod_cases3)
    then have "calm P s s1" using that(1) [of s] by simp
    then show ?thesis using q calm_trans [OF _ that(2)] that(2) by (simp add: try_then_def)
  qed
  have req: "calm P s (snd (snd (dhcp_renew devs nif cfg w (set_dhcp_state x s))))"
    "calm P s (snd (snd (dhcp_rebind devs nif cfg w (set_dhcp_state x s))))"
    "calm P s (snd (snd (dhcp_rebind devs nif cfg w s)))" for nif cfg s x
    unfolding dhcp_renew_def dhcp_rebind_def
    using calm_trans [OF s renew_or_rebind_calm] renew_or_rebind_calm by blast+
  show ?thesis
    by (cases nif) (auto simp: dhcp_service_def intro!: attempt req)
qed

text \<open>The third test of the service routine, then the second and the third.\<close>

lemma rebind_again_outcome:
  assumes "try_then (dhcp_state (dhcp_v s) = DHCP_ST_REBINDING \<and> now \<ge> dhcp_t2_abs (dhcp_v s))
      (dhcp_rebind devs (Some n) cfg w) (\<lambda>cfg st. (-1, cfg, st)) cfg s = (r, cfg', s')"
    and "nif_configured (nifs s n) \<noteq> 0" "dhcp_have_lease (dhcp_v s)"
  shows "r = 0 \<and> dhcp_due now (dhcp_v s) \<and> lease_renewed n cfg' s' \<or> r = -1 \<and> cfg' = cfg \<and> dhcp_kept s s'"
proof (cases "dhcp_state (dhcp_v s) = DHCP_ST_REBINDING \<and> now \<ge> dhcp_t2_abs (dhcp_v s)")
  case True
  obtain r1 c1 s1 where q: "dhcp_renew_or_rebind devs (Some n) cfg w True s = (r1, c1, s1)" by (metis prod_cases3)
  have "dhcp_due now (dhcp_v s)" using True by (simp add: dhcp_due_def)
  then show ?thesis
    using renew_or_rebind_outcome [OF q assms(2,3)] assms(1) True q
    by (auto simp: try_then_def dhcp_rebind_def split: if_splits)
qed (use assms(1) in \<open>auto simp: try_then_def dhcp_kept_def\<close>)

lemma rebind_outcome:
  defines "third n now w cfg st \<equiv>
    try_then (dhcp_state (dhcp_v st) = DHCP_ST_REBINDING \<and> now \<ge> dhcp_t2_abs (dhcp_v st))
      (dhcp_rebind devs (Some n) cfg w) (\<lambda>cfg st. (-1, cfg, st)) cfg st"
  assumes "try_then ((dhcp_state (dhcp_v s) = DHCP_ST_RENEWING \<or> dhcp_state (dhcp_v s) = DHCP_ST_BOUND) \<and>
        now \<ge> dhcp_t2_abs (dhcp_v s))
      (\<lambda>st. dhcp_rebind devs (Some n) cfg w (set_dhcp_state DHCP_ST_REBINDING st)) (third n now w) cfg s = (r, cfg', s')"
    and conf: "nif_configured (nifs s n) \<noteq> 0" "dhcp_have_lease (dhcp_v s)"
  shows "r = 0 \<and> dhcp_due now (dhcp_v s) \<and> lease_renewed n cfg' s' \<or>
    r = -1 \<and> cfg' = cfg \<and>
    dhcp_kept (set_dhcp_state (if dhcp_state (dhcp_v s) \<in> {DHCP_ST_RENEWING, DHCP_ST_BOUND} \<and> now \<ge> dhcp_t2_abs (dhcp_v s)
      then DHCP_ST_REBINDING else dhcp_state (dhcp_v s)) s) s'"
proof (cases "(dhcp_state (dhcp_v s) = DHCP_ST_RENEWING \<or> dhcp_state (dhcp_v s) = DHCP_ST_BOUND) \<and>
        now \<ge> dhcp_t2_abs (dhcp_v s)")
  case True
  let ?s0 = "set_dhcp_state DHCP_ST_REBINDING s"
  obtain r1 c1 s1 where q: "dhcp_renew_or_rebind devs (Some n) cfg w True ?s0 = (r1, c1, s1)" by (metis prod_cases3)
  have due: "dhcp_due now (dhcp_v s)" using True by (auto simp: dhcp_due_def)
  have "nif_configured (nifs ?s0 n) \<noteq> 0" "dhcp_have_lease (dhcp_v ?s0)"
    using conf by (simp_all add: set_dhcp_state_def upd_dhcp_def)
  note o = renew_or_rebind_outcome [OF q this]
  show ?thesis
  proof (cases "r1 = 0")
    case False
    then have k: "dhcp_kept ?s0 s1" "c1 = cfg" using o by auto
    then have "nif_configured (nifs s1 n) \<noteq> 0" "dhcp_have_lease (dhcp_v s1)"
      using conf by (simp_all add: dhcp_kept_def dhcp_key_eq nif_key_eq set_dhcp_state_def upd_dhcp_def)
    moreover have "third n now w cfg s1 = (r, cfg', s')"
      using assms(2) True q False k(2) by (simp add: try_then_def dhcp_rebind_def)
    ultimately have "r = 0 \<and> lease_renewed n cfg' s' \<or> r = -1 \<and> cfg' = cfg \<and> dhcp_kept s1 s'"
      using rebind_again_outcome [of s1 now n cfg w r cfg' s'] by (auto simp: third_def)
    then show ?thesis using True k(1) due by (auto simp: dhcp_kept_def)
  qed (use assms(2) True q due o in \<open>auto simp: try_then_def dhcp_rebind_def\<close>)
next
  case False
  then have "third n now w cfg s = (r, cfg', s')" using assms(2) by (auto simp: try_then_def)
  then show ?thesis
    using rebind_again_outcome [of s now n cfg w r cfg' s'] conf False
    by (auto simp: third_def dhcp_kept_def set_dhcp_state_def upd_dhcp_def dhcp_key_eq)
qed

lemma dhcp_service_outcome:
  assumes "dhcp_service devs (Some n) cfg now w st = (r, cfg', st')"
    and lease: "dhcp_have_lease (dhcp_v st)" and conf: "nif_configured (nifs st n) \<noteq> 0"
  shows "r = 0 \<and> dhcp_due now (dhcp_v st) \<and> lease_renewed n cfg' st' \<or>
    r = -1 \<and> cfg' = cfg \<and> dhcp_kept (set_dhcp_state (dhcp_next now (dhcp_v st)) st) st'"
proof (cases "dhcp_state (dhcp_v st) = DHCP_ST_BOUND \<and> now \<ge> dhcp_t1_abs (dhcp_v st)")
  case False
  then show ?thesis
    using rebind_outcome [of st now n cfg w r cfg' st'] assms
    by (auto simp: dhcp_service_def try_then_def [of False] dhcp_next_def)
next
  case True
  let ?s0 = "set_dhcp_state DHCP_ST_RENEWING st"
  obtain r1 c1 s1 where q: "dhcp_renew_or_rebind devs (Some n) cfg w False ?s0 = (r1, c1, s1)" by (metis prod_cases3)
  have due: "dhcp_due now (dhcp_v st)" using True by (auto simp: dhcp_due_def)
  have "nif_configured (nifs ?s0 n) \<noteq> 0" "dhcp_have_lease (dhcp_v ?s0)"
    using assms by (simp_all add: set_dhcp_state_def upd_dhcp_def)
  note o = renew_or_rebind_outcome [OF q this]
  show ?thesis
  proof (cases "r1 = 0")
    case r1: True
    then show ?thesis
      using assms True q o due by (auto simp: dhcp_service_def try_then_def [of True] dhcp_renew_def)
  next
    case False
    then have k: "dhcp_kept ?s0 s1" "c1 = cfg" using o by auto
    then have s1: "nif_configured (nifs s1 n) \<noteq> 0" "dhcp_have_lease (dhcp_v s1)"
        "dhcp_state (dhcp_v s1) = DHCP_ST_RENEWING" "dhcp_t2_abs (dhcp_v s1) = dhcp_t2_abs (dhcp_v st)"
      using assms by (simp_all add: dhcp_kept_def dhcp_key_eq nif_key_eq set_dhcp_state_def upd_dhcp_def)
    have "r = 0 \<and> lease_renewed n cfg' st' \<or> r = -1 \<and> cfg' = cfg \<and>
        dhcp_kept (set_dhcp_state (if now \<ge> dhcp_t2_abs (dhcp_v st) then DHCP_ST_REBINDING else DHCP_ST_RENEWING) s1) st'"
      using rebind_outcome [of s1 now n cfg w r cfg' st'] assms True q False k(2) s1
      by (auto simp: dhcp_service_def try_then_def [of True] dhcp_renew_def)
    then show ?thesis
      using True due k(1)
      by (auto simp: dhcp_next_def dhcp_kept_def set_dhcp_state_def upd_dhcp_def dhcp_key_eq split: if_splits)
  qed
qed

lemma dhcp_client_outcome:
  assumes "dhcp_client devs (Some n) cfg w st = (r, cfg', st')"
  shows "r = 0 \<and> (let d = dhcp_v st'; a = dhcp_active d; secs = or_else (dl_lease_secs a) 86400 in
      dhcp_state d = DHCP_ST_BOUND \<and> dhcp_have_lease d \<and>
      dhcp_t1_abs d = time_count st + dhcp_t1_secs secs \<and> dhcp_t2_abs d = time_count st + dhcp_t2_secs secs \<and>
      dl_ip a = cfg_ip cfg' \<and> dl_netmask a = cfg_netmask cfg' \<and> dl_gateway a = cfg_gateway cfg' \<and>
      cfg_netmask cfg' \<noteq> 0 \<and> cfg_gateway cfg' \<noteq> 0 \<and> (\<forall>k. nif_key (nifs st' k) = nif_key (nifs st k))) \<or>
    r = -1 \<and> cfg' = cfg \<and> dhcp_kept st st'"
proof -
  let ?xid = "dhcp_xid (nifs st n)"
  obtain offer s1 where 1: "dhcp_exchange (dhcp_xmit devs (Some n))
      (dhcp_build_discover DHCP_PKT_SIZE ?xid (nif_mac (nifs st n)))
      (dhcp_wait_reply devs (Some n) ?xid DHCP_OFFER w) st = (offer, s1)" by fastforce
  have "trip True {} st (snd (offer, s1))"
    unfolding 1 [symmetric] by (rule dhcp_exchange_xmit_trip(1)) (rule dhcp_build_length(1))
  then have k1: "dhcp_kept st s1" by (simp add: trip_def var_frame_def dhcp_kept_def)
  show ?thesis
  proof (cases offer)
    case None
    then show ?thesis using 1 assms k1 by (simp add: dhcp_client_def Let_def)
  next
    case (Some off)
    define server where "server = or_else (dl_server off) NET_SLIRP_GATEWAY"
    have sv: "server \<noteq> 0" by (simp add: server_def or_else_def NET_SLIRP_GATEWAY_def)
    obtain ack s2 where 2: "dhcp_exchange (dhcp_xmit devs (Some n))
        (dhcp_build_request DHCP_PKT_SIZE ?xid (nif_mac (nifs s1 n)) (dl_ip off) server)
        (dhcp_wait_reply devs (Some n) ?xid DHCP_ACK w) s1 = (ack, s2)" by fastforce
    have "trip True {} s1 (snd (ack, s2))"
      unfolding 2 [symmetric] by (rule dhcp_exchange_xmit_trip(1)) (rule dhcp_build_length(2))
    then have k2: "dhcp_kept st s2" using k1 by (simp add: trip_def var_frame_def dhcp_kept_def)
    show ?thesis
    proof (cases ack)
      case None
      then show ?thesis using 1 2 Some k2 assms by (simp add: dhcp_client_def Let_def server_def [symmetric])
    next
      case a: (Some a)
      define mk where "mk = or_else (dl_netmask a) NET_SLIRP_MASK"
      define gw where "gw = or_else (dl_gateway a) server"
      define s3 where "s3 = upd_dhcp (\<lambda>d. d\<lparr>dhcp_active := a\<lparr>dl_server := or_else (dl_server a) server,
        dl_netmask := or_else (dl_netmask a) mk, dl_gateway := or_else (dl_gateway a) gw\<rparr>,
        dhcp_have_lease := True, dhcp_state := DHCP_ST_BOUND\<rparr>) s2"
      have nz: "mk \<noteq> 0" "gw \<noteq> 0" "or_else (dl_netmask a) mk = mk" "or_else (dl_gateway a) gw = gw"
        using sv by (simp_all add: mk_def gw_def or_else_def NET_SLIRP_MASK_def)
      have "r = 0" "cfg' = cfg\<lparr>cfg_ip := dl_ip a, cfg_netmask := mk, cfg_gateway := gw\<rparr>"
        and s: "st' = dhcp_arm_timers (time_count s3) (dl_lease_secs (dhcp_active (dhcp_v s3))) s3"
        using 1 2 Some a assms by (simp_all add: dhcp_client_def Let_def server_def [symmetric] mk_def gw_def s3_def)
      then show ?thesis
        using k2 nz by (auto simp: s s3_def dhcp_arm_timers_def upd_dhcp_def dhcp_kept_def Let_def or_else_def)
    qed
  qed
qed

end

end
