(* ===== verification/Softnet.thy ===== *)
theory Softnet
  imports Dhcp
begin

text \<open>
  The network thread of \<^verbatim>\<open>kernel/net/softnet.c\<close>. Each pass runs the TCP timers and, once per
  second, the DHCP service routine. The pass first polls the Wi-Fi driver, which has variables
  of its own and shares none with the stack; that call is the identity here.
  \<^verbatim>\<open>createkthread\<close> is represented by the number it returns.
\<close>

definition upd_softnet :: "(softnet_vars \<Rightarrow> softnet_vars) \<Rightarrow> net \<Rightarrow> net" where
  "upd_softnet f st = st\<lparr>softnet_v := f (softnet_v st)\<rparr>"

definition SOFTNET_DHCP_SPINS :: u32 where "SOFTNET_DHCP_SPINS = 50000"

definition softnet_tick :: "devs \<Rightarrow> net \<Rightarrow> net" where
  "softnet_tick devs st =
     (case netif_default st of None \<Rightarrow> st | Some n \<Rightarrow>
      if nif_configured (nifs st n) = 0 then st
      else
        let st = tcp_timer devs (ticks st) st;
            st = (if time_count st \<noteq> softnet_last_dhcp_secs (softnet_v st)
                  then let st = upd_softnet (\<lambda>v. v\<lparr>softnet_last_dhcp_secs := time_count st\<rparr>) st;
                           i = nifs st n
                       in snd (snd (dhcp_service devs (Some n)
                            \<lparr>cfg_ip = nif_ip i, cfg_netmask = nif_netmask i, cfg_gateway = nif_gateway i\<rparr>
                            (time_count st) SOFTNET_DHCP_SPINS st))
                  else st)
        in upd_softnet (\<lambda>v. v\<lparr>softnet_ticks_done := softnet_ticks_done v + 1\<rparr>) st)"

definition softnet_init :: "u32 \<Rightarrow> net \<Rightarrow> net" where
  "softnet_init thread st =
     (if softnet_started (softnet_v st) then st
      else
        let st = upd_softnet (\<lambda>v. v\<lparr>softnet_started := True, softnet_last_dhcp_secs := time_count st\<rparr>) st
        in if thread = 0 then upd_softnet (\<lambda>v. v\<lparr>softnet_started := False\<rparr>) st else st)"

lemma upd_softnet_calm: "calm P st (upd_softnet f st)"
  by (rule calm_vars) (simp_all add: upd_softnet_def wrapped_def net_inv_def)

lemma softnet_init_calm: "calm P st (softnet_init thread st)"
  using calm_trans [OF upd_softnet_calm upd_softnet_calm] upd_softnet_calm
  by (auto simp: softnet_init_def Let_def)

context net_driver
begin

lemma softnet_tick_calm: "calm P st (softnet_tick devs st)"
proof (cases "netif_default st")
  case (Some n)
  let ?s1 = "tcp_timer devs (ticks st) st"
  let ?s2 = "upd_softnet (\<lambda>v. v\<lparr>softnet_last_dhcp_secs := time_count ?s1\<rparr>) ?s1"
  have 1: "calm P st ?s1" by (rule calm_trip [OF tcp_timer_trip])
  have 2: "calm P st (snd (snd (dhcp_service devs (Some n) cfg now w ?s2)))" for cfg now w
    by (rule calm_trans [OF calm_trans [OF 1 upd_softnet_calm] dhcp_service_calm])
  show ?thesis
    using calm_trans [OF 1 upd_softnet_calm] calm_trans [OF 2 upd_softnet_calm] Some
    by (simp add: softnet_tick_def Let_def)
qed (simp add: softnet_tick_def)

end

end
