(* ===== verification/Dns_Client.thy ===== *)
theory Dns_Client
  imports Net_Input
begin

text \<open>
  The resolver of \<^verbatim>\<open>kernel/net/dns.c\<close>: \<^verbatim>\<open>dns_query_a\<close> sends one query and polls the interface
  until a reply is parsed or the spins are used up. The messages are in \<open>Dns_Msg\<close>. The lemmas
  show that it stays within its buffers and that it never leaves the client waiting.
\<close>

fun dns_wait_loop :: "devs \<Rightarrow> nat option \<Rightarrow> u16 \<Rightarrow> nat \<Rightarrow> net \<Rightarrow> u32 option \<times> net" where
  "dns_wait_loop devs nif ident 0 st = (None, st)"
| "dns_wait_loop devs nif ident (Suc n) st =
     (let st = netif_poll devs nif st;
          len = unat (dns_rx_len (dns_v st))
      in if len = 0 then dns_wait_loop devs nif ident n st
         else
           let st = ub_unless (len \<le> DNS_MAX_PKT) st
           in case dns_parse_a (dns_rx (dns_v st)) len ident of
                Some ip \<Rightarrow> (Some ip, st)
              | None \<Rightarrow> dns_wait_loop devs nif ident n (upd_dns (\<lambda>d. d\<lparr>dns_rx_len := 0\<rparr>) st))"

definition dns_stop :: "net \<Rightarrow> net" where
  "dns_stop st = upd_dns (\<lambda>d. d\<lparr>dns_waiting := False, dns_rx_len := 0\<rparr>) st"

definition dns_query_a ::
  "devs \<Rightarrow> nat option \<Rightarrow> u32 \<Rightarrow> u16 \<Rightarrow> bytes \<Rightarrow> u32 \<Rightarrow> net \<Rightarrow> u32 option \<times> net" where
  "dns_query_a devs nif server_host server_port name timeout_spins st =
     (case nif of None \<Rightarrow> (None, st) | Some n \<Rightarrow>
      if nif_configured (nifs st n) = 0 then (None, st)
      else
        let ident = 0xD500 XOR ucast (ticks st) in
        case dns_build_query DNS_MAX_PKT ident name of
          None \<Rightarrow> (None, st)
        | Some q \<Rightarrow>
            let sport = 43000 + (ident AND 0x3FF);
                st = upd_dns (\<lambda>d. d\<lparr>dns_wait_port := sport, dns_rx_len := 0, dns_waiting := True\<rparr>) st
            in case pbuf_alloc (ucast (of_nat UDP_HDR_LEN + of_nat (length q) :: u32)) st of
                 (None, st) \<Rightarrow> (None, dns_stop st)
               | (Some udp, st) \<Rightarrow>
                   let (udp_len, dgram) = udp_build sport server_port q (nif_ip (nifs st n)) server_host;
                       st = pb_write udp 0 dgram st;
                       st = pb_set_len udp (ucast udp_len) st;
                       (r, st) = ipv4_output devs nif (Some udp) server_host IPV4_PROTO_UDP st
                   in if r \<noteq> 0 then (None, dns_stop st)
                      else let (ip, st) = dns_wait_loop devs nif ident (unat timeout_spins) st
                           in (ip, dns_stop st))"

lemma dns_stop_trip: "trip P C st s \<Longrightarrow> trip P C st (dns_stop s)"
  unfolding dns_stop_def by (rule trip_trans [OF _ trip_upd_dns]) (simp_all add: dns_ok_def)

lemma dns_query_length: "dns_build_query sz ident name = Some q \<Longrightarrow> 18 \<le> sz \<Longrightarrow> length q \<le> sz"
  by (auto simp: dns_build_query_def dest!: dns_encode_name_length split: if_splits option.splits)

context net_driver
begin

lemma dns_wait_loop_trip: "trip P {} st (snd (dns_wait_loop devs nif ident n st))"
proof (induction n arbitrary: st)
  case (Suc n)
  let ?s1 = "netif_poll devs nif st"
  let ?len = "unat (dns_rx_len (dns_v ?s1))"
  let ?s2 = "ub_unless (?len \<le> DNS_MAX_PKT) ?s1"
  have t1: "trip P {} st ?s1" by (rule netif_poll_trip)
  have t2: "trip P {} st ?s2"
    by (rule trip_trans [OF t1 trip_ub_if]) (simp add: sound_def net_inv_def dns_ok_def)
  have t3: "trip P {} st (upd_dns (\<lambda>d. d\<lparr>dns_rx_len := 0\<rparr>) ?s2)"
    by (rule trip_trans [OF t2 trip_upd_dns]) (simp add: dns_ok_def)
  show ?case
    using trip_trans [OF t1 Suc] trip_trans [OF t3 Suc] t2 by (auto simp: Let_def split: option.splits)
qed simp

lemma dns_query_a_trip: "trip P {} st (snd (dns_query_a devs nif host port name w st))"
proof (cases "\<exists>n. nif = Some n \<and> nif_configured (nifs st n) \<noteq> 0")
  case True
  then obtain n where n: "nif = Some n" "nif_configured (nifs st n) \<noteq> 0" by auto
  define ident :: u16 where "ident = 0xD500 XOR ucast (ticks st)"
  define sport where "sport = 43000 + (ident AND 0x3FF)"
  define s1 where "s1 = upd_dns (\<lambda>d. d\<lparr>dns_wait_port := sport, dns_rx_len := 0, dns_waiting := True\<rparr>) st"
  have t1: "trip P {} st s1" unfolding s1_def by (rule trip_upd_dns) (simp add: dns_ok_def)
  show ?thesis
  proof (cases "dns_build_query DNS_MAX_PKT ident name")
    case None
    then show ?thesis using n by (simp add: dns_query_a_def Let_def ident_def)
  next
    case (Some q)
    let ?total = "of_nat UDP_HDR_LEN + of_nat (length q) :: u32"
    have lq: "length q \<le> DNS_MAX_PKT" using dns_query_length [OF Some] by (simp add: DNS_MAX_PKT_def)
    have "unat ?total = UDP_HDR_LEN + length q"
      using lq unat_of_nat_u32 [of "UDP_HDR_LEN + length q"] by (simp add: DNS_MAX_PKT_def wire_defs)
    then have fits: "\<not> ?total > of_nat PBUF_SIZE"
      using lq by (simp add: word_less_nat_alt DNS_MAX_PKT_def wire_defs)
    obtain po s2 where al: "pbuf_alloc (ucast ?total) s1 = (po, s2)" by fastforce
    have t2: "trip P {} st s2" by (rule trip_trans [OF t1 trip_allocD [OF al]])
    show ?thesis
    proof (cases po)
      case None
      then show ?thesis
        using n Some al dns_stop_trip [OF t2]
        unfolding dns_query_a_def Let_def ident_def [symmetric] sport_def [symmetric] s1_def [symmetric] by simp
    next
      case p: (Some p)
      obtain ul dg where b: "udp_build sport port q (nif_ip (nifs s2 n)) host = (ul, dg)" by fastforce
      obtain r s3 where o: "ipv4_output devs nif (Some p) host IPV4_PROTO_UDP
          (pb_set_len p (ucast ul) (pb_write p 0 dg s2)) = (r, s3)" by fastforce
      obtain ip s4 where w: "dns_wait_loop devs nif ident (unat w) s3 = (ip, s4)" by fastforce
      have "trip P {} s1 (snd (r, s3))"
        unfolding o [symmetric]
        by (rule udp_out_trip [OF al [unfolded p] fits b])
          (use lq ipv4_output_trip [of "Some p"] in \<open>simp_all add: DNS_MAX_PKT_def wire_defs\<close>)
      then have t3: "trip P {} st s3" using trip_trans [OF t1] by simp
      have "trip P {} st (snd (ip, s4))"
        unfolding w [symmetric] by (rule trip_trans [OF t3 dns_wait_loop_trip])
      then show ?thesis
        using n Some al p b o w dns_stop_trip [OF t3] dns_stop_trip [of P "{}" st s4]
        unfolding dns_query_a_def Let_def ident_def [symmetric] sport_def [symmetric] s1_def [symmetric] by simp
    qed
  qed
next
  case False
  then show ?thesis by (cases nif) (simp_all add: dns_query_a_def)
qed

end

end
