(* ===== verification/Net_Boot.thy ===== *)
theory Net_Boot
  imports Virtio_Net Softnet Dns_Client
begin

text \<open>
  Bringing the network up: the zeroed variables of the kernel image, the set-up of the driver
  (\<^verbatim>\<open>virtio_net_init\<close> of \<^verbatim>\<open>kernel/hardware/virtio/virtio_net.c\<close>) and the tests it runs at the end.
  What the hardware answers during set-up (which device is found, the features it offers, the
  sizes of its queues, its address) and whether memory is available are fields of \<open>vnet_hw\<close>.
  The lemmas show that the invariant of the stack holds from then on.
\<close>

section \<open>Set-up of the driver\<close>

record vnet_hw =
  hw_found :: bool
  hw_caps :: bool
  hw_offered :: u64
  hw_features_ok :: bool
  hw_rx_size :: u16
  hw_tx_size :: u16
  hw_rx_mem :: bool
  hw_tx_mem :: bool
  hw_mac :: bytes

definition VIRTIO_NET_F_STATUS :: nat where "VIRTIO_NET_F_STATUS = 16"

definition vnet_setup_queue :: "u16 \<Rightarrow> bool \<Rightarrow> vnet_queue \<Rightarrow> bool \<times> vnet_queue" where
  "vnet_setup_queue sz mem q =
     (if sz = 0 then (False, q)
      else
        let qsz = (if sz > of_nat VNET_QUEUE_MAX then of_nat VNET_QUEUE_MAX else sz);
            n = unat qsz;
            q = q\<lparr>vq_qsize := qsz\<rparr>
        in if \<not> mem then (False, q)
           else (True, q\<lparr>vq_desc := replicate n \<lparr>vd_len = 0, vd_flags = 0\<rparr>,
                   vq_avail := replicate VIRTIO_QUEUE_MAX 0,
                   vq_bufs := replicate n (replicate VNET_BUF_SIZE 0),
                   vq_free := replicate n True @ drop n (vq_free q),
                   vq_avail_idx := 0, vq_last_used := 0\<rparr>))"

definition zero_queue :: vnet_queue where
  "zero_queue = \<lparr>vq_desc = [], vq_avail = [], vq_qsize = 0, vq_avail_idx = 0, vq_last_used = 0, vq_bufs = [],
     vq_free = replicate VNET_QUEUE_MAX False\<rparr>"

definition DNS_TEST_PORT :: u16 where "DNS_TEST_PORT = 5353"

text \<open>The name the test resolves, \<^verbatim>\<open>icsos.test\<close>.\<close>

definition dns_test_name :: bytes where
  "dns_test_name = [105, 99, 115, 111, 115, 46, 116, 101, 115, 116]"

text \<open>
  The configuration the tests start from is built on the stack; \<open>cfg\<close> is what the stack held.
  The wait for the link changes nothing. \<open>thread\<close> is the number of the network thread.
\<close>

definition vnet_selftest :: "devs \<Rightarrow> string option \<Rightarrow> inet_config \<Rightarrow> u32 \<Rightarrow> net \<Rightarrow> net" where
  "vnet_selftest devs cmdline cfg thread st =
     (let cfg = inet_config_from_cmdline cfg cmdline;
          st = arp_init (Some 0) st;
          st = tcp_init st;
          st = upd_nif 0 (\<lambda>n. n\<lparr>nif_link_up := 1\<rparr>) st;
          (r, cfg, st) = dhcp_client devs (Some 0) cfg 4000000 st;
          cfg = (if r = 0 then cfg else inet_config_from_cmdline cfg cmdline);
          st = netif_set_addr 0 (cfg_ip cfg) (cfg_netmask cfg) (cfg_gateway cfg) st;
          st = netif_set_up 0 st;
          (cfg, st) = (if r \<noteq> 0 then (cfg, st)
            else
              let st = dhcp_force_timer_due 1 False st;
                  (_, cfg, st) = dhcp_service devs (Some 0) cfg 1 4000000 st;
                  st = dhcp_force_timer_due 1 True st;
                  (_, cfg, st) = dhcp_service devs (Some 0) cfg 1 4000000 st
              in (cfg, st));
          st = tcp_listen_echo TCP_ECHO_PORT st;
          gw = cfg_gateway cfg;
          st = snd (icmp_ping devs (Some 0) gw 300 st);
          st = snd (udp_echo_client devs (Some 0) gw UDP_TEST_PORT 2000000 st);
          st = snd (tcp_echo_client devs (Some 0) gw TCP_TEST_PORT 4000000 st);
          st = snd (tcp_echo_rexmit_selftest devs (Some 0) gw TCP_TEST_PORT 8000000 st);
          st = snd (dns_query_a devs (Some 0) gw DNS_TEST_PORT dns_test_name 4000000 st)
      in softnet_init thread st)"

definition zero_netif :: netif where
  "zero_netif = \<lparr>nif_mac = replicate ETH_ADDR_LEN 0, nif_ip = 0, nif_netmask = 0, nif_gateway = 0, nif_mtu = 0,
     nif_link_up = 0, nif_configured = 0, nif_dev = None,
     nif_arp = replicate ARP_CACHE_SIZE \<lparr>ae_ip = 0, ae_mac = replicate ETH_ADDR_LEN 0, ae_valid = 0\<rparr>\<rparr>"

text \<open>The steps of \<^verbatim>\<open>virtio_net_init\<close>: until both queues are set up, and from the address on.\<close>

definition vnet_probe :: "vnet_hw \<Rightarrow> net \<Rightarrow> bool \<times> net" where
  "vnet_probe hw st =
     (if \<not> hw_found hw \<or> \<not> hw_caps hw then (False, st)
      else
        let st = upd_vnet (\<lambda>v. v\<lparr>vn_has_status := bit (hw_offered hw) VIRTIO_NET_F_STATUS\<rparr>) st
        in if \<not> hw_features_ok hw then (False, st)
           else
             let (ok, rx) = vnet_setup_queue (hw_rx_size hw) (hw_rx_mem hw) (vn_rx (vnet_v st));
                 st = upd_vnet (\<lambda>v. v\<lparr>vn_rx := rx\<rparr>) st
             in if \<not> ok then (False, st)
                else
                  let (ok, tx) = vnet_setup_queue (hw_tx_size hw) (hw_tx_mem hw) (vn_tx (vnet_v st))
                  in (ok, upd_vnet (\<lambda>v. v\<lparr>vn_tx := tx\<rparr>) st))"

definition vnet_attach :: "nat \<Rightarrow> vnet_hw \<Rightarrow> net \<Rightarrow> net" where
  "vnet_attach n hw st =
     (let st = upd_vnet (\<lambda>v. v\<lparr>vn_mac := take ETH_ADDR_LEN (hw_mac hw)\<rparr>) st;
          st = netif_init (vnet_devs n) 0 (Some 0) st;
          st = netif_set_default (Some 0) st;
          st = vnet_rx_fill st
      in upd_vnet (\<lambda>v. v\<lparr>vnet_ready := True\<rparr>) st)"

definition virtio_net_init :: "nat \<Rightarrow> vnet_hw \<Rightarrow> string option \<Rightarrow> inet_config \<Rightarrow> u32 \<Rightarrow> net \<Rightarrow> net" where
  "virtio_net_init n hw cmdline cfg thread st =
     (let st = upd_vnet (\<lambda>v. v\<lparr>vn_mac := replicate ETH_ADDR_LEN 0, vn_has_status := False,
                 vn_rx := zero_queue, vn_tx := zero_queue\<rparr>) st;
          st = upd_nif 0 (\<lambda>_. zero_netif) st;
          st = pbuf_pool_init st;
          (ok, st) = vnet_probe hw st
      in if \<not> ok then st else vnet_selftest (vnet_devs n) cmdline cfg thread (vnet_attach n hw st))"

section \<open>The zeroed kernel image\<close>

definition net_bss :: "u32 \<Rightarrow> used_view list \<Rightarrow> used_view list \<Rightarrow> net" where
  "net_bss addr rx_dev tx_dev = \<lparr>mem_fault = False, pbuf_pool = replicate PBUF_POOL_COUNT zero_pbuf,
     pbuf_free_list = None, pbuf_inited = False,
     nifs = (\<lambda>_. zero_netif), g_default_netif = None, ticks = 0, time_count = 0, ipv4_id_counter = 0,
     icmp_v = \<lparr>ping_waiting = False, ping_id = 0, ping_seq = 0, ping_src = 0\<rparr>,
     udp_v = \<lparr>udp_wait = False, udp_wait_sport = 0, udp_wait_dport = 0,
       udp_wait_payload = replicate UDP_WAIT_SIZE 0, udp_wait_plen = 0\<rparr>,
     dns_v = \<lparr>dns_waiting = False, dns_rx = replicate DNS_MAX_PKT 0, dns_rx_len = 0, dns_wait_port = 0\<rparr>,
     dhcp_v = \<lparr>dhcp_waiting = False, dhcp_rx = replicate DHCP_RX_SIZE 0, dhcp_rx_len = 0, dhcp_active = zero_lease,
       dhcp_have_lease = False, dhcp_state = DHCP_ST_INIT, dhcp_t1_abs = 0, dhcp_t2_abs = 0, dhcp_lease_abs = 0\<rparr>,
     tcp_v = \<lparr>pcbs = replicate TCP_PCB_MAX zero_pcb, ephemeral = 41000, g_rexmit_count = 0,
       g_drop_next_data = False, pcbs_addr = addr, una_wrapped = False\<rparr>,
     sock_v = \<lparr>socks = (\<lambda>_. None), udp_socks = replicate SOCK_UDP_SLOTS None, udp_eph = 42000\<rparr>,
     softnet_v = \<lparr>softnet_started = False, softnet_ticks_done = 0, softnet_last_dhcp_secs = 0\<rparr>,
     vnet_v = \<lparr>vnet_ready = False, vn_mac = replicate ETH_ADDR_LEN 0, vn_has_status = False, vn_status = 0,
       vn_rx = zero_queue, vn_tx = zero_queue, vnet_rx_pending = [], vn_rx_dev = rx_dev, vn_tx_dev = tx_dev\<rparr>\<rparr>"

section \<open>The invariant is established\<close>

lemma net_bss_sound: "sound (net_bss addr rx tx)"
proof -
  have "pbuf_inv (net_bss addr rx tx) = pbuf_inv pbuf_bss"
    by (rule pbuf_inv_cong) (simp_all add: net_bss_def pbuf_bss_def)
  moreover have "arp_inv (nif_arp zero_netif)" by (auto simp: zero_netif_def arp_inv_def)
  moreover have "pcb_ok zero_pcb" by (simp add: pcb_ok_def zero_pcb_def)
  ultimately show ?thesis
    by (simp add: sound_def net_inv_def net_bss_def netif_ok_def udp_ok_def dns_ok_def dhcp_ok_def tcp_ok_def
        sock_ok_def vnet_ok_def)
      (simp add: zero_netif_def)
qed

lemma net_bss_wrapped: "\<not> wrapped (net_bss addr rx tx)"
  by (simp add: wrapped_def net_bss_def)

lemma vnet_setup_queue_ok:
  assumes "vnet_setup_queue sz mem q = (True, q')" "length (vq_free q) = VNET_QUEUE_MAX"
  shows "vq_ok q'"
proof -
  let ?qsz = "if sz > of_nat VNET_QUEUE_MAX then of_nat VNET_QUEUE_MAX else sz"
  have "unat ?qsz \<le> VNET_QUEUE_MAX" by (simp add: word_less_nat_alt VNET_QUEUE_MAX_def)
  moreover have "0 < ?qsz" if "sz \<noteq> 0" using that by (simp add: VNET_QUEUE_MAX_def word_neq_0_conv)
  ultimately show ?thesis
    using assms by (auto simp: vnet_setup_queue_def vq_ok_def Let_def split: if_splits)
qed

lemma calm_upd_vnet:
  assumes "P \<Longrightarrow> vnet_ok (vnet_v st) \<Longrightarrow> vnet_ok (f (vnet_v st))"
  shows "calm P st (upd_vnet f st)"
  by (rule calm_vars) (use assms in \<open>simp_all add: upd_vnet_def wrapped_def net_inv_def\<close>)

lemma tcp_init_calm: "calm P st (tcp_init st)"
  by (rule calm_vars) (simp_all add: tcp_init_def upd_tcp_def wrapped_def net_inv_def tcp_ok_def pcb_ok_def zero_pcb_def)

lemma pbuf_pool_init_calm: "calm P st (pbuf_pool_init st)"
proof -
  have "net_inv (pbuf_pool_init st) \<and> mem_fault (pbuf_pool_init st) = mem_fault st \<and> keeps {} st (pbuf_pool_init st)"
    if "net_inv st"
    using that pbuf_pool_init_props [of st] more_fields [of "pbuf_pool_init st" st]
    by (simp add: net_inv_def keeps_def)
  moreover have "wrapped (pbuf_pool_init st) = wrapped st"
    using more_fields [of "pbuf_pool_init st" st] by (simp add: wrapped_def pbuf_pool_init_def)
  moreover have "sock_v (pbuf_pool_init st) = sock_v st"
    using more_fields [of "pbuf_pool_init st" st] by (simp add: pbuf_pool_init_def)
  ultimately show ?thesis by (simp add: calm_def safe_def sound_def sk_view_def fun_eq_iff)
qed

lemma vnet_selftest_calm: "calm P st (vnet_selftest (vnet_devs n) cmdline cfg thread st)"
proof -
  have addr: "calm P s (netif_set_addr k ip m g s)" "calm P s (netif_set_up k s)"
    "calm P s (upd_nif k (\<lambda>n. n\<lparr>nif_link_up := 1\<rparr>) s)" "calm P s (arp_init (Some k) s)" for s k ip m g
    unfolding netif_set_addr_def netif_set_up_def arp_init_def option.case
    by (rule calm_upd_nif, simp add: netif_ok_def arp_inv_def arp_cache_init_def)+
  note rules = addr tcp_init_calm dhcp_force_timer_due_calm softnet_init_calm net_driver.dhcp_service_calm [OF vnet_net_driver] net_driver.dhcp_client_calm [OF vnet_net_driver]
    vnet.tcp_listen_echo_trip [THEN calm_trip] vnet.icmp_ping_trip [THEN calm_trip] vnet.udp_echo_client_trip [THEN calm_trip]
    vnet.tcp_echo_client_trip [THEN calm_trip] vnet.tcp_echo_rexmit_selftest_trip [THEN calm_trip]
    net_driver.dns_query_a_trip [OF vnet_net_driver, THEN calm_trip]
  show ?thesis
    by (cases "fst (dhcp_client (vnet_devs n) (Some 0) (inet_config_from_cmdline cfg cmdline) 4000000
        (upd_nif 0 (\<lambda>n. n\<lparr>nif_link_up := 1\<rparr>) (tcp_init (arp_init (Some 0) st)))) = 0")
      (simp_all add: vnet_selftest_def case_prod_beta Let_def rules [THEN calm_trans [rotated]])
qed

lemma rx_post_fields:
  assumes "vq_ok (vn_rx (vnet_v st))" "idx < vq_qsize (vn_rx (vnet_v st))"
  shows "\<exists>q. vq_ok q \<and> vq_qsize q = vq_qsize (vn_rx (vnet_v st)) \<and>
    vnet_rx_post idx st = upd_vnet (\<lambda>v. v\<lparr>vn_rx := q\<rparr>) st"
proof (intro exI conjI)
  let ?q = "vq_offer idx (of_nat VNET_BUF_SIZE) VIRTQ_DESC_F_WRITE (vn_rx (vnet_v st))"
  show "vq_ok ?q" using assms(1) by (rule vq_ok_offer)
  show "vq_qsize ?q = vq_qsize (vn_rx (vnet_v st))" by (simp add: vq_offer_def)
  show "vnet_rx_post idx st = upd_vnet (\<lambda>v. v\<lparr>vn_rx := ?q\<rparr>) st"
    using vq_in_ok [OF assms] by (simp add: vnet_rx_post_def upd_vnet_def ub_unless_def)
qed

lemma rx_fill_fields:
  assumes "vq_ok (vn_rx (vnet_v st))"
  shows "\<exists>q. vq_ok q \<and> vnet_rx_fill st = upd_vnet (\<lambda>v. v\<lparr>vn_rx := q\<rparr>) st"
proof -
  have "\<exists>q. vq_ok q \<and>
      fold (\<lambda>i st. if vq_free (vn_rx (vnet_v st)) ! i then vnet_rx_post (of_nat i) st else st) is st =
      upd_vnet (\<lambda>v. v\<lparr>vn_rx := q\<rparr>) st"
    if "\<forall>i \<in> set is. i < unat (vq_qsize (vn_rx (vnet_v st)))" for "is"
    using that assms
  proof (induction "is" arbitrary: st)
    case Nil
    then show ?case by (intro exI [of _ "vn_rx (vnet_v st)"]) (simp add: upd_vnet_def)
  next
    case (Cons i "is")
    have "(of_nat i :: u16) < vq_qsize (vn_rx (vnet_v st))"
      using Cons.prems(1) by (auto simp: word_less_nat_alt unat_of_nat intro: le_less_trans [OF mod_less_eq_dividend])
    then obtain q where q: "vq_ok q" "vq_qsize q = vq_qsize (vn_rx (vnet_v st))"
      "vnet_rx_post (of_nat i) st = upd_vnet (\<lambda>v. v\<lparr>vn_rx := q\<rparr>) st"
      using rx_post_fields [OF Cons.prems(2)] by blast
    show ?case using Cons.IH [of "upd_vnet (\<lambda>v. v\<lparr>vn_rx := q\<rparr>) st"] Cons.IH [of st] Cons.prems q
      by (auto simp: upd_vnet_def)
  qed
  from this [of "[0..<unat (vq_qsize (vn_rx (vnet_v st)))]"] show ?thesis
    by (simp add: vnet_rx_fill_def)
qed

lemma netif_init_calm:
  assumes "length (vn_mac (vnet_v st)) = ETH_ADDR_LEN"
  shows "calm P st (netif_init (vnet_devs n) 0 (Some 0) st)"
proof -
  have "vnet_devs n 0 = vnet_ndev (case n of 0 \<Rightarrow> \<lambda>st. st | Suc m \<Rightarrow> vnet_poll_ops (netif_input (vnet_devs m)))"
    by (cases n) simp_all
  then show ?thesis
    using assms unfolding netif_init_def Let_def
    by (intro calm_upd_nif) (auto simp: vnet_ndev_def vnet_get_mac_def netif_ok_def arp_inv_def arp_cache_init_def)
qed

lemma vnet_probe_calm:
  assumes "vnet_probe hw st = (ok, st')" "\<not> vnet_ready (vnet_v st)"
  shows "calm P st st' \<and> \<not> vnet_ready (vnet_v st')"
proof -
  have upd: "calm P s (upd_vnet f s)" if "\<not> vnet_ready (f (vnet_v s))" "vnet_rx_pending (f (vnet_v s)) = vnet_rx_pending (vnet_v s)"
    for s f by (rule calm_upd_vnet) (simp add: vnet_ok_def that)
  show ?thesis
    using assms unfolding vnet_probe_def Let_def
    by (auto split: if_splits prod.splits intro!: upd [THEN calm_trans [rotated]])
qed

lemma vnet_probe_queues:
  assumes "vnet_probe hw st = (True, st')" "vn_rx (vnet_v st) = zero_queue" "vn_tx (vnet_v st) = zero_queue"
  shows "vq_ok (vn_rx (vnet_v st')) \<and> vq_ok (vn_tx (vnet_v st'))"
  using assms unfolding vnet_probe_def Let_def
  by (auto simp: zero_queue_def split: if_splits prod.splits intro: vnet_setup_queue_ok)

lemma vnet_attach_calm:
  assumes "vq_ok (vn_rx (vnet_v st))" "vq_ok (vn_tx (vnet_v st))" "\<not> vnet_ready (vnet_v st)"
    and "length (hw_mac hw) = ETH_ADDR_LEN"
  shows "calm P st (vnet_attach n hw st)"
proof -
  let ?s1 = "upd_vnet (\<lambda>v. v\<lparr>vn_mac := take ETH_ADDR_LEN (hw_mac hw)\<rparr>) st"
  let ?s2 = "netif_set_default (Some 0) (netif_init (vnet_devs n) 0 (Some 0) ?s1)"
  have v2: "vnet_v (netif_set_default (Some 0) (netif_init (vnet_devs n) 0 (Some 0) s)) = vnet_v s" for s
    by (simp add: netif_set_default_def netif_init_def upd_nif_def Let_def)
  obtain q where q: "vq_ok q" "vnet_rx_fill ?s2 = upd_vnet (\<lambda>v. v\<lparr>vn_rx := q\<rparr>) ?s2"
    using rx_fill_fields [of ?s2] assms(1) v2 by auto
  have "calm P st ?s1" by (rule calm_upd_vnet) (simp add: vnet_ok_def assms)
  moreover have "calm P ?s1 (netif_init (vnet_devs n) 0 (Some 0) ?s1)"
    by (rule netif_init_calm) (simp add: assms)
  moreover have "calm P s (netif_set_default (Some 0) s)" for s
    by (rule calm_vars) (simp_all add: netif_set_default_def wrapped_def net_inv_def)
  moreover have "calm P ?s2 (upd_vnet (\<lambda>v. v\<lparr>vn_rx := q\<rparr>) ?s2)"
    by (rule calm_upd_vnet) (simp add: vnet_ok_def v2 assms)
  moreover have "calm P (upd_vnet (\<lambda>v. v\<lparr>vn_rx := q\<rparr>) ?s2)
      (upd_vnet (\<lambda>v. v\<lparr>vnet_ready := True\<rparr>) (upd_vnet (\<lambda>v. v\<lparr>vn_rx := q\<rparr>) ?s2))"
    by (rule calm_upd_vnet) (simp add: vnet_ok_def v2 assms q)
  ultimately show ?thesis unfolding vnet_attach_def Let_def q(2) by (blast intro: calm_trans)
qed

text \<open>Whatever the hardware answers, bringing the network up is safe and establishes the invariant.\<close>

lemma virtio_net_init_calm:
  assumes "length (hw_mac hw) = ETH_ADDR_LEN" "\<not> vnet_ready (vnet_v st)"
  shows "calm P st (virtio_net_init n hw cmdline cfg thread st)"
proof -
  let ?s1 = "upd_vnet (\<lambda>v. v\<lparr>vn_mac := replicate ETH_ADDR_LEN 0, vn_has_status := False,
                 vn_rx := zero_queue, vn_tx := zero_queue\<rparr>) st"
  let ?s2 = "upd_nif 0 (\<lambda>_. zero_netif) ?s1"
  let ?s3 = "pbuf_pool_init ?s2"
  obtain ok s4 where pr: "vnet_probe hw ?s3 = (ok, s4)" by fastforce
  have v: "vnet_v ?s3 = vnet_v ?s1"
    using more_fields [of ?s3 ?s2] by (simp add: pbuf_pool_init_def upd_nif_def)
  have "calm P st ?s1" by (rule calm_upd_vnet) (simp add: vnet_ok_def assms)
  moreover have "calm P ?s1 ?s2"
    by (rule calm_upd_nif) (auto simp: netif_ok_def zero_netif_def arp_inv_def)
  moreover have 4: "calm P ?s3 s4 \<and> \<not> vnet_ready (vnet_v s4)"
    by (rule vnet_probe_calm [OF pr]) (simp add: v assms)
  ultimately have s: "calm P st s4" by (blast intro: calm_trans pbuf_pool_init_calm)
  have "calm P s4 (vnet_attach n hw s4)" if ok
    by (rule vnet_attach_calm) (use vnet_probe_queues [of hw ?s3 s4] pr that 4 assms in \<open>simp_all add: v\<close>)
  then show ?thesis
    using s unfolding virtio_net_init_def Let_def pr case_prod_conv
    by (auto intro: calm_trans vnet_selftest_calm)
qed

end
