(* ===== verification/Sock.thy ===== *)
theory Sock
  imports Net_Input
begin

text \<open>
  The socket objects of \<^verbatim>\<open>kernel/net/sock.c\<close>: the table of UDP sockets, sending and receiving
  on a socket, reference counts, closing. The heap of sockets is the map \<open>socks\<close> of the state;
  a dereference of a socket that is not allocated sets the fault flag. The system calls, which
  go through file descriptors, are in \<open>Sock_Calls\<close>.

  A user buffer that is read is its contents, one that is filled is returned. The lock that
  \<^verbatim>\<open>sock_udp_recv\<close> drops while it polls lets in what the poll delivers; calls of other
  processors on the same socket are not interleaved.
\<close>

section \<open>Constants and addresses\<close>

definition EIO :: int where "EIO = 5"
definition EBADF :: int where "EBADF = 9"
definition EAGAIN :: int where "EAGAIN = 11"
definition ENOMEM :: int where "ENOMEM = 12"
definition ENOSYS :: int where "ENOSYS = 38"
definition EPROTONOSUPPORT :: int where "EPROTONOSUPPORT = 93"
definition EADDRINUSE :: int where "EADDRINUSE = 98"
definition ENOTCONN :: int where "ENOTCONN = 107"

lemmas errno_defs = EIO_def EBADF_def EAGAIN_def ENOMEM_def EINVAL_def ENOSYS_def EPROTONOSUPPORT_def
  EADDRINUSE_def ENOTCONN_def

definition AF_INET :: int where "AF_INET = 2"
definition SOCK_STREAM :: int where "SOCK_STREAM = 1"
definition SOCK_DGRAM :: int where "SOCK_DGRAM = 2"
definition SOCK_UDP_EPH_BASE :: u16 where "SOCK_UDP_EPH_BASE = 42000"
definition SOCK_LISTEN_PORT :: u16 where "SOCK_LISTEN_PORT = 7779"

record sockaddr_in =
  sin_family :: u16
  sin_port :: u16
  sin_addr :: u32
  sin_zero :: bytes

definition SIZEOF_SOCKADDR_IN :: u32 where "SIZEOF_SOCKADDR_IN = 16"

definition sockaddr_ip :: "sockaddr_in \<Rightarrow> u32" where
  "sockaddr_ip a = net_ntohl (sin_addr a)"

definition sockaddr_port :: "sockaddr_in \<Rightarrow> u16" where
  "sockaddr_port a = net_ntohs (sin_port a)"

text \<open>
  \<open>addrlen\<close> is the length the caller offers, \<open>None\<close> when the pointer to the address or the
  pointer to the length is null. The result is what is written back.
\<close>

definition fill_sockaddr :: "u32 option \<Rightarrow> u32 \<Rightarrow> u16 \<Rightarrow> (sockaddr_in \<times> u32) option" where
  "fill_sockaddr addrlen ip_host port_host =
     (case addrlen of None \<Rightarrow> None | Some n \<Rightarrow>
        if n < SIZEOF_SOCKADDR_IN then None
        else Some (\<lparr>sin_family = word_of_int AF_INET, sin_port = net_htons port_host, sin_addr = net_htonl ip_host,
                     sin_zero = replicate 8 0\<rparr>, SIZEOF_SOCKADDR_IN))"

section \<open>The heap of sockets\<close>

definition sk :: "nat \<Rightarrow> net \<Rightarrow> sock" where
  "sk j st = the (socks (sock_v st) j)"

definition deref :: "nat \<Rightarrow> net \<Rightarrow> net" where
  "deref j st = ub_unless (socks (sock_v st) j \<noteq> None) st"

definition upd_sock_v :: "(sock_vars \<Rightarrow> sock_vars) \<Rightarrow> net \<Rightarrow> net" where
  "upd_sock_v f st = st\<lparr>sock_v := f (sock_v st)\<rparr>"

definition put_sock :: "nat \<Rightarrow> sock \<Rightarrow> net \<Rightarrow> net" where
  "put_sock j s = upd_sock_v (\<lambda>v. v\<lparr>socks := (socks v)(j \<mapsto> s)\<rparr>)"

definition free_sock :: "nat \<Rightarrow> net \<Rightarrow> net" where
  "free_sock j = upd_sock_v (\<lambda>v. v\<lparr>socks := (socks v)(j := None)\<rparr>)"

definition new_sock :: "sock_type \<Rightarrow> nat option \<Rightarrow> nat option \<Rightarrow> sock" where
  "new_sock ty pc nif = \<lparr>sk_type = ty, sk_listening = False, sk_bound = False, sk_refs = 1, sk_local_port = 0,
     sk_local_ip = 0, sk_peer_ip = 0, sk_peer_port = 0, sk_pcb = pc, sk_nif = nif,
     sk_rx_buf = replicate SOCK_UDP_RX_MAX 0, sk_rx_len = 0, sk_rx_from_ip = 0, sk_rx_from_port = 0\<rparr>"

section \<open>UDP sockets\<close>

definition udp_register :: "nat \<Rightarrow> net \<Rightarrow> int \<times> net" where
  "udp_register j st =
     (case first_index (\<lambda>x. x = None) (udp_socks (sock_v st)) of
        None \<Rightarrow> (-1, st)
      | Some i \<Rightarrow> (0, upd_sock_v (\<lambda>v. v\<lparr>udp_socks := (udp_socks v)[i := Some j]\<rparr>) st))"

definition udp_unregister :: "nat \<Rightarrow> net \<Rightarrow> net" where
  "udp_unregister j = upd_sock_v (\<lambda>v. v\<lparr>udp_socks := map (\<lambda>x. if x = Some j then None else x) (udp_socks v)\<rparr>)"

definition udp_alloc_ephemeral :: "net \<Rightarrow> u16 \<times> net" where
  "udp_alloc_ephemeral st =
     (let p = udp_eph (sock_v st)
      in (p, upd_sock_v (\<lambda>v. v\<lparr>udp_eph := if p + 1 < SOCK_UDP_EPH_BASE then SOCK_UDP_EPH_BASE else p + 1\<rparr>) st))"

definition udp_ensure_local :: "nat \<Rightarrow> net \<Rightarrow> net" where
  "udp_ensure_local j st =
     (let st = deref j st in
      if sk_local_port (sk j st) \<noteq> 0 then st
      else let (p, st) = udp_alloc_ephemeral st
           in upd_sk j (\<lambda>s. s\<lparr>sk_local_port := p, sk_bound := True\<rparr>) st)"

text \<open>The length is cast to 32 bits for \<^verbatim>\<open>udp_send\<close> and returned uncut.\<close>

definition sock_udp_send :: "devs \<Rightarrow> nat \<Rightarrow> bytes \<Rightarrow> u32 \<Rightarrow> u16 \<Rightarrow> net \<Rightarrow> int \<times> net" where
  "sock_udp_send devs j buf dst_ip dst_port st =
     (if dst_ip = 0 \<or> dst_port = 0 then (-ENOTCONN, st)
      else
        let st = udp_ensure_local j st;
            (r, st) = udp_send devs (sk_nif (sk j st)) dst_ip (sk_local_port (sk j st)) dst_port
              (take (length buf mod 2 ^ 32) buf) st
        in if r \<noteq> 0 then (-EIO, st) else (int (length buf), st))"

fun udp_recv_wait :: "devs \<Rightarrow> nat \<Rightarrow> nat \<Rightarrow> net \<Rightarrow> net" where
  "udp_recv_wait devs j 0 st = st"
| "udp_recv_wait devs j (Suc n) st =
     (let st = deref j st in
      if sk_rx_len (sk j st) \<noteq> 0 then st
      else udp_recv_wait devs j n
             (netif_poll devs (case sk_nif (sk j st) of None \<Rightarrow> netif_default st | Some i \<Rightarrow> Some i) st))"

definition sock_udp_recv ::
  "devs \<Rightarrow> nat \<Rightarrow> u64 \<Rightarrow> u32 option \<Rightarrow> u32 \<Rightarrow> net \<Rightarrow> (int \<times> bytes \<times> (sockaddr_in \<times> u32) option) \<times> net" where
  "sock_udp_recv devs j len addrlen timeout_spins st =
     (let st = udp_ensure_local j st;
          st = deref j (udp_recv_wait devs j (unat timeout_spins) st);
          s = sk j st
      in if sk_rx_len s = 0 then ((0, [], None), st)
         else
           let n = (if ucast (sk_rx_len s) < len then sk_rx_len s else ucast len);
               st = ub_unless (unat n \<le> SOCK_UDP_RX_MAX) st
           in ((int (unat n), mem_get (sk_rx_buf s) 0 (unat n),
                fill_sockaddr addrlen (sk_rx_from_ip s) (sk_rx_from_port s)),
               upd_sk j (\<lambda>s. s\<lparr>sk_rx_len := 0\<rparr>) st))"

section \<open>Reference counts, reading and writing\<close>

definition sock_close :: "devs \<Rightarrow> nat option \<Rightarrow> net \<Rightarrow> net" where
  "sock_close devs p st =
     (case p of None \<Rightarrow> st | Some j \<Rightarrow>
      let st = deref j st in
      if sk_refs (sk j st) > 1 then upd_sk j (\<lambda>s. s\<lparr>sk_refs := sk_refs s - 1\<rparr>) st
      else
        let st = upd_sk j (\<lambda>s. s\<lparr>sk_refs := 0\<rparr>) st;
            st = (if sk_type (sk j st) = SOCK_UDP then udp_unregister j st else st);
            st = (if sk_pcb (sk j st) \<noteq> None then snd (tcp_pcb_close devs (sk_pcb (sk j st)) st) else st)
        in free_sock j st)"

definition sock_retain :: "nat option \<Rightarrow> net \<Rightarrow> bool \<times> net" where
  "sock_retain p st =
     (case p of None \<Rightarrow> (False, st)
      | Some j \<Rightarrow> (True, upd_sk j (\<lambda>s. s\<lparr>sk_refs := sk_refs s + 1\<rparr>) (deref j st)))"

definition SOCK_WAIT_SPINS :: u32 where "SOCK_WAIT_SPINS = 4000000"

text \<open>The conversion of a \<^verbatim>\<open>long\<close> result to \<^verbatim>\<open>int\<close>.\<close>

definition to_int :: "int \<Rightarrow> int" where
  "to_int r = sint (word_of_int r :: 32 word)"

definition sock_read :: "devs \<Rightarrow> nat option \<Rightarrow> int \<Rightarrow> net \<Rightarrow> (int \<times> bytes) \<times> net" where
  "sock_read devs p n st =
     (case p of None \<Rightarrow> ((-EBADF, []), st) | Some j \<Rightarrow>
      if n \<le> 0 then ((-EBADF, []), st)
      else
        let st = deref j st in
        if sk_type (sk j st) = SOCK_TCP
        then if sk_pcb (sk j st) = None then ((-EBADF, []), st)
             else tcp_pcb_recv devs (sk_pcb (sk j st)) (word_of_int n) SOCK_WAIT_SPINS st
        else case sock_udp_recv devs j (word_of_int n) None SOCK_WAIT_SPINS st of
               ((r, bs, _), st) \<Rightarrow> ((to_int r, bs), st))"

definition sock_write :: "devs \<Rightarrow> nat option \<Rightarrow> bytes \<Rightarrow> net \<Rightarrow> int \<times> net" where
  "sock_write devs p buf st =
     (case p of None \<Rightarrow> (-EBADF, st) | Some j \<Rightarrow>
      if buf = [] then (-EBADF, st)
      else
        let st = deref j st in
        if sk_type (sk j st) = SOCK_TCP
        then if sk_pcb (sk j st) = None then (-EBADF, st)
             else tcp_pcb_send devs (sk_pcb (sk j st)) (take (length buf mod 2 ^ 32) buf) st
        else let (r, st) = sock_udp_send devs j buf (sk_peer_ip (sk j st)) (sk_peer_port (sk j st)) st
             in (to_int r, st))"

section \<open>What the operations keep\<close>

lemma calm_upd_sk:
  assumes "\<And>s. sk_refs (f s) = sk_refs s \<and> sk_type (f s) = sk_type s \<and> sk_pcb (f s) = sk_pcb s"
    and "\<And>s. sk_ok s \<Longrightarrow> sk_ok (f s)"
  shows "calm P st (upd_sk j f st)"
  using assms
  by (auto simp: calm_def upd_sk_def wrapped_def net_inv_def sock_ok_def sk_view_def fun_eq_iff option.map_comp comp_def
      intro!: safe_vars split: option.splits)

lemma calm_deref: "calm (sk_view st j \<noteq> None) st (deref j st)"
proof -
  have "trip (sk_view st j \<noteq> None) {} st (deref j st)"
    unfolding deref_def by (rule trip_weaken [OF trip_ub]) (auto simp: sk_view_def)
  then show ?thesis by (rule calm_trip)
qed

lemma sk_deref [simp]: "sk j (deref i st) = sk j st" "sock_v (deref i st) = sock_v st" "sk_view (deref i st) = sk_view st"
  by (simp_all add: sk_def deref_def ub_unless_def sk_view_def fun_eq_iff)

lemma sk_view_Some: "sk_view st j \<noteq> None \<Longrightarrow> socks (sock_v st) j = Some (sk j st)"
  by (auto simp: sk_view_def sk_def)

lemma sk_ok_sk: "sound st \<Longrightarrow> sk_view st j \<noteq> None \<Longrightarrow> sk_ok (sk j st)"
  using sk_view_Some [of st j] by (auto simp: sound_def net_inv_def sock_ok_def)

lemma udp_alloc_ephemeral_calm: "calm P st (snd (udp_alloc_ephemeral st))"
  by (auto simp: calm_def udp_alloc_ephemeral_def Let_def upd_sock_v_def wrapped_def net_inv_def sock_ok_def
      sk_view_def fun_eq_iff intro!: safe_vars)

lemma udp_ensure_local_calm: "calm (sk_view st j \<noteq> None) st (udp_ensure_local j st)"
proof -
  obtain p s1 where e: "udp_alloc_ephemeral (deref j st) = (p, s1)" by fastforce
  have "calm (sk_view st j \<noteq> None) (deref j st) s1"
    using udp_alloc_ephemeral_calm [of _ "deref j st"] e by simp
  with calm_deref have 1: "calm (sk_view st j \<noteq> None) st s1" by (rule calm_trans)
  have "calm (sk_view st j \<noteq> None) s1 (upd_sk j (\<lambda>s. s\<lparr>sk_local_port := p, sk_bound := True\<rparr>) s1)"
    by (rule calm_upd_sk) (simp_all add: sk_ok_def)
  with 1 have "calm (sk_view st j \<noteq> None) st (upd_sk j (\<lambda>s. s\<lparr>sk_local_port := p, sk_bound := True\<rparr>) s1)"
    by (rule calm_trans)
  then show ?thesis using e calm_deref [of st j] by (simp add: udp_ensure_local_def Let_def)
qed

context net_driver
begin

lemma sock_udp_send_calm:
  "calm (sk_view st j \<noteq> None \<and> UDP_HDR_LEN + length buf mod 2 ^ 32 < 2 ^ 32) st
     (snd (sock_udp_send devs j buf ip port st))" (is "calm ?P st _")
proof -
  let ?s1 = "udp_ensure_local j st" let ?b = "take (length buf mod 2 ^ 32) buf"
  obtain r s2 where u: "udp_send devs (sk_nif (sk j ?s1)) ip (sk_local_port (sk j ?s1)) port ?b ?s1 = (r, s2)" by fastforce
  have 2: "calm (UDP_HDR_LEN + length ?b < 2 ^ 32) ?s1 (snd (r, s2))"
    unfolding u [symmetric] by (rule calm_trip [OF udp_send_trip])
  have 1: "calm ?P st ?s1" by (rule calm_weaken [OF udp_ensure_local_calm]) simp
  have "calm ?P st (snd (r, s2))"
    by (rule calm_seq [OF 1 2]) auto
  then show ?thesis using u by (simp add: sock_udp_send_def Let_def)
qed

lemma udp_recv_wait_calm: "calm (sk_view st j \<noteq> None) st (udp_recv_wait devs j n st)"
proof (induction n arbitrary: st)
  case (Suc n)
  let ?d = "deref j st"
  define s1 where "s1 = netif_poll devs (case sk_nif (sk j st) of None \<Rightarrow> netif_default ?d | Some i \<Rightarrow> Some i) ?d"
  have "calm (sk_view st j \<noteq> None) ?d s1"
    unfolding s1_def by (rule calm_trip [OF netif_poll_trip])
  from calm_trans [OF calm_deref this] have 1: "calm (sk_view st j \<noteq> None) st s1" .
  have "calm (sk_view st j \<noteq> None) st (udp_recv_wait devs j n s1)"
    by (rule calm_seq [OF 1 Suc]) simp
  then show ?case using calm_deref [of st j] by (simp add: Let_def s1_def)
qed simp

lemma sock_udp_recv_calm:
  "calm (sk_view st j \<noteq> None) st (snd (sock_udp_recv devs j len al w st))"
proof -
  let ?P = "sk_view st j \<noteq> None"
  define s1 where "s1 = udp_ensure_local j st"
  define s2 where "s2 = udp_recv_wait devs j (unat w) s1"
  define s3 where "s3 = deref j s2"
  have 1: "calm ?P st s1" unfolding s1_def by (rule udp_ensure_local_calm)
  have "calm ?P st s2" unfolding s2_def by (rule calm_seq [OF 1 udp_recv_wait_calm]) simp
  then have 3: "calm ?P st s3" unfolding s3_def by (rule calm_seq [OF _ calm_deref]) simp
  define n where "n = (if ucast (sk_rx_len (sk j s3)) < len then sk_rx_len (sk j s3) else ucast len)"
  have n: "unat n \<le> SOCK_UDP_RX_MAX" if "sound s3" "sk_view s3 j \<noteq> None"
  proof -
    have "unat (sk_rx_len (sk j s3)) \<le> SOCK_UDP_RX_MAX" using sk_ok_sk [OF that] by (simp add: sk_ok_def)
    moreover have "unat (ucast len :: u32) \<le> unat len" by (simp add: unsigned_ucast_eq take_bit_eq_mod)
    moreover have "unat len \<le> unat (sk_rx_len (sk j s3))" if "\<not> ucast (sk_rx_len (sk j s3)) < len"
      using that unat_ucast_eq [of "sk_rx_len (sk j s3)", where 'b = 64] unat_u32_bound [of "sk_rx_len (sk j s3)"]
      by (simp add: word_less_nat_alt)
    ultimately show ?thesis by (auto simp: n_def)
  qed
  have "trip (sk_view s3 j \<noteq> None) {} s3 (ub_unless (unat n \<le> SOCK_UDP_RX_MAX) s3)"
    by (rule trip_ub_if) (rule n)
  from calm_seq [OF 3 calm_trip [OF this]]
  have 4: "calm ?P st (ub_unless (unat n \<le> SOCK_UDP_RX_MAX) s3)" by simp
  have "calm ?P st (upd_sk j (\<lambda>s. s\<lparr>sk_rx_len := 0\<rparr>) (ub_unless (unat n \<le> SOCK_UDP_RX_MAX) s3))"
    by (rule calm_trans [OF 4 calm_upd_sk]) (simp_all add: sk_ok_def)
  then show ?thesis
    using 3 unfolding sock_udp_recv_def Let_def s1_def [symmetric] s2_def [symmetric] s3_def [symmetric] n_def [symmetric]
    by simp
qed

lemma sk_pcb_bound: "sound st \<Longrightarrow> sk_view st j \<noteq> None \<Longrightarrow> sk_pcb (sk j st) = Some i \<Longrightarrow> i < TCP_PCB_MAX"
  using sk_ok_sk [of st j] by (simp add: sk_ok_def)

lemma sock_read_calm:
  "calm (\<forall>j. p = Some j \<longrightarrow> sk_view st j \<noteq> None) st (snd (sock_read devs p n st))"
proof (cases p)
  case (Some j)
  let ?P = "sk_view st j \<noteq> None" and ?d = "deref j st"
  have t: "calm ?P st (snd (tcp_pcb_recv devs (sk_pcb (sk j st)) len w ?d))" for len w
    by (rule calm_seq [OF calm_deref calm_trip [OF tcp_pcb_recv_trip]])
      (use sk_pcb_bound [of ?d j] in auto)
  have u: "calm ?P st (snd (sock_udp_recv devs j len al w ?d))" for len al w
    by (rule calm_seq [OF calm_deref sock_udp_recv_calm]) simp
  show ?thesis
    using Some t u calm_deref [of st j] by (simp add: sock_read_def Let_def case_prod_beta)
qed (simp add: sock_read_def)

lemma sock_write_calm:
  "calm ((\<forall>j. p = Some j \<longrightarrow> sk_view st j \<noteq> None) \<and> UDP_HDR_LEN + length buf mod 2 ^ 32 < 2 ^ 32) st
     (snd (sock_write devs p buf st))"
proof (cases p)
  case (Some j)
  let ?P = "sk_view st j \<noteq> None \<and> UDP_HDR_LEN + length buf mod 2 ^ 32 < 2 ^ 32" and ?d = "deref j st"
  have d: "calm ?P st ?d" by (rule calm_weaken [OF calm_deref]) simp
  have t: "calm ?P st (snd (tcp_pcb_send devs (sk_pcb (sk j st)) b ?d))" for b
    by (rule calm_seq [OF d calm_trip [OF tcp_pcb_send_trip]]) (use sk_pcb_bound [of ?d j] in auto)
  have u: "calm ?P st (snd (sock_udp_send devs j buf ip port ?d))" for ip port
    by (rule calm_seq [OF d sock_udp_send_calm]) simp
  show ?thesis
    using Some t u d by (simp add: sock_write_def Let_def case_prod_beta)
qed (simp add: sock_write_def)

end

section \<open>Reference counting\<close>

text \<open>
  \<open>cnt j\<close> is the number of references to socket \<open>j\<close> that exist outside the table of UDP
  sockets. The allocated sockets are exactly those with a reference, each stores its number
  of references, and the table lists every UDP socket once and nothing else.
\<close>

definition sk_entry_ok :: "nat option list \<Rightarrow> nat \<Rightarrow> nat \<Rightarrow> int \<times> sock_type \<times> nat option \<Rightarrow> bool" where
  "sk_entry_ok tab j c e \<longleftrightarrow>
     (case e of (r, ty, pc) \<Rightarrow> r = int c \<and> c \<noteq> 0 \<and>
        (if ty = SOCK_UDP then pc = None \<and> count_list tab (Some j) = 1 else pc \<noteq> None \<and> count_list tab (Some j) = 0))"

definition sk_inv :: "(nat \<Rightarrow> nat) \<Rightarrow> net \<Rightarrow> bool" where
  "sk_inv cnt st \<longleftrightarrow>
     (\<forall>j. case sk_view st j of
        None \<Rightarrow> cnt j = 0 \<and> count_list (udp_socks (sock_v st)) (Some j) = 0
      | Some e \<Rightarrow> sk_entry_ok (udp_socks (sock_v st)) j (cnt j) e)"

lemma sk_inv_cong:
  "sk_view s' = sk_view s \<Longrightarrow> udp_socks (sock_v s') = udp_socks (sock_v s) \<Longrightarrow> sk_inv cnt s' = sk_inv cnt s"
  by (simp add: sk_inv_def cong: option.case_cong)

lemma calm_sk_inv: "calm P s s' \<Longrightarrow> sk_inv cnt s \<Longrightarrow> sk_inv cnt s'"
  using sk_inv_cong [of s' s cnt] by (simp add: calm_def)

lemma sk_inv_live: "sk_inv cnt st \<Longrightarrow> cnt j \<noteq> 0 \<Longrightarrow> sk_view st j \<noteq> None"
  by (auto simp: sk_inv_def dest!: spec [of _ j] split: option.splits)

text \<open>An update that changes the entry of one socket and leaves the others and the table's other slots.\<close>

lemma sk_inv_upd:
  assumes "sk_inv cnt st" "\<And>i. i \<noteq> j \<Longrightarrow> sk_view s' i = sk_view st i"
    and "\<And>i. i \<noteq> j \<Longrightarrow> count_list (udp_socks (sock_v s')) (Some i) = count_list (udp_socks (sock_v st)) (Some i)"
    and "case sk_view s' j of None \<Rightarrow> c = 0 \<and> count_list (udp_socks (sock_v s')) (Some j) = 0
       | Some e \<Rightarrow> sk_entry_ok (udp_socks (sock_v s')) j c e"
  shows "sk_inv (cnt(j := c)) s'"
  unfolding sk_inv_def
proof
  fix i
  show "case sk_view s' i of None \<Rightarrow> (cnt(j := c)) i = 0 \<and> count_list (udp_socks (sock_v s')) (Some i) = 0
      | Some e \<Rightarrow> sk_entry_ok (udp_socks (sock_v s')) i ((cnt(j := c)) i) e"
  proof (cases "i = j")
    case False
    then show ?thesis
      using assms(1) assms(2,3) [OF False]
      by (auto simp: sk_inv_def sk_entry_ok_def dest!: spec [of _ i] split: option.splits)
  qed (use assms(4) in \<open>auto split: option.splits\<close>)
qed

lemma count_list_unregister:
  "count_list (map (\<lambda>x. if x = Some j then None else x) tab) (Some i) = (if i = j then 0 else count_list tab (Some i))"
  by (induction tab) auto

lemma sk_view_upd_sk: "sk_view (upd_sk j f st) =
    (sk_view st)(j := map_option (\<lambda>s. (sk_refs (f s), sk_type (f s), sk_pcb (f s))) (socks (sock_v st) j))"
  by (auto simp: sk_view_def upd_sk_def fun_eq_iff option.map_comp comp_def)

lemma udp_socks_upd_sk [simp]: "udp_socks (sock_v (upd_sk j f st)) = udp_socks (sock_v st)"
  by (simp add: upd_sk_def)

lemma safe_upd_sk: "(\<And>s. sk_ok s \<Longrightarrow> sk_ok (f s)) \<Longrightarrow> safe P st (upd_sk j f st)"
  by (rule safe_vars) (auto simp: upd_sk_def wrapped_def net_inv_def sock_ok_def)

lemma safe_deref: "safe (sk_view st j \<noteq> None) st (deref j st)"
  using calm_deref [of st j] by (simp add: calm_def)

lemma safe_unregister: "safe P st (udp_unregister j st)"
  by (rule safe_vars) (auto simp: udp_unregister_def upd_sock_v_def wrapped_def net_inv_def sock_ok_def split: if_splits)

lemma safe_free_sock: "safe (count_list (udp_socks (sock_v st)) (Some j) = 0) st (free_sock j st)"
  by (rule safe_vars) (auto simp: free_sock_def upd_sock_v_def wrapped_def net_inv_def sock_ok_def count_list_0_iff)

lemma sock_retain_inv:
  assumes "sk_inv cnt st" "cnt j \<noteq> 0"
  shows "sk_inv (cnt(j := cnt j + 1)) (snd (sock_retain (Some j) st))" "fst (sock_retain (Some j) st)"
proof -
  have "sk_view st j \<noteq> None" using assms by (rule sk_inv_live)
  then show "sk_inv (cnt(j := cnt j + 1)) (snd (sock_retain (Some j) st))"
    using assms unfolding sock_retain_def option.case snd_conv
    by (intro sk_inv_upd [OF assms(1)])
      (auto simp: sk_view_upd_sk sk_view_def sk_inv_def sk_entry_ok_def dest!: spec [of _ j])
qed (simp add: sock_retain_def)

lemma sock_retain_safe: "safe (sk_inv cnt st \<and> (\<forall>j. p = Some j \<longrightarrow> cnt j \<noteq> 0)) st (snd (sock_retain p st))"
proof (cases p)
  case (Some j)
  have "safe (sk_inv cnt st \<and> cnt j \<noteq> 0) st (deref j st)"
    by (rule safe_weaken [OF safe_deref]) (use sk_inv_live in blast)
  then have "safe (sk_inv cnt st \<and> cnt j \<noteq> 0) st (upd_sk j (\<lambda>s. s\<lparr>sk_refs := sk_refs s + 1\<rparr>) (deref j st))"
    by (rule safe_trans [OF _ safe_upd_sk]) (simp add: sk_ok_def)
  then show ?thesis using Some by (simp add: sock_retain_def)
qed (simp add: sock_retain_def)

context net_driver
begin

lemma sock_close_inv:
  assumes inv: "sk_inv cnt st" and c: "cnt j \<noteq> 0"
  shows "sk_inv (cnt(j := cnt j - 1)) (sock_close devs (Some j) st)" "safe P st (sock_close devs (Some j) st)"
proof -
  let ?d = "deref j st"
  have v: "sk_view st j \<noteq> None" using inv c by (rule sk_inv_live)
  then obtain x where x: "socks (sock_v st) j = Some x" by (auto simp: sk_view_def)
  have s: "socks (sock_v st) j = Some (sk j st)" using x by (simp add: sk_def)
  have e: "sk_entry_ok (udp_socks (sock_v st)) j (cnt j) (sk_refs (sk j st), sk_type (sk j st), sk_pcb (sk j st))"
    using inv s by (simp add: sk_inv_def sk_view_def) (drule spec [of _ j], simp)
  then have r: "sk_refs (sk j st) = int (cnt j)" by (simp add: sk_entry_ok_def)
  have 0: "safe P st ?d" by (rule safe_weaken [OF safe_deref]) (rule v)
  have "sk_inv (cnt(j := cnt j - 1)) (sock_close devs (Some j) st) \<and> safe P st (sock_close devs (Some j) st)"
  proof (cases "cnt j > 1")
    case True
    let ?s1 = "upd_sk j (\<lambda>s. s\<lparr>sk_refs := sk_refs s - 1\<rparr>) ?d"
    have "sk_inv (cnt(j := cnt j - 1)) ?s1"
      using inv e True s
      by (intro sk_inv_upd [OF inv]) (auto simp: sk_view_upd_sk sk_entry_ok_def)
    moreover have "safe P st ?s1"
      by (rule safe_trans [OF 0 safe_upd_sk]) (simp add: sk_ok_def)
    ultimately show ?thesis using True r by (simp add: sock_close_def Let_def)
  next
    case False
    define s1 where "s1 = upd_sk j (\<lambda>s. s\<lparr>sk_refs := 0\<rparr>) ?d"
    define s2 where "s2 = (if sk_type (sk j s1) = SOCK_UDP then udp_unregister j s1 else s1)"
    define s3 where "s3 = (if sk_pcb (sk j s2) \<noteq> None then snd (tcp_pcb_close devs (sk_pcb (sk j s2)) s2) else s2)"
    have k1: "sk j s1 = (sk j st)\<lparr>sk_refs := 0\<rparr>" "udp_socks (sock_v s1) = udp_socks (sock_v st)"
      using x by (simp_all add: s1_def sk_def upd_sk_def)
    have k2: "sk j s2 = sk j s1" "sk_view s2 = sk_view s1"
      by (simp_all add: s2_def udp_unregister_def upd_sock_v_def sk_def sk_view_def fun_eq_iff)
    have t2: "count_list (udp_socks (sock_v s2)) (Some i) = (if i = j then 0 else count_list (udp_socks (sock_v st)) (Some i))" for i
      using e k1 by (auto simp: s2_def udp_unregister_def upd_sock_v_def count_list_unregister sk_entry_ok_def)
    have v1: "sk_view s1 i = sk_view st i" if "i \<noteq> j" for i
      using that by (simp add: s1_def sk_view_upd_sk)
    have v2: "sk_view s2 j \<noteq> None" using s by (simp add: k2 s1_def sk_view_upd_sk)
    have 3: "calm True s2 s3"
      unfolding s3_def using sk_pcb_bound [OF _ v2]
      by (auto intro!: calm_trip trip_weaken [OF tcp_pcb_close_trip])
    have "sk_inv (cnt(j := cnt j - 1)) (free_sock j s3)"
      using 3 v1 t2 False c
      by (intro sk_inv_upd [OF inv])
        (auto simp: free_sock_def upd_sock_v_def sk_view_def calm_def fun_eq_iff k2)
    moreover have "safe P st (free_sock j s3)"
    proof -
      have "safe P st s1" unfolding s1_def by (rule safe_trans [OF 0 safe_upd_sk]) (simp add: sk_ok_def)
      then have "safe P st s2" using safe_trans [OF _ safe_unregister] by (simp add: s2_def)
      moreover have "safe P s2 s3" using 3 safe_weaken [of True s2 s3 P] by (simp add: calm_def)
      ultimately have "safe P st s3" by (rule safe_trans)
      then show ?thesis
        by (rule safe_seq [OF _ safe_free_sock]) (use 3 t2 in \<open>simp add: calm_def\<close>)
    qed
    ultimately show ?thesis
      using False c r
      unfolding sock_close_def Let_def option.case s1_def [symmetric] s2_def [symmetric] s3_def [symmetric]
      by simp
  qed
  then show "sk_inv (cnt(j := cnt j - 1)) (sock_close devs (Some j) st)" "safe P st (sock_close devs (Some j) st)"
    by simp_all
qed

end

end
