(* ===== verification/Fd_Table.thy ===== *)
theory Fd_Table
  imports Sock
begin

text \<open>
  The descriptor tables of \<^verbatim>\<open>kernel/vfs/posixfd.c\<close>, as far as sockets are concerned: allocation
  of a slot, installation, closing, duplication and the inheritance of a table by a child
  process. The state is the network state with the tables of all processes and the process
  that runs. Files, block devices and rings are objects of other parts of the kernel; whether
  one can be inherited and what closing one returns are given by a \<open>fd_world\<close>.

  The lemmas show that the reference count of a socket is the number of slots that refer to
  it, whatever sequence of these operations has run, so that no descriptor refers to a freed
  socket and none is lost.
\<close>

section \<open>The tables\<close>

datatype fd_ent = FD_NONE | FD_TTY "nat option" | FD_VFS "nat option" | FD_URING "nat option"
  | FD_BLK "nat option" | FD_RESERVED | FD_SOCK "nat option"

definition FD_MAX :: nat where "FD_MAX = 64"
definition EMFILE :: int where "EMFILE = 24"

record proc =
  pr_fds :: "fd_ent list"
  pr_ctty :: "nat option"

record kern =
  k_net :: net
  k_procs :: "proc list"
  k_cur :: "nat option"

record fd_world =
  w_inherit :: "bool \<Rightarrow> fd_ent \<Rightarrow> bool"
  w_close :: "fd_ent \<Rightarrow> int"

definition fd_get :: "nat \<Rightarrow> nat \<Rightarrow> kern \<Rightarrow> fd_ent" where
  "fd_get p fd k = pr_fds (k_procs k ! p) ! fd"

definition fd_put :: "nat \<Rightarrow> nat \<Rightarrow> fd_ent \<Rightarrow> kern \<Rightarrow> kern" where
  "fd_put p fd e k =
     k\<lparr>k_procs := (k_procs k)[p := (k_procs k ! p)\<lparr>pr_fds := (pr_fds (k_procs k ! p))[fd := e]\<rparr>]\<rparr>"

definition on_net :: "(net \<Rightarrow> net) \<Rightarrow> kern \<Rightarrow> kern" where
  "on_net f k = k\<lparr>k_net := f (k_net k)\<rparr>"

section \<open>Slots\<close>

text \<open>
  The search for a free slot, with the recovery of slots that were reserved and never filled:
  when no slot is free, every reserved one becomes free and the search is repeated.
\<close>

definition fd_find :: "fd_ent list \<Rightarrow> nat option" where
  "fd_find tab = map_option (\<lambda>i. i + 3) (first_index (\<lambda>e. e = FD_NONE) (drop 3 tab))"

definition fd_recover :: "fd_ent list \<Rightarrow> fd_ent list" where
  "fd_recover tab = take 3 tab @ map (\<lambda>e. if e = FD_RESERVED then FD_NONE else e) (drop 3 tab)"

definition fd_alloc_tab :: "fd_ent list \<Rightarrow> int \<times> fd_ent list" where
  "fd_alloc_tab tab =
     (case fd_find tab of
        Some i \<Rightarrow> (int i, tab[i := FD_RESERVED])
      | None \<Rightarrow>
          if FD_RESERVED \<in> set (drop 3 tab)
          then let tab = fd_recover tab
               in case fd_find tab of Some i \<Rightarrow> (int i, tab[i := FD_RESERVED]) | None \<Rightarrow> (-EMFILE, tab)
          else (-EMFILE, tab))"

definition fd_alloc_slot :: "kern \<Rightarrow> int \<times> kern" where
  "fd_alloc_slot k =
     (case k_cur k of None \<Rightarrow> (-EMFILE, k) | Some p \<Rightarrow>
        let (fd, tab) = fd_alloc_tab (pr_fds (k_procs k ! p))
        in (fd, k\<lparr>k_procs := (k_procs k)[p := (k_procs k ! p)\<lparr>pr_fds := tab\<rparr>]\<rparr>))"

definition fd_ok :: "int \<Rightarrow> bool" where
  "fd_ok fd \<longleftrightarrow> 0 \<le> fd \<and> fd < int FD_MAX"

definition fd_install :: "int \<Rightarrow> fd_ent \<Rightarrow> kern \<Rightarrow> kern" where
  "fd_install fd e k =
     (case k_cur k of None \<Rightarrow> k | Some p \<Rightarrow>
        if fd_ok fd \<and> fd_get p (nat fd) k = FD_RESERVED then fd_put p (nat fd) e k else k)"

definition fd_release_slot :: "int \<Rightarrow> kern \<Rightarrow> kern" where
  "fd_release_slot fd k = fd_install fd FD_NONE k"

definition fd_force_install :: "int \<Rightarrow> fd_ent \<Rightarrow> kern \<Rightarrow> kern" where
  "fd_force_install fd e k =
     (case k_cur k of None \<Rightarrow> k | Some p \<Rightarrow> if fd_ok fd then fd_put p (nat fd) e k else k)"

definition sock_fd_alloc :: "kern \<Rightarrow> int \<times> kern" where
  "sock_fd_alloc k = fd_alloc_slot k"

definition sock_fd_install :: "int \<Rightarrow> nat option \<Rightarrow> kern \<Rightarrow> kern" where
  "sock_fd_install fd sock k = fd_install fd (FD_SOCK sock) k"

definition sock_fd_release :: "int \<Rightarrow> kern \<Rightarrow> kern" where
  "sock_fd_release fd k = fd_release_slot fd k"

definition sock_from_fd :: "int \<Rightarrow> kern \<Rightarrow> nat option" where
  "sock_from_fd fd k =
     (case k_cur k of None \<Rightarrow> None | Some p \<Rightarrow>
        if \<not> fd_ok fd then None
        else case fd_get p (nat fd) k of FD_SOCK s \<Rightarrow> s | _ \<Rightarrow> None)"

definition fd_istty :: "int \<Rightarrow> kern \<Rightarrow> nat option" where
  "fd_istty fd k =
     (case k_cur k of None \<Rightarrow> None | Some p \<Rightarrow>
        if \<not> fd_ok fd then None
        else case fd_get p (nat fd) k of
               FD_TTY t \<Rightarrow> t
             | FD_NONE \<Rightarrow> if fd < 3 then pr_ctty (k_procs k ! p) else None
             | FD_RESERVED \<Rightarrow> if fd < 3 then pr_ctty (k_procs k ! p) else None
             | _ \<Rightarrow> None)"

section \<open>Closing and duplicating\<close>

text \<open>What closing an entry does once its slot is cleared.\<close>

definition fd_drop :: "fd_world \<Rightarrow> devs \<Rightarrow> fd_ent \<Rightarrow> kern \<Rightarrow> int \<times> kern" where
  "fd_drop w devs e k =
     (case e of
        FD_VFS _ \<Rightarrow> (w_close w e, k)
      | FD_URING _ \<Rightarrow> (w_close w e, k)
      | FD_SOCK s \<Rightarrow> (0, on_net (sock_close devs s) k)
      | _ \<Rightarrow> (0, k))"

definition sys_close :: "fd_world \<Rightarrow> devs \<Rightarrow> int \<Rightarrow> kern \<Rightarrow> int \<times> kern" where
  "sys_close w devs fd k =
     (case k_cur k of None \<Rightarrow> (-EBADF, k) | Some p \<Rightarrow>
      if \<not> fd_ok fd then (-EBADF, k)
      else
        let e = fd_get p (nat fd) k in
        if fd < 3 \<and> (e = FD_NONE \<or> e = FD_RESERVED) then (0, k)
        else if e = FD_NONE \<or> e = FD_RESERVED then (-EBADF, k)
        else fd_drop w devs e (fd_put p (nat fd) FD_NONE k))"

text \<open>
  Taking another reference to the object of an entry; false when the object is closing or
  when the entry is of a kind that cannot be shared.
\<close>

definition fd_retain :: "fd_world \<Rightarrow> bool \<Rightarrow> fd_ent \<Rightarrow> kern \<Rightarrow> bool \<times> kern" where
  "fd_retain w for_fork e k =
     (case e of
        FD_VFS _ \<Rightarrow> (w_inherit w for_fork e, k)
      | FD_BLK _ \<Rightarrow> (w_inherit w for_fork e, k)
      | FD_URING _ \<Rightarrow> (w_inherit w for_fork e, k)
      | FD_SOCK s \<Rightarrow> let (ok, st) = sock_retain s (k_net k) in (ok, k\<lparr>k_net := st\<rparr>)
      | _ \<Rightarrow> (True, k))"

text \<open>The kinds of entry \<^verbatim>\<open>sys_dup\<close> and \<^verbatim>\<open>sys_dup2\<close> copy, besides terminals.\<close>

definition fd_dupable :: "fd_ent \<Rightarrow> bool" where
  "fd_dupable e \<longleftrightarrow> (case e of FD_VFS p \<Rightarrow> p \<noteq> None | FD_BLK p \<Rightarrow> p \<noteq> None | FD_SOCK p \<Rightarrow> p \<noteq> None | _ \<Rightarrow> False)"

definition sys_dup :: "fd_world \<Rightarrow> int \<Rightarrow> kern \<Rightarrow> int \<times> kern" where
  "sys_dup w oldfd k =
     (case k_cur k of None \<Rightarrow> (-EBADF, k) | Some p \<Rightarrow>
      if \<not> fd_ok oldfd then (-EBADF, k)
      else
        let e = fd_get p (nat oldfd) k in
        case fd_istty oldfd k of
          Some t \<Rightarrow>
            let (nf, k) = fd_alloc_slot k
            in if nf < 0 then (nf, k) else (nf, fd_install nf (FD_TTY (Some t)) k)
        | None \<Rightarrow>
            if \<not> fd_dupable e then (-EBADF, k)
            else
              let (nf, k) = fd_alloc_slot k in
              if nf < 0 then (nf, k)
              else
                let (ok, k) = fd_retain w False e k
                in if \<not> ok then (-EBADF, fd_release_slot nf k) else (nf, fd_install nf e k))"

definition sys_dup2 :: "fd_world \<Rightarrow> devs \<Rightarrow> int \<Rightarrow> int \<Rightarrow> kern \<Rightarrow> int \<times> kern" where
  "sys_dup2 w devs oldfd newfd k =
     (case k_cur k of None \<Rightarrow> (-EBADF, k) | Some p \<Rightarrow>
      if \<not> fd_ok oldfd \<or> \<not> fd_ok newfd then (-EBADF, k)
      else if oldfd = newfd then (newfd, k)
      else
        let e = fd_get p (nat oldfd) k in
        case fd_istty oldfd k of
          Some t \<Rightarrow>
            let k = snd (sys_close w devs newfd k) in (newfd, fd_force_install newfd (FD_TTY (Some t)) k)
        | None \<Rightarrow>
            if \<not> fd_dupable e then (-EBADF, k)
            else
              let (ok, k) = fd_retain w False e k
              in if \<not> ok then (-EBADF, k)
                 else let k = snd (sys_close w devs newfd k) in (newfd, fd_force_install newfd e k))"

section \<open>Inheritance\<close>

definition posix_fd_close_one :: "fd_world \<Rightarrow> devs \<Rightarrow> nat \<Rightarrow> nat \<Rightarrow> kern \<Rightarrow> kern" where
  "posix_fd_close_one w devs p fd k = snd (fd_drop w devs (fd_get p fd k) (fd_put p fd FD_NONE k))"

definition posix_fd_close_all :: "fd_world \<Rightarrow> devs \<Rightarrow> nat \<Rightarrow> kern \<Rightarrow> kern" where
  "posix_fd_close_all w devs p k = fold (posix_fd_close_one w devs p) [0..<FD_MAX] k"

fun clone_loop :: "fd_world \<Rightarrow> bool \<Rightarrow> nat \<Rightarrow> nat \<Rightarrow> nat list \<Rightarrow> kern \<Rightarrow> int \<times> kern" where
  "clone_loop w for_fork dst src [] k = (0, k)"
| "clone_loop w for_fork dst src (fd # fds) k =
     (let e = fd_get src fd k in
      if e = FD_RESERVED then clone_loop w for_fork dst src fds k
      else case fd_retain w for_fork e k of
             (False, k) \<Rightarrow> (-EAGAIN, k)
           | (True, k) \<Rightarrow> clone_loop w for_fork dst src fds (fd_put dst fd e k))"

definition posix_fd_clone_mode :: "fd_world \<Rightarrow> devs \<Rightarrow> nat \<Rightarrow> nat \<Rightarrow> bool \<Rightarrow> kern \<Rightarrow> int \<times> kern" where
  "posix_fd_clone_mode w devs dst src for_fork k =
     (let (r, k) = clone_loop w for_fork dst src [0..<FD_MAX] k
      in (r, if r \<noteq> 0 then posix_fd_close_all w devs dst k else k))"

definition posix_fd_clone :: "fd_world \<Rightarrow> devs \<Rightarrow> nat \<Rightarrow> nat \<Rightarrow> kern \<Rightarrow> int \<times> kern" where
  "posix_fd_clone w devs dst src k = posix_fd_clone_mode w devs dst src False k"

definition posix_fd_clone_fork :: "fd_world \<Rightarrow> devs \<Rightarrow> nat \<Rightarrow> nat \<Rightarrow> kern \<Rightarrow> int \<times> kern" where
  "posix_fd_clone_fork w devs dst src k = posix_fd_clone_mode w devs dst src True k"

section \<open>References held by descriptors\<close>

definition refs_of :: "kern \<Rightarrow> nat \<Rightarrow> nat" where
  "refs_of k j = sum_list (map (\<lambda>p. count_list (pr_fds p) (FD_SOCK (Some j))) (k_procs k))"

definition tabs_ok :: "kern \<Rightarrow> bool" where
  "tabs_ok k \<longleftrightarrow> (\<forall>p \<in> set (k_procs k). length (pr_fds p) = FD_MAX) \<and> (\<forall>c. k_cur k = Some c \<longrightarrow> c < length (k_procs k))"

text \<open>
  The invariant, with \<open>ex j\<close> references to socket \<open>j\<close> that a call in progress holds and has
  not yet stored in a table.
\<close>

definition kern_ok :: "(nat \<Rightarrow> nat) \<Rightarrow> kern \<Rightarrow> bool" where
  "kern_ok ex k \<longleftrightarrow> tabs_ok k \<and> sk_inv (\<lambda>j. refs_of k j + ex j) (k_net k)"

definition held :: "fd_ent \<Rightarrow> nat \<Rightarrow> nat" where
  "held e j = of_bool (e = FD_SOCK (Some j))"

lemma held_simps [simp]:
  "held FD_NONE = (\<lambda>_. 0)" "held FD_RESERVED = (\<lambda>_. 0)" "held (FD_TTY x) = (\<lambda>_. 0)" "held (FD_VFS x) = (\<lambda>_. 0)"
  "held (FD_URING x) = (\<lambda>_. 0)" "held (FD_BLK x) = (\<lambda>_. 0)" "held (FD_SOCK None) = (\<lambda>_. 0)"
  "held (FD_SOCK (Some i)) j = of_bool (i = j)"
  by (auto simp: held_def fun_eq_iff)

lemma count_list_put: "i < length xs \<Longrightarrow> count_list (xs[i := e]) x + of_bool (xs ! i = x) = count_list xs x + of_bool (e = x)"
proof (induction xs arbitrary: i)
  case (Cons a xs)
  then show ?case by (cases i) (simp, use Cons.IH in \<open>fastforce\<close>)
qed simp

lemma sum_list_put:
  fixes f :: "'a \<Rightarrow> nat"
  shows "i < length xs \<Longrightarrow> sum_list (map f (xs[i := x])) + f (xs ! i) = sum_list (map f xs) + f x"
proof (induction xs arbitrary: i)
  case (Cons a xs)
  then show ?case by (cases i) (simp, use Cons.IH in \<open>fastforce\<close>)
qed simp

lemma refs_put:
  assumes "p < length (k_procs k)" "fd < length (pr_fds (k_procs k ! p))"
  shows "refs_of (fd_put p fd e k) j + held (fd_get p fd k) j = refs_of k j + held e j"
  using sum_list_put [OF assms(1), of "\<lambda>p. count_list (pr_fds p) (FD_SOCK (Some j))"
      "(k_procs k ! p)\<lparr>pr_fds := (pr_fds (k_procs k ! p))[fd := e]\<rparr>"]
    count_list_put [OF assms(2), of e "FD_SOCK (Some j)"]
  by (simp add: refs_of_def fd_put_def fd_get_def held_def)

lemma fd_put_simps [simp]:
  "k_net (fd_put p fd e k) = k_net k" "k_cur (fd_put p fd e k) = k_cur k"
  "length (k_procs (fd_put p fd e k)) = length (k_procs k)"
  by (simp_all add: fd_put_def)

lemma fd_get_put:
  assumes "p < length (k_procs k)" "fd < length (pr_fds (k_procs k ! p))"
  shows "fd_get q fd' (fd_put p fd e k) = (if q = p \<and> fd' = fd then e else fd_get q fd' k)"
  using assms by (auto simp: fd_get_def fd_put_def nth_list_update)

lemma tabs_ok_put [simp]: "tabs_ok k \<Longrightarrow> tabs_ok (fd_put p fd e k)"
proof (cases "p < length (k_procs k)")
  case True
  assume "tabs_ok k"
  with True show ?thesis by (auto simp: tabs_ok_def fd_put_def dest!: subsetD [OF set_update_subset_insert])
qed (simp add: tabs_ok_def fd_put_def list_update_beyond)

lemma fd_ok_nat [simp]: "fd_ok fd \<Longrightarrow> nat fd < FD_MAX"
  by (auto simp: fd_ok_def nat_less_iff)

lemma tabs_ok_slot:
  "tabs_ok k \<Longrightarrow> p < length (k_procs k) \<Longrightarrow> fd < FD_MAX \<Longrightarrow> fd < length (pr_fds (k_procs k ! p))"
  by (simp add: tabs_ok_def)

text \<open>Storing a reference that is held, and clearing a slot.\<close>

lemma kern_ok_put:
  assumes "kern_ok (\<lambda>j. ex j + held e j) k" "p < length (k_procs k)" "fd < FD_MAX" "held (fd_get p fd k) = (\<lambda>_. 0)"
  shows "kern_ok ex (fd_put p fd e k)"
proof -
  have t: "tabs_ok k" using assms(1) by (simp add: kern_ok_def)
  have "refs_of (fd_put p fd e k) j = refs_of k j + held e j" for j
    using refs_put [OF assms(2) tabs_ok_slot [OF t assms(2,3)], of e j] assms(4) by simp
  then show ?thesis using assms(1) t by (simp add: kern_ok_def ac_simps)
qed

lemma kern_ok_clear:
  assumes "kern_ok ex k" "p < length (k_procs k)" "fd < FD_MAX"
  shows "kern_ok (\<lambda>j. ex j + held (fd_get p fd k) j) (fd_put p fd FD_NONE k)"
proof -
  have t: "tabs_ok k" using assms(1) by (simp add: kern_ok_def)
  have "refs_of k j = refs_of (fd_put p fd FD_NONE k) j + held (fd_get p fd k) j" for j
    using refs_put [OF assms(2) tabs_ok_slot [OF t assms(2,3)], of FD_NONE j] by simp
  then show ?thesis using assms(1) t by (simp add: kern_ok_def ac_simps)
qed

lemma refs_of_slot:
  assumes "tabs_ok k" "p < length (k_procs k)" "fd < FD_MAX" "fd_get p fd k = FD_SOCK (Some j)"
  shows "refs_of k j \<noteq> 0"
  using refs_put [OF assms(2) tabs_ok_slot [OF assms(1-3)], of FD_NONE j] assms(4) by simp

lemma kern_ok_net:
  assumes "sk_inv (\<lambda>j. refs_of k j + ex j) st" "tabs_ok k"
  shows "kern_ok ex (k\<lparr>k_net := st\<rparr>)"
  using assms by (simp add: kern_ok_def tabs_ok_def refs_of_def)

text \<open>Allocating a slot changes no reference.\<close>

lemma fd_find_free: "fd_find tab = Some i \<Longrightarrow> i < length tab \<and> 3 \<le> i \<and> tab ! i = FD_NONE"
  by (auto simp: fd_find_def add.commute [of _ 3] dest!: first_index_bound)

lemma count_list_recover: "count_list (fd_recover tab) (FD_SOCK s) = count_list tab (FD_SOCK s)"
proof -
  have "count_list (map (\<lambda>e. if e = FD_RESERVED then FD_NONE else e) xs) (FD_SOCK s) = count_list xs (FD_SOCK s)" for xs
    by (induction xs) auto
  then show ?thesis
    using append_take_drop_id [of 3 tab] count_list_append [of "take 3 tab" "drop 3 tab" "FD_SOCK s"]
    by (simp add: fd_recover_def)
qed

lemma count_list_reserve: "tab ! i = FD_NONE \<Longrightarrow> i < length tab \<Longrightarrow> count_list (tab[i := FD_RESERVED]) (FD_SOCK s) = count_list tab (FD_SOCK s)"
  using count_list_put [of i tab FD_RESERVED "FD_SOCK s"] by simp

lemma fd_alloc_tab_props:
  assumes "fd_alloc_tab tab = (fd, tab')"
  shows "length tab' = length tab" "count_list tab' (FD_SOCK s) = count_list tab (FD_SOCK s)"
    "0 \<le> fd \<Longrightarrow> 3 \<le> fd \<and> nat fd < length tab \<and> tab' ! nat fd = FD_RESERVED"
proof -
  have l: "length (fd_recover tab) = length tab" by (simp add: fd_recover_def)
  have *: "length tab' = length tab \<and> count_list tab' (FD_SOCK s) = count_list tab (FD_SOCK s) \<and>
      (0 \<le> fd \<longrightarrow> 3 \<le> fd \<and> nat fd < length tab \<and> tab' ! nat fd = FD_RESERVED)"
    using assms l
    by (auto simp: fd_alloc_tab_def Let_def EMFILE_def count_list_recover count_list_reserve
        dest!: fd_find_free split: option.splits if_splits)
  then show "length tab' = length tab" "count_list tab' (FD_SOCK s) = count_list tab (FD_SOCK s)"
    "0 \<le> fd \<Longrightarrow> 3 \<le> fd \<and> nat fd < length tab \<and> tab' ! nat fd = FD_RESERVED" by simp_all
qed

lemma fd_alloc_slot_props:
  assumes "fd_alloc_slot k = (fd, k')" "tabs_ok k"
  shows "tabs_ok k'" "refs_of k' = refs_of k" "k_net k' = k_net k" "k_cur k' = k_cur k"
    "length (k_procs k') = length (k_procs k)"
    "0 \<le> fd \<Longrightarrow> fd_ok fd \<and> (\<exists>p. k_cur k = Some p \<and> p < length (k_procs k) \<and> fd_get p (nat fd) k' = FD_RESERVED)"
proof -
  have "tabs_ok k' \<and> refs_of k' = refs_of k \<and> k_net k' = k_net k \<and> k_cur k' = k_cur k \<and>
      length (k_procs k') = length (k_procs k) \<and>
      (0 \<le> fd \<longrightarrow> fd_ok fd \<and> (\<exists>p. k_cur k = Some p \<and> p < length (k_procs k) \<and> fd_get p (nat fd) k' = FD_RESERVED))"
  proof (cases "k_cur k")
    case (Some p)
    obtain tab where a: "fd_alloc_tab (pr_fds (k_procs k ! p)) = (fd, tab)"
      and k': "k' = k\<lparr>k_procs := (k_procs k)[p := (k_procs k ! p)\<lparr>pr_fds := tab\<rparr>]\<rparr>"
      using assms(1) Some by (auto simp: fd_alloc_slot_def split: prod.splits)
    have p: "p < length (k_procs k)" "length (pr_fds (k_procs k ! p)) = FD_MAX"
      using assms(2) Some by (simp_all add: tabs_ok_def)
    note f = fd_alloc_tab_props [OF a]
    have "refs_of k' j = refs_of k j" for j
      using sum_list_put [OF p(1), of "\<lambda>p. count_list (pr_fds p) (FD_SOCK (Some j))" "(k_procs k ! p)\<lparr>pr_fds := tab\<rparr>"]
        f(2) [of "Some j"] by (simp add: refs_of_def k')
    moreover have "tabs_ok k'"
      using assms(2) p f(1) by (auto simp: tabs_ok_def k' dest!: subsetD [OF set_update_subset_insert])
    moreover have "fd_ok fd \<and> fd_get p (nat fd) k' = FD_RESERVED" if "0 \<le> fd"
      using f(3) [OF that] p that by (auto simp: fd_ok_def fd_get_def k' nat_less_iff)
    ultimately show ?thesis using p Some by (auto simp: k' fun_eq_iff)
  qed (use assms in \<open>auto simp: fd_alloc_slot_def EMFILE_def\<close>)
  then show "tabs_ok k'" "refs_of k' = refs_of k" "k_net k' = k_net k" "k_cur k' = k_cur k"
    "length (k_procs k') = length (k_procs k)"
    "0 \<le> fd \<Longrightarrow> fd_ok fd \<and> (\<exists>p. k_cur k = Some p \<and> p < length (k_procs k) \<and> fd_get p (nat fd) k' = FD_RESERVED)"
    by simp_all
qed

lemma kern_ok_alloc: "fd_alloc_slot k = (fd, k') \<Longrightarrow> kern_ok ex k \<Longrightarrow> kern_ok ex k'"
  using fd_alloc_slot_props [of k fd k'] by (simp add: kern_ok_def)

text \<open>Installing an entry in the slot just allocated.\<close>

lemma kern_ok_install:
  assumes "kern_ok (\<lambda>j. ex j + held e j) k" "fd_ok fd" "k_cur k = Some p" "fd_get p (nat fd) k = FD_RESERVED"
  shows "kern_ok ex (fd_install fd e k)"
proof -
  have "p < length (k_procs k)" using assms(1,3) by (simp add: kern_ok_def tabs_ok_def)
  then show ?thesis
    using assms kern_ok_put [of ex e k p "nat fd"] by (simp add: fd_install_def)
qed

context net_driver
begin

text \<open>Closing an entry gives up the reference it held.\<close>

lemma fd_drop_ok:
  assumes "kern_ok (\<lambda>j. ex j + held e j) k"
  shows "kern_ok ex (snd (fd_drop w devs e k))" "safe P (k_net k) (k_net (snd (fd_drop w devs e k)))"
    "k_procs (snd (fd_drop w devs e k)) = k_procs k" "k_cur (snd (fd_drop w devs e k)) = k_cur k"
proof -
  show "k_procs (snd (fd_drop w devs e k)) = k_procs k" "k_cur (snd (fd_drop w devs e k)) = k_cur k"
    by (simp_all add: fd_drop_def on_net_def split: fd_ent.splits)
  show "kern_ok ex (snd (fd_drop w devs e k))" "safe P (k_net k) (k_net (snd (fd_drop w devs e k)))"
  proof (atomize (full), cases "\<exists>j. e = FD_SOCK (Some j)")
    case False
    then have "held e = (\<lambda>_. 0)" by (cases e) (auto simp: held_def)
    moreover have "snd (fd_drop w devs e k) = k"
      using False by (cases e) (auto simp: fd_drop_def on_net_def sock_close_def split: option.splits)
    ultimately show "kern_ok ex (snd (fd_drop w devs e k)) \<and> safe P (k_net k) (k_net (snd (fd_drop w devs e k)))"
      using assms by simp
  next
    case True
    then obtain j where e: "e = FD_SOCK (Some j)" by auto
    define cnt where "cnt = (\<lambda>i. refs_of k i + (ex i + held e i))"
    have inv: "sk_inv cnt (k_net k)" and t: "tabs_ok k" using assms by (simp_all add: kern_ok_def cnt_def)
    have c: "cnt j \<noteq> 0" by (simp add: cnt_def e)
    have "cnt(j := cnt j - 1) = (\<lambda>i. refs_of k i + ex i)" by (auto simp: cnt_def e fun_eq_iff)
    then have "kern_ok ex (k\<lparr>k_net := sock_close devs (Some j) (k_net k)\<rparr>)"
      using sock_close_inv(1) [OF inv c] t by (intro kern_ok_net) simp_all
    then show "kern_ok ex (snd (fd_drop w devs e k)) \<and> safe P (k_net k) (k_net (snd (fd_drop w devs e k)))"
      using sock_close_inv(2) [OF inv c] by (simp add: fd_drop_def on_net_def e)
  qed
qed

lemma close_slot_ok:
  assumes "kern_ok ex k" "p < length (k_procs k)" "fd < FD_MAX"
  shows "kern_ok ex (snd (fd_drop w devs (fd_get p fd k) (fd_put p fd FD_NONE k)))"
    "safe P (k_net k) (k_net (snd (fd_drop w devs (fd_get p fd k) (fd_put p fd FD_NONE k))))"
  using fd_drop_ok(1,2) [OF kern_ok_clear [OF assms]] by simp_all

lemma sys_close_ok:
  assumes "kern_ok ex k"
  shows "kern_ok ex (snd (sys_close w devs fd k))" "safe P (k_net k) (k_net (snd (sys_close w devs fd k)))"
    "k_cur (snd (sys_close w devs fd k)) = k_cur k" "length (k_procs (snd (sys_close w devs fd k))) = length (k_procs k)"
    "k_cur k = Some p \<Longrightarrow> fd_ok fd \<Longrightarrow> held (fd_get p (nat fd) (snd (sys_close w devs fd k))) = (\<lambda>_. 0)"
proof -
  have *: "kern_ok ex (snd (sys_close w devs fd k)) \<and> safe P (k_net k) (k_net (snd (sys_close w devs fd k))) \<and>
    k_cur (snd (sys_close w devs fd k)) = k_cur k \<and> length (k_procs (snd (sys_close w devs fd k))) = length (k_procs k) \<and>
    (k_cur k = Some p \<longrightarrow> fd_ok fd \<longrightarrow> held (fd_get p (nat fd) (snd (sys_close w devs fd k))) = (\<lambda>_. 0))"
  proof (cases "k_cur k")
    case (Some q)
    have q: "q < length (k_procs k)" "tabs_ok k" using assms Some by (simp_all add: kern_ok_def tabs_ok_def)
    show ?thesis
    proof (cases "fd_ok fd \<and> fd_get q (nat fd) k \<noteq> FD_NONE \<and> fd_get q (nat fd) k \<noteq> FD_RESERVED")
      case True
      then have n: "nat fd < FD_MAX" by (auto simp: fd_ok_def)
      let ?k1 = "fd_put q (nat fd) FD_NONE k" let ?k2 = "snd (fd_drop w devs (fd_get q (nat fd) k) ?k1)"
      note d = fd_drop_ok(3,4) [OF kern_ok_clear [OF assms q(1) n], of w]
      have "fd_get q (nat fd) ?k2 = FD_NONE"
        using fd_get_put [OF q(1) tabs_ok_slot [OF q(2,1) n], of q "nat fd" FD_NONE] d(1) by (simp add: fd_get_def)
      moreover have "snd (sys_close w devs fd k) = ?k2" using True Some by (simp add: sys_close_def Let_def)
      ultimately show ?thesis using close_slot_ok [OF assms q(1) n, where w = w] d Some by auto
    next
      case False
      then have "snd (sys_close w devs fd k) = k" using Some by (auto simp: sys_close_def Let_def)
      then show ?thesis using assms False Some by auto
    qed
  qed (use assms in \<open>simp add: sys_close_def\<close>)
  then show "kern_ok ex (snd (sys_close w devs fd k))" "safe P (k_net k) (k_net (snd (sys_close w devs fd k)))"
    "k_cur (snd (sys_close w devs fd k)) = k_cur k" "length (k_procs (snd (sys_close w devs fd k))) = length (k_procs k)"
    "k_cur k = Some p \<Longrightarrow> fd_ok fd \<Longrightarrow> held (fd_get p (nat fd) (snd (sys_close w devs fd k))) = (\<lambda>_. 0)" by simp_all
qed

end

lemma fd_retain_ok:
  assumes "kern_ok ex k" "fd_retain w ff e k = (ok, k')" "\<And>j. e = FD_SOCK (Some j) \<Longrightarrow> refs_of k j \<noteq> 0"
  shows "kern_ok (\<lambda>j. ex j + (if ok then held e j else 0)) k'" "safe P (k_net k) (k_net k')"
    "k_procs k' = k_procs k" "k_cur k' = k_cur k"
proof -
  show "k_procs k' = k_procs k" "k_cur k' = k_cur k"
    using assms(2) by (auto simp: fd_retain_def Let_def split: fd_ent.splits prod.splits)
  show "kern_ok (\<lambda>j. ex j + (if ok then held e j else 0)) k'" "safe P (k_net k) (k_net k')"
  proof (atomize (full), cases "\<exists>j. e = FD_SOCK (Some j)")
    case False
    then have "held e = (\<lambda>_. 0)" by (cases e) (auto simp: held_def)
    moreover have "k' = k"
      using False assms(2) by (cases e) (auto simp: fd_retain_def sock_retain_def split: option.splits)
    ultimately show "kern_ok (\<lambda>j. ex j + (if ok then held e j else 0)) k' \<and> safe P (k_net k) (k_net k')"
      using assms(1) by (cases ok) simp_all
  next
    case True
    then obtain j where e: "e = FD_SOCK (Some j)" by auto
    define cnt where "cnt = (\<lambda>i. refs_of k i + ex i)"
    have inv: "sk_inv cnt (k_net k)" and t: "tabs_ok k" using assms(1) by (simp_all add: kern_ok_def cnt_def)
    have c: "cnt j \<noteq> 0" using assms(3) [OF e] by (simp add: cnt_def)
    let ?st = "snd (sock_retain (Some j) (k_net k))"
    have k': "ok" "k' = k\<lparr>k_net := ?st\<rparr>"
      using assms(2) sock_retain_inv(2) [OF inv c] by (auto simp: fd_retain_def e split: prod.splits)
    have "cnt(j := cnt j + 1) = (\<lambda>i. refs_of k i + (ex i + held e i))" by (auto simp: cnt_def e fun_eq_iff)
    then have "kern_ok (\<lambda>i. ex i + held e i) k'"
      unfolding k'(2) using sock_retain_inv(1) [OF inv c] t by (intro kern_ok_net) simp_all
    moreover have "safe P (k_net k) ?st"
      by (rule safe_weaken [OF sock_retain_safe]) (use inv c in auto)
    ultimately show "kern_ok (\<lambda>j. ex j + (if ok then held e j else 0)) k' \<and> safe P (k_net k) (k_net k')"
      using k' by simp
  qed
qed

lemma refs_of_cong: "k_procs k' = k_procs k \<Longrightarrow> refs_of k' = refs_of k"
  by (simp add: refs_of_def fun_eq_iff)

lemma fd_get_cong: "k_procs k' = k_procs k \<Longrightarrow> fd_get p fd k' = fd_get p fd k"
  by (simp add: fd_get_def)

lemma sys_dup_ok:
  assumes "kern_ok ex k"
  shows "kern_ok ex (snd (sys_dup w fd k))" "safe P (k_net k) (k_net (snd (sys_dup w fd k)))"
proof -
  obtain nf k1 where a: "fd_alloc_slot k = (nf, k1)" by fastforce
  have t: "tabs_ok k" using assms by (simp add: kern_ok_def)
  note ap = fd_alloc_slot_props [OF a t]
  have k1: "kern_ok ex k1" using a assms by (rule kern_ok_alloc)
  have "kern_ok ex (snd (sys_dup w fd k)) \<and> safe P (k_net k) (k_net (snd (sys_dup w fd k)))"
  proof (cases "\<exists>p. k_cur k = Some p \<and> fd_ok fd \<and> 0 \<le> nf")
    case False
    then show ?thesis
      using assms a k1 ap(3) by (auto simp: sys_dup_def Let_def split: option.splits)
  next
    case True
    then obtain p where p: "k_cur k = Some p" "fd_ok fd" "0 \<le> nf" "fd_ok nf" "fd_get p (nat nf) k1 = FD_RESERVED"
      using ap(6) by auto
    have pl: "p < length (k_procs k)" using t p by (simp add: tabs_ok_def)
    have in1: "k_net (fd_install nf e k') = k_net k'" for e k' by (simp add: fd_install_def split: option.splits)
    show ?thesis
    proof (cases "fd_istty fd k")
      case (Some x)
      then show ?thesis
        using kern_ok_install [of ex "FD_TTY (Some x)" k1 nf p] k1 p ap in1 a by (simp add: sys_dup_def Let_def)
    next
      case None
      define e where "e = fd_get p (nat fd) k"
      obtain ok k2 where r: "fd_retain w False e k1 = (ok, k2)" by fastforce
      have "refs_of k1 j \<noteq> 0" if "e = FD_SOCK (Some j)" for j
        using refs_of_slot [OF t pl _ that [unfolded e_def]] p(2) ap(2) by simp
      note r2 = fd_retain_ok [OF k1 r this]
      have slot: "fd_get p (nat nf) k2 = FD_RESERVED" using fd_get_cong [OF r2(3)] p(5) by simp
      have cur: "k_cur k2 = Some p" using r2(4) ap(4) p by simp
      have "kern_ok ex (fd_install nf e k2)" if ok
        using kern_ok_install [of ex e k2, OF _ p(4) cur slot] r2(1) that by simp
      moreover have "kern_ok ex (fd_install nf FD_NONE k2)" if "\<not> ok"
        using kern_ok_install [of ex FD_NONE k2, OF _ p(4) cur slot] r2(1) that by simp
      moreover have "safe P (k_net k) (k_net k2)" using r2(2) ap(3) by simp
      ultimately show ?thesis
        using None p a r assms in1
        by (simp add: sys_dup_def Let_def e_def [symmetric] fd_release_slot_def)
    qed
  qed
  then show "kern_ok ex (snd (sys_dup w fd k))" "safe P (k_net k) (k_net (snd (sys_dup w fd k)))" by simp_all
qed

context net_driver
begin

lemma force_install_ok:
  assumes "kern_ok (\<lambda>j. ex j + held e j) k" "k_cur k = Some p" "fd_ok fd" "p < length (k_procs k)"
  shows "kern_ok ex (fd_force_install fd e (snd (sys_close w devs fd k)))"
    "safe P (k_net k) (k_net (fd_force_install fd e (snd (sys_close w devs fd k))))"
proof -
  let ?k1 = "snd (sys_close w devs fd k)"
  note c = sys_close_ok [OF assms(1), where w = w and fd = fd]
  have "held (fd_get p (nat fd) ?k1) = (\<lambda>_. 0)" using c(5) assms by blast
  then have "kern_ok ex (fd_put p (nat fd) e ?k1)"
    using kern_ok_put [OF c(1), of p "nat fd"] c(4) assms by simp
  then show "kern_ok ex (fd_force_install fd e ?k1)"
    "safe P (k_net k) (k_net (fd_force_install fd e (snd (sys_close w devs fd k))))"
    using c(2,3) assms by (simp_all add: fd_force_install_def)
qed

lemma sys_dup2_ok:
  assumes "kern_ok ex k"
  shows "kern_ok ex (snd (sys_dup2 w devs old new k))" "safe P (k_net k) (k_net (snd (sys_dup2 w devs old new k)))"
proof -
  have t: "tabs_ok k" using assms by (simp add: kern_ok_def)
  have "kern_ok ex (snd (sys_dup2 w devs old new k)) \<and> safe P (k_net k) (k_net (snd (sys_dup2 w devs old new k)))"
  proof (cases "\<exists>p. k_cur k = Some p \<and> fd_ok old \<and> fd_ok new \<and> old \<noteq> new")
    case False
    then show ?thesis using assms by (auto simp: sys_dup2_def split: option.splits)
  next
    case True
    then obtain p where p: "k_cur k = Some p" "fd_ok old" "fd_ok new" "old \<noteq> new" by auto
    have pl: "p < length (k_procs k)" using t p by (simp add: tabs_ok_def)
    show ?thesis
    proof (cases "fd_istty old k")
      case (Some x)
      then show ?thesis
        using force_install_ok [where ex = ex and e = "FD_TTY (Some x)" and k = k and p = p and fd = new and w = w] assms p pl by (simp add: sys_dup2_def Let_def)
    next
      case None
      define e where "e = fd_get p (nat old) k"
      obtain ok k1 where r: "fd_retain w False e k = (ok, k1)" by fastforce
      have "refs_of k j \<noteq> 0" if "e = FD_SOCK (Some j)" for j
        using refs_of_slot [OF t pl _ that [unfolded e_def]] p(2) by simp
      note r1 = fd_retain_ok [OF assms r this]
      have "kern_ok ex (fd_force_install new e (snd (sys_close w devs new k1))) \<and>
          safe P (k_net k) (k_net (fd_force_install new e (snd (sys_close w devs new k1))))" if ok
        using force_install_ok [where ex = ex and e = e and k = k1 and p = p and fd = new and w = w] r1(1,3,4) safe_trans [OF r1(2)] that p pl by simp
      then show ?thesis
        using None p r r1(1,2) assms by (cases ok) (simp_all add: sys_dup2_def Let_def e_def [symmetric])
    qed
  qed
  then show "kern_ok ex (snd (sys_dup2 w devs old new k))" "safe P (k_net k) (k_net (snd (sys_dup2 w devs old new k)))"
    by simp_all
qed

lemma close_all_ok:
  assumes "kern_ok ex k" "p < length (k_procs k)" "\<forall>fd \<in> set fds. fd < FD_MAX"
  shows "kern_ok ex (fold (posix_fd_close_one w devs p) fds k) \<and>
    safe P (k_net k) (k_net (fold (posix_fd_close_one w devs p) fds k)) \<and>
    length (k_procs (fold (posix_fd_close_one w devs p) fds k)) = length (k_procs k) \<and>
    k_cur (fold (posix_fd_close_one w devs p) fds k) = k_cur k"
  using assms
proof (induction fds arbitrary: k)
  case (Cons fd fds)
  let ?k1 = "posix_fd_close_one w devs p fd k"
  have fd: "fd < FD_MAX" using Cons.prems by simp
  note c = close_slot_ok [OF Cons.prems(1,2) fd, where w = w, folded posix_fd_close_one_def]
  note d = fd_drop_ok(3,4) [OF kern_ok_clear [OF Cons.prems(1,2) fd], of w, folded posix_fd_close_one_def]
  have "p < length (k_procs ?k1)" using d(1) Cons.prems(2) by simp
  from Cons.IH [OF c(1) this] show ?case
    using Cons.prems(3) safe_trans [OF c(2)] d by auto
qed simp

lemma clone_loop_ok:
  assumes "kern_ok ex k" "dst < length (k_procs k)" "src < length (k_procs k)" "dst \<noteq> src"
    and "distinct fds" "\<forall>fd \<in> set fds. fd < FD_MAX \<and> fd_get dst fd k = FD_NONE"
    and "clone_loop w ff dst src fds k = (r, k')"
  shows "kern_ok ex k' \<and> safe P (k_net k) (k_net k') \<and> length (k_procs k') = length (k_procs k) \<and> k_cur k' = k_cur k"
  using assms
proof (induction fds arbitrary: k)
  case (Cons fd fds)
  define e where "e = fd_get src fd k"
  have fd: "fd < FD_MAX" "fd_get dst fd k = FD_NONE" using Cons.prems by simp_all
  have t: "tabs_ok k" using Cons.prems(1) by (simp add: kern_ok_def)
  obtain ok k1 where rt: "fd_retain w ff e k = (ok, k1)" by fastforce
  have "refs_of k j \<noteq> 0" if "e = FD_SOCK (Some j)" for j
    using refs_of_slot [OF t Cons.prems(3) fd(1)] that by (simp add: e_def)
  note r1 = fd_retain_ok [OF Cons.prems(1) rt this]
  show ?case
  proof (cases "e = FD_RESERVED")
    case True
    then show ?thesis using Cons.IH [OF Cons.prems(1-4)] Cons.prems by (simp add: Let_def e_def)
  next
    case False
    show ?thesis
    proof (cases ok)
      case True
      let ?k2 = "fd_put dst fd e k1"
      have l1: "dst < length (k_procs k1)" "tabs_ok k1" using r1 Cons.prems(2) by (simp_all add: kern_ok_def)
      have "held (fd_get dst fd k1) = (\<lambda>_. 0)" using fd(2) fd_get_cong [OF r1(3), of dst fd] by simp
      then have k2: "kern_ok ex ?k2"
        using kern_ok_put [OF _ l1(1) fd(1)] r1(1) True by simp
      have get2: "fd_get dst fd' ?k2 = FD_NONE" if "fd' \<in> set fds" for fd'
        using fd_get_put [OF l1(1) tabs_ok_slot [OF l1(2,1) fd(1)], of dst fd' e] that Cons.prems(5,6)
          fd_get_cong [OF r1(3), of dst fd'] by auto
      have "kern_ok ex k' \<and> safe P (k_net ?k2) (k_net k') \<and> length (k_procs k') = length (k_procs ?k2) \<and> k_cur k' = k_cur ?k2"
        by (rule Cons.IH) (use k2 get2 Cons.prems r1 True False rt in \<open>simp_all add: Let_def e_def [symmetric]\<close>)
      then show ?thesis using r1 safe_trans [OF r1(2)] by simp
    next
      case False
      then show ?thesis
        using \<open>e \<noteq> FD_RESERVED\<close> rt r1 Cons.prems(7) by (simp add: Let_def e_def [symmetric])
    qed
  qed
qed simp

lemma clone_mode_ok:
  assumes "kern_ok ex k" "dst < length (k_procs k)" "src < length (k_procs k)" "dst \<noteq> src"
    and "\<forall>fd < FD_MAX. fd_get dst fd k = FD_NONE"
  shows "kern_ok ex (snd (posix_fd_clone_mode w devs dst src ff k))"
    "safe P (k_net k) (k_net (snd (posix_fd_clone_mode w devs dst src ff k)))"
proof -
  obtain r k1 where c: "clone_loop w ff dst src [0..<FD_MAX] k = (r, k1)" by fastforce
  have l: "kern_ok ex k1 \<and> safe P (k_net k) (k_net k1) \<and> length (k_procs k1) = length (k_procs k) \<and> k_cur k1 = k_cur k"
    by (rule clone_loop_ok [OF assms(1-4) _ _ c]) (use assms(5) in simp_all)
  then have "kern_ok ex (posix_fd_close_all w devs dst k1) \<and> safe P (k_net k1) (k_net (posix_fd_close_all w devs dst k1))"
    using close_all_ok [of ex k1 dst "[0..<FD_MAX]" w P] assms(2) by (simp add: posix_fd_close_all_def)
  with l show "kern_ok ex (snd (posix_fd_clone_mode w devs dst src ff k))"
    "safe P (k_net k) (k_net (snd (posix_fd_clone_mode w devs dst src ff k)))"
    using c safe_trans by (auto simp: posix_fd_clone_mode_def)
qed

end

section \<open>Allocation of a descriptor\<close>

lemma first_index_take: "first_index P xs = Some i \<Longrightarrow> x \<in> set (take i xs) \<Longrightarrow> \<not> P x"
  by (induction xs arbitrary: i) (auto split: if_splits)

lemma first_index_None: "first_index P xs = None \<longleftrightarrow> (\<forall>x \<in> set xs. \<not> P x)"
  by (induction xs) auto

lemma fd_recover_reserve:
  assumes "FD_RESERVED \<notin> set (drop 3 tab)" "3 \<le> i" "i < length tab" "tab ! i = FD_NONE"
  shows "fd_recover (tab[i := FD_RESERVED]) = tab"
proof -
  let ?ys = "drop 3 tab" and ?f = "\<lambda>e. if e = FD_RESERVED then FD_NONE else e"
  have "map ?f ?ys = ?ys" using assms(1) by (intro map_idI) auto
  then have "map ?f (?ys[i - 3 := FD_RESERVED]) = ?ys[i - 3 := FD_NONE]" by (simp add: map_update)
  moreover have "?ys[i - 3 := FD_NONE] = ?ys" using assms by (intro list_update_same_conv [THEN iffD2]) simp_all
  ultimately show ?thesis
    using assms(2) append_take_drop_id [of 3 tab] by (simp add: fd_recover_def drop_update_swap)
qed

text \<open>C22.
  When no slot is reserved, \<^verbatim>\<open>fd_alloc_slot\<close> reserves the lowest free slot from 3 on
  and changes no other, and it fails with \<^verbatim>\<open>EMFILE\<close> and changes nothing exactly when there is none.
\<close>

theorem fd_alloc_lowest:
  assumes "FD_RESERVED \<notin> set (drop 3 tab)"
  shows "case fd_alloc_tab tab of (fd, tab') \<Rightarrow>
      if FD_NONE \<in> set (drop 3 tab)
      then 3 \<le> fd \<and> nat fd < length tab \<and> tab ! nat fd = FD_NONE \<and> tab' = tab[nat fd := FD_RESERVED] \<and>
        FD_NONE \<notin> set (drop 3 (take (nat fd) tab))
      else fd = -EMFILE \<and> tab' = tab"
proof (cases "fd_find tab")
  case None
  then have "FD_NONE \<notin> set (drop 3 tab)" by (auto simp: fd_find_def first_index_None)
  then show ?thesis using None assms by (simp add: fd_alloc_tab_def)
next
  case (Some i)
  then have f: "first_index (\<lambda>e. e = FD_NONE) (drop 3 tab) = Some (i - 3)" by (auto simp: fd_find_def)
  have "FD_NONE \<notin> set (drop 3 (take i tab))" using first_index_take [OF f] by (auto simp: drop_take)
  moreover have "FD_NONE \<in> set (drop 3 tab)" using f first_index_None [of "\<lambda>e. e = FD_NONE" "drop 3 tab"] by auto
  ultimately show ?thesis using fd_find_free [OF Some] Some by (simp add: fd_alloc_tab_def)
qed

definition demo_tab :: "fd_ent list" where
  "demo_tab = replicate 5 (FD_VFS (Some 0)) @ [FD_NONE, FD_SOCK (Some 1)]"

theorem fd_alloc_lowest_witness:
  "FD_RESERVED \<notin> set (drop 3 demo_tab) \<and> (case fd_alloc_tab demo_tab of (fd, tab') \<Rightarrow>
      if FD_NONE \<in> set (drop 3 demo_tab)
      then 3 \<le> fd \<and> nat fd < length demo_tab \<and> demo_tab ! nat fd = FD_NONE \<and> tab' = demo_tab[nat fd := FD_RESERVED] \<and>
        FD_NONE \<notin> set (drop 3 (take (nat fd) demo_tab))
      else fd = -EMFILE \<and> tab' = demo_tab)"
  using fd_alloc_lowest [of demo_tab] by (simp add: demo_tab_def eval_nat_numeral)

text \<open>C34.
  The recovery of reserved slots does not know who reserved them. When an allocation has taken the
  last free slot and its caller has not filled it yet, a second allocation gets the same slot.
\<close>

theorem fd_alloc_steals:
  assumes "fd_alloc_tab tab = (fd, tab')" "FD_RESERVED \<notin> set (drop 3 tab)" "count_list (drop 3 tab) FD_NONE = 1"
  shows "fd_alloc_tab tab' = (fd, tab')"
proof -
  obtain i where i: "fd_find tab = Some i"
    using assms(3) by (cases "fd_find tab") (auto simp: fd_find_def first_index_None count_list_0_iff [symmetric])
  note fi = fd_find_free [OF i]
  then have t: "fd = int i" "tab' = tab[i := FD_RESERVED]" using assms(1) i by (simp_all add: fd_alloc_tab_def)
  have d: "drop 3 tab' = (drop 3 tab)[i - 3 := FD_RESERVED]" using fi by (simp add: t drop_update_swap)
  have l: "i - 3 < length (drop 3 tab)" using fi by auto
  then have "count_list (drop 3 tab') FD_NONE = 0"
    using count_list_put [of "i - 3" "drop 3 tab" FD_RESERVED FD_NONE] assms(3) fi by (simp add: d)
  then have "fd_find tab' = None" by (auto simp: fd_find_def first_index_None count_list_0_iff)
  moreover have "FD_RESERVED \<in> set (drop 3 tab')" unfolding d using l by (rule set_update_memI)
  moreover have "fd_recover tab' = tab" unfolding t(2) by (rule fd_recover_reserve) (use assms(2) fi in simp_all)
  ultimately show ?thesis using i t by (simp add: fd_alloc_tab_def)
qed

theorem fd_alloc_steals_witness:
  "fd_alloc_tab demo_tab = (5, demo_tab[5 := FD_RESERVED]) \<and> FD_RESERVED \<notin> set (drop 3 demo_tab) \<and>
   count_list (drop 3 demo_tab) FD_NONE = 1 \<and> fd_alloc_tab (demo_tab[5 := FD_RESERVED]) = (5, demo_tab[5 := FD_RESERVED])"
proof -
  have 1: "fd_alloc_tab demo_tab = (5, demo_tab[5 := FD_RESERVED])" by code_simp
  have 2: "FD_RESERVED \<notin> set (drop 3 demo_tab)" "count_list (drop 3 demo_tab) FD_NONE = 1" by code_simp+
  show ?thesis using 1 2 fd_alloc_steals [OF 1 2] by simp
qed

end
