(* ===== verification/Sock_Calls.thy ===== *)
theory Sock_Calls
  imports Fd_Table
begin

text \<open>
  The socket system calls of \<^verbatim>\<open>kernel/net/sock.c\<close>, on the network state and the descriptor
  tables together. The address \<^verbatim>\<open>malloc\<close> returns is an argument, \<open>None\<close> when memory is
  exhausted; that it is not in use is a hypothesis of the lemmas. A null user buffer is \<open>None\<close>.

  The lemmas show that every call keeps the reference counts of \<open>Fd_Table\<close> and the invariant
  of the stack, on its error paths too.
\<close>

section \<open>The calls\<close>

text \<open>The code of \<^verbatim>\<open>sys_socket\<close> that takes a socket back.\<close>

definition socket_undo :: "nat \<Rightarrow> net \<Rightarrow> net" where
  "socket_undo j st =
     (let st = (if sk_pcb (sk j st) \<noteq> None then tcp_pcb_free (sk_pcb (sk j st)) st else st);
          st = (if sk_type (sk j st) = SOCK_UDP then udp_unregister j st else st)
      in free_sock j st)"

text \<open>The code that gives a new socket its connection block or its slot in the UDP table.\<close>

definition socket_attach :: "nat \<Rightarrow> nat \<Rightarrow> net \<Rightarrow> bool \<times> net" where
  "socket_attach j n st =
     (if sk_type (sk j st) = SOCK_TCP
      then case tcp_pcb_new (Some n) st of
             (None, st) \<Rightarrow> (False, st)
           | (Some i, st) \<Rightarrow> (True, upd_sk j (\<lambda>s. s\<lparr>sk_pcb := Some i\<rparr>) st)
      else let (r, st) = udp_register j st in (r = 0, st))"

definition sys_socket :: "nat option \<Rightarrow> int \<Rightarrow> int \<Rightarrow> kern \<Rightarrow> int \<times> kern" where
  "sys_socket mem domain ty k =
     (if domain \<noteq> AF_INET then (-EPROTONOSUPPORT, k)
      else if ty \<noteq> SOCK_STREAM \<and> ty \<noteq> SOCK_DGRAM then (-EPROTONOSUPPORT, k)
      else case netif_default (k_net k) of None \<Rightarrow> (-ENOSYS, k) | Some n \<Rightarrow>
      case mem of None \<Rightarrow> (-ENOMEM, k) | Some j \<Rightarrow>
        let st = put_sock j (new_sock (if ty = SOCK_STREAM then SOCK_TCP else SOCK_UDP) None (Some n)) (k_net k);
            (made, st) = socket_attach j n st
        in if \<not> made then (-ENOMEM, k\<lparr>k_net := free_sock j st\<rparr>)
           else
             let (fd, k) = sock_fd_alloc (k\<lparr>k_net := st\<rparr>) in
             if fd < 0 then (fd, on_net (socket_undo j) k)
             else (fd, sock_fd_install fd (Some j) k))"

text \<open>The scan of the UDP table for another socket bound to the port, as in \<open>udp_scan\<close>.\<close>

fun bind_scan :: "nat \<Rightarrow> u16 \<Rightarrow> (nat \<Rightarrow> sock option) \<Rightarrow> nat option list \<Rightarrow> bool \<times> bool" where
  "bind_scan j port heap [] = (True, False)"
| "bind_scan j port heap (None # slots) = bind_scan j port heap slots"
| "bind_scan j port heap (Some i # slots) =
     (if i = j then bind_scan j port heap slots
      else case heap i of
             None \<Rightarrow> (False, False)
           | Some s \<Rightarrow> if sk_bound s \<and> sk_local_port s = port then (True, True) else bind_scan j port heap slots)"

definition sock_bind :: "nat \<Rightarrow> sockaddr_in \<Rightarrow> net \<Rightarrow> int \<times> net" where
  "sock_bind j a st =
     (let port = sockaddr_port a;
          st = deref j st;
          (ok, taken) = (if sk_type (sk j st) = SOCK_UDP \<and> port \<noteq> 0
                         then bind_scan j port (socks (sock_v st)) (udp_socks (sock_v st)) else (True, False));
          st = ub_unless ok st
      in if taken then (-EADDRINUSE, st)
         else (0, upd_sk j (\<lambda>s. s\<lparr>sk_local_port := port, sk_local_ip := sockaddr_ip a, sk_bound := True\<rparr>) st))"

definition sock_listen :: "nat \<Rightarrow> net \<Rightarrow> int \<times> net" where
  "sock_listen j st =
     (let st = deref j st; s = sk j st in
      if sk_type s \<noteq> SOCK_TCP \<or> sk_pcb s = None then (-EINVAL, st)
      else
        let port = (if sk_local_port s \<noteq> 0 then sk_local_port s else SOCK_LISTEN_PORT);
            (r, st) = tcp_pcb_listen (sk_pcb s) port st
        in if r \<noteq> 0 then (-EINVAL, st)
           else (0, upd_sk j (\<lambda>s. s\<lparr>sk_local_port := port, sk_listening := True\<rparr>) st))"

definition sock_connect :: "devs \<Rightarrow> nat \<Rightarrow> sockaddr_in \<Rightarrow> net \<Rightarrow> int \<times> net" where
  "sock_connect devs j a st =
     (let st = deref j st; s = sk j st; ip = sockaddr_ip a; port = sockaddr_port a in
      if sk_type s = SOCK_TCP
      then if sk_pcb s = None then (-EINVAL, st)
           else
             let st = (if sk_bound s \<and> sk_local_port s \<noteq> 0
                       then snd (tcp_pcb_bind (sk_pcb s) (sk_local_port s) st) else st);
                 (r, st) = tcp_pcb_connect devs (sk_pcb s) ip port 4000000 st
             in if r \<noteq> 0 then (-ENOTCONN, st) else (0, st)
      else (0, udp_ensure_local j (upd_sk j (\<lambda>s. s\<lparr>sk_peer_ip := ip, sk_peer_port := port\<rparr>) st)))"

definition sock_send :: "devs \<Rightarrow> nat \<Rightarrow> bytes \<Rightarrow> net \<Rightarrow> int \<times> net" where
  "sock_send devs j buf st =
     (let st = deref j st; s = sk j st in
      if sk_type s = SOCK_TCP
      then if sk_pcb s = None then (-ENOTCONN, st)
           else let (n, st) = tcp_pcb_send devs (sk_pcb s) (take (length buf mod 2 ^ 32) buf) st
                in (if n < 0 then -EIO else n, st)
      else sock_udp_send devs j buf (sk_peer_ip s) (sk_peer_port s) st)"

definition sock_recv :: "devs \<Rightarrow> nat \<Rightarrow> u64 \<Rightarrow> net \<Rightarrow> (int \<times> bytes) \<times> net" where
  "sock_recv devs j len st =
     (let st = deref j st; s = sk j st in
      if sk_type s = SOCK_TCP
      then if sk_pcb s = None then ((-ENOTCONN, []), st)
           else let ((n, bs), st) = tcp_pcb_recv devs (sk_pcb s) (ucast len) SOCK_WAIT_SPINS st
                in ((if n < 0 then -EIO else n, bs), st)
      else let ((n, bs, _), st) = sock_udp_recv devs j len None SOCK_WAIT_SPINS st in ((n, bs), st))"

text \<open>The descriptor-level calls: the descriptor is resolved, the arguments are checked.\<close>

definition with_addr ::
  "int \<Rightarrow> sockaddr_in option \<Rightarrow> u32 \<Rightarrow> (nat \<Rightarrow> sockaddr_in \<Rightarrow> net \<Rightarrow> int \<times> net) \<Rightarrow> kern \<Rightarrow> int \<times> kern" where
  "with_addr fd addr addrlen f k =
     (case (sock_from_fd fd k, addr) of
        (Some j, Some a) \<Rightarrow>
          if addrlen < SIZEOF_SOCKADDR_IN then (-EINVAL, k)
          else if uint (sin_family a) \<noteq> AF_INET then (-EPROTONOSUPPORT, k)
          else let (r, st) = f j a (k_net k) in (r, k\<lparr>k_net := st\<rparr>)
      | _ \<Rightarrow> (-EINVAL, k))"

definition sys_bind :: "int \<Rightarrow> sockaddr_in option \<Rightarrow> u32 \<Rightarrow> kern \<Rightarrow> int \<times> kern" where
  "sys_bind fd addr addrlen k = with_addr fd addr addrlen sock_bind k"

definition sys_connect :: "devs \<Rightarrow> int \<Rightarrow> sockaddr_in option \<Rightarrow> u32 \<Rightarrow> kern \<Rightarrow> int \<times> kern" where
  "sys_connect devs fd addr addrlen k = with_addr fd addr addrlen (sock_connect devs) k"

definition sys_listen :: "int \<Rightarrow> kern \<Rightarrow> int \<times> kern" where
  "sys_listen fd k =
     (case sock_from_fd fd k of None \<Rightarrow> (-EINVAL, k)
      | Some j \<Rightarrow> let (r, st) = sock_listen j (k_net k) in (r, k\<lparr>k_net := st\<rparr>))"

definition sys_accept ::
  "devs \<Rightarrow> nat option \<Rightarrow> int \<Rightarrow> u32 option \<Rightarrow> kern \<Rightarrow> (int \<times> (sockaddr_in \<times> u32) option) \<times> kern" where
  "sys_accept devs mem fd addrlen k =
     (case sock_from_fd fd k of None \<Rightarrow> ((-EINVAL, None), k) | Some j \<Rightarrow>
      let k = on_net (deref j) k; s = sk j (k_net k) in
      if \<not> sk_listening s \<or> sk_pcb s = None then ((-EINVAL, None), k)
      else case tcp_pcb_accept devs (sk_pcb s) 8000000 (k_net k) of
        (None, st) \<Rightarrow> ((-EAGAIN, None), k\<lparr>k_net := st\<rparr>)
      | (Some child, st) \<Rightarrow>
          let k = k\<lparr>k_net := st\<rparr> in
          case mem of
            None \<Rightarrow> ((-ENOMEM, None), on_net (\<lambda>st. snd (tcp_pcb_close devs (Some child) st)) k)
          | Some ns \<Rightarrow>
              let k = on_net (put_sock ns (new_sock SOCK_TCP (Some child) (sk_nif (sk j st)))) k;
                  (nfd, k) = sock_fd_alloc k
              in if nfd < 0
                 then ((nfd, None), on_net (\<lambda>st. free_sock ns (snd (tcp_pcb_close devs (Some child) st))) k)
                 else
                   let k = sock_fd_install nfd (Some ns) k
                   in ((nfd, fill_sockaddr addrlen (tcp_pcb_remote_ip (Some child) (k_net k))
                               (tcp_pcb_remote_port (Some child) (k_net k))), k))"

definition sys_send :: "devs \<Rightarrow> int \<Rightarrow> bytes option \<Rightarrow> kern \<Rightarrow> int \<times> kern" where
  "sys_send devs fd buf k =
     (case (sock_from_fd fd k, buf) of
        (Some j, Some b) \<Rightarrow> let (r, st) = sock_send devs j b (k_net k) in (r, k\<lparr>k_net := st\<rparr>)
      | _ \<Rightarrow> (-EINVAL, k))"

definition sys_recv :: "devs \<Rightarrow> int \<Rightarrow> bool \<Rightarrow> u64 \<Rightarrow> kern \<Rightarrow> (int \<times> bytes) \<times> kern" where
  "sys_recv devs fd buf len k =
     (case sock_from_fd fd k of None \<Rightarrow> ((-EINVAL, []), k) | Some j \<Rightarrow>
      if \<not> buf then ((-EINVAL, []), k)
      else let (r, st) = sock_recv devs j len (k_net k) in (r, k\<lparr>k_net := st\<rparr>))"

definition sys_sendto :: "devs \<Rightarrow> int \<Rightarrow> bytes option \<Rightarrow> sockaddr_in option \<Rightarrow> u32 \<Rightarrow> kern \<Rightarrow> int \<times> kern" where
  "sys_sendto devs fd buf addr addrlen k =
     (case (sock_from_fd fd k, buf) of
        (Some j, Some b) \<Rightarrow>
          let k = on_net (deref j) k in
          if sk_type (sk j (k_net k)) \<noteq> SOCK_UDP then (-EINVAL, k)
          else with_addr fd addr addrlen
                 (\<lambda>j a. sock_udp_send devs j b (sockaddr_ip a) (sockaddr_port a)) k
      | _ \<Rightarrow> (-EINVAL, k))"

definition sys_recvfrom ::
  "devs \<Rightarrow> int \<Rightarrow> bool \<Rightarrow> u64 \<Rightarrow> u32 option \<Rightarrow> kern \<Rightarrow> (int \<times> bytes \<times> (sockaddr_in \<times> u32) option) \<times> kern" where
  "sys_recvfrom devs fd buf len addrlen k =
     (case sock_from_fd fd k of None \<Rightarrow> ((-EINVAL, [], None), k) | Some j \<Rightarrow>
      if \<not> buf then ((-EINVAL, [], None), k)
      else
        let k = on_net (deref j) k in
        if sk_type (sk j (k_net k)) \<noteq> SOCK_UDP then ((-EINVAL, [], None), k)
        else let (r, st) = sock_udp_recv devs j len addrlen SOCK_WAIT_SPINS (k_net k) in (r, k\<lparr>k_net := st\<rparr>))"

section \<open>Calls on an open socket\<close>

lemma sock_from_fd_live:
  assumes "kern_ok ex k" "sock_from_fd fd k = Some j"
  shows "sk_view (k_net k) j \<noteq> None"
proof -
  obtain p where p: "k_cur k = Some p" "fd_ok fd" "fd_get p (nat fd) k = FD_SOCK (Some j)"
    using assms(2) by (auto simp: sock_from_fd_def split: option.splits if_splits fd_ent.splits)
  have t: "tabs_ok k" "p < length (k_procs k)" using assms(1) p(1) by (simp_all add: kern_ok_def tabs_ok_def)
  have "refs_of k j + ex j \<noteq> 0" using refs_of_slot [OF t fd_ok_nat [OF p(2)] p(3)] by simp
  then show ?thesis
    using sk_inv_live [of "\<lambda>j. refs_of k j + ex j" "k_net k" j] assms(1) by (simp add: kern_ok_def)
qed

text \<open>A calm operation on the network state is a call that keeps the invariant.\<close>

lemma calm_call:
  assumes "kern_ok ex k" "calm P (k_net k) st"
  shows "kern_ok ex (k\<lparr>k_net := st\<rparr>) \<and> safe P (k_net k) st"
  using assms calm_sk_inv [OF assms(2)] by (simp add: kern_ok_def calm_def tabs_ok_def refs_of_def)

lemma with_addr_ok:
  assumes "kern_ok ex k" "\<And>j a. calm (sk_view (k_net k) j \<noteq> None \<and> Q) (k_net k) (snd (f j a (k_net k)))"
  shows "kern_ok ex (snd (with_addr fd addr addrlen f k)) \<and> safe Q (k_net k) (k_net (snd (with_addr fd addr addrlen f k)))"
proof (cases "sock_from_fd fd k")
  case (Some j)
  have "calm Q (k_net k) (snd (f j a (k_net k)))" for a
    using calm_weaken [OF assms(2)] sock_from_fd_live [OF assms(1) Some] by blast
  from calm_call [OF assms(1) this] show ?thesis
    using assms(1) Some by (auto simp: with_addr_def case_prod_beta split: option.splits)
qed (use assms(1) in \<open>simp add: with_addr_def\<close>)

lemma bind_scan_ok:
  "\<forall>j. Some j \<in> set slots \<longrightarrow> heap j \<noteq> None \<Longrightarrow> fst (bind_scan j port heap slots)"
  by (induction slots rule: bind_scan.induct) (auto split: option.splits)

lemma sock_bind_calm: "calm (sk_view st j \<noteq> None) st (snd (sock_bind j a st))"
proof -
  let ?d = "deref j st"
  obtain ok taken where s: "(if sk_type (sk j ?d) = SOCK_UDP \<and> sockaddr_port a \<noteq> 0
      then bind_scan j (sockaddr_port a) (socks (sock_v ?d)) (udp_socks (sock_v ?d)) else (True, False)) = (ok, taken)"
    by fastforce
  have "ok" if "sound ?d"
    using that s bind_scan_ok [of "udp_socks (sock_v st)" "socks (sock_v st)" j "sockaddr_port a"]
    by (auto simp: sound_def net_inv_def sock_ok_def split: if_splits)
  then have "calm (sk_view st j \<noteq> None) ?d (ub_unless ok ?d)"
    by (intro calm_trip trip_ub_if) simp
  with calm_deref have 1: "calm (sk_view st j \<noteq> None) st (ub_unless ok ?d)" by (rule calm_trans)
  have "calm (sk_view st j \<noteq> None) st (upd_sk j (\<lambda>s. s\<lparr>sk_local_port := sockaddr_port a,
      sk_local_ip := sockaddr_ip a, sk_bound := True\<rparr>) (ub_unless ok ?d))"
    by (rule calm_trans [OF 1 calm_upd_sk]) (simp_all add: sk_ok_def)
  with 1 show ?thesis unfolding sock_bind_def Let_def s by simp
qed

lemma sock_listen_calm: "calm (sk_view st j \<noteq> None) st (snd (sock_listen j st))"
proof (cases "sk_pcb (sk j st)")
  case None
  then show ?thesis using calm_deref [of st j] by (simp add: sock_listen_def Let_def)
next
  case (Some i)
  define port where "port = (if sk_local_port (sk j st) \<noteq> 0 then sk_local_port (sk j st) else SOCK_LISTEN_PORT)"
  let ?s1 = "upd_pcb i (\<lambda>c. c\<lparr>pc_state := TCP_LISTEN, pc_local_port := port, pc_echo := False\<rparr>) (deref j st)"
  have "trip (i < TCP_PCB_MAX) {} (deref j st) ?s1" by (rule trip_upd_pcb) (simp add: pcb_ok_def)
  from calm_seq [OF calm_deref calm_trip [OF this]]
  have 1: "calm (sk_view st j \<noteq> None) st ?s1" using sk_ok_sk [of st j] Some by (simp add: sk_ok_def)
  have "calm (sk_view st j \<noteq> None) st (upd_sk j (\<lambda>s. s\<lparr>sk_local_port := port, sk_listening := True\<rparr>) ?s1)"
    by (rule calm_trans [OF 1 calm_upd_sk]) (simp_all add: sk_ok_def)
  then show ?thesis
    using Some calm_deref [of st j]
    unfolding sock_listen_def Let_def sk_deref port_def [symmetric] by (simp add: tcp_pcb_listen_def)
qed

text \<open>The condition under which sending stays within the packet buffer.\<close>

definition send_ok :: "bytes option \<Rightarrow> bool" where
  "send_ok buf \<longleftrightarrow> (\<forall>b. buf = Some b \<longrightarrow> UDP_HDR_LEN + length b mod 2 ^ 32 < 2 ^ 32)"

context net_driver
begin

lemma sock_connect_calm: "calm (sk_view st j \<noteq> None) st (snd (sock_connect devs j a st))"
proof -
  let ?P = "sk_view st j \<noteq> None" and ?d = "deref j st" and ?pc = "sk_pcb (sk j st)"
  have b: "\<forall>i. ?pc = Some i \<longrightarrow> i < TCP_PCB_MAX" if "sound ?d" ?P
    using sk_ok_sk [of ?d j] that by (simp add: sk_ok_def)
  define s1 where "s1 = (if sk_bound (sk j st) \<and> sk_local_port (sk j st) \<noteq> 0
    then snd (tcp_pcb_bind ?pc (sk_local_port (sk j st)) ?d) else ?d)"
  have "trip (\<forall>i. ?pc = Some i \<longrightarrow> i < TCP_PCB_MAX) {} ?d s1"
    by (auto simp: s1_def tcp_pcb_bind_def pcb_ok_def intro!: trip_upd_pcb split: option.splits)
  from calm_trip [OF trip_trans [OF this tcp_pcb_connect_trip]]
  have 1: "calm ?P st (snd (tcp_pcb_connect devs ?pc ip port w s1))" for ip port w
    by (rule calm_seq [OF calm_deref]) (use b in blast)
  let ?s2 = "upd_sk j (\<lambda>s. s\<lparr>sk_peer_ip := sockaddr_ip a, sk_peer_port := sockaddr_port a\<rparr>) ?d"
  have 2: "calm ?P st ?s2" by (rule calm_trans [OF calm_deref calm_upd_sk]) (simp_all add: sk_ok_def)
  have "calm ?P st (udp_ensure_local j ?s2)" by (rule calm_seq [OF 2 udp_ensure_local_calm]) simp
  with 1 show ?thesis
    using calm_deref [of st j] unfolding sock_connect_def Let_def sk_deref s1_def [symmetric]
    by (simp add: case_prod_beta)
qed

lemma sock_send_calm:
  "calm (sk_view st j \<noteq> None \<and> UDP_HDR_LEN + length buf mod 2 ^ 32 < 2 ^ 32) st (snd (sock_send devs j buf st))"
proof -
  let ?P = "sk_view st j \<noteq> None \<and> UDP_HDR_LEN + length buf mod 2 ^ 32 < 2 ^ 32" and ?d = "deref j st"
  have d: "calm ?P st ?d" by (rule calm_weaken [OF calm_deref]) simp
  have t: "calm ?P st (snd (tcp_pcb_send devs (sk_pcb (sk j st)) b ?d))" for b
    by (rule calm_seq [OF d calm_trip [OF tcp_pcb_send_trip]]) (use sk_pcb_bound [of ?d j] in auto)
  have u: "calm ?P st (snd (sock_udp_send devs j buf ip port ?d))" for ip port
    by (rule calm_seq [OF d sock_udp_send_calm]) simp
  show ?thesis using t u d by (simp add: sock_send_def Let_def case_prod_beta)
qed

lemma sock_recv_calm: "calm (sk_view st j \<noteq> None) st (snd (sock_recv devs j len st))"
proof -
  let ?P = "sk_view st j \<noteq> None" and ?d = "deref j st"
  have t: "calm ?P st (snd (tcp_pcb_recv devs (sk_pcb (sk j st)) n w ?d))" for n w
    by (rule calm_seq [OF calm_deref calm_trip [OF tcp_pcb_recv_trip]]) (use sk_pcb_bound [of ?d j] in auto)
  have u: "calm ?P st (snd (sock_udp_recv devs j n al w ?d))" for n al w
    by (rule calm_seq [OF calm_deref sock_udp_recv_calm]) simp
  show ?thesis using t u calm_deref [of st j] by (simp add: sock_recv_def Let_def case_prod_beta)
qed

lemma fd_calls_ok:
  assumes k: "kern_ok ex k"
  shows "kern_ok ex (snd (sys_bind fd addr al k)) \<and> safe P (k_net k) (k_net (snd (sys_bind fd addr al k)))"
    and "kern_ok ex (snd (sys_connect devs fd addr al k)) \<and> safe P (k_net k) (k_net (snd (sys_connect devs fd addr al k)))"
    and "kern_ok ex (snd (sys_listen fd k)) \<and> safe P (k_net k) (k_net (snd (sys_listen fd k)))"
    and "kern_ok ex (snd (sys_recv devs fd nn len k)) \<and> safe P (k_net k) (k_net (snd (sys_recv devs fd nn len k)))"
    and "kern_ok ex (snd (sys_recvfrom devs fd nn len aln k)) \<and>
      safe P (k_net k) (k_net (snd (sys_recvfrom devs fd nn len aln k)))"
proof -
  show "kern_ok ex (snd (sys_bind fd addr al k)) \<and> safe P (k_net k) (k_net (snd (sys_bind fd addr al k)))"
    unfolding sys_bind_def by (rule with_addr_ok [OF k]) (rule calm_weaken [OF sock_bind_calm], simp)
  show "kern_ok ex (snd (sys_connect devs fd addr al k)) \<and> safe P (k_net k) (k_net (snd (sys_connect devs fd addr al k)))"
    unfolding sys_connect_def by (rule with_addr_ok [OF k]) (rule calm_weaken [OF sock_connect_calm], simp)
  have live: "calm P (k_net k) st" if "sock_from_fd fd k = Some j" "calm (sk_view (k_net k) j \<noteq> None) (k_net k) st" for j st
    by (rule calm_weaken [OF that(2)]) (rule sock_from_fd_live [OF k that(1)])
  show "kern_ok ex (snd (sys_listen fd k)) \<and> safe P (k_net k) (k_net (snd (sys_listen fd k)))"
    using k calm_call [OF k live [OF _ sock_listen_calm]]
    by (auto simp: sys_listen_def case_prod_beta split: option.splits)
  show "kern_ok ex (snd (sys_recv devs fd nn len k)) \<and> safe P (k_net k) (k_net (snd (sys_recv devs fd nn len k)))"
    using k calm_call [OF k live [OF _ sock_recv_calm]]
    by (auto simp: sys_recv_def case_prod_beta split: option.splits)
  have d: "calm (sk_view (k_net k) j \<noteq> None) (k_net k) (snd (sock_udp_recv devs j len aln w (deref j (k_net k))))" for j w
    by (rule calm_seq [OF calm_deref sock_udp_recv_calm]) simp
  show "kern_ok ex (snd (sys_recvfrom devs fd nn len aln k)) \<and>
      safe P (k_net k) (k_net (snd (sys_recvfrom devs fd nn len aln k)))"
    using k calm_call [OF k live [OF _ d]] calm_call [OF k live [OF _ calm_deref]]
    by (auto simp: sys_recvfrom_def case_prod_beta on_net_def Let_def split: option.splits)
qed

lemma send_calls_ok:
  assumes k: "kern_ok ex k"
  shows "kern_ok ex (snd (sys_send devs fd buf k)) \<and> safe (send_ok buf) (k_net k) (k_net (snd (sys_send devs fd buf k)))"
    and "kern_ok ex (snd (sys_sendto devs fd buf addr al k)) \<and>
      safe (send_ok buf) (k_net k) (k_net (snd (sys_sendto devs fd buf addr al k)))"
proof -
  have live: "calm (send_ok buf) (k_net k) st"
    if "sock_from_fd fd k = Some j" "calm (sk_view (k_net k) j \<noteq> None \<and> Q) (k_net k) st" "send_ok buf \<Longrightarrow> Q" for j st Q
    by (rule calm_weaken [OF that(2)]) (use sock_from_fd_live [OF k that(1)] that(3) in simp)
  show "kern_ok ex (snd (sys_send devs fd buf k)) \<and> safe (send_ok buf) (k_net k) (k_net (snd (sys_send devs fd buf k)))"
    using k calm_call [OF k live [OF _ sock_send_calm]]
    by (auto simp: sys_send_def case_prod_beta send_ok_def split: option.splits)
  show "kern_ok ex (snd (sys_sendto devs fd buf addr al k)) \<and>
      safe (send_ok buf) (k_net k) (k_net (snd (sys_sendto devs fd buf addr al k)))"
  proof (cases "\<exists>j b. sock_from_fd fd k = Some j \<and> buf = Some b")
    case True
    then obtain j b where jb: "sock_from_fd fd k = Some j" "buf = Some b" by auto
    let ?k1 = "on_net (deref j) k"
    have d: "calm (send_ok buf) (k_net k) (deref j (k_net k))"
      by (rule calm_weaken [OF calm_deref]) (rule sock_from_fd_live [OF k jb(1)])
    then have k1: "kern_ok ex ?k1 \<and> safe (send_ok buf) (k_net k) (k_net ?k1)"
      using calm_call [OF k d] by (simp add: on_net_def)
    let ?r = "with_addr fd addr al (\<lambda>j a. sock_udp_send devs j b (sockaddr_ip a) (sockaddr_port a)) ?k1"
    have "kern_ok ex (snd ?r) \<and> safe (send_ok buf) (k_net ?k1) (k_net (snd ?r))"
      by (rule with_addr_ok) (use k1 jb sock_udp_send_calm [of "k_net ?k1" _ b] in \<open>simp_all add: send_ok_def\<close>)
    then show ?thesis
      using jb k1 safe_trans by (auto simp: sys_sendto_def Let_def)
  next
    case False
    then show ?thesis using k by (auto simp: sys_sendto_def split: option.splits)
  qed
qed

end

section \<open>Creating sockets\<close>

lemma put_sock_simps [simp]:
  "sk_view (put_sock j s st) = (sk_view st)(j \<mapsto> (sk_refs s, sk_type s, sk_pcb s))"
  "sk_view (free_sock j st) = (sk_view st)(j := None)"
  "udp_socks (sock_v (put_sock j s st)) = udp_socks (sock_v st)"
  "udp_socks (sock_v (free_sock j st)) = udp_socks (sock_v st)"
  "sk_view (udp_unregister j st) = sk_view st"
  "udp_socks (sock_v (udp_unregister j st)) = map (\<lambda>x. if x = Some j then None else x) (udp_socks (sock_v st))"
  by (simp_all add: put_sock_def free_sock_def udp_unregister_def upd_sock_v_def sk_view_def fun_eq_iff)

lemma k_net_eq [simp]: "k\<lparr>k_net := a\<rparr> = k\<lparr>k_net := b\<rparr> \<longleftrightarrow> a = b"
  by (auto dest: arg_cong [of _ _ k_net])

lemma safe_put_sock: "safe (sk_ok s) st (put_sock j s st)"
  by (rule safe_vars) (auto simp: put_sock_def upd_sock_v_def wrapped_def net_inv_def sock_ok_def)

lemma sk_view_sk: "sk_view st j = Some (r, ty, pc) \<Longrightarrow> sk_type (sk j st) = ty \<and> sk_pcb (sk j st) = pc"
  by (auto simp: sk_view_def sk_def)

lemma new_sock_simps [simp]:
  "sk_refs (new_sock ty pc n) = 1" "sk_type (new_sock ty pc n) = ty" "sk_pcb (new_sock ty pc n) = pc"
  by (simp_all add: new_sock_def)

lemma sk_ok_new: "(\<And>i. pc = Some i \<Longrightarrow> i < TCP_PCB_MAX) \<Longrightarrow> sk_ok (new_sock ty pc n)"
  by (simp add: sk_ok_def new_sock_def)

lemma sk_inv_same:
  assumes "sk_inv cnt st" "sk_view s' = sk_view st"
    "\<And>i. count_list (udp_socks (sock_v s')) (Some i) = count_list (udp_socks (sock_v st)) (Some i)"
  shows "sk_inv cnt s'"
  using assms(1) unfolding sk_inv_def sk_entry_ok_def assms(2,3) .

lemma sk_inv_new:
  assumes "sk_inv cnt st" "sk_view st j = None" "sk_view s' = (sk_view st)(j \<mapsto> (1, ty, pc))" "ty = SOCK_UDP \<longleftrightarrow> pc = None"
    "\<And>i. count_list (udp_socks (sock_v s')) (Some i) =
      count_list (udp_socks (sock_v st)) (Some i) + of_bool (i = j \<and> ty = SOCK_UDP)"
  shows "sk_inv (\<lambda>i. cnt i + held (FD_SOCK (Some j)) i) s'"
proof -
  have c: "cnt j = 0" "count_list (udp_socks (sock_v st)) (Some j) = 0"
    using assms(1,2) by (auto simp: sk_inv_def dest!: spec [of _ j])
  have "sk_inv (cnt(j := 1)) s'"
    by (rule sk_inv_upd [OF assms(1)]) (use assms(2-) c in \<open>auto simp: sk_entry_ok_def\<close>)
  moreover have "cnt(j := 1) = (\<lambda>i. cnt i + held (FD_SOCK (Some j)) i)" using c by (auto simp: fun_eq_iff)
  ultimately show ?thesis by simp
qed

lemma udp_register_props:
  assumes "udp_register j st = (r, st')"
  shows "sk_view st' = sk_view st" "safe (sk_view st j \<noteq> None) st st'"
    "count_list (udp_socks (sock_v st')) (Some i) = count_list (udp_socks (sock_v st)) (Some i) + of_bool (i = j \<and> r = 0)"
proof -
  have "sk_view st' = sk_view st \<and> safe (sk_view st j \<noteq> None) st st' \<and>
    count_list (udp_socks (sock_v st')) (Some i) = count_list (udp_socks (sock_v st)) (Some i) + of_bool (i = j \<and> r = 0)"
  proof (cases "first_index (\<lambda>x. x = None) (udp_socks (sock_v st))")
    case (Some n)
    have n: "n < length (udp_socks (sock_v st))" "udp_socks (sock_v st) ! n = None"
      using first_index_bound [OF Some] by auto
    have s: "st' = upd_sock_v (\<lambda>v. v\<lparr>udp_socks := (udp_socks v)[n := Some j]\<rparr>) st" "r = 0"
      using assms Some by (auto simp: udp_register_def)
    have "safe (sk_view st j \<noteq> None) st st'"
      unfolding s
      by (rule safe_vars)
        (auto simp: upd_sock_v_def wrapped_def net_inv_def sock_ok_def sk_view_def dest!: subsetD [OF set_update_subset_insert])
    then show ?thesis
      using count_list_put [OF n(1), of "Some j" "Some i"] n(2)
      by (auto simp: s upd_sock_v_def sk_view_def fun_eq_iff)
  qed (use assms in \<open>auto simp: udp_register_def\<close>)
  then show "sk_view st' = sk_view st" "safe (sk_view st j \<noteq> None) st st'"
    "count_list (udp_socks (sock_v st')) (Some i) = count_list (udp_socks (sock_v st)) (Some i) + of_bool (i = j \<and> r = 0)"
    by simp_all
qed

lemma tcp_pcb_new_bound_after: "tcp_pcb_new nif st = (Some i, st') \<Longrightarrow> sound st' \<Longrightarrow> i < TCP_PCB_MAX"
  by (auto simp: tcp_pcb_new_def sound_def net_inv_def tcp_ok_def split: option.splits dest!: first_index_bound)

text \<open>
  A socket made and registered is given a descriptor, or taken back when there is none. \<open>undo\<close>
  is the code that takes it back.
\<close>

lemma give_fd_ok:
  assumes "kern_ok (\<lambda>i. ex i + held (FD_SOCK (Some j)) i) k" "sock_fd_alloc k = (fd, k')"
    and "0 > fd \<Longrightarrow> sk_inv (\<lambda>i. refs_of k i + ex i) (undo (k_net k)) \<and> safe P (k_net k) (undo (k_net k))"
  shows "kern_ok ex (if fd < 0 then on_net undo k' else sock_fd_install fd (Some j) k') \<and>
    safe P (k_net k) (k_net (if fd < 0 then on_net undo k' else sock_fd_install fd (Some j) k'))"
proof -
  have t: "tabs_ok k" using assms(1) by (simp add: kern_ok_def)
  have a: "fd_alloc_slot k = (fd, k')" using assms(2) by (simp add: sock_fd_alloc_def)
  note ap = fd_alloc_slot_props [OF a t]
  show ?thesis
  proof (cases "fd < 0")
    case True
    have "kern_ok ex (k'\<lparr>k_net := undo (k_net k)\<rparr>)"
      using assms(3) [OF True] ap by (intro kern_ok_net) simp_all
    then show ?thesis using True assms(3) [OF True] ap by (simp add: on_net_def)
  next
    case False
    then obtain p where p: "fd_ok fd" "k_cur k' = Some p" "fd_get p (nat fd) k' = FD_RESERVED"
      using ap(4,6) by auto
    then have "kern_ok ex (fd_install fd (FD_SOCK (Some j)) k')"
      using kern_ok_install [OF kern_ok_alloc [OF a assms(1)]] by simp
    then show ?thesis
      using False p ap(3) by (simp add: sock_fd_install_def fd_install_def)
  qed
qed

definition fresh :: "nat option \<Rightarrow> net \<Rightarrow> bool" where
  "fresh mem st \<longleftrightarrow> (\<forall>j. mem = Some j \<longrightarrow> sk_view st j = None)"

context net_driver
begin

lemma socket_undo_ok:
  assumes "sk_inv (\<lambda>i. cnt i + held (FD_SOCK (Some j)) i) st" "cnt j = 0"
  shows "sk_inv cnt (socket_undo j st) \<and> safe P st (socket_undo j st)"
proof -
  define s1 where "s1 = (if sk_pcb (sk j st) \<noteq> None then tcp_pcb_free (sk_pcb (sk j st)) st else st)"
  define s2 where "s2 = (if sk_type (sk j s1) = SOCK_UDP then udp_unregister j s1 else s1)"
  have "trip P {} st s1" using tcp_pcb_free_trip by (simp add: s1_def)
  then have 1: "calm P st s1" by (rule calm_trip)
  obtain r ty pc where e: "sk_view st j = Some (r, ty, pc)" "sk_entry_ok (udp_socks (sock_v st)) j 1 (r, ty, pc)"
    using assms by (auto simp: sk_inv_def dest!: spec [of _ j] split: option.splits)
  have ty: "sk_type (sk j s1) = ty" using 1 e(1) sk_view_sk [of s1 j r ty pc] by (simp add: calm_def)
  have v: "sk_view s2 = sk_view st" using 1 by (simp add: s2_def calm_def)
  have c: "count_list (udp_socks (sock_v s2)) (Some i) = (if i = j then 0 else count_list (udp_socks (sock_v st)) (Some i))" for i
    using 1 e(2) ty by (auto simp: s2_def calm_def count_list_unregister sk_entry_ok_def)
  have "sk_inv ((\<lambda>i. cnt i + held (FD_SOCK (Some j)) i)(j := 0)) (free_sock j s2)"
    by (rule sk_inv_upd [OF assms(1)]) (use v c in simp_all)
  moreover have "(\<lambda>i. cnt i + held (FD_SOCK (Some j)) i)(j := 0) = cnt" using assms(2) by (auto simp: fun_eq_iff)
  moreover have "safe P st s2" using 1 safe_trans [OF _ safe_unregister] by (auto simp: s2_def calm_def)
  then have "safe P st (free_sock j s2)" by (rule safe_seq [OF _ safe_free_sock]) (simp add: c)
  ultimately show ?thesis
    unfolding socket_undo_def Let_def s1_def [symmetric] s2_def [symmetric] by simp
qed

lemma sys_socket_ok:
  assumes k: "kern_ok ex k" and fresh: "fresh mem (k_net k)"
  shows "kern_ok ex (snd (sys_socket mem domain ty k)) \<and> safe P (k_net k) (k_net (snd (sys_socket mem domain ty k)))"
proof (cases "\<exists>n j. domain = AF_INET \<and> (ty = SOCK_STREAM \<or> ty = SOCK_DGRAM) \<and> netif_default (k_net k) = Some n \<and> mem = Some j")
  case False
  then show ?thesis using k by (auto simp: sys_socket_def split: option.splits)
next
  case True
  then obtain n j where nj: "domain = AF_INET" "ty = SOCK_STREAM \<or> ty = SOCK_DGRAM"
    "netif_default (k_net k) = Some n" "mem = Some j" by auto
  define st where "st = k_net k"
  define t where "t = (if ty = SOCK_STREAM then SOCK_TCP else SOCK_UDP)"
  define s1 where "s1 = put_sock j (new_sock t None (Some n)) st"
  have v: "sk_view st j = None" using fresh nj(4) by (simp add: fresh_def st_def)
  have inv: "sk_inv (\<lambda>i. refs_of k i + ex i) st" "tabs_ok k" using k by (simp_all add: kern_ok_def st_def)
  have z: "refs_of k j + ex j = 0" "count_list (udp_socks (sock_v st)) (Some j) = 0"
    using inv(1) v by (auto simp: sk_inv_def dest!: spec [of _ j])
  have safe1: "safe P st s1" unfolding s1_def by (rule safe_weaken [OF safe_put_sock], rule sk_ok_new) simp
  obtain made s2 where r: "socket_attach j n s1 = (made, s2)" by fastforce
  have ty1: "sk_type (sk j s1) = t" using sk_view_sk [of s1 j 1 t None] by (simp add: s1_def)
  have made: "safe P st s2 \<and> (if made
      then sk_inv (\<lambda>i. (refs_of k i + ex i) + held (FD_SOCK (Some j)) i) s2
      else sk_view s2 = sk_view s1 \<and> udp_socks (sock_v s2) = udp_socks (sock_v st))"
  proof (cases "t = SOCK_TCP")
    case True
    obtain po s3 where tn: "tcp_pcb_new (Some n) s1 = (po, s3)" by fastforce
    have c: "calm P s1 s3" by (rule calm_trip [OF tcp_pcb_new_trip [OF tn]])
    then have s3: "safe P st s3" "sk_view s3 = sk_view s1" "udp_socks (sock_v s3) = udp_socks (sock_v st)"
      using safe_trans [OF safe1] by (simp_all add: calm_def s1_def)
    show ?thesis
    proof (cases po)
      case None
      then show ?thesis using r s3 True tn ty1 by (auto simp: socket_attach_def)
    next
      case (Some i)
      have s2: "made" "s2 = upd_sk j (\<lambda>s. s\<lparr>sk_pcb := Some i\<rparr>) s3" using r True tn Some ty1 by (auto simp: socket_attach_def)
      have "safe (i < TCP_PCB_MAX) s3 s2"
        unfolding s2 by (rule safe_vars) (auto simp: upd_sk_def wrapped_def net_inv_def sock_ok_def sk_ok_def)
      then have "safe P st s2"
        by (rule safe_seq [OF s3(1)]) (use tcp_pcb_new_bound_after tn Some in blast)
      moreover have "sk_view s3 j = Some (1, SOCK_TCP, None)" using s3(2) True by (simp add: s1_def)
      then obtain z where z: "socks (sock_v s3) j = Some z" "sk_refs z = 1" "sk_type z = SOCK_TCP"
        by (auto simp: sk_view_def)
      have "sk_view s2 = (sk_view st)(j \<mapsto> (1, SOCK_TCP, Some i))"
        using s3(2) z by (simp add: s2 sk_view_upd_sk s1_def)
      then have "sk_inv (\<lambda>i. (refs_of k i + ex i) + held (FD_SOCK (Some j)) i) s2"
        by (rule sk_inv_new [OF inv(1) v]) (simp_all add: s2 s3(3))
      ultimately show ?thesis using s2 by simp
    qed
  next
    case False
    obtain x s3 where ur: "udp_register j s1 = (x, s3)" by fastforce
    note u = udp_register_props [OF ur]
    have tu: "t = SOCK_UDP" using False by (cases t) simp_all
    have s2: "s2 = s3" "made = (x = 0)" using r False ur ty1 by (auto simp: socket_attach_def)
    have "safe P st s3" by (rule safe_seq [OF safe1 u(2)]) (simp add: s1_def)
    moreover have "sk_inv (\<lambda>i. (refs_of k i + ex i) + held (FD_SOCK (Some j)) i) s3" if "x = 0"
      by (rule sk_inv_new [OF inv(1) v, of _ SOCK_UDP None]) (use u that tu in \<open>simp_all add: s1_def\<close>)
    moreover have "udp_socks (sock_v s3) = udp_socks (sock_v st)" if "x \<noteq> 0"
      using ur that by (auto simp: udp_register_def s1_def split: option.splits)
    ultimately show ?thesis using s2 u(1) by simp
  qed
  have call: "sys_socket mem domain ty k = (if \<not> made then (-ENOMEM, k\<lparr>k_net := free_sock j s2\<rparr>)
      else let (fd, k') = sock_fd_alloc (k\<lparr>k_net := s2\<rparr>) in
        if fd < 0 then (fd, on_net (socket_undo j) k') else (fd, sock_fd_install fd (Some j) k'))"
    using nj r by (auto simp: sys_socket_def Let_def s1_def st_def t_def)
  show ?thesis
  proof (cases made)
    case False
    then have "sk_inv (\<lambda>i. refs_of k i + ex i) (free_sock j s2)"
      using made v by (intro sk_inv_same [OF inv(1)]) (auto simp: s1_def fun_eq_iff)
    moreover have "safe P st (free_sock j s2)"
      by (rule safe_seq [OF _ safe_free_sock]) (use made False z(2) in auto)
    ultimately show ?thesis using call False inv(2) kern_ok_net by (simp add: st_def)
  next
    case True
    let ?k1 = "k\<lparr>k_net := s2\<rparr>"
    obtain fd k' where a: "sock_fd_alloc ?k1 = (fd, k')" by fastforce
    have k1: "kern_ok (\<lambda>i. ex i + held (FD_SOCK (Some j)) i) ?k1"
      using made True inv(2) by (intro kern_ok_net) (simp_all add: ac_simps)
    have "sk_inv (\<lambda>i. refs_of k i + ex i) (socket_undo j s2) \<and> safe P s2 (socket_undo j s2)"
      by (rule socket_undo_ok) (use made True z(1) in simp_all)
    then have "kern_ok ex (if fd < 0 then on_net (socket_undo j) k' else sock_fd_install fd (Some j) k') \<and>
        safe P s2 (k_net (if fd < 0 then on_net (socket_undo j) k' else sock_fd_install fd (Some j) k'))"
      using give_fd_ok [OF k1 a, of "socket_undo j" P] by (simp add: refs_of_def)
    then show ?thesis
      using call True a made safe_trans [of P st s2] by (auto simp: st_def Let_def split: if_splits)
  qed
qed

lemma sys_accept_ok:
  assumes k: "kern_ok ex k" and fresh: "fresh mem (k_net k)"
  shows "kern_ok ex (snd (sys_accept devs mem fd al k)) \<and> safe P (k_net k) (k_net (snd (sys_accept devs mem fd al k)))"
proof (cases "sock_from_fd fd k")
  case None
  then show ?thesis using k by (simp add: sys_accept_def)
next
  case (Some j)
  let ?d = "deref j (k_net k)" let ?pc = "sk_pcb (sk j ?d)"
  have d: "calm P (k_net k) ?d"
    by (rule calm_weaken [OF calm_deref]) (rule sock_from_fd_live [OF k Some])
  obtain co st where a: "tcp_pcb_accept devs ?pc 8000000 ?d = (co, st)" by fastforce
  have "calm P ?d (snd (co, st))" unfolding a [symmetric] by (rule calm_trip [OF tcp_pcb_accept_trip])
  then have st: "calm P (k_net k) st" using calm_trans [OF d] by simp
  note kst = calm_call [OF k st]
  have close: "calm P (k_net k) (snd (tcp_pcb_close devs (Some child) s))" if "co = Some child" "calm P (k_net k) s"
      "sound s \<Longrightarrow> child < TCP_PCB_MAX" for child s
    by (rule calm_seq [OF that(2) calm_trip [OF tcp_pcb_close_trip]]) (use that in simp)
  have bound: "child < TCP_PCB_MAX" if "co = Some child" "sound st" for child
    using tcp_pcb_accept_bound [of ?pc 8000000 ?d child st] a that by simp
  show ?thesis
  proof (cases "\<not> sk_listening (sk j ?d) \<or> ?pc = None \<or> co = None")
    case True
    then show ?thesis
      using calm_call [OF k d] kst a Some by (auto simp: sys_accept_def Let_def on_net_def)
  next
    case False
    then obtain child where c: "co = Some child" by auto
    show ?thesis
    proof (cases mem)
      case None
      then show ?thesis
        using calm_call [OF k close [OF c st bound [OF c]]] a c Some False
        by (auto simp: sys_accept_def Let_def on_net_def)
    next
      case ns: (Some ns)
      define s2 where "s2 = put_sock ns (new_sock SOCK_TCP (Some child) (sk_nif (sk j st))) st"
      let ?undo = "\<lambda>st. free_sock ns (snd (tcp_pcb_close devs (Some child) st))"
      let ?cnt = "\<lambda>i. refs_of k i + ex i"
      have v: "sk_view st ns = None" using st fresh ns by (simp add: calm_def fresh_def)
      have inv: "sk_inv ?cnt st" "tabs_ok k" using calm_sk_inv [OF st] k by (simp_all add: kern_ok_def)
      have z: "count_list (udp_socks (sock_v st)) (Some ns) = 0"
        using inv(1) v by (auto simp: sk_inv_def dest!: spec [of _ ns])
      have s2: "safe P (k_net k) s2"
        unfolding s2_def
        by (rule safe_seq [OF _ safe_put_sock]) (use st bound [OF c] in \<open>auto simp: calm_def intro!: sk_ok_new\<close>)
      have "sk_inv (\<lambda>i. ?cnt i + held (FD_SOCK (Some ns)) i) s2"
        by (rule sk_inv_new [OF inv(1) v, of _ SOCK_TCP "Some child"]) (simp_all add: s2_def)
      then have k1: "kern_ok (\<lambda>i. ex i + held (FD_SOCK (Some ns)) i) (k\<lparr>k_net := s2\<rparr>)"
        using inv(2) by (intro kern_ok_net) (simp_all add: ac_simps)
      have s3: "calm P s2 (snd (tcp_pcb_close devs (Some child) s2))" (is "calm P s2 ?s3")
        by (rule calm_trip [OF trip_weaken [OF tcp_pcb_close_trip]])
          (use sk_pcb_bound [of s2 ns child] sk_view_sk [of s2 ns 1 SOCK_TCP "Some child"] in \<open>auto simp: s2_def\<close>)
      have undo: "sk_inv ?cnt (?undo s2) \<and> safe P s2 (?undo s2)"
      proof
        show "sk_inv ?cnt (?undo s2)"
          by (rule sk_inv_same [OF inv(1)]) (use s3 v in \<open>auto simp: calm_def s2_def fun_eq_iff\<close>)
        show "safe P s2 (?undo s2)"
          by (rule safe_seq [OF _ safe_free_sock]) (use s3 z in \<open>auto simp: calm_def s2_def\<close>)
      qed
      obtain nfd k2 where al: "sock_fd_alloc (k\<lparr>k_net := s2\<rparr>) = (nfd, k2)" by fastforce
      have "kern_ok ex (if nfd < 0 then on_net ?undo k2 else sock_fd_install nfd (Some ns) k2) \<and>
          safe P s2 (k_net (if nfd < 0 then on_net ?undo k2 else sock_fd_install nfd (Some ns) k2))"
        using give_fd_ok [OF k1 al, of ?undo P] undo by (simp add: refs_of_def)
      moreover have "snd (sys_accept devs mem fd al k) =
          (if nfd < 0 then on_net ?undo k2 else sock_fd_install nfd (Some ns) k2)" for al
        using Some ns c a False al by (auto simp: sys_accept_def Let_def on_net_def s2_def)
      ultimately show ?thesis using safe_trans [OF s2] by simp
    qed
  qed
qed

end

end
