(* ===== verification/Fd_Io.thy ===== *)
theory Fd_Io
  imports Sock_Calls
begin

text \<open>
  Opening, reading and writing a descriptor (\<^verbatim>\<open>sys_open\<close>, \<^verbatim>\<open>sys_read\<close> and \<^verbatim>\<open>sys_write\<close> of
  \<^verbatim>\<open>kernel/vfs/posixfd.c\<close>). What a terminal, a file or a block device answers is given by an
  \<open>fd_io\<close>; for a file or device, \<open>None\<close> says that it is being closed. None of them touches the
  state of the network.
\<close>

section \<open>Opening\<close>

definition ENOENT :: int where "ENOENT = 2"

definition ICSOS_O_RDONLY :: u32 where "ICSOS_O_RDONLY = 0"
definition ICSOS_O_WRONLY :: u32 where "ICSOS_O_WRONLY = 1"
definition ICSOS_O_RDWR :: u32 where "ICSOS_O_RDWR = 2"
definition ICSOS_O_ACCMODE :: u32 where "ICSOS_O_ACCMODE = 3"
definition ICSOS_O_APPEND :: u32 where "ICSOS_O_APPEND = 0x1000"

definition FILE_READ :: int where "FILE_READ = 0"
definition FILE_WRITE :: int where "FILE_WRITE = 1"
definition FILE_READWRITE :: int where "FILE_READWRITE = 2"
definition FILE_APPEND :: int where "FILE_APPEND = 3"

definition posix_to_vfs_mode :: "u32 \<Rightarrow> int" where
  "posix_to_vfs_mode flags =
     (if flags AND ICSOS_O_APPEND \<noteq> 0 then FILE_APPEND
      else if flags AND ICSOS_O_ACCMODE = ICSOS_O_RDWR then FILE_READWRITE
      else if flags AND ICSOS_O_WRONLY \<noteq> 0 then FILE_WRITE
      else FILE_READ)"

text \<open>
  The path is either that of the block device, whose state and the result of \<^verbatim>\<open>malloc\<close> are
  given, or that of a file, which \<open>openfilex\<close> opens for the mode computed from the flags.
\<close>

datatype open_path = Path_Null | Path_Vblk bool bool "nat option" | Path_File "int \<Rightarrow> nat option"

definition open_slot :: "int \<Rightarrow> fd_ent option \<Rightarrow> kern \<Rightarrow> int \<times> kern" where
  "open_slot err obj k =
     (let (fd, k) = fd_alloc_slot k in
      if fd < 0 then (fd, k)
      else case obj of
             None \<Rightarrow> (-err, fd_release_slot fd k)
           | Some e \<Rightarrow> (fd, fd_install fd e k))"

definition sys_open :: "open_path \<Rightarrow> u32 \<Rightarrow> kern \<Rightarrow> int \<times> kern" where
  "sys_open path flags k =
     (if k_cur k = None then (-EINVAL, k)
      else case path of
        Path_Vblk present readonly mem \<Rightarrow>
          if \<not> present then (-ENOENT, k)
          else if flags AND ICSOS_O_ACCMODE \<noteq> ICSOS_O_RDONLY \<and> readonly then (-EIO, k)
          else open_slot ENOMEM (map_option (FD_BLK \<circ> Some) mem) k
      | Path_File openfilex \<Rightarrow> open_slot ENOENT (map_option (FD_VFS \<circ> Some) (openfilex (posix_to_vfs_mode flags))) k
      | Path_Null \<Rightarrow> (-EINVAL, k))"

section \<open>Reading and writing\<close>

record fd_io =
  io_tty :: "nat \<Rightarrow> int"
  io_obj :: "fd_ent \<Rightarrow> int option"

definition fd_entry :: "int \<Rightarrow> kern \<Rightarrow> fd_ent" where
  "fd_entry fd k = (case k_cur k of None \<Rightarrow> FD_NONE | Some p \<Rightarrow> if fd_ok fd then fd_get p (nat fd) k else FD_NONE)"

definition fd_obj_io :: "fd_io \<Rightarrow> int \<Rightarrow> kern \<Rightarrow> int option" where
  "fd_obj_io io fd k =
     (case fd_entry fd k of
        FD_BLK (Some b) \<Rightarrow> io_obj io (FD_BLK (Some b))
      | FD_VFS (Some f) \<Rightarrow> io_obj io (FD_VFS (Some f))
      | _ \<Rightarrow> None)"

definition sys_read :: "fd_io \<Rightarrow> devs \<Rightarrow> int \<Rightarrow> bool \<Rightarrow> int \<Rightarrow> kern \<Rightarrow> (int \<times> bytes) \<times> kern" where
  "sys_read io devs fd nonnull n k =
     (if \<not> nonnull \<or> n \<le> 0 then ((0, []), k)
      else case fd_istty fd k of
        Some t \<Rightarrow> ((io_tty io t, []), k)
      | None \<Rightarrow>
          (case sock_from_fd fd k of
             Some j \<Rightarrow> let (r, st) = sock_read devs (Some j) n (k_net k) in (r, k\<lparr>k_net := st\<rparr>)
           | None \<Rightarrow>
               (case fd_obj_io io fd k of
                  Some r \<Rightarrow> ((r, []), k)
                | None \<Rightarrow> ((-EBADF, []), k))))"

text \<open>A descriptor that refers to nothing is written to the console.\<close>

definition sys_write :: "fd_io \<Rightarrow> devs \<Rightarrow> int \<Rightarrow> bytes option \<Rightarrow> kern \<Rightarrow> int \<times> kern" where
  "sys_write io devs fd buf k =
     (case buf of None \<Rightarrow> (0, k) | Some b \<Rightarrow>
      if b = [] then (0, k)
      else case fd_istty fd k of
        Some t \<Rightarrow> (io_tty io t, k)
      | None \<Rightarrow>
          (case sock_from_fd fd k of
             Some j \<Rightarrow> let (r, st) = sock_write devs (Some j) b (k_net k) in (r, k\<lparr>k_net := st\<rparr>)
           | None \<Rightarrow>
               (case fd_obj_io io fd k of
                  Some r \<Rightarrow> (r, k)
                | None \<Rightarrow> (int (length b), k))))"

section \<open>What they keep\<close>

lemma open_slot_ok:
  assumes "kern_ok ex k" "\<forall>e. obj = Some e \<longrightarrow> held e = (\<lambda>_. 0)"
  shows "kern_ok ex (snd (open_slot err obj k)) \<and> k_net (snd (open_slot err obj k)) = k_net k"
proof -
  obtain fd k1 where a: "fd_alloc_slot k = (fd, k1)" by fastforce
  have t: "tabs_ok k" using assms(1) by (simp add: kern_ok_def)
  note ap = fd_alloc_slot_props [OF a t]
  have k1: "kern_ok ex k1" using a assms(1) by (rule kern_ok_alloc)
  have "kern_ok ex (fd_install fd e k1) \<and> k_net (fd_install fd e k1) = k_net k" if "0 \<le> fd" "held e = (\<lambda>_. 0)" for e
  proof -
    obtain p where "fd_ok fd" "k_cur k1 = Some p" "fd_get p (nat fd) k1 = FD_RESERVED"
      using ap(4,6) \<open>0 \<le> fd\<close> by auto
    then show ?thesis using kern_ok_install [of ex e k1 fd p] k1 that(2) ap(3) by (simp add: fd_install_def)
  qed
  then show ?thesis
    using a assms(2) k1 ap(3) by (auto simp: open_slot_def fd_release_slot_def split: option.splits)
qed

lemma sys_open_ok:
  assumes k: "kern_ok ex k"
  shows "kern_ok ex (snd (sys_open path flags k)) \<and> k_net (snd (sys_open path flags k)) = k_net k"
proof -
  have "\<forall>e. map_option (FD_BLK \<circ> Some) x = Some e \<longrightarrow> held e = (\<lambda>_. 0)"
    "\<forall>e. map_option (FD_VFS \<circ> Some) x = Some e \<longrightarrow> held e = (\<lambda>_. 0)" for x
    by auto
  from this [THEN open_slot_ok [OF k]] show ?thesis
    using k by (simp add: sys_open_def split: open_path.splits)
qed

context net_driver
begin

lemma sys_read_ok:
  assumes k: "kern_ok ex k"
  shows "kern_ok ex (snd (sys_read io devs fd nn n k)) \<and> safe P (k_net k) (k_net (snd (sys_read io devs fd nn n k)))"
proof -
  have "calm P (k_net k) (snd (sock_read devs (Some j) n (k_net k)))" if "sock_from_fd fd k = Some j" for j
    by (rule calm_weaken [OF sock_read_calm]) (use sock_from_fd_live [OF k that] in simp)
  from calm_call [OF k this] show ?thesis
    using k by (auto simp: sys_read_def case_prod_beta split: option.splits)
qed

lemma sys_write_ok:
  assumes k: "kern_ok ex k"
  shows "kern_ok ex (snd (sys_write io devs fd buf k)) \<and>
    safe (send_ok buf) (k_net k) (k_net (snd (sys_write io devs fd buf k)))"
proof -
  have "calm (send_ok (Some b)) (k_net k) (snd (sock_write devs (Some j) b (k_net k)))" if "sock_from_fd fd k = Some j" for j b
    by (rule calm_weaken [OF sock_write_calm]) (use sock_from_fd_live [OF k that] in \<open>simp add: send_ok_def\<close>)
  from calm_call [OF k this] show ?thesis
    using k by (auto simp: sys_write_def case_prod_beta split: option.splits)
qed

end

end
