(* ===== verification/Net_Stack.thy ===== *)
theory Net_Stack
  imports Net_Boot Fd_Io
begin

text \<open>
  The whole network stack as one machine. It starts with the zeroed image and the set-up of
  the driver; then the events arrive in any order: interrupts and polls, time, the network
  thread, the tests, and the system calls of the processes, which are created and exit.
  Events are atomic: they run under the lock of \<^verbatim>\<open>net_sync.c\<close>, which theory \<open>Net_Sync\<close> shows to be
  exclusive; where the code gives the lock up while it waits, the packets that arrive are those of
  the polls it makes.
\<close>

section \<open>Events\<close>

datatype net_event =
    Net_Poll
  | Net_Irq bool
  | Net_Device "used_view list" "used_view list" u16
  | Net_Clock u32 u32
  | Net_Softnet
  | Net_Ping u32 u32
  | Net_Udp_Echo u32 u16 u32
  | Net_Tcp_Echo u32 u16 u32
  | Net_Tcp_Rexmit u32 u16 u32
  | Net_Dns u32 u16 bytes u32
  | Net_Dhcp inet_config u32

fun net_do :: "nat \<Rightarrow> net_event \<Rightarrow> net \<Rightarrow> net" where
  "net_do n Net_Poll st = virtio_net_poll n st"
| "net_do n (Net_Irq entered) st = virtio_net_irq entered n st"
| "net_do n (Net_Device rx tx status) st =
     upd_vnet (\<lambda>v. v\<lparr>vn_rx_dev := vn_rx_dev v @ rx, vn_tx_dev := vn_tx_dev v @ tx, vn_status := status\<rparr>) st"
| "net_do n (Net_Clock t secs) st = st\<lparr>ticks := t, time_count := secs\<rparr>"
| "net_do n Net_Softnet st = softnet_tick (vnet_devs n) st"
| "net_do n (Net_Ping host w) st = snd (icmp_ping (vnet_devs n) (netif_default st) host w st)"
| "net_do n (Net_Udp_Echo host port w) st = snd (udp_echo_client (vnet_devs n) (netif_default st) host port w st)"
| "net_do n (Net_Tcp_Echo host port w) st = snd (tcp_echo_client (vnet_devs n) (netif_default st) host port w st)"
| "net_do n (Net_Tcp_Rexmit host port w) st =
     snd (tcp_echo_rexmit_selftest (vnet_devs n) (netif_default st) host port w st)"
| "net_do n (Net_Dns host port name w) st = snd (dns_query_a (vnet_devs n) (netif_default st) host port name w st)"
| "net_do n (Net_Dhcp cfg w) st = snd (snd (dhcp_client (vnet_devs n) (netif_default st) cfg w st))"

datatype sys_event =
    Sys_Net net_event
  | Sys_Socket "nat option" int int
  | Sys_Bind int "sockaddr_in option" u32
  | Sys_Listen int
  | Sys_Accept "nat option" int "u32 option"
  | Sys_Connect int "sockaddr_in option" u32
  | Sys_Send int "bytes option"
  | Sys_Recv int bool u64
  | Sys_Sendto int "bytes option" "sockaddr_in option" u32
  | Sys_Recvfrom int bool u64 "u32 option"
  | Sys_Open open_path u32
  | Sys_Read int bool int
  | Sys_Write int "bytes option"
  | Sys_Close int
  | Sys_Dup int
  | Sys_Dup2 int int
  | Proc_Start "nat option"
  | Proc_Spawn bool nat "nat option"
  | Proc_Exit nat
  | Proc_Switch "nat option"

definition new_proc :: "nat option \<Rightarrow> proc" where
  "new_proc ctty = \<lparr>pr_fds = replicate FD_MAX FD_NONE, pr_ctty = ctty\<rparr>"

definition proc_add :: "nat option \<Rightarrow> kern \<Rightarrow> kern" where
  "proc_add ctty k = k\<lparr>k_procs := k_procs k @ [new_proc ctty]\<rparr>"

fun sys_do :: "fd_world \<Rightarrow> fd_io \<Rightarrow> nat \<Rightarrow> sys_event \<Rightarrow> kern \<Rightarrow> kern" where
  "sys_do w io n (Sys_Net ev) k = on_net (net_do n ev) k"
| "sys_do w io n (Sys_Socket mem domain ty) k = snd (sys_socket mem domain ty k)"
| "sys_do w io n (Sys_Bind fd addr len) k = snd (sys_bind fd addr len k)"
| "sys_do w io n (Sys_Listen fd) k = snd (sys_listen fd k)"
| "sys_do w io n (Sys_Accept mem fd len) k = snd (sys_accept (vnet_devs n) mem fd len k)"
| "sys_do w io n (Sys_Connect fd addr len) k = snd (sys_connect (vnet_devs n) fd addr len k)"
| "sys_do w io n (Sys_Send fd buf) k = snd (sys_send (vnet_devs n) fd buf k)"
| "sys_do w io n (Sys_Recv fd nonnull len) k = snd (sys_recv (vnet_devs n) fd nonnull len k)"
| "sys_do w io n (Sys_Sendto fd buf addr len) k = snd (sys_sendto (vnet_devs n) fd buf addr len k)"
| "sys_do w io n (Sys_Recvfrom fd nonnull len alen) k = snd (sys_recvfrom (vnet_devs n) fd nonnull len alen k)"
| "sys_do w io n (Sys_Open path flags) k = snd (sys_open path flags k)"
| "sys_do w io n (Sys_Read fd nonnull len) k = snd (sys_read io (vnet_devs n) fd nonnull len k)"
| "sys_do w io n (Sys_Write fd buf) k = snd (sys_write io (vnet_devs n) fd buf k)"
| "sys_do w io n (Sys_Close fd) k = snd (sys_close w (vnet_devs n) fd k)"
| "sys_do w io n (Sys_Dup fd) k = snd (sys_dup w fd k)"
| "sys_do w io n (Sys_Dup2 fd fd') k = snd (sys_dup2 w (vnet_devs n) fd fd' k)"
| "sys_do w io n (Proc_Start ctty) k = proc_add ctty k"
| "sys_do w io n (Proc_Spawn for_fork src ctty) k =
     snd (posix_fd_clone_mode w (vnet_devs n) (length (k_procs k)) src for_fork (proc_add ctty k))"
| "sys_do w io n (Proc_Exit p) k = posix_fd_close_all w (vnet_devs n) p k"
| "sys_do w io n (Proc_Switch p) k = k\<lparr>k_cur := p\<rparr>"

text \<open>
  What the rest of the kernel guarantees: \<^verbatim>\<open>malloc\<close> returns memory that is not in use, process
  numbers are those of processes, and no buffer of 4 gigabytes less 8 bytes or more is sent.
\<close>

fun ev_ok :: "sys_event \<Rightarrow> kern \<Rightarrow> bool" where
  "ev_ok (Sys_Socket mem _ _) k = fresh mem (k_net k)"
| "ev_ok (Sys_Accept mem _ _) k = fresh mem (k_net k)"
| "ev_ok (Sys_Send _ buf) k = send_ok buf"
| "ev_ok (Sys_Sendto _ buf _ _) k = send_ok buf"
| "ev_ok (Sys_Write _ buf) k = send_ok buf"
| "ev_ok (Proc_Spawn _ src _) k = (src < length (k_procs k))"
| "ev_ok (Proc_Exit p) k = (p < length (k_procs k))"
| "ev_ok (Proc_Switch p) k = (case p of None \<Rightarrow> True | Some i \<Rightarrow> i < length (k_procs k))"
| "ev_ok _ k = True"

section \<open>Reachable states\<close>

definition kern_boot :: "nat \<Rightarrow> vnet_hw \<Rightarrow> string option \<Rightarrow> inet_config \<Rightarrow> u32 \<Rightarrow> net \<Rightarrow> kern" where
  "kern_boot n hw cmdline cfg thread st =
     \<lparr>k_net = virtio_net_init n hw cmdline cfg thread st, k_procs = [], k_cur = None\<rparr>"

inductive kreach :: "kern \<Rightarrow> bool" where
  boot: "length (hw_mac hw) = ETH_ADDR_LEN \<Longrightarrow> kreach (kern_boot n hw cmdline cfg thread (net_bss addr rx tx))"
| event: "kreach k \<Longrightarrow> ev_ok ev k \<Longrightarrow> kreach (sys_do w io n ev k)"

section \<open>Every event keeps the invariant\<close>

lemma net_do_calm: "calm P st (net_do n ev st)"
proof (cases ev)
  case (Net_Device rx tx status)
  then show ?thesis by (auto intro!: calm_upd_vnet simp: vnet_ok_def)
next
  case (Net_Clock t secs)
  then show ?thesis by (auto intro!: calm_vars simp: wrapped_def net_inv_def)
next
  case Net_Poll
  then show ?thesis by (simp add: calm_trip vnet_poll_trip)
next
  case Net_Irq
  then show ?thesis by (simp add: calm_trip vnet_irq_trip)
qed (simp_all add: net_driver.softnet_tick_calm [OF vnet_net_driver] net_driver.dhcp_client_calm [OF vnet_net_driver]
    net_driver.dns_query_a_trip [OF vnet_net_driver] calm_trip vnet.icmp_ping_trip vnet.udp_echo_client_trip
    vnet.tcp_echo_client_trip vnet.tcp_echo_rexmit_selftest_trip)

lemma refs_of_add: "refs_of (proc_add ctty k) = refs_of k"
proof -
  have "count_list (replicate m FD_NONE) (FD_SOCK s) = 0" for m s by (induction m) auto
  then show ?thesis by (simp add: refs_of_def proc_add_def new_proc_def fun_eq_iff)
qed

lemma kern_ok_add: "kern_ok ex k \<Longrightarrow> kern_ok ex (proc_add ctty k)"
  using refs_of_add [of ctty k]
  by (auto simp: kern_ok_def tabs_ok_def) (auto simp: proc_add_def new_proc_def)

lemma spawn_ok:
  assumes "kern_ok ex k" "src < length (k_procs k)"
  shows "kern_ok ex (snd (posix_fd_clone_mode w (vnet_devs n) (length (k_procs k)) src ff (proc_add ctty k))) \<and>
    safe P (k_net k) (k_net (snd (posix_fd_clone_mode w (vnet_devs n) (length (k_procs k)) src ff (proc_add ctty k))))"
proof -
  have a: "kern_ok ex (proc_add ctty k)" "length (k_procs k) < length (k_procs (proc_add ctty k))"
    "src < length (k_procs (proc_add ctty k))" "length (k_procs k) \<noteq> src"
    "\<forall>fd < FD_MAX. fd_get (length (k_procs k)) fd (proc_add ctty k) = FD_NONE"
    using assms(1,2) by (simp_all add: kern_ok_add) (simp_all add: proc_add_def fd_get_def new_proc_def)
  have "k_net (proc_add ctty k) = k_net k" by (simp add: proc_add_def)
  then show ?thesis
    using net_driver.clone_mode_ok [OF vnet_net_driver a] by metis
qed

lemma exit_ok:
  assumes "kern_ok ex k" "p < length (k_procs k)"
  shows "kern_ok ex (posix_fd_close_all w (vnet_devs n) p k) \<and>
    safe P (k_net k) (k_net (posix_fd_close_all w (vnet_devs n) p k))"
  using net_driver.close_all_ok [OF vnet_net_driver assms, where fds = "[0..<FD_MAX]" and w = w and P = P]
  by (simp add: posix_fd_close_all_def)

lemmas call_ok = net_driver.fd_calls_ok [OF vnet_net_driver] net_driver.send_calls_ok [OF vnet_net_driver]
  net_driver.sys_socket_ok [OF vnet_net_driver] net_driver.sys_accept_ok [OF vnet_net_driver]
  sys_open_ok net_driver.sys_read_ok [OF vnet_net_driver] net_driver.sys_write_ok [OF vnet_net_driver]
  net_driver.sys_close_ok [OF vnet_net_driver] sys_dup_ok net_driver.sys_dup2_ok [OF vnet_net_driver]
  spawn_ok exit_ok

lemma sys_do_ok:
  assumes k: "kern_ok ex k" and ev: "ev_ok ev k"
  shows "kern_ok ex (sys_do w io n ev k) \<and> safe True (k_net k) (k_net (sys_do w io n ev k))"
proof (cases ev)
  case (Sys_Net e)
  then show ?thesis using calm_call [OF k net_do_calm] by (simp add: on_net_def)
next
  case (Sys_Send fd buf)
  then show ?thesis using call_ok(6) [OF k, where buf = buf] ev by simp
next
  case (Sys_Sendto fd buf addr len)
  then show ?thesis using call_ok(7) [OF k, where buf = buf] ev by simp
next
  case (Sys_Write fd buf)
  then show ?thesis using net_driver.sys_write_ok [OF vnet_net_driver k, where buf = buf] ev by simp
next
  case (Proc_Start ctty)
  then show ?thesis using kern_ok_add [OF k, of ctty] by (simp add: proc_add_def)
next
  case (Proc_Switch p)
  then show ?thesis using k ev by (auto simp: kern_ok_def tabs_ok_def refs_of_def split: option.splits)
qed (use assms in \<open>simp_all add: call_ok\<close>)

text \<open>The invariant of the reachable states.\<close>

definition kern_inv :: "kern \<Rightarrow> bool" where
  "kern_inv k \<longleftrightarrow> kern_ok (\<lambda>_. 0) k \<and> (wrapped (k_net k) \<or> sound (k_net k))"

lemma kern_boot_inv:
  assumes "length (hw_mac hw) = ETH_ADDR_LEN"
  shows "kern_inv (kern_boot n hw cmdline cfg thread (net_bss addr rx tx))"
proof -
  have c: "calm True (net_bss addr rx tx) (virtio_net_init n hw cmdline cfg thread (net_bss addr rx tx))"
    using assms by (rule virtio_net_init_calm) (simp add: net_bss_def)
  have "sk_inv (\<lambda>_. 0) (net_bss addr rx tx)" by (simp add: sk_inv_def sk_view_def net_bss_def)
  then have "sk_inv (\<lambda>_. 0) (virtio_net_init n hw cmdline cfg thread (net_bss addr rx tx))"
    using calm_sk_inv [OF c] by simp
  then show ?thesis
    using c net_bss_sound [of addr rx tx] by (auto simp: kern_inv_def kern_ok_def kern_boot_def tabs_ok_def refs_of_def calm_def safe_def)
qed

lemma kreach_inv: "kreach k \<Longrightarrow> kern_inv k"
proof (induction rule: kreach.induct)
  case (event k ev w io n)
  then show ?case using sys_do_ok [of "\<lambda>_. 0" k ev w io n] by (auto simp: kern_inv_def safe_def)
qed (rule kern_boot_inv)

section \<open>Properties of the whole stack\<close>

text \<open>A boot with a working device, for the witnesses.\<close>

definition demo_hw :: vnet_hw where
  "demo_hw = \<lparr>hw_found = True, hw_caps = True, hw_offered = 0x10020, hw_features_ok = True, hw_rx_size = 256,
     hw_tx_size = 256, hw_rx_mem = True, hw_tx_mem = True, hw_mac = [0x52, 0x54, 0, 0x12, 0x34, 0x56]\<rparr>"

definition demo_cfg :: inet_config where
  "demo_cfg = \<lparr>cfg_ip = 0, cfg_netmask = 0, cfg_gateway = 0\<rparr>"

definition demo_kern :: kern where
  "demo_kern = sys_do \<lparr>w_inherit = (\<lambda>_ _. True), w_close = (\<lambda>_. 0)\<rparr> \<lparr>io_tty = (\<lambda>_. 0), io_obj = (\<lambda>_. None)\<rparr> 3
     (Sys_Net Net_Poll) (kern_boot 3 demo_hw None demo_cfg 1 (net_bss 0 [] []))"

lemma demo_kern_reach: "kreach demo_kern"
  unfolding demo_kern_def
  by (rule kreach.event, rule kreach.boot) (simp_all add: demo_hw_def ETH_ADDR_LEN_def)



text \<open>C2.
  In every reachable state the reference count of a socket is the number of descriptors of
  all processes that refer to it, and it is not zero. A UDP socket is registered for delivery exactly
  once and has no connection, a TCP socket has one and is not registered. No descriptor and no
  registration refers to a socket that has been freed.
\<close>

theorem socket_references_exact:
  assumes "kreach k"
  shows "case socks (sock_v (k_net k)) j of
      None \<Rightarrow> refs_of k j = 0 \<and> Some j \<notin> set (udp_socks (sock_v (k_net k)))
    | Some s \<Rightarrow> sk_refs s = int (refs_of k j) \<and> 0 < refs_of k j \<and>
        count_list (udp_socks (sock_v (k_net k))) (Some j) = of_bool (sk_type s = SOCK_UDP) \<and>
        (sk_pcb s = None) = (sk_type s = SOCK_UDP)"
proof -
  have "sk_inv (refs_of k) (k_net k)" using kreach_inv [OF assms] by (simp add: kern_inv_def kern_ok_def)
  then show ?thesis
    by (auto simp: sk_inv_def sk_view_def sk_entry_ok_def count_list_0_iff split: option.splits if_splits
        dest!: spec [of _ j])
qed

theorem socket_references_exact_witness:
  "kreach demo_kern \<and> (case socks (sock_v (k_net demo_kern)) 7 of
      None \<Rightarrow> refs_of demo_kern 7 = 0 \<and> Some 7 \<notin> set (udp_socks (sock_v (k_net demo_kern)))
    | Some s \<Rightarrow> sk_refs s = int (refs_of demo_kern 7) \<and> 0 < refs_of demo_kern 7 \<and>
        count_list (udp_socks (sock_v (k_net demo_kern))) (Some 7) = of_bool (sk_type s = SOCK_UDP) \<and>
        (sk_pcb s = None) = (sk_type s = SOCK_UDP))"
  using demo_kern_reach socket_references_exact [OF demo_kern_reach, of 7] by blast

text \<open>C29.
  What a pass of \<^verbatim>\<open>dhcp_service\<close> on a configured interface with a lease does. Either it
  succeeds, which it can only when the renewal or the rebinding timer has run out; then the lease is bound
  again, the timers are set from the new lease, and lease, interface and configuration agree.
  Or it fails; then configuration, interface addresses, lease and timers are as before, and the
  state of the client is the one the clock and the timers determine.
\<close>

theorem dhcp_service_result:
  assumes "dhcp_service (vnet_devs m) (Some n) cfg now w st = (r, cfg', st')"
    and "dhcp_have_lease (dhcp_v st)" "nif_configured (nifs st n) \<noteq> 0"
  shows "r = 0 \<and> dhcp_due now (dhcp_v st) \<and> lease_renewed n cfg' st' \<or>
    r = -1 \<and> cfg' = cfg \<and> dhcp_kept (set_dhcp_state (dhcp_next now (dhcp_v st)) st) st'"
  by (rule net_driver.dhcp_service_outcome [OF vnet_net_driver assms])

definition demo_lease :: net where
  "demo_lease = upd_dhcp (\<lambda>d. d\<lparr>dhcp_have_lease := True, dhcp_state := DHCP_ST_BOUND, dhcp_t1_abs := 50, dhcp_t2_abs := 80\<rparr>)
     (netif_set_addr 0 0x0A00020F 0xFFFFFF00 0x0A000202 (net_bss 0 [] []))"

theorem dhcp_service_result_witness:
  "dhcp_service (vnet_devs 1) (Some 0) demo_cfg 10 100 demo_lease = (-1, demo_cfg, demo_lease) \<and>
   dhcp_have_lease (dhcp_v demo_lease) \<and> nif_configured (nifs demo_lease 0) \<noteq> 0 \<and>
   ((-1 :: int) = 0 \<and> dhcp_due 10 (dhcp_v demo_lease) \<and> lease_renewed 0 demo_cfg demo_lease \<or>
    (-1 :: int) = -1 \<and> demo_cfg = demo_cfg \<and>
    dhcp_kept (set_dhcp_state (dhcp_next 10 (dhcp_v demo_lease)) demo_lease) demo_lease)"
proof -
  have d: "dhcp_have_lease (dhcp_v demo_lease)" "nif_configured (nifs demo_lease 0) \<noteq> 0"
    by (simp_all add: demo_lease_def netif_set_addr_def upd_nif_def upd_dhcp_def)
  have s: "dhcp_service (vnet_devs 1) (Some 0) demo_cfg 10 100 demo_lease = (-1, demo_cfg, demo_lease)"
    by (simp add: dhcp_service_def try_then_def demo_lease_def netif_set_addr_def upd_nif_def upd_dhcp_def)
  show ?thesis using d s dhcp_service_result [OF s d] by blast
qed

text \<open>C28.
  The initial exchange. Either it yields a lease whose address, mask and gateway are those put into
  the configuration, the last two not zero, with both timers set from the lease time and the
  interface untouched; or it fails and leaves the configuration, the interfaces and the client as they were.
\<close>

theorem dhcp_client_result:
  "case dhcp_client (vnet_devs m) (Some n) cfg w st of (r, cfg', st') \<Rightarrow>
     r = 0 \<and> (let d = dhcp_v st'; a = dhcp_active d; secs = or_else (dl_lease_secs a) 86400 in
        dhcp_state d = DHCP_ST_BOUND \<and> dhcp_have_lease d \<and>
        dhcp_t1_abs d = time_count st + dhcp_t1_secs secs \<and> dhcp_t2_abs d = time_count st + dhcp_t2_secs secs \<and>
        dl_ip a = cfg_ip cfg' \<and> dl_netmask a = cfg_netmask cfg' \<and> dl_gateway a = cfg_gateway cfg' \<and>
        cfg_netmask cfg' \<noteq> 0 \<and> cfg_gateway cfg' \<noteq> 0 \<and> (\<forall>k. nif_key (nifs st' k) = nif_key (nifs st k))) \<or>
     r = -1 \<and> cfg' = cfg \<and> dhcp_kept st st'"
  by (auto split: prod.split dest: net_driver.dhcp_client_outcome [OF vnet_net_driver])

end
