(* ===== verification/Net_Sync.thy ===== *)
theory Net_Sync
  imports Kernel_Prelude
begin

text \<open>
  The lock of the network stack (\<^verbatim>\<open>kernel/net/net_sync.c\<close>, on the spin lock of
  \<^verbatim>\<open>kernel/cpu/spinlock.h\<close>). The code reads the owner and the depth outside the spin lock, so
  the model is a step relation in which the processors interleave: every step is one access
  of one processor to a shared variable. A processor calls \<^verbatim>\<open>net_lock\<close> whenever it likes and
  \<^verbatim>\<open>net_unlock\<close> as often as it has locked.

  The lemmas show mutual exclusion, that the recursive path is taken exactly by the processor
  that has the lock, that interrupts are off while it has it and come back as they were, and
  that all this rests on the first call not being made on two processors at once.
\<close>

section \<open>The processors and the lock\<close>

text \<open>
  Where a processor is: running its own code, at a step of \<^verbatim>\<open>net_lock\<close> (\<open>L\<close>), of
  \<^verbatim>\<open>net_sync_init\<close> (\<open>I\<close>) or of \<^verbatim>\<open>net_unlock\<close> (\<open>U\<close>).
\<close>

datatype loc = Run
  | L_inited | I_inited | I_spin | I_owner | I_depth | I_done
  | L_owner | L_depth | L_again | L_irqsave | L_spin | L_set_owner | L_set_depth | L_set_flags
  | U_depth | U_dec | U_owner | U_release

record cpu =
  at :: loc
  nest :: nat
  ints :: bool
  loc_flags :: bool

text \<open>
  The shared variables and the processors. Of the spin lock the code stores only that it is
  taken; \<open>biglock\<close> also has the processor that took it last.
\<close>

record lockst =
  net_inited :: bool
  biglock :: "nat option"
  net_owner :: "nat option"
  net_depth :: nat
  net_irq_flags :: bool
  cpus :: "nat \<Rightarrow> cpu"

definition goto :: "nat \<Rightarrow> (cpu \<Rightarrow> cpu) \<Rightarrow> lockst \<Rightarrow> lockst" where
  "goto c f s = s\<lparr>cpus := (cpus s)(c := f (cpus s c))\<rparr>"

text \<open>One access of processor \<open>c\<close>, by where it is; \<open>None\<close> while it has to wait.\<close>

definition net_step :: "nat \<Rightarrow> lockst \<Rightarrow> lockst option" where
  "net_step c s =
     (let here = (\<lambda>l. goto c (\<lambda>p. p\<lparr>at := l\<rparr>)) in
      case at (cpus s c) of
        Run \<Rightarrow> None
      | L_inited \<Rightarrow> Some (here (if net_inited s then L_owner else I_inited) s)
      | I_inited \<Rightarrow> Some (here (if net_inited s then L_owner else I_spin) s)
      | I_spin \<Rightarrow> Some (here I_owner (s\<lparr>biglock := None\<rparr>))
      | I_owner \<Rightarrow> Some (here I_depth (s\<lparr>net_owner := None\<rparr>))
      | I_depth \<Rightarrow> Some (here I_done (s\<lparr>net_depth := 0\<rparr>))
      | I_done \<Rightarrow> Some (here L_owner (s\<lparr>net_inited := True\<rparr>))
      | L_owner \<Rightarrow> Some (here (if net_owner s = Some c then L_depth else L_irqsave) s)
      | L_depth \<Rightarrow> Some (here (if net_depth s > 0 then L_again else L_irqsave) s)
      | L_again \<Rightarrow> Some (goto c (\<lambda>p. p\<lparr>at := Run, nest := nest p + 1\<rparr>) (s\<lparr>net_depth := net_depth s + 1\<rparr>))
      | L_irqsave \<Rightarrow> Some (goto c (\<lambda>p. p\<lparr>at := L_spin, loc_flags := ints p, ints := False\<rparr>) s)
      | L_spin \<Rightarrow> if biglock s = None then Some (here L_set_owner (s\<lparr>biglock := Some c\<rparr>)) else None
      | L_set_owner \<Rightarrow> Some (here L_set_depth (s\<lparr>net_owner := Some c\<rparr>))
      | L_set_depth \<Rightarrow> Some (here L_set_flags (s\<lparr>net_depth := 1\<rparr>))
      | L_set_flags \<Rightarrow> Some (goto c (\<lambda>p. p\<lparr>at := Run, nest := nest p + 1\<rparr>) (s\<lparr>net_irq_flags := loc_flags (cpus s c)\<rparr>))
      | U_depth \<Rightarrow> Some (if net_depth s = 0 then goto c (\<lambda>p. p\<lparr>at := Run, nest := nest p - 1\<rparr>) s else here U_dec s)
      | U_dec \<Rightarrow> Some (goto c (\<lambda>p. p\<lparr>at := if net_depth s > 1 then Run else U_owner, nest := nest p - 1\<rparr>)
                   (s\<lparr>net_depth := net_depth s - 1\<rparr>))
      | U_owner \<Rightarrow> Some (here U_release (s\<lparr>net_owner := None\<rparr>))
      | U_release \<Rightarrow> Some (goto c (\<lambda>p. p\<lparr>at := Run, ints := ints p \<or> net_irq_flags s\<rparr>) (s\<lparr>biglock := None\<rparr>)))"

definition net_lock_held :: "nat \<Rightarrow> lockst \<Rightarrow> bool" where
  "net_lock_held c s \<longleftrightarrow> net_owner s = Some c \<and> net_depth s > 0"

text \<open>The interleavings: a call, an access, or a change of the interrupt flag by code that holds nothing.\<close>

inductive sync_step :: "lockst \<Rightarrow> lockst \<Rightarrow> bool" where
  call_lock: "at (cpus s c) = Run \<Longrightarrow> sync_step s (goto c (\<lambda>p. p\<lparr>at := L_inited\<rparr>) s)"
| call_unlock: "at (cpus s c) = Run \<Longrightarrow> nest (cpus s c) > 0 \<Longrightarrow> sync_step s (goto c (\<lambda>p. p\<lparr>at := U_depth\<rparr>) s)"
| access: "net_step c s = Some s' \<Longrightarrow> sync_step s s'"
| set_ints: "at (cpus s c) = Run \<Longrightarrow> nest (cpus s c) = 0 \<Longrightarrow> sync_step s (goto c (\<lambda>p. p\<lparr>ints := b\<rparr>) s)"

definition sync_start :: "bool \<Rightarrow> lockst" where
  "sync_start inited = \<lparr>net_inited = inited, biglock = None, net_owner = None, net_depth = 0, net_irq_flags = False,
     cpus = (\<lambda>c. \<lparr>at = Run, nest = 0, ints = True, loc_flags = False\<rparr>)\<rparr>"

inductive sync_reach :: "bool \<Rightarrow> lockst \<Rightarrow> bool" for inited where
  start: "sync_reach inited (sync_start inited)"
| step: "sync_reach inited s \<Longrightarrow> sync_step s s' \<Longrightarrow> sync_reach inited s'"

section \<open>The invariant\<close>

text \<open>What holds of a processor, by where it is, once the lock has been initialised.\<close>

definition cpu_inv :: "lockst \<Rightarrow> nat \<Rightarrow> bool" where
  "cpu_inv s c \<longleftrightarrow>
     (let p = cpus s c; mine = (biglock s = Some c);
          has = (mine \<and> net_owner s = Some c \<and> \<not> ints p \<and> net_irq_flags s = loc_flags p) in
      case at p of
        Run \<Rightarrow> if nest p = 0 then \<not> mine else has \<and> net_depth s = nest p
      | L_inited \<Rightarrow> if nest p = 0 then \<not> mine else has \<and> net_depth s = nest p
      | L_owner \<Rightarrow> if nest p = 0 then \<not> mine else has \<and> net_depth s = nest p
      | L_depth \<Rightarrow> nest p > 0 \<and> has \<and> net_depth s = nest p
      | L_again \<Rightarrow> nest p > 0 \<and> has \<and> net_depth s = nest p
      | L_irqsave \<Rightarrow> nest p = 0 \<and> \<not> mine
      | L_spin \<Rightarrow> nest p = 0 \<and> \<not> mine \<and> \<not> ints p
      | L_set_owner \<Rightarrow> nest p = 0 \<and> mine \<and> net_owner s = None \<and> net_depth s = 0 \<and> \<not> ints p
      | L_set_depth \<Rightarrow> nest p = 0 \<and> mine \<and> net_owner s = Some c \<and> \<not> ints p
      | L_set_flags \<Rightarrow> nest p = 0 \<and> mine \<and> net_owner s = Some c \<and> net_depth s = 1 \<and> \<not> ints p
      | U_depth \<Rightarrow> nest p > 0 \<and> has \<and> net_depth s = nest p
      | U_dec \<Rightarrow> nest p > 0 \<and> has \<and> net_depth s = nest p
      | U_owner \<Rightarrow> nest p = 0 \<and> has \<and> net_depth s = 0
      | U_release \<Rightarrow> nest p = 0 \<and> mine \<and> net_owner s = None \<and> net_depth s = 0 \<and> \<not> ints p \<and> net_irq_flags s = loc_flags p
      | _ \<Rightarrow> False)"

definition sync_inv :: "lockst \<Rightarrow> bool" where
  "sync_inv s \<longleftrightarrow> net_inited s \<and> (\<forall>c. cpu_inv s c) \<and> (\<forall>c. net_owner s = Some c \<longrightarrow> biglock s = Some c) \<and>
     (biglock s = None \<longrightarrow> net_depth s = 0)"

lemma goto_simps [simp]:
  "net_inited (goto c f s) = net_inited s" "biglock (goto c f s) = biglock s" "net_owner (goto c f s) = net_owner s"
  "net_depth (goto c f s) = net_depth s" "net_irq_flags (goto c f s) = net_irq_flags s"
  "cpus (goto c f s) d = (if d = c then f (cpus s c) else cpus s d)"
  by (simp_all add: goto_def)

text \<open>The other processors see a step only through the variables of the lock's holder.\<close>

lemma cpu_inv_other:
  assumes "cpu_inv s d" "cpus s' d = cpus s d" "(biglock s' = Some d) = (biglock s = Some d)"
    and "biglock s = Some d \<Longrightarrow> net_owner s' = net_owner s \<and> net_depth s' = net_depth s \<and> net_irq_flags s' = net_irq_flags s"
  shows "cpu_inv s' d"
  using assms by (cases "biglock s = Some d") (auto simp: cpu_inv_def Let_def split: loc.splits if_splits)

lemma sync_inv_step:
  assumes inv: "sync_inv s" and st: "net_step c s = Some s'"
  shows "sync_inv s'"
proof -
  have c: "cpu_inv s c" and o: "\<And>d. cpu_inv s d" using inv by (simp_all add: sync_inv_def)
  have "cpu_inv s' d" for d
  proof (cases "d = c")
    case True
    show ?thesis
      using c st inv unfolding True
      by (cases "at (cpus s c)") (auto simp: net_step_def cpu_inv_def sync_inv_def Let_def split: if_splits)
  next
    case False
    show ?thesis
      using st c False
      by (intro cpu_inv_other [OF o [of d]]; cases "at (cpus s c)")
        (auto simp: net_step_def cpu_inv_def Let_def split: if_splits)
  qed
  moreover have "net_inited s' \<and> (\<forall>c. net_owner s' = Some c \<longrightarrow> biglock s' = Some c) \<and> (biglock s' = None \<longrightarrow> net_depth s' = 0)"
    using c st inv
    by (cases "at (cpus s c)") (auto simp: net_step_def cpu_inv_def sync_inv_def Let_def split: if_splits)
  ultimately show ?thesis by (simp add: sync_inv_def)
qed

lemma sync_inv_call:
  assumes "sync_inv s" "at (cpus s c) = Run" "\<And>p. loc_flags (f p) = loc_flags p \<and> nest (f p) = nest p"
    and "at (f (cpus s c)) = L_inited \<or> at (f (cpus s c)) = U_depth \<and> nest (cpus s c) > 0 \<or>
      at (f (cpus s c)) = Run \<and> nest (cpus s c) = 0" "nest (cpus s c) > 0 \<Longrightarrow> ints (f (cpus s c)) = ints (cpus s c)"
  shows "sync_inv (goto c f s)"
proof -
  have o: "cpu_inv s d" for d using assms(1) by (simp add: sync_inv_def)
  have c: "if nest (cpus s c) = 0 then biglock s \<noteq> Some c
      else biglock s = Some c \<and> net_owner s = Some c \<and> \<not> ints (cpus s c) \<and>
        net_irq_flags s = loc_flags (cpus s c) \<and> net_depth s = nest (cpus s c)"
    using o [of c] assms(2) by (simp add: cpu_inv_def Let_def)
  have "cpu_inv (goto c f s) c"
    using assms(4)
  proof (elim disjE conjE)
    assume "at (f (cpus s c)) = L_inited"
    then show ?thesis using c assms(3,5) by (cases "nest (cpus s c) = 0") (simp_all add: cpu_inv_def)
  next
    assume "at (f (cpus s c)) = U_depth" "nest (cpus s c) > 0"
    then show ?thesis using c assms(3,5) by (simp add: cpu_inv_def)
  next
    assume "at (f (cpus s c)) = Run" "nest (cpus s c) = 0"
    then show ?thesis using c assms(3) by (simp add: cpu_inv_def)
  qed
  moreover have "cpu_inv (goto c f s) d" if "d \<noteq> c" for d
    by (rule cpu_inv_other [OF o]) (use that in simp_all)
  ultimately have "cpu_inv (goto c f s) d" for d by (cases "d = c") simp_all
  then show ?thesis using assms(1) by (simp add: sync_inv_def)
qed

lemma sync_reach_inv: "sync_reach True s \<Longrightarrow> sync_inv s"
proof (induction rule: sync_reach.induct)
  case start
  show ?case by (simp add: sync_inv_def sync_start_def cpu_inv_def)
next
  case (step s s')
  from step.hyps(2) step.IH show ?case
    by cases (auto intro: sync_inv_step intro!: sync_inv_call)
qed

section \<open>What the lock guarantees\<close>

text \<open>A schedule: the processors named in turn, each making a call when it is not in one.\<close>

definition sync_turn :: "nat \<Rightarrow> lockst \<Rightarrow> lockst" where
  "sync_turn c s =
     (if at (cpus s c) = Run then goto c (\<lambda>p. p\<lparr>at := L_inited\<rparr>) s
      else case net_step c s of None \<Rightarrow> s | Some s' \<Rightarrow> s')"

lemma sync_turns_reach: "sync_reach b s \<Longrightarrow> sync_reach b (fold sync_turn cs s)"
proof (induction cs arbitrary: s)
  case (Cons c cs)
  have "sync_reach b (sync_turn c s)"
    using Cons.prems by (auto simp: sync_turn_def intro: sync_reach.step sync_step.intros split: option.splits)
  then show ?case using Cons.IH by simp
qed simp

text \<open>
  C10. Mutual exclusion. In every interleaving that starts after the lock is initialised, a
  processor inside the lock is the owner, the depth is its number of nested calls, its
  interrupts are off, it is not about to spin on the lock it has, and no other processor is
  inside or believes to be.
\<close>

theorem net_lock_exclusive:
  assumes "sync_reach True s" "nest (cpus s c) > 0"
  shows "net_lock_held c s \<and> net_depth s = nest (cpus s c) \<and> \<not> ints (cpus s c) \<and>
    at (cpus s c) \<notin> {L_irqsave, L_spin} \<and> (\<forall>d. d \<noteq> c \<longrightarrow> nest (cpus s d) = 0 \<and> \<not> net_lock_held d s)"
proof -
  have inv: "sync_inv s" using assms(1) by (rule sync_reach_inv)
  then have i: "cpu_inv s d" for d by (simp add: sync_inv_def)
  have c: "biglock s = Some c \<and> net_owner s = Some c \<and> net_depth s = nest (cpus s c) \<and> \<not> ints (cpus s c) \<and>
      at (cpus s c) \<notin> {L_irqsave, L_spin}"
    using i [of c] assms(2) by (auto simp: cpu_inv_def Let_def split: loc.splits)
  then have "nest (cpus s d) = 0" if "d \<noteq> c" for d
    using i [of d] that by (auto simp: cpu_inv_def Let_def split: loc.splits if_splits)
  with c show ?thesis using assms(2) by (auto simp: net_lock_held_def)
qed

theorem net_lock_exclusive_witness:
  "net_lock_held 1 (fold sync_turn (replicate 8 1 @ replicate 4 0) (sync_start True))"
  using net_lock_exclusive [OF sync_turns_reach [OF sync_reach.start], of "replicate 8 1 @ replicate 4 0" 1]
  by (simp add: sync_turn_def sync_start_def net_step_def numeral_eq_Suc)



text \<open>
  Interrupts. The last \<^verbatim>\<open>net_unlock\<close> of a processor frees the spin lock and gives the
  interrupt flag the value that the outermost \<^verbatim>\<open>net_lock\<close> has saved.
\<close>

theorem net_unlock_restores:
  assumes "sync_reach True s" "at (cpus s c) = U_release"
  shows "\<exists>s'. net_step c s = Some s' \<and> biglock s' = None \<and> net_owner s' = None \<and>
    ints (cpus s' c) = loc_flags (cpus s c)"
proof -
  have "cpu_inv s c" using sync_reach_inv [OF assms(1)] by (simp add: sync_inv_def)
  then show ?thesis using assms(2) by (simp add: cpu_inv_def net_step_def Let_def)
qed

definition sync_unlock_turns :: "nat \<Rightarrow> lockst \<Rightarrow> lockst" where
  "sync_unlock_turns c s = (sync_turn c ^^ 3) (goto c (\<lambda>p. p\<lparr>at := U_depth\<rparr>) s)"

lemma sync_unlock_turns_reach:
  "sync_reach b s \<Longrightarrow> at (cpus s c) = Run \<Longrightarrow> nest (cpus s c) > 0 \<Longrightarrow> sync_reach b (sync_unlock_turns c s)"
  using sync_turns_reach [of b "goto c (\<lambda>p. p\<lparr>at := U_depth\<rparr>) s" "[c, c, c]"]
  by (simp add: sync_unlock_turns_def numeral_eq_Suc sync_reach.step sync_step.call_unlock)

theorem net_unlock_restores_witness:
  "\<exists>s'. net_step 1 (sync_unlock_turns 1 (fold sync_turn (replicate 8 1) (sync_start True))) = Some s' \<and>
     biglock s' = None \<and> ints (cpus s' 1)"
  using net_unlock_restores [OF sync_unlock_turns_reach [OF sync_turns_reach [OF sync_reach.start]],
      of "replicate 8 1" 1 1]
  by (simp add: sync_unlock_turns_def sync_turn_def sync_start_def net_step_def numeral_eq_Suc)

text \<open>
  C35. The initialisation is not protected: when the first calls are made on two processors at
  once, there is an interleaving after which both are inside the lock.
\<close>

theorem net_init_race:
  "\<exists>s. sync_reach False s \<and> nest (cpus s 0) > 0 \<and> nest (cpus s 1) > 0"
proof (intro exI conjI)
  let ?s = "fold sync_turn (replicate 3 1 @ replicate 13 0 @ replicate 10 1) (sync_start False)"
  show "sync_reach False ?s" by (intro sync_turns_reach sync_reach.start)
  show "nest (cpus ?s 0) > 0" "nest (cpus ?s 1) > 0"
    by (simp_all add: sync_turn_def sync_start_def net_step_def numeral_eq_Suc)
qed

end
