(* ===== verification/Tcp_Stream.thy ===== *)
theory Tcp_Stream
  imports Net_Boot
begin

text \<open>
  The byte stream of a TCP connection (\<^verbatim>\<open>tcp.c\<close>): what an application reads is a prefix of
  what the peer sent, whatever segments are lost, repeated or reordered, and what the sender
  keeps for retransmission is the part of its stream that is not yet acknowledged. Sending a
  segment may wait for address resolution and poll the card, which may run the segment handler
  again; \<open>segment_devs\<close> describes the devices whose polls do that, and the invariants are
  shown to survive it. The theory ends with the two places where the stream breaks: a FIN
  whose data does not fit, and a send that the interface refuses.
\<close>

section \<open>Output and predicates on the connection blocks\<close>

abbreviation blocks :: "net \<Rightarrow> tcp_pcb list" where
  "blocks st \<equiv> pcbs (tcp_v st)"

text \<open>Polls keep a predicate on the connection blocks; an update of one block does.\<close>

definition polls_keep :: "devs \<Rightarrow> (tcp_pcb list \<Rightarrow> bool) \<Rightarrow> bool" where
  "polls_keep devs R \<longleftrightarrow> (\<forall>d ops pl st. nd_ops (devs d) = Some ops \<longrightarrow> op_poll ops = Some pl \<longrightarrow>
     R (blocks st) \<longrightarrow> R (blocks (pl st)))"

definition ignores :: "(tcp_pcb list \<Rightarrow> bool) \<Rightarrow> (tcp_pcb \<Rightarrow> tcp_pcb) \<Rightarrow> bool" where
  "ignores R f \<longleftrightarrow> (\<forall>cs j. R cs \<longrightarrow> R (cs[j := f (cs ! j)]))"

lemma ignoresD: "ignores R f \<Longrightarrow> R (blocks st) \<Longrightarrow> R (blocks (upd_pcb j f st))"
  by (simp add: ignores_def)

lemma ignores_block:
  assumes "\<And>c. P c \<Longrightarrow> P (f c)"
  shows "ignores (\<lambda>cs. i < length cs \<and> P (cs ! i)) f"
  unfolding ignores_def
proof (intro allI impI)
  fix cs j
  assume "i < length cs \<and> P (cs ! i)"
  then show "i < length (cs[j := f (cs ! j)]) \<and> P (cs[j := f (cs ! j)] ! i)"
    using assms by (cases "j = i") simp_all
qed

text \<open>The timers of a connection are no part of its streams.\<close>

definition timers_free :: "(tcp_pcb list \<Rightarrow> bool) \<Rightarrow> bool" where
  "timers_free R \<longleftrightarrow> (\<forall>v. ignores R (pc_rto_ticks_update (\<lambda>_. v)) \<and> ignores R (pc_rto_deadline_update (\<lambda>_. v)))"

lemma timers_freeD:
  assumes "timers_free R" "R (blocks st)"
  shows "R (blocks (upd_pcb j (\<lambda>c. c\<lparr>pc_rto_ticks := f c\<rparr>) st))"
    "R (blocks (upd_pcb j (\<lambda>c. c\<lparr>pc_rto_deadline := f c\<rparr>) st))"
  using assms by (simp_all add: timers_free_def ignores_def)

lemma blocks_pool [simp]:
  "blocks (snd (pbuf_alloc n st)) = blocks st" "blocks (pbuf_free p st) = blocks st"
  "blocks (pb_write i off bs st) = blocks st" "blocks (pb_set_len i len st) = blocks st"
  "blocks (ub_unless ok st) = blocks st"
  using same_vars_pool by (simp_all add: same_vars_def)

lemma blocks_alloc: "pbuf_alloc n st = (r, st') \<Longrightarrow> blocks st' = blocks st"
  using alloc_same_vars [of n st r st'] by (simp add: same_vars_def)

context net_driver
begin

lemma ethernet_output_blocks [simp]: "blocks (snd (ethernet_output devs nif p mac ety st)) = blocks st"
proof -
  obtain r st' where "ethernet_output devs nif p mac ety st = (r, st')" by fastforce
  then show ?thesis using ethernet_output_ok [of nif p mac ety st r st'] by (simp add: eth_out_ok_def same_vars_def)
qed

lemma netif_poll_keeps: "polls_keep devs R \<Longrightarrow> R (blocks st) \<Longrightarrow> R (blocks (netif_poll devs nif st))"
  by (auto simp: polls_keep_def netif_poll_def dev_ops_def split: option.splits)

lemma arp_wait_keeps:
  assumes "polls_keep devs R" "R (blocks st)"
  shows "R (blocks (snd (arp_wait devs nif target start timeout n st)))"
  using assms(2)
proof (induction n arbitrary: st)
  case 0
  then show ?case
    using netif_poll_keeps [OF assms(1) 0]
    by (subst arp_wait.simps) (auto simp: Let_def split: option.splits)
next
  case (Suc n)
  then show ?case
    using netif_poll_keeps [OF assms(1) Suc.prems]
    by (subst arp_wait.simps) (auto simp: Let_def split: option.splits)
qed

lemma arp_resolve_keeps:
  assumes "polls_keep devs R" "R (blocks st)"
  shows "R (blocks (snd (arp_resolve devs nif ip timeout st)))"
proof -
  have "R (blocks s3)" if "pbuf_alloc k st = (a, s1)"
    "ethernet_output devs nif (Some p) mac ety (pb_write p 0 pkt s1) = (r, s3)" for k a s1 p mac ety pkt r s3
    using that assms(2) blocks_alloc [OF that(1)]
      ethernet_output_blocks [of nif "Some p" mac ety "pb_write p 0 pkt s1"] by simp
  then show ?thesis
    using assms blocks_alloc
    by (auto simp: arp_resolve_def Let_def intro!: arp_wait_keeps [OF assms(1)] split: option.splits prod.splits)
qed

lemma ipv4_output_keeps:
  assumes "polls_keep devs R" "R (blocks st)"
  shows "R (blocks (snd (ipv4_output devs nif p dst proto st)))"
proof -
  have "R (blocks s4)" if "arp_resolve devs nif dst 200 s3 = (m, s4)" "blocks s3 = blocks st" for m s3 s4
    using arp_resolve_keeps [OF assms(1), of s3 nif dst 200] that assms(2) by simp
  then show ?thesis
    using assms(2) blocks_alloc
    by (auto simp: ipv4_output_def pb_read_def Let_def split: option.splits prod.splits if_splits)
qed

text \<open>\<^verbatim>\<open>tcp_output\<close> either gives up before it has changed anything, or the block is numbered on first.\<close>

lemma tcp_output_cases:
  assumes "tcp_output devs i flags payload st = (r, st')" "polls_keep devs R"
    and "R ((blocks st)[i := (pcb st i)\<lparr>pc_snd_nxt := tcp_seq_after flags payload (pc_snd_nxt (pcb st i))\<rparr>])"
  shows "r = -1 \<and> blocks st' = blocks st \<or> R (blocks st')"
proof -
  let ?nxt = "tcp_seq_after flags payload (pc_snd_nxt (pcb st i))"
  have nxt: "blocks (upd_pcb i (\<lambda>c. c\<lparr>pc_snd_nxt := ?nxt\<rparr>) s)
      = (blocks st)[i := (pcb st i)\<lparr>pc_snd_nxt := ?nxt\<rparr>]" if "blocks s = blocks st" for s
    using that by simp
  have out: "R (blocks s')" if "ipv4_output devs n p dst proto (upd_pcb i (\<lambda>c. c\<lparr>pc_snd_nxt := ?nxt\<rparr>) s) = (q, s')"
    "blocks s = blocks st" for n p dst proto q s s'
    using ipv4_output_keeps [OF assms(2), of "upd_pcb i (\<lambda>c. c\<lparr>pc_snd_nxt := ?nxt\<rparr>) s" n p dst proto]
      that assms(3) by simp
  show ?thesis
    using assms(1,3) blocks_alloc out
    by (auto simp: tcp_output_def tcp_output_with_def Let_def split: option.splits prod.splits if_splits)
qed

lemma tcp_output_keeps:
  assumes "polls_keep devs R" "\<And>v. ignores R (pc_snd_nxt_update (\<lambda>_. v))" "R (blocks st)"
  shows "R (blocks (snd (tcp_output devs i flags payload st)))"
proof -
  obtain r st' where o: "tcp_output devs i flags payload st = (r, st')" by fastforce
  from tcp_output_cases [OF o assms(1)] assms(2,3) show ?thesis by (auto simp: o ignores_def)
qed

section \<open>Timers\<close>

lemma tcp_rexmit_una_keeps:
  assumes "polls_keep devs R" "R (blocks st)"
  shows "R (blocks (snd (tcp_rexmit_una devs i st)))"
  using assms(2)
  by (auto simp: tcp_rexmit_una_def Let_def dest!: blocks_alloc intro!: ipv4_output_keeps [OF assms(1)]
      split: option.splits prod.splits)

lemma tcp_timer_one_keeps:
  assumes "polls_keep devs R" "timers_free R" "R (blocks st)"
  shows "R (blocks (tcp_timer_one devs now i st))"
  using assms(3) tcp_rexmit_una_keeps [OF assms(1,3)] timers_freeD [OF assms(2)]
  by (auto simp: tcp_timer_one_def tcp_arm_rto_def Let_def simp del: upd_pcb_tcp)

lemma tcp_timer_keeps:
  assumes "polls_keep devs R" "timers_free R" "R (blocks st)"
  shows "R (blocks (tcp_timer devs now st))"
proof -
  have "R (blocks (fold (tcp_timer_one devs now) is st))" for "is"
    using assms(3) by (induction "is" arbitrary: st) (simp_all add: tcp_timer_one_keeps [OF assms(1,2)])
  then show ?thesis by (simp add: tcp_timer_def)
qed

lemma tcp_spin_keeps:
  assumes "polls_keep devs R" "timers_free R" "R (blocks st)"
  shows "R (blocks (tcp_spin devs nif st))"
  using tcp_timer_keeps [OF assms(1,2) netif_poll_keeps [OF assms(1,3)]] by (simp add: tcp_spin_def Let_def)

lemma tcp_maybe_rexmit_spin_keeps:
  assumes "polls_keep devs R" "timers_free R" "R (blocks st)"
  shows "R (blocks (tcp_maybe_rexmit_spin devs i spins st))"
  using assms(3) tcp_timer_keeps [OF assms(1,2) timers_freeD(2) [OF assms(2,3)]]
  by (simp add: tcp_maybe_rexmit_spin_def Let_def del: upd_pcb_tcp)

lemma tcp_send_wait_keeps:
  assumes "polls_keep devs R" "timers_free R" "R (blocks st)"
  shows "R (blocks (tcp_send_wait devs i n st))"
  using assms(3)
proof (induction n arbitrary: st)
  case (Suc n)
  then show ?case
    using tcp_maybe_rexmit_spin_keeps [OF assms(1,2) tcp_spin_keeps [OF assms(1,2) Suc.prems]]
    by (simp add: Let_def)
qed simp

lemma tcp_recv_wait_keeps:
  assumes "polls_keep devs R" "timers_free R" "R (blocks st)"
  shows "R (blocks (tcp_recv_wait devs i b n st))"
  using assms(3)
proof (induction n arbitrary: st)
  case (Suc n)
  then show ?case
    using tcp_maybe_rexmit_spin_keeps [OF assms(1,2) tcp_spin_keeps [OF assms(1,2) Suc.prems]]
    by (simp add: Let_def)
qed simp

end

section \<open>The receiving side\<close>

text \<open>
  \<open>fragment S isn\<close>: a segment that carries bytes of the stream \<open>S\<close> at their place, the first byte
  of the stream having the sequence number \<open>isn\<close>; a FIN comes alone, at the end of the stream.
\<close>

definition fragment :: "bytes \<Rightarrow> u32 \<Rightarrow> u32 \<Rightarrow> u8 \<Rightarrow> bytes \<Rightarrow> bool" where
  "fragment S isn seq flags payload \<longleftrightarrow>
     (let off = unat (seq - isn) in off + length payload \<le> length S \<and>
      payload = mem_get S off (length payload) \<and> (has flags TCP_FIN \<longrightarrow> payload = [] \<and> off = length S))"

text \<open>
  The invariant of a block whose application has read \<open>k\<close> bytes: the buffer holds the bytes that
  follow, at least the first \<open>L\<close> of the stream have arrived, and \<^verbatim>\<open>rcv_nxt\<close> is the number of the
  first one that is missing, or comes after the FIN.
\<close>

definition rx_states :: "tcp_state list" where
  "rx_states = [TCP_SYN_RCVD, TCP_ESTABLISHED, TCP_CLOSE_WAIT, TCP_LAST_ACK, TCP_CLOSED]"

definition rx_part :: "bytes \<Rightarrow> u32 \<Rightarrow> nat \<Rightarrow> nat \<Rightarrow> tcp_pcb \<Rightarrow> bool" where
  "rx_part S isn L k c \<longleftrightarrow>
     (let m = unat (pc_rx_len c) in
      pc_state c \<in> set rx_states \<and> length (pc_rx_buf c) = TCP_RX_MAX \<and> m \<le> TCP_RX_MAX \<and>
      L \<le> k + m \<and> k + m \<le> length S \<and> take m (pc_rx_buf c) = mem_get S k m \<and>
      (pc_rcv_nxt c = isn + of_nat (k + m) \<or>
       k + m = length S \<and> pc_rcv_nxt c = isn + of_nat (length S + 1)))"

definition rx_stream :: "nat \<Rightarrow> bytes \<Rightarrow> u32 \<Rightarrow> nat \<Rightarrow> nat \<Rightarrow> tcp_pcb list \<Rightarrow> bool" where
  "rx_stream i S isn L k cs \<longleftrightarrow> i < length cs \<and> rx_part S isn L k (cs ! i)"

lemma rx_part_fields [simp]:
  "rx_part S isn L k (c\<lparr>pc_snd_una := x\<rparr>) = rx_part S isn L k c" "rx_part S isn L k (c\<lparr>pc_snd_nxt := x\<rparr>) = rx_part S isn L k c"
  "rx_part S isn L k (c\<lparr>pc_una_seq := x\<rparr>) = rx_part S isn L k c" "rx_part S isn L k (c\<lparr>pc_una_len := x\<rparr>) = rx_part S isn L k c"
  "rx_part S isn L k (c\<lparr>pc_una_buf := b\<rparr>) = rx_part S isn L k c" "rx_part S isn L k (c\<lparr>pc_rto_ticks := x\<rparr>) = rx_part S isn L k c"
  "rx_part S isn L k (c\<lparr>pc_rto_deadline := x\<rparr>) = rx_part S isn L k c"
  "rx_part S isn L k (c\<lparr>pc_pending_accept := a\<rparr>) = rx_part S isn L k c"
  by (simp_all add: rx_part_def)

lemma rx_part_weaken: "rx_part S isn L' k c \<Longrightarrow> L \<le> L' \<Longrightarrow> rx_part S isn L k c"
  by (simp add: rx_part_def Let_def)

lemma rx_stream_weaken: "rx_stream i S isn L' k cs \<Longrightarrow> L \<le> L' \<Longrightarrow> rx_stream i S isn L k cs"
  using rx_part_weaken by (auto simp: rx_stream_def)

lemma rx_part_received: "rx_part S isn L k c \<Longrightarrow> L \<le> k + unat (pc_rx_len c)"
  by (simp add: rx_part_def Let_def)

lemma rx_part_state: "rx_part S isn L k c \<Longrightarrow> s \<in> set rx_states \<Longrightarrow> rx_part S isn L k (c\<lparr>pc_state := s\<rparr>)"
  by (simp add: rx_part_def Let_def)

lemma rx_stream_upd:
  assumes "rx_stream i S isn L k (blocks st)" "rx_part S isn L k (pcb st i) \<Longrightarrow> rx_part S isn L k (f (pcb st i))"
  shows "rx_stream i S isn L k (blocks (upd_pcb i f st))"
  using assms by (simp add: rx_stream_def)

lemma rx_stream_ignores:
  "(\<And>c. rx_part S isn L k c \<Longrightarrow> rx_part S isn L k (f c)) \<Longrightarrow> ignores (rx_stream i S isn L k) f"
  using ignores_block [of "rx_part S isn L k" f i] by (simp add: rx_stream_def [abs_def])

lemma rx_stream_timers: "timers_free (rx_stream i S isn L k)"
  unfolding timers_free_def by (intro allI conjI rx_stream_ignores) simp_all

text \<open>Where a fragment goes that starts at \<^verbatim>\<open>rcv_nxt\<close>, and what its bytes do to the block.\<close>

lemma unat_u32: "n < 2 ^ 32 \<Longrightarrow> unat (of_nat n :: u32) = n"
  by (simp add: unat_of_nat)

lemma fragment_here:
  assumes "rx_part S isn L k c" "fragment S isn (pc_rcv_nxt c) flags payload" "length S + 1 < 2 ^ 32"
  shows "pc_rcv_nxt c = isn + of_nat (k + unat (pc_rx_len c)) \<and> unat (pc_rcv_nxt c - isn) = k + unat (pc_rx_len c)"
proof -
  define m where "m = unat (pc_rx_len c)"
  have "k + m \<le> length S" and c: "pc_rcv_nxt c = isn + of_nat (k + m) \<or> pc_rcv_nxt c = isn + of_nat (length S + 1)"
    using assms(1) by (auto simp only: rx_part_def Let_def m_def)
  then have "k + m < 2 ^ 32" using assms(3) by simp
  then have u: "unat (of_nat (k + m) :: u32) = k + m" "unat (of_nat (length S + 1) :: u32) = length S + 1"
    using assms(3) by (simp_all only: unat_u32)
  have off: "unat (pc_rcv_nxt c - isn) \<le> length S" using assms(2) by (simp add: fragment_def Let_def)
  have sub: "(isn + x) - isn = x" for x :: u32 by simp
  have "pc_rcv_nxt c \<noteq> isn + of_nat (length S + 1)"
    using off u(2) by (auto simp only: sub)
  with c have "pc_rcv_nxt c = isn + of_nat (k + m)" by blast
  then show ?thesis using u(1) unfolding m_def [symmetric] by (simp only: sub)
qed

lemma rx_part_append:
  assumes "rx_part S isn L k c" "fragment S isn (pc_rcv_nxt c) flags payload" "length S + 1 < 2 ^ 32"
    and fits: "length payload \<le> TCP_RX_MAX - unat (pc_rx_len c)"
  shows "rx_part S isn (k + unat (pc_rx_len c) + length payload) k (c\<lparr>pc_rcv_nxt := pc_rcv_nxt c + of_nat (length payload),
    pc_rx_buf := mem_put (pc_rx_buf c) (unat (pc_rx_len c)) payload,
    pc_rx_len := pc_rx_len c + of_nat (length payload)\<rparr>)"
proof -
  let ?m = "unat (pc_rx_len c)" and ?n = "length payload"
  note h = fragment_here [OF assms(1-3)]
  have c: "length (pc_rx_buf c) = TCP_RX_MAX" "?m \<le> TCP_RX_MAX" "take ?m (pc_rx_buf c) = mem_get S k ?m"
      "pc_state c \<in> set rx_states"
    using assms(1) by (simp_all add: rx_part_def Let_def)
  have p: "k + ?m + ?n \<le> length S" "payload = mem_get S (k + ?m) ?n"
    using assms(2) unfolding fragment_def Let_def h [THEN conjunct2] by simp_all
  have len: "unat (pc_rx_len c + of_nat ?n) = ?m + ?n"
    using fits c(2) unat_plus_nat [of "pc_rx_len c" ?n] by (simp add: TCP_RX_MAX_def)
  have "take (?m + ?n) (mem_put (pc_rx_buf c) ?m payload) = mem_get S k ?m @ payload"
    using c fits p(1) by (simp add: mem_put_def)
  also have "\<dots> = mem_get S k (?m + ?n)"
    using p(2) by (simp only: mem_get_def take_add drop_drop add.commute [of k])
  finally show ?thesis
    using c fits p(1) h len by (simp add: rx_part_def Let_def add_ac)
qed

lemma rx_part_fin:
  assumes "rx_part S isn L k c" "fragment S isn (pc_rcv_nxt c) flags payload" "length S + 1 < 2 ^ 32"
    "has flags TCP_FIN"
  shows "rx_part S isn L k (c\<lparr>pc_rcv_nxt := pc_rcv_nxt c + 1\<rparr>)"
proof -
  note h = fragment_here [OF assms(1-3)]
  have "unat (pc_rcv_nxt c - isn) = length S" using assms(2,4) by (simp add: fragment_def Let_def)
  then have e: "k + unat (pc_rx_len c) = length S" using h by argo
  have "pc_rcv_nxt c + 1 = isn + of_nat (length S + 1)" using h unfolding e by simp
  then show ?thesis using assms(1) e by (simp add: rx_part_def Let_def)
qed

lemma tcp_on_ack_rx:
  "rx_stream i S isn L k (blocks st) \<Longrightarrow> rx_stream i S isn L k (blocks (tcp_on_ack i ack st))"
  by (auto simp: tcp_on_ack_def tcp_arm_rto_def Let_def simp del: upd_pcb_tcp(2) intro!: rx_stream_upd)

lemma tcp_enqueue_rx:
  "rx_stream i S isn L k (blocks st) \<Longrightarrow> rx_stream i S isn L k (blocks (tcp_enqueue i chunk st))"
  by (auto simp: tcp_enqueue_def tcp_arm_rto_def Let_def simp del: upd_pcb_tcp(2) intro!: rx_stream_upd)

lemma tcp_take_back_rx:
  "rx_stream i S isn L k (blocks st) \<Longrightarrow> rx_stream i S isn L k (blocks (tcp_take_back i n st))"
  by (auto simp: tcp_take_back_def simp del: upd_pcb_tcp(2) intro!: rx_stream_upd)

lemma rx_append_blocks:
  assumes "rx_stream i S isn L k (blocks st)" "fragment S isn (pc_rcv_nxt (pcb st i)) flags payload"
    "length S + 1 < 2 ^ 32" "payload \<noteq> []"
    "of_nat (length payload) \<le> of_nat TCP_RX_MAX - pc_rx_len (pcb st i)"
  shows "rx_stream i S isn (k + unat (pc_rx_len (pcb st i)) + length payload) k (blocks (tcp_rx_append i payload
    (upd_pcb i (\<lambda>c. c\<lparr>pc_rcv_nxt := pc_rcv_nxt (pcb st i) + of_nat (length payload)\<rparr>) st)))"
proof -
  let ?c = "pcb st i" and ?n = "length payload"
  let ?space = "of_nat TCP_RX_MAX - pc_rx_len ?c"
  have i: "i < length (blocks st)" and r: "rx_part S isn L k ?c" using assms(1) by (simp_all add: rx_stream_def)
  have "?n \<le> length S" using assms(2) by (simp add: fragment_def Let_def)
  then have "unat (of_nat ?n :: u32) = ?n" using assms(3) by (intro unat_u32) simp
  moreover have sp: "unat ?space = TCP_RX_MAX - unat (pc_rx_len ?c)"
    using r unat_space [of "pc_rx_len ?c" TCP_RX_MAX] by (simp add: rx_part_def Let_def TCP_RX_MAX_def)
  ultimately have fits: "?n \<le> TCP_RX_MAX - unat (pc_rx_len ?c)"
    using assms(5) by (simp add: word_le_nat_alt)
  then have "(if ?n < unat ?space then ?n else unat ?space) = ?n" using sp by simp
  then show ?thesis
    using i assms(4) rx_part_append [OF r assms(2,3) fits]
    by (simp add: tcp_rx_append_def Let_def rx_stream_def)
qed

lemma rx_part_shift:
  assumes "rx_part S isn L k c" "pc_state c' = pc_state c" "pc_rcv_nxt c' = pc_rcv_nxt c" "q \<le> unat (pc_rx_len c)"
    "unat (pc_rx_len c') = unat (pc_rx_len c) - q" "length (pc_rx_buf c') = TCP_RX_MAX"
    "take (unat (pc_rx_len c) - q) (pc_rx_buf c') = mem_get S (k + q) (unat (pc_rx_len c) - q)"
  shows "rx_part S isn L (k + q) c'"
proof -
  have "k + q + (unat (pc_rx_len c) - q) = k + unat (pc_rx_len c)" using assms(4) by simp
  then show ?thesis
    using assms(1) by (simp only: rx_part_def Let_def assms) (simp add: le_diff_conv trans_le_add1)
qed

lemma rx_take:
  assumes r: "rx_stream i S isn L k (blocks st)" and q: "q \<le> pc_rx_len (pcb st i)"
    and t: "tcp_rx_take i q st = (out, st')"
  shows "out = mem_get S k (length out)" "rx_stream i S isn L (k + length out) (blocks st')"
proof -
  let ?c = "pcb st i"
  let ?m = "unat (pc_rx_len ?c)" and ?q = "unat q"
  have i: "i < length (blocks st)" and c: "length (pc_rx_buf ?c) = TCP_RX_MAX" "?m \<le> TCP_RX_MAX"
      "k + ?m \<le> length S" "take ?m (pc_rx_buf ?c) = mem_get S k ?m"
    using r by (simp_all add: rx_stream_def rx_part_def Let_def)
  have qm: "?q \<le> ?m" and rest: "unat (pc_rx_len ?c - q) = ?m - ?q"
    using q unat_minus_le [OF q] by (simp_all add: word_le_nat_alt)
  have o: "out = take ?q (pc_rx_buf ?c)" using t by (simp add: tcp_rx_take_def Let_def mem_get_zero)
  then have len: "length out = ?q" using c qm by simp
  have "out = take ?q (take ?m (pc_rx_buf ?c))" using o qm by (simp add: min_def)
  then show "out = mem_get S k (length out)" using c(4) len qm by (simp add: mem_get_def min_def)
  have "mem_get (pc_rx_buf ?c) ?q (?m - ?q) = drop ?q (take ?m (pc_rx_buf ?c))"
    by (simp add: mem_get_def drop_take)
  then have d: "mem_get (pc_rx_buf ?c) ?q (?m - ?q) = mem_get S (k + ?q) (?m - ?q)"
    using c(4) by (simp add: mem_get_def drop_take add.commute)
  define b where "b = (if q < pc_rx_len ?c then mem_put (pc_rx_buf ?c) 0 (mem_get (pc_rx_buf ?c) ?q (?m - ?q))
    else pc_rx_buf ?c)"
  have b: "length b = TCP_RX_MAX" "take (?m - ?q) b = mem_get S (k + ?q) (?m - ?q)"
    using c qm d q by (auto simp: b_def mem_put_zero mem_get_def)
  have c': "length (blocks st') = length (blocks st)" "pcb st' i = ?c\<lparr>pc_rx_buf := b, pc_rx_len := pc_rx_len ?c - q\<rparr>"
    using t i rest by (auto simp: tcp_rx_take_def Let_def b_def split: if_splits)
  have "rx_part S isn L k ?c" using r by (simp add: rx_stream_def)
  then have "rx_part S isn L (k + ?q) (pcb st' i)" using b qm rest rx_part_shift [of S isn L k ?c "pcb st' i"] by (simp add: c'(2))
  then show "rx_stream i S isn L (k + length out) (blocks st')"
    using i c'(1) len by (simp add: rx_stream_def)
qed

context net_driver
begin

lemma tcp_output_rx:
  assumes "polls_keep devs (rx_stream i S isn L k)" "rx_stream i S isn L k (blocks st)"
  shows "rx_stream i S isn L k (blocks (snd (tcp_output devs j flags payload st)))"
  by (rule tcp_output_keeps [OF assms(1) _ assms(2)]) (rule rx_stream_ignores, simp)

lemma tcp_pcb_send_rx:
  assumes "polls_keep devs (rx_stream i S isn L k)" "rx_stream i S isn L k (blocks st)"
  shows "rx_stream i S isn L k (blocks (snd (tcp_pcb_send devs (Some i) buf st)))"
proof -
  have w: "rx_stream i S isn L k (blocks (tcp_send_wait devs i n st))" for n
    by (rule tcp_send_wait_keeps [OF assms(1) rx_stream_timers assms(2)])
  have "rx_stream i S isn L k (blocks s')" if "tcp_output devs i fl chunk (tcp_enqueue i chunk s) = (r, s')"
    "rx_stream i S isn L k (blocks s)" for fl chunk s r s'
    using tcp_output_rx [OF assms(1) tcp_enqueue_rx [OF that(2)], of i fl chunk chunk] that(1) by simp
  then show ?thesis
    using assms(2) w by (auto simp: tcp_pcb_send_def Let_def tcp_take_back_rx split: prod.splits)
qed

text \<open>
  The data part of the handler: it keeps the invariant, and data that starts at \<^verbatim>\<open>rcv_nxt\<close> and
  fits is received. The predicate the polls keep is the one that holds while they run.
\<close>

lemma tcp_est_data_rx:
  assumes "\<And>L. polls_keep devs (rx_stream i S isn L k)" "rx_stream i S isn L k (blocks st)"
    "fragment S isn seq flags payload" "length S + 1 < 2 ^ 32"
  shows "rx_stream i S isn L k (blocks (tcp_est_data devs i seq payload st))"
    "seq = pc_rcv_nxt (pcb st i) \<Longrightarrow> of_nat (length payload) \<le> of_nat TCP_RX_MAX - pc_rx_len (pcb st i) \<Longrightarrow>
     rx_stream i S isn (k + unat (pc_rx_len (pcb st i)) + length payload) k (blocks (tcp_est_data devs i seq payload st))"
proof -
  let ?L = "k + unat (pc_rx_len (pcb st i)) + length payload"
  have L: "L \<le> ?L" using assms(2) rx_part_received [of S isn L k "pcb st i"] by (simp add: rx_stream_def)
  have nil: "rx_stream i S isn (k + unat (pc_rx_len (pcb st i))) k (blocks st)"
    using assms(2) by (simp add: rx_stream_def rx_part_def Let_def)
  note app = rx_append_blocks [OF assms(2) _ assms(4), of flags payload]
  show acc: "rx_stream i S isn ?L k (blocks (tcp_est_data devs i seq payload st))"
    if "seq = pc_rcv_nxt (pcb st i)" "of_nat (length payload) \<le> of_nat TCP_RX_MAX - pc_rx_len (pcb st i)"
    using that assms(3) app nil
    by (auto simp: tcp_est_data_def Let_def simp del: upd_pcb_tcp(2)
        intro!: tcp_output_rx [OF assms(1)] tcp_pcb_send_rx [OF assms(1)])
  show "rx_stream i S isn L k (blocks (tcp_est_data devs i seq payload st))"
  proof (cases "seq = pc_rcv_nxt (pcb st i) \<and> of_nat (length payload) \<le> of_nat TCP_RX_MAX - pc_rx_len (pcb st i)")
    case True
    then show ?thesis using rx_stream_weaken [OF acc L] by simp
  next
    case False
    then show ?thesis
      using assms(2) tcp_output_rx [OF assms(1,2)] by (auto simp: tcp_est_data_def Let_def)
  qed
qed

lemma tcp_est_fin_rx:
  assumes "polls_keep devs (rx_stream i S isn L k)" "rx_stream i S isn L k (blocks st)"
    "fragment S isn seq flags payload" "length S + 1 < 2 ^ 32"
  shows "rx_stream i S isn L k (blocks (tcp_est_fin devs i seq flags payload st))"
proof (cases "has flags TCP_FIN \<and> seq = pc_rcv_nxt (pcb st i)")
  case True
  then have p: "payload = []" using assms(3) by (simp add: fragment_def Let_def)
  let ?s = "upd_pcb i (\<lambda>c. c\<lparr>pc_rcv_nxt := seq + 1\<rparr>) st"
  have s: "rx_stream i S isn L k (blocks ?s)"
    using rx_part_fin [of S isn L k "pcb st i" flags payload] True assms(2-4)
    by (intro rx_stream_upd) simp_all
  note st = rx_part_state [where s = TCP_CLOSE_WAIT] rx_part_state [where s = TCP_LAST_ACK]
  show ?thesis
    using s True p
    by (auto simp: tcp_est_fin_def Let_def rx_states_def simp del: upd_pcb_tcp(2)
        intro!: tcp_output_rx [OF assms(1)] rx_stream_upd st)
next
  case False
  moreover have "has flags TCP_FIN \<Longrightarrow> payload = []" using assms(3) by (simp add: fragment_def Let_def)
  ultimately show ?thesis using assms(2) by (auto simp: tcp_est_fin_def Let_def)
qed

text \<open>The whole handler.\<close>

lemma tcp_handle_rx:
  fixes nif ack sport sip
  assumes pk: "\<And>L. polls_keep devs (rx_stream i S isn L k)" and r: "rx_stream i S isn L k (blocks st)"
    and f: "fragment S isn seq flags payload" "length S + 1 < 2 ^ 32"
  defines "st' \<equiv> tcp_handle devs nif i seq ack flags payload sport sip st"
  shows "rx_stream i S isn L k (blocks st')"
    "pc_state (pcb st i) \<in> {TCP_ESTABLISHED, TCP_CLOSE_WAIT, TCP_SYN_RCVD} \<Longrightarrow> seq = pc_rcv_nxt (pcb st i) \<Longrightarrow>
     of_nat (length payload) \<le> of_nat TCP_RX_MAX - pc_rx_len (pcb st i) \<Longrightarrow>
     rx_stream i S isn (k + unat (pc_rx_len (pcb st i)) + length payload) k (blocks st')"
proof -
  define s1 where "s1 = (if pc_state (pcb st i) = TCP_SYN_RCVD \<and> has flags TCP_ACK
    then upd_pcb i (\<lambda>c. c\<lparr>pc_snd_una := ack, pc_state := TCP_ESTABLISHED, pc_pending_accept := True\<rparr>) st
    else st)"
  define s2 where "s2 = tcp_est_ack i ack flags s1"
  have i: "i < length (blocks st)" and c: "rx_part S isn L k (pcb st i)" using r by (simp_all add: rx_stream_def)
  have e: "rx_part S isn L k (pcb st i\<lparr>pc_snd_una := ack, pc_state := TCP_ESTABLISHED, pc_pending_accept := True\<rparr>)"
    using rx_part_state [OF c, of TCP_ESTABLISHED] by (simp add: rx_states_def rx_part_def)
  have r1: "rx_stream i S isn L k (blocks s1)" using r e by (simp add: s1_def rx_stream_def)
  then have r2: "rx_stream i S isn L k (blocks s2)"
    by (auto simp: s2_def tcp_est_ack_def simp del: upd_pcb_tcp(2) intro!: tcp_on_ack_rx rx_stream_upd)
  have v2: "pc_rcv_nxt (pcb s2 i) = pc_rcv_nxt (pcb st i)" "pc_rx_len (pcb s2 i) = pc_rx_len (pcb st i)"
    using i by (simp_all add: s2_def s1_def tcp_est_ack_def tcp_on_ack_def tcp_arm_rto_def Let_def)
  have st: "pc_state (pcb st i) \<notin> {TCP_LISTEN, TCP_SYN_SENT, TCP_FIN_WAIT_1}"
    using c by (auto simp: rx_part_def Let_def rx_states_def)
  have st1: "pc_state (pcb s1 i) \<noteq> TCP_FIN_WAIT_1" using st i by (simp add: s1_def)
  note d = tcp_est_data_rx [OF pk r2 f]
  have closed: "rx_stream i S isn L k (blocks (upd_pcb i (\<lambda>c. c\<lparr>pc_state := TCP_CLOSED\<rparr>) s1))"
    using r1 by (rule rx_stream_upd) (simp add: rx_part_state rx_states_def)
  show "rx_stream i S isn L k (blocks st')"
    using st st1 r1 closed tcp_est_fin_rx [OF pk d(1) f]
    unfolding st'_def tcp_handle_def Let_def s1_def [symmetric] s2_def [symmetric] by simp
  assume a: "pc_state (pcb st i) \<in> {TCP_ESTABLISHED, TCP_CLOSE_WAIT, TCP_SYN_RCVD}" "seq = pc_rcv_nxt (pcb st i)"
    "of_nat (length payload) \<le> of_nat TCP_RX_MAX - pc_rx_len (pcb st i)"
  then have st2: "pc_state (pcb s1 i) \<in> {TCP_ESTABLISHED, TCP_CLOSE_WAIT, TCP_SYN_RCVD}"
    using i by (auto simp: s1_def)
  have "rx_stream i S isn (k + unat (pc_rx_len (pcb st i)) + length payload) k (blocks (tcp_est_fin devs i seq flags payload
      (tcp_est_data devs i seq payload s2)))"
    using tcp_est_fin_rx [OF pk d(2) f] a v2 by simp
  then show "rx_stream i S isn (k + unat (pc_rx_len (pcb st i)) + length payload) k (blocks st')"
    using st st2
    unfolding st'_def tcp_handle_def Let_def s1_def [symmetric] s2_def [symmetric] by simp
qed

text \<open>Reading.\<close>

lemma tcp_pcb_recv_rx:
  assumes pk: "\<And>L k. polls_keep devs (rx_stream i S isn L k)" and r: "rx_stream i S isn L k (blocks st)"
    and recv: "tcp_pcb_recv devs (Some i) len w st = ((n, out), st')"
  shows "out = mem_get S k (length out)" "rx_stream i S isn L (k + length out) (blocks st')"
proof -
  define s1 where "s1 = tcp_recv_wait devs i (unat w) (unat w) st"
  define q where "q = (if pc_rx_len (pcb s1 i) < len then pc_rx_len (pcb s1 i) else len)"
  have r1: "rx_stream i S isn L k (blocks s1)"
    unfolding s1_def by (rule tcp_recv_wait_keeps [OF pk rx_stream_timers r])
  obtain o2 s2 where t: "tcp_rx_take i q s1 = (o2, s2)" by fastforce
  have q: "q \<le> pc_rx_len (pcb s1 i)" by (auto simp: q_def)
  note tk = rx_take [OF r1 q t]
  have out: "rx_stream i S isn L (k + length o2) (blocks (snd (tcp_output devs i TCP_ACK [] s2)))"
    by (rule tcp_output_rx [OF pk tk(2)])
  have "(out = [] \<and> (st' = st \<or> st' = s1)) \<or> (out = o2 \<and> (st' = s2 \<or> st' = snd (tcp_output devs i TCP_ACK [] s2)))"
    using recv t
    by (auto simp: tcp_pcb_recv_def Let_def s1_def [symmetric] q_def [symmetric] split: if_splits)
  then show "out = mem_get S k (length out)" "rx_stream i S isn L (k + length out) (blocks st')"
    using r r1 tk out by (auto simp: mem_get_def)
qed

end

section \<open>Devices whose polls run the handler\<close>

text \<open>
  \<open>segment_devs ok i devs\<close>: the functions of the devices keep the contract of a driver, and what a
  poll does to block \<open>i\<close> is a sequence of runs of the segment handler on segments that satisfy
  \<open>ok\<close>, which may use such devices in turn. Everything else the poll may change as it likes.
\<close>

inductive segment_devs and delivers for ok :: "tcp_pcb \<Rightarrow> u32 \<Rightarrow> u32 \<Rightarrow> u8 \<Rightarrow> bytes \<Rightarrow> bool" and i :: nat where
  segment_devs_polls: "net_driver devs \<Longrightarrow>
    (\<And>d ops pl st. nd_ops (devs d) = Some ops \<Longrightarrow> op_poll ops = Some pl \<Longrightarrow> delivers ok i st (pl st)) \<Longrightarrow>
    segment_devs ok i devs"
| delivers_none: "delivers ok i st st"
| delivers_other: "delivers ok i st s1 \<Longrightarrow> length (blocks s2) = length (blocks s1) \<Longrightarrow> pcb s2 i = pcb s1 i \<Longrightarrow>
    delivers ok i st s2"
| delivers_segment: "delivers ok i st s1 \<Longrightarrow> segment_devs ok i devs \<Longrightarrow> ok (pcb s1 i) seq ack flags payload \<Longrightarrow>
    delivers ok i st (tcp_handle devs nif i seq ack flags payload sport sip s1)"

text \<open>An invariant of the block that the handler keeps under such polls is kept by the polls.\<close>

lemma segment_devs_keep:
  assumes block: "\<And>k cs cs'. R k cs \<Longrightarrow> length cs' = length cs \<Longrightarrow> cs' ! i = cs ! i \<Longrightarrow> R k cs'"
    and handle: "\<And>devs k st nif seq ack flags payload sport sip. net_driver devs \<Longrightarrow> (\<And>k. polls_keep devs (R k)) \<Longrightarrow>
      R k (blocks st) \<Longrightarrow> ok (pcb st i) seq ack flags payload \<Longrightarrow>
      R k (blocks (tcp_handle devs nif i seq ack flags payload sport sip st))"
  shows "segment_devs ok i devs \<Longrightarrow> net_driver devs \<and> (\<forall>k. polls_keep devs (R k))"
    "delivers ok i st st' \<Longrightarrow> \<forall>k. R k (blocks st) \<longrightarrow> R k (blocks st')"
proof (induction rule: segment_devs_delivers.inducts)
  case (segment_devs_polls devs)
  then show ?case by (auto simp: polls_keep_def)
next
  case (delivers_other st s1 s2)
  then show ?case using block by blast
next
  case (delivers_segment st s1 devs seq ack flags payload nif sport sip)
  then show ?case using handle by blast
qed simp

text \<open>The driver at depth 0, whose polls deliver nothing, is such a device.\<close>

lemma segment_devs_vnet: "segment_devs ok i (vnet_devs 0)"
  by (rule segment_devs_polls [OF vnet_net_driver]) (auto simp: vnet_ndev_def delivers_none)

section \<open>What an application reads\<close>

text \<open>The life of a connection as its receiver sees it: segments arrive and the application reads.\<close>

datatype rx_event =
    Arrive "nat option" u32 u32 u8 bytes u16 u32
  | Read u32 u32

fun rx_run :: "devs \<Rightarrow> nat \<Rightarrow> rx_event list \<Rightarrow> net \<Rightarrow> bytes \<times> net" where
  "rx_run devs i [] st = ([], st)"
| "rx_run devs i (Arrive nif seq ack flags payload sport sip # es) st =
     rx_run devs i es (tcp_handle devs nif i seq ack flags payload sport sip st)"
| "rx_run devs i (Read len w # es) st =
     (case tcp_pcb_recv devs (Some i) len w st of ((n, out), st) \<Rightarrow>
      case rx_run devs i es st of (outs, st) \<Rightarrow> (out @ outs, st))"

fun carries :: "bytes \<Rightarrow> u32 \<Rightarrow> rx_event \<Rightarrow> bool" where
  "carries S isn (Arrive nif seq ack flags payload sport sip) = fragment S isn seq flags payload"
| "carries S isn (Read len w) = True"

abbreviation fragments :: "bytes \<Rightarrow> u32 \<Rightarrow> tcp_pcb \<Rightarrow> u32 \<Rightarrow> u32 \<Rightarrow> u8 \<Rightarrow> bytes \<Rightarrow> bool" where
  "fragments S isn \<equiv> \<lambda>c seq ack flags payload. fragment S isn seq flags payload"

lemma rx_stream_block:
  "rx_stream i S isn L k cs \<Longrightarrow> length cs' = length cs \<Longrightarrow> cs' ! i = cs ! i \<Longrightarrow> rx_stream i S isn L k cs'"
  by (simp add: rx_stream_def)

lemma segment_devs_rx:
  assumes "segment_devs (fragments S isn) i devs" "length S + 1 < 2 ^ 32"
  shows "net_driver devs" "polls_keep devs (rx_stream i S isn L k)"
proof -
  let ?R = "\<lambda>(L, k). rx_stream i S isn L k"
  have h: "?R k (blocks (tcp_handle devs nif i seq ack flags payload sport sip st))"
    if "net_driver devs" "\<And>k. polls_keep devs (?R k)" "?R k (blocks st)" "fragment S isn seq flags payload"
    for devs k st nif seq ack flags payload sport sip
  proof -
    have "polls_keep devs (rx_stream i S isn L (snd k))" for L using that(2) [of "(L, snd k)"] by simp
    then show ?thesis
      using net_driver.tcp_handle_rx(1) [OF that(1) _ _ that(4) assms(2)] that(3) by (cases k) simp
  qed
  have "net_driver devs \<and> (\<forall>k. polls_keep devs (?R k))"
    by (rule segment_devs_keep(1) [where R = ?R, OF _ h assms(1)]) (auto intro: rx_stream_block)
  then show "net_driver devs" "polls_keep devs (rx_stream i S isn L k)" by auto
qed

lemma rx_run_stream:
  assumes d: "segment_devs (fragments S isn) i devs" "length S + 1 < 2 ^ 32"
  shows "rx_stream i S isn L k (blocks st) \<Longrightarrow> list_all (carries S isn) evs \<Longrightarrow> rx_run devs i evs st = (out, st') \<Longrightarrow>
    out = mem_get S k (length out) \<and> rx_stream i S isn L (k + length out) (blocks st')"
proof (induction evs arbitrary: st k out)
  case Nil
  then show ?case by (simp add: mem_get_def)
next
  case (Cons e es)
  note nd = segment_devs_rx [OF d]
  show ?case
  proof (cases e)
    case (Arrive nif seq ack flags payload sport sip)
    then have f: "fragment S isn seq flags payload" using Cons.prems(2) by simp
    show ?thesis
      by (rule Cons.IH [OF net_driver.tcp_handle_rx(1) [OF nd Cons.prems(1) f d(2), of nif ack sport sip]])
        (use Cons.prems(2,3) Arrive in simp_all)
  next
    case (Read len w)
    obtain n o1 s1 where r: "tcp_pcb_recv devs (Some i) len w st = ((n, o1), s1)" by (metis prod.collapse)
    obtain o2 s2 where t: "rx_run devs i es s1 = (o2, s2)" by fastforce
    note rd = net_driver.tcp_pcb_recv_rx [OF nd Cons.prems(1) r]
    have o: "out = o1 @ o2" "st' = s2" using Cons.prems(3) Read r t by simp_all
    have "o2 = mem_get S (k + length o1) (length o2) \<and> rx_stream i S isn L (k + length o1 + length o2) (blocks s2)"
      using Cons.IH [OF rd(2) _ t [folded o(2)]] Cons.prems(2) o(2) by simp
    moreover have "mem_get S k (length o1) @ mem_get S (k + length o1) (length o2) = mem_get S k (length o1 + length o2)"
      by (simp only: mem_get_def take_add drop_drop add.commute [of k])
    ultimately show ?thesis using rd(1) unfolding o by (metis add.assoc length_append)
  qed
qed


text \<open>A connection with two bytes in its buffer, for the witnesses; it has no interface, so nothing is sent.\<close>

definition demo_rx_buf :: bytes where
  "demo_rx_buf = [1, 2] @ replicate (TCP_RX_MAX - 2) 0"

definition demo_pcb :: tcp_pcb where
  "demo_pcb = zero_pcb\<lparr>pc_in_use := True, pc_state := TCP_ESTABLISHED, pc_rcv_nxt := 102, pc_rx_len := 2,
     pc_rx_buf := demo_rx_buf\<rparr>"

definition demo_net :: "tcp_pcb \<Rightarrow> net" where
  "demo_net c = upd_tcp (\<lambda>t. t\<lparr>pcbs := [c]\<rparr>) (net_bss 0 [] [])"

lemma demo_net_blocks [simp]: "blocks (demo_net c) = [c]" "upd_pcb 0 f (demo_net c) = demo_net (f c)"
  by (simp_all add: demo_net_def upd_pcb_def upd_tcp_def)

lemma demo_rx: "rx_stream 0 [1, 2, 3, 4] 100 0 0 [demo_pcb]"
  by (simp add: rx_stream_def rx_part_def Let_def demo_pcb_def demo_rx_buf_def zero_pcb_def rx_states_def TCP_RX_MAX_def mem_get_def)

definition demo_events :: "rx_event list" where
  "demo_events = [Arrive None 103 0 0 [4] 7 9, Arrive None 102 0 0 [3] 7 9, Read 2 0, Arrive None 102 0 0 [3] 7 9,
     Arrive None 103 0 0 [4] 7 9]"

lemma tcp_output_no_nif: "pc_nif (pcb st i) = None \<Longrightarrow> tcp_output devs i flags payload st = (-1, st)"
  by (simp add: tcp_output_def tcp_output_with_def)

lemma demo_rx_take [simp]: "mem_get (mem_put demo_rx_buf 2 bs) 0 2 = [1, 2]"
  by (simp add: mem_get_def mem_put_def demo_rx_buf_def)

lemmas demo_eval = tcp_handle_def tcp_est_ack_def tcp_est_data_def tcp_est_fin_def tcp_rx_append_def tcp_output_no_nif
  tcp_pcb_recv_def tcp_rx_take_def has_def demo_pcb_def zero_pcb_def tcp_rcv_wnd_def TCP_RX_MAX_def Let_def

lemma demo_run:
  "\<exists>c. rx_run (vnet_devs 0) 0 demo_events (demo_net demo_pcb) = ([1, 2], demo_net c) \<and> pc_rx_len c = 2 \<and>
     2 \<le> length (pc_rx_buf c)"
proof -
  have "length demo_rx_buf = 1024" by (simp add: demo_rx_buf_def TCP_RX_MAX_def)
  then show ?thesis
    by (simp add: demo_events_def demo_eval del: vnet_devs.simps) (intro exI conjI, rule refl, simp_all)
qed

lemma demo_carries: "list_all (carries [1, 2, 3, 4] 100) demo_events"
  by (simp add: demo_events_def fragment_def has_def mem_get_def Let_def)




section \<open>Where the stream breaks\<close>

text \<open>Devices that deliver nothing to block \<open>i\<close> leave it alone.\<close>

abbreviation silent :: "tcp_pcb \<Rightarrow> u32 \<Rightarrow> u32 \<Rightarrow> u8 \<Rightarrow> bytes \<Rightarrow> bool" where
  "silent \<equiv> \<lambda>_ _ _ _ _. False"

lemma silent_devs:
  assumes "segment_devs silent i devs"
  shows "net_driver devs" "polls_keep devs (\<lambda>cs. n = length cs \<and> cs ! i = c)"
  using segment_devs_keep(1) [where R = "\<lambda>(n, c) cs. n = length cs \<and> cs ! i = c", OF _ _ assms]
  by auto

lemma seq_after_ack [simp]: "tcp_seq_after TCP_ACK [] seq = seq"
  by (simp add: tcp_seq_after_def TCP_ACK_def TCP_SYN_def TCP_FIN_def)

lemma tcp_output_ack_silent:
  assumes "segment_devs silent i devs"
  shows "pcb (snd (tcp_output devs i TCP_ACK [] st)) i = pcb st i"
    "length (blocks (snd (tcp_output devs i TCP_ACK [] st))) = length (blocks st)"
proof -
  obtain r st' where o: "tcp_output devs i TCP_ACK [] st = (r, st')" by fastforce
  note sd = silent_devs [OF assms]
  have "r = -1 \<and> blocks st' = blocks st \<or> length (blocks st) = length (blocks st') \<and> pcb st' i = pcb st i"
    by (rule net_driver.tcp_output_cases [OF sd(1) o sd(2)]) (cases "i < length (blocks st)"; simp)
  then show "pcb (snd (tcp_output devs i TCP_ACK [] st)) i = pcb st i"
    "length (blocks (snd (tcp_output devs i TCP_ACK [] st))) = length (blocks st)" by (auto simp: o)
qed

text \<open>
  C36. A FIN that comes with data for which the buffer has no room: the data is dropped, and yet the
  connection counts it as received together with the FIN and enters CLOSE_WAIT, so that the peer is told it has arrived.
  The comment at the branch that refuses the data says that \<^verbatim>\<open>rcv_nxt\<close> is not advanced past what fits.
\<close>

theorem tcp_fin_loses_data:
  assumes "segment_devs silent i devs" "i < length (blocks st)" "has flags TCP_FIN"
    and "pc_state (pcb st i) = TCP_ESTABLISHED" "\<not> pc_echo (pcb st i)"
    and "of_nat TCP_RX_MAX - pc_rx_len (pcb st i) < of_nat (length payload)"
  shows "let c = pcb st i; c' = pcb (tcp_handle devs nif i (pc_rcv_nxt c) ack flags payload sport sip st) i in
    pc_rcv_nxt c' = pc_rcv_nxt c + of_nat (length payload) + 1 \<and> pc_state c' = TCP_CLOSE_WAIT \<and>
    pc_rx_len c' = pc_rx_len c \<and> pc_rx_buf c' = pc_rx_buf c"
proof -
  let ?c = "pcb st i"
  define s1 where "s1 = tcp_est_ack i ack flags st"
  define s2 where "s2 = snd (tcp_output devs i TCP_ACK [] s1)"
  have l1: "length (blocks s1) = length (blocks st)"
    by (simp add: s1_def tcp_est_ack_def tcp_on_ack_def tcp_arm_rto_def Let_def)
  have c1: "pc_rcv_nxt (pcb s1 i) = pc_rcv_nxt ?c" "pc_state (pcb s1 i) = TCP_ESTABLISHED" "\<not> pc_echo (pcb s1 i)"
      "pc_rx_len (pcb s1 i) = pc_rx_len ?c" "pc_rx_buf (pcb s1 i) = pc_rx_buf ?c"
    using assms(2,4,5) by (simp_all add: s1_def tcp_est_ack_def tcp_on_ack_def tcp_arm_rto_def Let_def)
  note o = tcp_output_ack_silent [OF assms(1)]
  have "payload \<noteq> []" using assms(6) by auto
  then have "tcp_est_data devs i (pc_rcv_nxt ?c) payload s1 = s2"
    using assms(6) [folded not_le] c1 by (simp add: tcp_est_data_def s2_def Let_def)
  then have "tcp_handle devs nif i (pc_rcv_nxt ?c) ack flags payload sport sip st
      = tcp_est_fin devs i (pc_rcv_nxt ?c) flags payload s2"
    using assms(4) by (simp add: tcp_handle_def s1_def)
  moreover have "pcb s2 i = pcb s1 i" "length (blocks s2) = length (blocks st)"
    using o [of s1] l1 by (simp_all add: s2_def)
  ultimately show ?thesis
    using c1 assms(2,3) o by (simp add: tcp_est_fin_def Let_def)
qed

lemma rx_max_word: "of_nat TCP_RX_MAX = (1024 :: u32)"
  by (simp add: TCP_RX_MAX_def)

theorem tcp_fin_loses_data_witness:
  "let c' = pcb (tcp_handle (vnet_devs 0) None 0 102 0 TCP_FIN (replicate TCP_RX_MAX 9) 7 9 (demo_net demo_pcb)) 0 in
    pc_rcv_nxt c' = 1127 \<and> pc_state c' = TCP_CLOSE_WAIT \<and> pc_rx_len c' = 2 \<and> pc_rx_buf c' = demo_rx_buf"
  using tcp_fin_loses_data [OF segment_devs_vnet, where i = 0 and st = "demo_net demo_pcb" and flags = TCP_FIN
      and payload = "replicate TCP_RX_MAX 9" and nif = None and ack = 0 and sport = 7 and sip = 9]
  by (simp add: demo_pcb_def zero_pcb_def has_def TCP_FIN_def rx_max_word Let_def)

section \<open>The sending side\<close>

text \<open>
  The invariant of a block that has sent the stream \<open>T\<close>, the first byte with the number \<open>iss\<close>: the
  retransmission buffer is the end of \<open>T\<close>, and its number fits. The sender's stream is shorter than
  \<open>2 ^ 31\<close> bytes, so that the comparison of numbers by the sign of their difference is right.
\<close>

definition tx_part :: "bytes \<Rightarrow> u32 \<Rightarrow> tcp_pcb \<Rightarrow> bool" where
  "tx_part T iss c \<longleftrightarrow>
     (let n = unat (pc_una_len c) in
      length T < 2 ^ 31 \<and> \<not> pc_echo c \<and> pc_state c \<noteq> TCP_LISTEN \<and>
      length (pc_una_buf c) = TCP_UNA_MAX \<and> n \<le> TCP_UNA_MAX \<and> n \<le> length T \<and>
      take n (pc_una_buf c) = drop (length T - n) T \<and> pc_snd_nxt c = iss + of_nat (length T) \<and>
      (n \<noteq> 0 \<longrightarrow> pc_una_seq c = iss + of_nat (length T - n)))"

definition tx_stream :: "nat \<Rightarrow> bytes \<Rightarrow> u32 \<Rightarrow> tcp_pcb list \<Rightarrow> bool" where
  "tx_stream i T iss cs \<longleftrightarrow> i < length cs \<and> tx_part T iss (cs ! i)"

text \<open>An acknowledgement of bytes that have been sent.\<close>

definition acks :: "u32 \<Rightarrow> tcp_pcb \<Rightarrow> u32 \<Rightarrow> u32 \<Rightarrow> u8 \<Rightarrow> bytes \<Rightarrow> bool" where
  "acks iss c seq ack flags payload \<longleftrightarrow> (has flags TCP_ACK \<longrightarrow> unat (ack - iss) \<le> unat (pc_snd_nxt c - iss))"

lemma tx_part_fields [simp]:
  "tx_part T iss (c\<lparr>pc_snd_una := x\<rparr>) = tx_part T iss c" "tx_part T iss (c\<lparr>pc_rcv_nxt := x\<rparr>) = tx_part T iss c"
  "tx_part T iss (c\<lparr>pc_rx_buf := b\<rparr>) = tx_part T iss c" "tx_part T iss (c\<lparr>pc_rx_len := x\<rparr>) = tx_part T iss c"
  "tx_part T iss (c\<lparr>pc_rto_ticks := x\<rparr>) = tx_part T iss c" "tx_part T iss (c\<lparr>pc_rto_deadline := x\<rparr>) = tx_part T iss c"
  "tx_part T iss (c\<lparr>pc_pending_accept := a\<rparr>) = tx_part T iss c"
  by (simp_all add: tx_part_def)

lemma tx_part_cong:
  "pc_echo c = pc_echo c' \<Longrightarrow> pc_state c = pc_state c' \<Longrightarrow> pc_una_len c = pc_una_len c' \<Longrightarrow>
   pc_una_buf c = pc_una_buf c' \<Longrightarrow> pc_una_seq c = pc_una_seq c' \<Longrightarrow> pc_snd_nxt c = pc_snd_nxt c' \<Longrightarrow>
   tx_part T iss c = tx_part T iss c'"
  by (simp add: tx_part_def)

lemma tx_part_state: "tx_part T iss c \<Longrightarrow> s \<noteq> TCP_LISTEN \<Longrightarrow> tx_part T iss (c\<lparr>pc_state := s\<rparr>)"
  by (simp add: tx_part_def Let_def)

lemma tx_stream_upd:
  assumes "tx_stream i T iss (blocks st)" "tx_part T iss (pcb st i) \<Longrightarrow> tx_part T iss (f (pcb st i))"
  shows "tx_stream i T iss (blocks (upd_pcb i f st))"
  using assms by (simp add: tx_stream_def)

lemma tx_stream_timers: "timers_free (tx_stream i T iss)"
  unfolding timers_free_def tx_stream_def [abs_def] by (intro allI conjI ignores_block) simp_all

lemma sint_diff_u32:
  assumes "a < 2 ^ 31" "b < 2 ^ 31"
  shows "sint (of_nat b - of_nat a :: u32) = int b - int a"
proof -
  have "of_nat b - of_nat a = (word_of_int (int b - int a) :: u32)" by simp
  then have "sint (of_nat b - of_nat a :: u32) = signed_take_bit 31 (int b - int a)"
    by (simp only: signed_of_int) simp
  also have "\<dots> = int b - int a"
    by (rule signed_take_bit_int_eq_self) (use assms in simp_all)
  finally show ?thesis .
qed

text \<open>\<^verbatim>\<open>tcp_on_ack\<close> drops from the buffer what is acknowledged.\<close>

lemma tx_part_ack:
  assumes c: "tx_part T iss c" and b: "b \<le> length T" "length T - unat (pc_una_len c) < b" "b < length T"
    and q: "q = b - (length T - unat (pc_una_len c))"
  shows "tx_part T iss (c\<lparr>pc_una_buf := mem_put (pc_una_buf c) 0 (mem_get (pc_una_buf c) q (unat (pc_una_len c) - q)),
    pc_una_len := pc_una_len c - of_nat q, pc_una_seq := iss + of_nat b\<rparr>)"
proof -
  let ?n = "unat (pc_una_len c)"
  have n: "?n \<le> length T" "?n \<le> TCP_UNA_MAX" "length (pc_una_buf c) = TCP_UNA_MAX"
      "take ?n (pc_una_buf c) = drop (length T - ?n) T" "length T < 2 ^ 31"
    using c by (simp_all add: tx_part_def Let_def)
  have qn: "q < ?n" "?n - q = length T - b" using b n(1) q by simp_all
  have "unat (of_nat q :: u32) = q" using qn n(2) by (intro unat_u32) (simp add: TCP_UNA_MAX_def)
  then have "unat (pc_una_len c - of_nat q) = ?n - q"
    using qn unat_minus_le [of "of_nat q" "pc_una_len c"] by (simp add: word_le_nat_alt)
  moreover have "mem_get (pc_una_buf c) q (?n - q) = drop q (take ?n (pc_una_buf c))"
    by (simp add: mem_get_def drop_take)
  then have "mem_get (pc_una_buf c) q (?n - q) = drop b T" using n(1,4) b q by simp
  ultimately show ?thesis
    using c qn n b by (simp add: tx_part_def Let_def mem_put_zero)
qed

lemma tcp_on_ack_tx:
  assumes t: "tx_stream i T iss (blocks st)" and ack: "unat (ack - iss) \<le> length T"
  shows "tx_stream i T iss (blocks (tcp_on_ack i ack st))"
proof (cases "pc_una_len (pcb st i) = 0")
  case False
  let ?c = "pcb st i"
  define n a b where "n = unat (pc_una_len ?c)" and "a = length T - n" and "b = unat (ack - iss)"
  have i: "i < length (blocks st)" and c: "tx_part T iss ?c" using t by (simp_all add: tx_stream_def)
  have n: "0 < n" "n \<le> length T" "length T < 2 ^ 31" "pc_una_seq ?c = iss + of_nat a"
    using False c by (simp_all add: tx_part_def Let_def n_def a_def unat_gt_0)
  have b: "ack = iss + of_nat b" "b < 2 ^ 31" using ack n by (simp_all add: b_def)
  have diff: "ack - pc_una_seq ?c = of_nat b - of_nat a" using n b by simp
  have sd: "sint (ack - pc_una_seq ?c) = int b - int a"
    unfolding diff by (rule sint_diff_u32) (use n b in \<open>simp_all add: a_def\<close>)
  show ?thesis
  proof (cases "b \<le> a")
    case True
    then show ?thesis using t False sd by (simp add: tcp_on_ack_def)
  next
    case new: False
    have q: "ack - pc_una_seq ?c = of_nat (b - a)" using new unfolding diff by simp
    have u: "unat (of_nat (b - a) :: u32) = b - a" using b by (intro unat_u32) simp
    show ?thesis
    proof (cases "b = length T")
      case True
      then have "pc_una_len ?c \<le> of_nat (b - a)" using u n by (simp add: word_le_nat_alt n_def a_def)
      moreover have "tx_part T iss (?c\<lparr>pc_una_len := 0, pc_rto_ticks := x, pc_rto_deadline := y, pc_snd_una := z\<rparr>)" for x y z
        using c by (simp add: tx_part_def Let_def)
      ultimately show ?thesis
        using i False new sd q by (simp add: tcp_on_ack_def tx_stream_def Let_def)
    next
      case more: False
      then have lt: "b < length T" using ack by (simp add: b_def)
      then have "\<not> pc_una_len ?c \<le> of_nat (b - a)" using u n by (simp add: word_le_nat_alt n_def a_def)
      moreover have "unat (pc_una_len ?c - of_nat (b - a)) = n - (b - a)"
        using u n lt unat_minus_le [of "of_nat (b - a)" "pc_una_len ?c"] by (simp add: word_le_nat_alt n_def a_def)
      moreover have "tx_part T iss (?c\<lparr>pc_una_buf := mem_put (pc_una_buf ?c) 0 (mem_get (pc_una_buf ?c) (b - a) (n - (b - a))),
          pc_una_len := pc_una_len ?c - of_nat (b - a), pc_una_seq := ack\<rparr>)"
        using tx_part_ack [OF c, of b "b - a"] lt new unfolding b(1) by (simp add: n_def a_def)
      ultimately show ?thesis
        using i False new sd q u
        by (simp add: tcp_on_ack_def tcp_arm_rto_def tx_stream_def Let_def)
    qed
  qed
qed (use t in \<open>simp add: tcp_on_ack_def\<close>)

lemma tx_part_send:
  assumes c: "tx_part T iss c" and d: "data \<noteq> []" "unat (pc_una_len c) + length data \<le> TCP_UNA_MAX"
    "length T + length data < 2 ^ 31"
  shows "tx_part (T @ data) iss (c\<lparr>pc_una_seq := (if pc_una_len c = 0 then pc_snd_nxt c else pc_una_seq c),
    pc_una_buf := mem_put (pc_una_buf c) (unat (pc_una_len c)) data,
    pc_una_len := pc_una_len c + of_nat (length data), pc_snd_nxt := pc_snd_nxt c + of_nat (length data)\<rparr>)"
proof -
  let ?n = "unat (pc_una_len c)"
  have n: "?n \<le> length T" "length (pc_una_buf c) = TCP_UNA_MAX" "take ?n (pc_una_buf c) = drop (length T - ?n) T"
    using c by (simp_all add: tx_part_def Let_def)
  have len: "unat (pc_una_len c + of_nat (length data)) = ?n + length data"
    using d unat_plus_nat [of "pc_una_len c" "length data"] by (simp add: TCP_UNA_MAX_def)
  have "take (?n + length data) (mem_put (pc_una_buf c) ?n data) = drop (length T - ?n) T @ data"
    using n d(2) by (simp add: mem_put_def)
  moreover have "pc_una_len c \<noteq> 0 \<Longrightarrow> ?n \<noteq> 0" by (simp add: unat_eq_0)
  ultimately show ?thesis
    using c n(1,2) d len by (auto simp: tx_part_def Let_def)
qed

lemma tcp_rx_append_tx: "tx_stream i T iss (blocks st) \<Longrightarrow> tx_stream i T iss (blocks (tcp_rx_append i data st))"
  by (auto simp: tcp_rx_append_def Let_def simp del: upd_pcb_tcp(2) intro!: tx_stream_upd)

lemma tx_stream_echo: "tx_stream i T iss (blocks st) \<Longrightarrow> \<not> pc_echo (pcb st i)"
  by (simp add: tx_stream_def tx_part_def Let_def)

lemma tx_stream_acks:
  assumes "tx_stream i T iss (blocks st)" "acks iss (pcb st i) seq ack flags payload" "has flags TCP_ACK"
  shows "unat (ack - iss) \<le> length T"
proof -
  have "pc_snd_nxt (pcb st i) - iss = of_nat (length T)" "length T < 2 ^ 31"
    using assms(1) by (simp_all add: tx_stream_def tx_part_def Let_def)
  then show ?thesis using assms(2,3) unat_u32 [of "length T"] by (simp add: acks_def)
qed

lemma seq_after_data: "data \<noteq> [] \<Longrightarrow> tcp_seq_after (TCP_PSH OR TCP_ACK) data seq = seq + of_nat (length data)"
  by (simp add: tcp_seq_after_def TCP_PSH_def TCP_ACK_def TCP_SYN_def TCP_FIN_def)

context net_driver
begin

lemma tcp_output_ack_tx:
  assumes "polls_keep devs (tx_stream i T iss)" "tx_stream i T iss (blocks st)"
  shows "tx_stream i T iss (blocks (snd (tcp_output devs i TCP_ACK [] st)))"
proof -
  obtain r st' where o: "tcp_output devs i TCP_ACK [] st = (r, st')" by fastforce
  have "r = -1 \<and> blocks st' = blocks st \<or> tx_stream i T iss (blocks st')"
    by (rule tcp_output_cases [OF o assms(1)]) (use assms(2) in simp)
  then show ?thesis using assms(2) by (auto simp: o)
qed

lemma tcp_pcb_send_tx:
  assumes pk: "\<And>T. polls_keep devs (tx_stream i T iss)" and t: "tx_stream i T iss (blocks st)"
    and send: "tcp_pcb_send devs (Some i) buf st = (int n, st')" and len: "length T + n < 2 ^ 31"
  shows "tx_stream i (T @ take n buf) iss (blocks st')"
proof -
  define s1 where "s1 = tcp_send_wait devs i TCP_SEND_SPINS st"
  define space where "space = of_nat TCP_UNA_MAX - pc_una_len (pcb s1 i)"
  define s2 where "s2 = tcp_enqueue i (take (tcp_send_len buf space) buf) s1"
  have t1: "tx_stream i T iss (blocks s1)"
    unfolding s1_def by (rule tcp_send_wait_keeps [OF pk tx_stream_timers t])
  then have i: "i < length (blocks s1)" and c: "tx_part T iss (pcb s1 i)" by (simp_all add: tx_stream_def)
  obtain r s3 where o: "tcp_output devs i (TCP_PSH OR TCP_ACK) (take (tcp_send_len buf space) buf) s2 = (r, s3)" by fastforce
  have "space = 0 \<longleftrightarrow> of_nat TCP_UNA_MAX = pc_una_len (pcb s1 i)" by (simp add: space_def)
  then have r: "buf \<noteq> []" "space \<noteq> 0" "r = 0" "n = tcp_send_len buf space" "st' = s3"
    using send o
    by (auto simp: tcp_pcb_send_def Let_def s1_def [symmetric] space_def [symmetric] s2_def [symmetric] split: if_splits)
  have sp: "unat space = TCP_UNA_MAX - unat (pc_una_len (pcb s1 i))"
    using c unat_space [of "pc_una_len (pcb s1 i)" TCP_UNA_MAX]
    by (simp add: space_def tx_part_def Let_def TCP_UNA_MAX_def)
  have "0 < unat space" using r(2) by (simp add: unat_gt_0)
  then have n: "0 < n" "n \<le> length buf" "n \<le> unat space"
    using r(1,4) by (auto simp: tcp_send_len_def Let_def TCP_MSS_def)
  let ?d = "take n buf"
  have d: "length ?d = n" "?d \<noteq> []" using n r(1) by simp_all
  have "tx_part (T @ ?d) iss (pcb s2 i\<lparr>pc_snd_nxt := pc_snd_nxt (pcb s2 i) + of_nat n\<rparr>)"
    using n sp len i unfolding s2_def r(4) [symmetric]
    by (intro tx_part_cong [THEN iffD2, OF _ _ _ _ _ _ tx_part_send [OF c d(2)]])
      (simp_all add: tcp_enqueue_def tcp_arm_rto_def Let_def)
  moreover have "length (blocks s2) = length (blocks s1)"
    by (simp add: s2_def tcp_enqueue_def tcp_arm_rto_def Let_def)
  ultimately have "r = -1 \<and> blocks s3 = blocks s2 \<or> tx_stream i (T @ ?d) iss (blocks s3)"
    using i d by (intro tcp_output_cases [OF o [folded r(4)] pk]) (simp add: tx_stream_def seq_after_data)
  then show ?thesis using r by simp
qed

lemma tcp_handle_tx:
  fixes nif seq payload sport sip
  assumes pk: "polls_keep devs (tx_stream i T iss)" and t: "tx_stream i T iss (blocks st)"
    and ack: "acks iss (pcb st i) seq ack flags payload"
  shows "tx_stream i T iss (blocks (tcp_handle devs nif i seq ack flags payload sport sip st))"
proof -
  let ?Q = "\<lambda>s. tx_stream i T iss (blocks s)"
  have a: "?Q (tcp_on_ack i ack s)" if "?Q s" "has flags TCP_ACK" for s
    using that tcp_on_ack_tx tx_stream_acks [OF t ack] by blast
  have st: "pc_state (pcb st i) \<noteq> TCP_LISTEN" using t by (simp add: tx_stream_def tx_part_def Let_def)
  note steps = tx_stream_upd tcp_output_ack_tx [OF pk] tcp_rx_append_tx
  have ack': "?Q (tcp_est_ack i ack flags s)" if "?Q s" for s
    using that by (auto simp: tcp_est_ack_def simp del: upd_pcb_tcp(2) intro!: a steps)
  have data: "?Q (tcp_est_data devs i seq payload s)" if "?Q s" for s
  proof -
    let ?s = "tcp_rx_append i payload (upd_pcb i (\<lambda>c. c\<lparr>pc_rcv_nxt := seq + of_nat (length payload)\<rparr>) s)"
    have "?Q ?s" using that by (auto simp del: upd_pcb_tcp(2) intro!: steps)
    then show ?thesis
      using that tx_stream_echo [of i T iss ?s] tcp_output_ack_tx [OF pk]
      by (auto simp only: tcp_est_data_def Let_def split: if_split)
  qed
  have fin: "?Q (tcp_est_fin devs i seq flags payload s)" if "?Q s" for s
  proof -
    let ?s1 = "upd_pcb i (\<lambda>c. c\<lparr>pc_rcv_nxt := seq + of_nat (length payload) + 1\<rparr>) s"
    let ?s2 = "snd (tcp_output devs i TCP_ACK [] (upd_pcb i (\<lambda>c. c\<lparr>pc_state := TCP_CLOSE_WAIT\<rparr>) ?s1))"
    have "?Q ?s1" using that by (rule tx_stream_upd) simp
    moreover from this have "?Q ?s2" by (auto simp del: upd_pcb_tcp(2) intro!: steps tx_part_state)
    ultimately show ?thesis
      using that tx_stream_echo [of i T iss ?s2] by (simp add: tcp_est_fin_def Let_def del: upd_pcb_tcp(2))
  qed
  have wait: "?Q (tcp_handle_fin_wait devs i seq ack flags s)" if "?Q s" for s
    using that by (auto simp: tcp_handle_fin_wait_def Let_def simp del: upd_pcb_tcp(2) intro!: a steps tx_part_state)
  have syn: "?Q (tcp_handle_syn_sent devs i seq ack flags st)"
    using t tx_part_state [where s = TCP_ESTABLISHED]
    by (auto simp: tcp_handle_syn_sent_def Let_def simp del: upd_pcb_tcp(2) intro!: steps tx_part_state)
  have est: "?Q (upd_pcb i (\<lambda>c. c\<lparr>pc_snd_una := ack, pc_state := TCP_ESTABLISHED, pc_pending_accept := True\<rparr>) st)"
    using t by (rule tx_stream_upd) (simp add: tx_part_def Let_def)
  have closed: "?Q (upd_pcb i (\<lambda>c. c\<lparr>pc_state := TCP_CLOSED\<rparr>) s)" if "?Q s" for s
    using that by (rule tx_stream_upd) (simp add: tx_part_state)
  show ?thesis
    using st t est syn fin data ack' wait closed by (simp add: tcp_handle_def Let_def del: upd_pcb_tcp(2))
qed

end

lemma tx_stream_block:
  "tx_stream i T iss cs \<Longrightarrow> length cs' = length cs \<Longrightarrow> cs' ! i = cs ! i \<Longrightarrow> tx_stream i T iss cs'"
  by (simp add: tx_stream_def)

lemma segment_devs_tx:
  assumes "segment_devs (acks iss) i devs"
  shows "net_driver devs" "polls_keep devs (tx_stream i T iss)"
proof -
  have "net_driver devs \<and> (\<forall>T. polls_keep devs (tx_stream i T iss))"
    by (rule segment_devs_keep(1) [where R = "\<lambda>T. tx_stream i T iss", OF _ _ assms])
      (simp_all add: net_driver.tcp_handle_tx tx_stream_block)
  then show "net_driver devs" "polls_keep devs (tx_stream i T iss)" by auto
qed

text \<open>
  The life of a connection as its sender sees it: from a first state, accepted sends (which add to
  the stream), segments whose acknowledgement is of sent bytes, and passes of the timer.
\<close>

inductive sends :: "devs \<Rightarrow> nat \<Rightarrow> u32 \<Rightarrow> net \<Rightarrow> bytes \<Rightarrow> net \<Rightarrow> bool" for devs i iss st0 where
  sends_start: "sends devs i iss st0 [] st0"
| sends_arrive: "sends devs i iss st0 B st \<Longrightarrow> acks iss (pcb st i) seq ack flags payload \<Longrightarrow>
    sends devs i iss st0 B (tcp_handle devs nif i seq ack flags payload sport sip st)"
| sends_send: "sends devs i iss st0 B st \<Longrightarrow> tcp_pcb_send devs (Some i) buf st = (int n, st') \<Longrightarrow>
    sends devs i iss st0 (B @ take n buf) st'"
| sends_tick: "sends devs i iss st0 B st \<Longrightarrow> sends devs i iss st0 B (tcp_timer devs now st)"

lemma tcp_send_len_le: "tcp_send_len buf space \<le> length buf"
  by (simp add: tcp_send_len_def Let_def)

lemma sends_tx:
  assumes d: "segment_devs (acks iss) i devs"
  shows "sends devs i iss st0 B st \<Longrightarrow> tx_stream i T iss (blocks st0) \<Longrightarrow> length T + length B < 2 ^ 31 \<Longrightarrow>
    tx_stream i (T @ B) iss (blocks st)"
proof (induction rule: sends.induct)
  case (sends_send B st buf n st')
  note nd = segment_devs_tx [OF d]
  have n: "n \<le> length buf"
    using sends_send.hyps(2) tcp_send_len_le
    by (auto simp: tcp_pcb_send_def Let_def split: if_splits prod.splits)
  have "tx_stream i ((T @ B) @ take n buf) iss (blocks st')"
    by (rule net_driver.tcp_pcb_send_tx [OF nd _ sends_send.hyps(2)]) (use sends_send n in simp_all)
  then show ?case by simp
qed (use segment_devs_tx [OF d] in \<open>simp_all add: net_driver.tcp_handle_tx net_driver.tcp_timer_keeps tx_stream_timers\<close>)


text \<open>
  A connection with one unacknowledged byte that sends two more, gets the first one acknowledged and
  so keeps the two; the test hook of the code drops the segment instead of handing it to a card.
\<close>

definition demo_tx_pcb :: tcp_pcb where
  "demo_tx_pcb = zero_pcb\<lparr>pc_in_use := True, pc_state := TCP_ESTABLISHED, pc_snd_nxt := 1000, pc_una_seq := 999,
     pc_una_len := 1, pc_una_buf := 7 # replicate (TCP_UNA_MAX - 1) 0, pc_nif := Some 0\<rparr>"

definition demo_tx_net :: "bool \<Rightarrow> net" where
  "demo_tx_net drop_next = (upd_tcp (\<lambda>t. t\<lparr>pcbs := [demo_tx_pcb], g_drop_next_data := drop_next\<rparr>) (net_bss 0 [] []))
     \<lparr>pbuf_pool := [zero_pbuf], pbuf_free_list := Some 0, pbuf_inited := True\<rparr>"

lemma demo_tx: "tx_stream 0 [7] 999 (blocks (demo_tx_net d))"
  by (simp add: demo_tx_net_def upd_tcp_def tx_stream_def tx_part_def Let_def demo_tx_pcb_def zero_pcb_def TCP_UNA_MAX_def)

lemma tcp_send_wait_room:
  "unat (pc_una_len (pcb st i)) < TCP_UNA_MAX \<Longrightarrow> tcp_send_wait devs i n st = st"
  by (cases n) simp_all

lemma pbuf_alloc_ready:
  "pbuf_inited st \<Longrightarrow> pbuf_free_list st = Some p \<Longrightarrow> unat len \<le> PBUF_SIZE \<Longrightarrow> \<exists>s. pbuf_alloc len st = (Some p, s)"
  by (simp add: pbuf_alloc_def Let_def)

text \<open>With an interface and a packet buffer at hand, the block is numbered on before anything can fail.\<close>

lemma tcp_output_sent:
  assumes "pc_nif (pcb st i) = Some n" "length payload \<le> TCP_MSS" "pbuf_inited st" "pbuf_free_list st = Some p"
  shows "\<exists>s. same_vars st s \<and> tcp_output devs i flags payload st =
    (let s = upd_pcb i (\<lambda>c. c\<lparr>pc_snd_nxt := tcp_seq_after flags payload (pc_snd_nxt (pcb st i))\<rparr>) s in
     if payload \<noteq> [] \<and> g_drop_next_data (tcp_v s)
     then (0, pbuf_free (Some p) (upd_tcp (\<lambda>t. t\<lparr>g_drop_next_data := False\<rparr>) s))
     else ipv4_output devs (Some n) (Some p) (pc_remote_ip (pcb st i)) IPV4_PROTO_TCP s)"
proof -
  have le: "TCP_HDR_MIN + length payload \<le> PBUF_SIZE" using assms(2) by (simp add: TCP_MSS_def wire_defs)
  then have "unat (of_nat (TCP_HDR_MIN + length payload) :: u16) \<le> PBUF_SIZE"
    by (simp only: unat_of_nat) (rule le_trans [OF mod_less_eq_dividend])
  from pbuf_alloc_ready [OF assms(3,4) this] obtain s1 where
    al: "pbuf_alloc (of_nat (TCP_HDR_MIN + length payload)) st = (Some p, s1)" by blast
  obtain k seg where b: "tcp_build_win (pc_local_port (pcb st i)) (pc_remote_port (pcb st i)) (pc_snd_nxt (pcb st i))
      (pc_rcv_nxt (pcb st i)) flags payload (nif_ip (nifs s1 n)) (pc_remote_ip (pcb st i)) (tcp_rcv_wnd (pcb st i)) = (k, seg)"
    by fastforce
  have "same_vars st (pb_set_len p (ucast k) (pb_write p 0 seg s1))"
    using alloc_same_vars [OF al] by (intro same_vars_step)
  then show ?thesis
    using assms(1) le al b
    by (intro exI [of _ "pb_set_len p (ucast k) (pb_write p 0 seg s1)"])
      (simp add: tcp_output_def tcp_output_with_def Let_def del: of_nat_add)
qed

text \<open>With the link down, nothing is polled and every way out fails.\<close>

lemma nifs_pool [simp]:
  "nifs (snd (pbuf_alloc k st)) = nifs st" "nifs (pbuf_free p st) = nifs st" "nifs (pb_write i off bs st) = nifs st" "nifs (ub_unless ok st) = nifs st"
  for st :: net
  using same_vars_pool by (simp_all add: same_vars_def)

lemma alloc_nifs: "pbuf_alloc k st = (r, s) \<Longrightarrow> nifs s = nifs st \<and> blocks s = blocks st" for st :: net
  using alloc_same_vars [of k st r s] by (simp add: same_vars_def)

lemma netif_output_down: "nif_link_up (nifs st n) = 0 \<Longrightarrow> netif_output devs (Some n) q st = (-1, st)"
  by (auto simp: netif_output_def split: option.splits)

lemma ethernet_output_down:
  assumes "nif_link_up (nifs st n) = 0" "ethernet_output devs (Some n) p mac ety st = (r, st')"
  shows "r = -1 \<and> nifs st' = nifs st \<and> blocks st' = blocks st"
  using assms
  by (auto simp: ethernet_output_def pb_read_def netif_output_down Let_def dest!: alloc_nifs
      split: option.splits prod.splits if_splits)

lemma arp_resolve_down:
  assumes "nif_link_up (nifs st n) = 0"
  shows "nifs (snd (arp_resolve devs (Some n) ip timeout st)) = nifs st"
    "blocks (snd (arp_resolve devs (Some n) ip timeout st)) = blocks st"
proof -
  let ?pkt = "arp_build ARP_OP_REQUEST (nif_mac (nifs st n)) (nif_ip (nifs st n)) (Some eth_zero) (net_ip_route (nifs st n) ip)"
  obtain a s1 where al: "pbuf_alloc (of_nat ARP_PKT_LEN) st = (a, s1)" by fastforce
  note n1 = alloc_nifs [OF al]
  have "fst e = -1 \<and> nifs (snd e) = nifs st \<and> blocks (snd e) = blocks st"
    if "e = ethernet_output devs (Some n) (Some q) eth_broadcast ETH_TYPE_ARP (pb_write q 0 ?pkt s1)" for q e
    using ethernet_output_down [of "pb_write q 0 ?pkt s1" n devs "Some q" eth_broadcast ETH_TYPE_ARP "fst e" "snd e"] n1 assms that
    by simp
  then show "nifs (snd (arp_resolve devs (Some n) ip timeout st)) = nifs st"
    "blocks (snd (arp_resolve devs (Some n) ip timeout st)) = blocks st"
    using al n1 by (simp_all add: arp_resolve_def Let_def case_prod_unfold split: option.split)
qed

lemma ipv4_output_down:
  assumes "nif_link_up (nifs st n) = 0"
  shows "fst (ipv4_output devs (Some n) p ip proto st) = -1" "blocks (snd (ipv4_output devs (Some n) p ip proto st)) = blocks st"
proof -
  have "fst (ethernet_output devs (Some n) q mac ety s) = -1 \<and> blocks (snd (ethernet_output devs (Some n) q mac ety s)) = blocks st"
    if "nifs s = nifs st" "blocks s = blocks st" for q mac ety s
    using ethernet_output_down [of s n devs q mac ety] that assms by (metis prod.collapse)
  then show "fst (ipv4_output devs (Some n) p ip proto st) = -1" "blocks (snd (ipv4_output devs (Some n) p ip proto st)) = blocks st"
    using assms
    by (auto simp: ipv4_output_def pb_read_def Let_def case_prod_unfold arp_resolve_down split: option.split)
qed

text \<open>A send that finds room: what is queued, and what the segment does.\<close>

lemma tcp_enqueue_pool [simp]:
  assumes "unat (pc_una_len (pcb st i)) + length data \<le> TCP_UNA_MAX" "i < length (blocks st)"
  shows "pbuf_inited (tcp_enqueue i data st) = pbuf_inited st" "pbuf_free_list (tcp_enqueue i data st) = pbuf_free_list st"
    "nifs (tcp_enqueue i data st) = nifs st" "length (blocks (tcp_enqueue i data st)) = length (blocks st)"
    "g_drop_next_data (tcp_v (tcp_enqueue i data st)) = g_drop_next_data (tcp_v st)"
    "pc_nif (pcb (tcp_enqueue i data st) i) = pc_nif (pcb st i)"
    "pc_snd_nxt (pcb (tcp_enqueue i data st) i) = pc_snd_nxt (pcb st i)"
    "pc_una_len (pcb (tcp_enqueue i data st) i) = pc_una_len (pcb st i) + of_nat (length data)"
  using assms by (simp_all add: tcp_enqueue_def tcp_arm_rto_def Let_def upd_pcb_def upd_tcp_def)

lemma tcp_send_len_room:
  assumes "unat (pc_una_len c) < TCP_UNA_MAX" "buf \<noteq> []"
  defines "k \<equiv> tcp_send_len buf (of_nat TCP_UNA_MAX - pc_una_len c)"
  shows "0 < k" "k \<le> length buf" "k \<le> TCP_MSS" "unat (pc_una_len c) + k \<le> TCP_UNA_MAX"
    "of_nat TCP_UNA_MAX \<noteq> pc_una_len c"
proof -
  have "unat (of_nat TCP_UNA_MAX - pc_una_len c) = TCP_UNA_MAX - unat (pc_una_len c)"
    using assms(1) unat_space [of "pc_una_len c" TCP_UNA_MAX] by (simp add: TCP_UNA_MAX_def)
  then show "0 < k" "k \<le> length buf" "k \<le> TCP_MSS" "unat (pc_una_len c) + k \<le> TCP_UNA_MAX"
      "of_nat TCP_UNA_MAX \<noteq> pc_una_len c"
    using assms(1,2) by (auto simp: k_def tcp_send_len_def Let_def TCP_MSS_def)
qed

text \<open>
  C37. A send while the link of the interface is down, with a packet buffer at hand: the caller is told that nothing was sent
  and the data is taken out of the retransmission buffer again, but the next number to be sent has already
  moved past it. The peer waits for these numbers, and no segment of the connection will carry them any more.
\<close>

theorem tcp_failed_send_gap:
  assumes "i < length (blocks st)" "pc_state (pcb st i) = TCP_ESTABLISHED" "pc_nif (pcb st i) = Some n"
    and "nif_link_up (nifs st n) = 0" "buf \<noteq> []" "unat (pc_una_len (pcb st i)) < TCP_UNA_MAX"
    and "\<not> g_drop_next_data (tcp_v st)" "pbuf_inited st" "pbuf_free_list st = Some p"
  shows "case tcp_pcb_send devs (Some i) buf st of (r, st') \<Rightarrow>
    let k = tcp_send_len buf (of_nat TCP_UNA_MAX - pc_una_len (pcb st i)) in
    0 < k \<and> r = -1 \<and> pc_una_len (pcb st' i) = pc_una_len (pcb st i) \<and>
    pc_snd_nxt (pcb st' i) = pc_snd_nxt (pcb st i) + of_nat k"
proof -
  define k where "k = tcp_send_len buf (of_nat TCP_UNA_MAX - pc_una_len (pcb st i))"
  note k = tcp_send_len_room [OF assms(6,5), folded k_def]
  let ?d = "take k buf"
  have d: "length ?d = k" "?d \<noteq> []" using k assms(5) by simp_all
  define s1 where "s1 = tcp_enqueue i ?d st"
  have "unat (pc_una_len (pcb st i)) + length ?d \<le> TCP_UNA_MAX" using k d by simp
  note e = tcp_enqueue_pool [OF this assms(1), folded s1_def]
  have nif: "pc_nif (pcb s1 i) = Some n" and mss: "length ?d \<le> TCP_MSS" and pool: "pbuf_inited s1" "pbuf_free_list s1 = Some p"
    using e assms k d by simp_all
  from tcp_output_sent [OF nif mss pool, of devs "TCP_PSH OR TCP_ACK"] obtain s where s: "same_vars s1 s"
    "tcp_output devs i (TCP_PSH OR TCP_ACK) ?d s1 =
      (let s = upd_pcb i (\<lambda>c. c\<lparr>pc_snd_nxt := tcp_seq_after (TCP_PSH OR TCP_ACK) ?d (pc_snd_nxt (pcb s1 i))\<rparr>) s in
       if ?d \<noteq> [] \<and> g_drop_next_data (tcp_v s)
       then (0, pbuf_free (Some p) (upd_tcp (\<lambda>t. t\<lparr>g_drop_next_data := False\<rparr>) s))
       else ipv4_output devs (Some n) (Some p) (pc_remote_ip (pcb s1 i)) IPV4_PROTO_TCP s)" by blast
  let ?s2 = "upd_pcb i (\<lambda>c. c\<lparr>pc_snd_nxt := pc_snd_nxt (pcb st i) + of_nat k\<rparr>) s"
  have sv: "tcp_v s = tcp_v s1" "nifs s = nifs st" using s(1) e by (simp_all add: same_vars_def)
  obtain r s3 where o: "ipv4_output devs (Some n) (Some p) (pc_remote_ip (pcb s1 i)) IPV4_PROTO_TCP ?s2 = (r, s3)" by fastforce
  have r: "r = -1" "blocks s3 = blocks ?s2"
    using ipv4_output_down [of ?s2 n devs "Some p" "pc_remote_ip (pcb s1 i)" IPV4_PROTO_TCP] o assms(4) sv by simp_all
  have "tcp_output devs i (TCP_PSH OR TCP_ACK) ?d s1 = (-1, s3)"
    using s(2) o r(1) e(5,7) sv d assms(7) by (simp add: seq_after_data)
  then have send: "tcp_pcb_send devs (Some i) buf st = (-1, tcp_take_back i k s3)"
    using assms(2,5,6) k(5) by (simp add: tcp_pcb_send_def tcp_send_wait_room Let_def k_def [symmetric] s1_def [symmetric])
  have "pcb s3 i = pcb s1 i\<lparr>pc_snd_nxt := pc_snd_nxt (pcb st i) + of_nat k\<rparr>" "length (blocks s3) = length (blocks st)"
    using r(2) sv e(4) assms(1) by simp_all
  then show ?thesis
    using send k(1) e(8) d assms(1) unfolding k_def [symmetric]
    by (simp add: Let_def tcp_take_back_def)
qed

theorem tcp_failed_send_gap_witness:
  "case tcp_pcb_send (vnet_devs 0) (Some 0) [8, 9] (demo_tx_net False) of (r, st') \<Rightarrow>
    r = -1 \<and> pc_una_len (pcb st' 0) = 1 \<and> pc_snd_nxt (pcb st' 0) = 1002"
proof -
  have "tcp_send_len [8, 9] (of_nat TCP_UNA_MAX - 1) = 2"
    by (simp add: tcp_send_len_def TCP_UNA_MAX_def TCP_MSS_def Let_def)
  then show ?thesis
    using tcp_failed_send_gap [of 0 "demo_tx_net False" 0 "[8, 9]" 0 "vnet_devs 0"]
    by (simp add: demo_tx_net_def demo_tx_pcb_def zero_pcb_def net_bss_def zero_netif_def upd_tcp_def TCP_UNA_MAX_def
        Let_def case_prod_unfold)
qed

text \<open>With the test hook set, the same send succeeds; the connection of the witness goes on from there.\<close>

lemma tcp_pcb_send_dropped:
  assumes "i < length (blocks st)" "pc_state (pcb st i) = TCP_ESTABLISHED" "pc_nif (pcb st i) = Some n"
    and "buf \<noteq> []" "unat (pc_una_len (pcb st i)) < TCP_UNA_MAX"
    and "g_drop_next_data (tcp_v st)" "pbuf_inited st" "pbuf_free_list st = Some p"
  shows "fst (tcp_pcb_send devs (Some i) buf st) = int (tcp_send_len buf (of_nat TCP_UNA_MAX - pc_una_len (pcb st i)))"
proof -
  define k where "k = tcp_send_len buf (of_nat TCP_UNA_MAX - pc_una_len (pcb st i))"
  note k = tcp_send_len_room [OF assms(5,4), folded k_def]
  let ?d = "take k buf"
  have d: "length ?d = k" "?d \<noteq> []" using k assms(4) by simp_all
  define s1 where "s1 = tcp_enqueue i ?d st"
  have "unat (pc_una_len (pcb st i)) + length ?d \<le> TCP_UNA_MAX" using k d by simp
  note e = tcp_enqueue_pool [OF this assms(1), folded s1_def]
  have nif: "pc_nif (pcb s1 i) = Some n" and mss: "length ?d \<le> TCP_MSS" and pool: "pbuf_inited s1" "pbuf_free_list s1 = Some p"
    using e assms k d by simp_all
  have "fst (tcp_output devs i (TCP_PSH OR TCP_ACK) ?d s1) = 0"
    using tcp_output_sent [OF nif mss pool, of devs "TCP_PSH OR TCP_ACK"] e(5) assms(6) d
    by (auto simp: same_vars_def Let_def)
  then show ?thesis
    using assms(2,4,5) k(5)
    by (simp add: tcp_pcb_send_def tcp_send_wait_room Let_def k_def [symmetric] s1_def [symmetric] case_prod_unfold)
qed


end
