(* ===== verification/Devmgr.thy ===== *)
theory Devmgr
  imports Kernel_Prelude
begin

text \<open>
  The device registry of \<^verbatim>\<open>devmgr/dex32_devmgr.c\<close> and \<^verbatim>\<open>devmgr/devmgr_lifecycle.h\<close>: a table of
  \<open>MAXDEVICES\<close> slots with a reference count, a generation and a life-cycle state per slot. Every
  operation runs under \<^verbatim>\<open>devmgr_busy\<close>, so that one operation is one step. A descriptor is the copy
  that registration has allocated; its address \<open>dv_addr\<close> is what pointer comparisons look at, and the
  operation table of the driver is the type parameter. A retired copy is never freed by the source, so a
  descriptor that a caller still has can always be read.

  The invariant relates the counts to the handles that callers have obtained and not yet given back; it
  is proved for every sequence of operations.
\<close>

section \<open>Data\<close>

definition MAXDEVICES :: nat where [wire_defs]: "MAXDEVICES = 255"

definition DEVMGR_BLOCK :: int where [wire_defs]: "DEVMGR_BLOCK = 4"

definition SIZEOF_DEVMGR_GENERIC :: int where [wire_defs]: "SIZEOF_DEVMGR_GENERIC = 304"

datatype devmgr_state = DEVMGR_STATE_FREE | DEVMGR_STATE_LIVE | DEVMGR_STATE_QUIESCING | DEVMGR_STATE_DEAD

record 'x devmgr_generic =
  dv_addr :: nat
  dv_size :: int
  dv_id :: int
  dv_type :: int
  dv_name :: string
  dv_ops :: 'x

record devmgr_status =
  ds_locked :: int
  ds_refs :: u32
  ds_generation :: u32
  ds_state :: devmgr_state

record 'x devmgr =
  devmgr_devlist :: "'x devmgr_generic option list"
  devmgr_statuslist :: "devmgr_status list"

section \<open>Life cycle of a slot\<close>

definition devmgr_lifecycle_quiesce :: "devmgr_state \<Rightarrow> bool \<times> devmgr_state" where
  "devmgr_lifecycle_quiesce st =
     (let st' = (if st = DEVMGR_STATE_LIVE then DEVMGR_STATE_QUIESCING else st)
      in (st' = DEVMGR_STATE_QUIESCING, st'))"

definition devmgr_lifecycle_get :: "devmgr_state \<Rightarrow> u32 \<Rightarrow> bool \<times> u32" where
  "devmgr_lifecycle_get st refs =
     (if st \<noteq> DEVMGR_STATE_LIVE \<or> refs = NOT 0 then (False, refs) else (True, refs + 1))"

definition devmgr_lifecycle_put :: "u32 \<Rightarrow> bool \<times> u32" where
  "devmgr_lifecycle_put refs = (if refs = 0 then (False, refs) else (True, refs - 1))"

definition devmgr_lifecycle_can_retire :: "devmgr_state \<Rightarrow> u32 \<Rightarrow> bool" where
  "devmgr_lifecycle_can_retire st refs \<longleftrightarrow> st = DEVMGR_STATE_QUIESCING \<and> refs = 0"

section \<open>Operations\<close>

definition dev_slot :: "int \<Rightarrow> 'x devmgr \<Rightarrow> 'x devmgr_generic option" where
  "dev_slot i m = (if 0 \<le> i \<and> i < int MAXDEVICES then devmgr_devlist m ! nat i else None)"

abbreviation dev_status :: "int \<Rightarrow> 'x devmgr \<Rightarrow> devmgr_status" where
  "dev_status i m \<equiv> devmgr_statuslist m ! nat i"

definition set_slot :: "int \<Rightarrow> 'x devmgr_generic option \<Rightarrow> 'x devmgr \<Rightarrow> 'x devmgr" where
  "set_slot i b m = m\<lparr>devmgr_devlist := (devmgr_devlist m)[nat i := b]\<rparr>"

definition upd_status :: "int \<Rightarrow> (devmgr_status \<Rightarrow> devmgr_status) \<Rightarrow> 'x devmgr \<Rightarrow> 'x devmgr" where
  "upd_status i f m = m\<lparr>devmgr_statuslist := (devmgr_statuslist m)[nat i := f (dev_status i m)]\<rparr>"

definition devmgr_finddevice_locked :: "string \<Rightarrow> 'x devmgr \<Rightarrow> int" where
  "devmgr_finddevice_locked name m =
     (case find (\<lambda>i. case devmgr_devlist m ! i of None \<Rightarrow> False
                | Some b \<Rightarrow> ds_state (devmgr_statuslist m ! i) = DEVMGR_STATE_LIVE \<and> dv_name b = name) [0..<MAXDEVICES] of
        None \<Rightarrow> -1 | Some i \<Rightarrow> int i)"

definition devmgr_retire_locked :: "int \<Rightarrow> 'x devmgr \<Rightarrow> 'x devmgr_generic option \<times> 'x devmgr" where
  "devmgr_retire_locked i m =
     (if \<not> devmgr_lifecycle_can_retire (ds_state (dev_status i m)) (ds_refs (dev_status i m)) then (None, m)
      else (dev_slot i m, upd_status i (ds_state_update (\<lambda>_. DEVMGR_STATE_DEAD)) (set_slot i None m)))"

text \<open>The table as \<^verbatim>\<open>devmgr_init\<close> leaves it before the first registration.\<close>

definition devmgr_empty :: "'x devmgr" where
  "devmgr_empty = \<lparr>devmgr_devlist = replicate MAXDEVICES None,
     devmgr_statuslist = replicate MAXDEVICES \<lparr>ds_locked = 0, ds_refs = 0, ds_generation = 0, ds_state = DEVMGR_STATE_FREE\<rparr>\<rparr>"

definition devmgr_removedevice :: "int \<Rightarrow> 'x devmgr \<Rightarrow> int \<times> 'x devmgr" where
  "devmgr_removedevice i m =
     (if dev_slot i m \<noteq> None \<and> ds_locked (dev_status i m) = 0 then
        let m1 = (if ds_state (dev_status i m) = DEVMGR_STATE_LIVE
                  then upd_status i (ds_state_update (\<lambda>_. DEVMGR_STATE_QUIESCING)) m else m);
            (retired, m2) = devmgr_retire_locked i m1
        in (if retired \<noteq> None then 1 else 0, m2)
      else (-1, m))"

definition devmgr_quiesce_device :: "int \<Rightarrow> 'x devmgr \<Rightarrow> int \<times> 'x devmgr" where
  "devmgr_quiesce_device i m =
     (if dev_slot i m \<noteq> None then
        let (ok, st) = devmgr_lifecycle_quiesce (ds_state (dev_status i m));
            m1 = upd_status i (ds_state_update (\<lambda>_. st)) m
        in if ok then (let (retired, m2) = devmgr_retire_locked i m1 in (if retired \<noteq> None then 1 else 0, m2))
           else (-1, m1)
      else (-1, m))"

definition devmgr_getdevice_ref :: "int \<Rightarrow> 'x devmgr \<Rightarrow> 'x devmgr_generic option \<times> 'x devmgr" where
  "devmgr_getdevice_ref i m =
     (if dev_slot i m \<noteq> None then
        let (ok, refs) = devmgr_lifecycle_get (ds_state (dev_status i m)) (ds_refs (dev_status i m))
        in if ok then (dev_slot i m, upd_status i (ds_refs_update (\<lambda>_. refs)) m) else (None, m)
      else (None, m))"

definition devmgr_claimdevice_ref :: "int \<Rightarrow> 'x devmgr \<Rightarrow> 'x devmgr_generic option \<times> 'x devmgr" where
  "devmgr_claimdevice_ref i m =
     (if dev_slot i m \<noteq> None \<and> ds_locked (dev_status i m) = 0 then
        let (ok, refs) = devmgr_lifecycle_get (ds_state (dev_status i m)) (ds_refs (dev_status i m))
        in if ok then (dev_slot i m, upd_status i (\<lambda>s. s\<lparr>ds_refs := refs, ds_locked := 1\<rparr>) m) else (None, m)
      else (None, m))"

definition same_addr :: "'x devmgr_generic \<Rightarrow> 'x devmgr_generic option \<Rightarrow> bool" where
  "same_addr b x = (case x of None \<Rightarrow> False | Some c \<Rightarrow> dv_addr c = dv_addr b)"

definition devmgr_putdevice :: "'x devmgr_generic option \<Rightarrow> 'x devmgr \<Rightarrow> bool \<times> 'x devmgr" where
  "devmgr_putdevice dev m =
     (case dev of None \<Rightarrow> (True, m)
      | Some b \<Rightarrow>
          (if same_addr b (dev_slot (dv_id b) m) then
             let i = dv_id b;
                 (ok, refs) = devmgr_lifecycle_put (ds_refs (dev_status i m));
                 m1 = upd_status i (ds_refs_update (\<lambda>_. refs)) m
             in (ok, snd (devmgr_retire_locked i m1))
           else (True, m)))"

text \<open>
  Registration copies the descriptor to fresh memory at \<open>addr\<close>, the answer of the allocator. The
  comparison of the size is unsigned.
\<close>

definition devmgr_register :: "'x devmgr_generic \<Rightarrow> nat option \<Rightarrow> 'x devmgr \<Rightarrow> int \<times> 'x devmgr" where
  "devmgr_register d addr m =
     (if 0 \<le> dv_size d \<and> dv_size d < SIZEOF_DEVMGR_GENERIC then (-1, m)
      else if devmgr_finddevice_locked (dv_name d) m \<noteq> -1 then (-1, m)
      else case addr of None \<Rightarrow> (-1, m)
      | Some a \<Rightarrow>
          (case find (\<lambda>i. devmgr_devlist m ! i = None) [0..<MAXDEVICES] of
             None \<Rightarrow> (-1, m)
           | Some n \<Rightarrow>
               let b = d\<lparr>dv_addr := a, dv_id := int n\<rparr>
               in (int n, upd_status (int n) (\<lambda>s. s\<lparr>ds_refs := 0, ds_locked := 0, ds_generation := ds_generation s + 1,
                                                  ds_state := DEVMGR_STATE_LIVE\<rparr>) (set_slot (int n) (Some b) m))))"

definition devmgr_setlock :: "int \<Rightarrow> int \<Rightarrow> 'x devmgr \<Rightarrow> int \<times> 'x devmgr" where
  "devmgr_setlock i val m =
     (if dev_slot i m \<noteq> None then (1, upd_status i (ds_locked_update (\<lambda>_. val)) m) else (-1, m))"

definition devmgr_getlock :: "int \<Rightarrow> 'x devmgr \<Rightarrow> int" where
  "devmgr_getlock i m = (if dev_slot i m \<noteq> None then ds_locked (dev_status i m) else -1)"

definition devmgr_get_generation :: "int \<Rightarrow> 'x devmgr \<Rightarrow> u32" where
  "devmgr_get_generation i m = (if dev_slot i m \<noteq> None then ds_generation (dev_status i m) else 0)"

definition devmgr_finddevice :: "string \<Rightarrow> 'x devmgr \<Rightarrow> int" where
  "devmgr_finddevice name m = devmgr_finddevice_locked name m"

text \<open>
  The lookup without a reference answers \<open>None\<close> for the pointer \<open>-1\<close> and \<open>Some None\<close> for the null pointer of a
  free slot. \<^verbatim>\<open>devmgr_getname\<close> compares with \<open>-1\<close> only, so that it reads through a null pointer for a free slot,
  which is \<open>None\<close> here.
\<close>

definition devmgr_getdevice :: "int \<Rightarrow> 'x devmgr \<Rightarrow> 'x devmgr_generic option option" where
  "devmgr_getdevice i m = (if i = -1 then None else if 0 \<le> i \<and> i < int MAXDEVICES then Some (devmgr_devlist m ! nat i) else None)"

definition devmgr_getname :: "int \<Rightarrow> 'x devmgr \<Rightarrow> string option" where
  "devmgr_getname i m = (case devmgr_getdevice i m of None \<Rightarrow> Some ''unknown'' | Some p \<Rightarrow> map_option dv_name p)"

definition devmgr_getdevicebyname :: "string \<Rightarrow> 'x devmgr \<Rightarrow> 'x devmgr_generic option option" where
  "devmgr_getdevicebyname name m = devmgr_getdevice (devmgr_finddevice name m) m"

definition devmgr_identify :: "int \<Rightarrow> string" where
  "devmgr_identify ty =
     (if ty = 0 then ''Unknown'' else if ty = 1 then ''Filesystem'' else if ty = 2 then ''Device Driver''
      else if ty = 3 then ''Extension'' else if ty = DEVMGR_BLOCK then ''Block device'' else if ty = 5 \<or> ty = 6 then ''Kernel Service''
      else if ty = 8 then ''port manager'' else if ty = 9 then ''I/O manager'' else if ty = 10 then ''memory manager''
      else if ty = 11 then ''process manager'' else if ty = 7 then ''character device''
      else if ty \<ge> 1000 then ''Kernel Extension'' else ''Unknown'')"

text \<open>
  \<^verbatim>\<open>devmgr_flushblocks\<close> takes a reference on every live block device, then calls each driver's
  \<^verbatim>\<open>flush_device\<close> and gives the reference back. The first negative answer is the result. The driver
  is the argument \<open>fl\<close>, \<open>None\<close> when it has no such entry.
\<close>

definition flush_snapshot :: "'x devmgr \<Rightarrow> 'x devmgr_generic list \<times> 'x devmgr" where
  "flush_snapshot m =
     fold (\<lambda>i (bs, m). case dev_slot (int i) m of None \<Rightarrow> (bs, m)
             | Some b \<Rightarrow> if dv_type b = DEVMGR_BLOCK
                 then (case devmgr_getdevice_ref (int i) m of (None, m') \<Rightarrow> (bs, m') | (Some c, m') \<Rightarrow> (bs @ [c], m'))
                 else (bs, m)) [0..<MAXDEVICES] ([], m)"

fun flush_each :: "('x devmgr_generic \<Rightarrow> ('s \<Rightarrow> int \<times> 's) option) \<Rightarrow> 'x devmgr_generic list \<Rightarrow> int \<Rightarrow> 'x devmgr \<Rightarrow> 's \<Rightarrow> int \<times> 'x devmgr \<times> 's" where
  "flush_each fl [] err m w = (err, m, w)"
| "flush_each fl (b # bs) err m w =
     (let (result, w') = (case fl b of None \<Rightarrow> (0, w) | Some f \<Rightarrow> f w)
      in flush_each fl bs (if result < 0 \<and> err = 0 then result else err) (snd (devmgr_putdevice (Some b) m)) w')"

definition devmgr_flushblocks :: "('x devmgr_generic \<Rightarrow> ('s \<Rightarrow> int \<times> 's) option) \<Rightarrow> 'x devmgr \<Rightarrow> 's \<Rightarrow> int \<times> 'x devmgr \<times> 's" where
  "devmgr_flushblocks fl m w = (let (bs, m1) = flush_snapshot m in flush_each fl bs 0 m1 w)"

section \<open>Handles and counts\<close>

text \<open>
  \<open>dreach m h\<close>: the registry \<open>m\<close> is reachable while callers have the handles \<open>h\<close>, one entry for each
  reference that was taken and not given back. A caller gives back only what it has.
\<close>

inductive dreach :: "'x devmgr \<Rightarrow> 'x devmgr_generic list \<Rightarrow> bool" where
  init: "dreach devmgr_empty []"
| register: "dreach m h \<Longrightarrow> dreach (snd (devmgr_register d addr m)) h"
| remove: "dreach m h \<Longrightarrow> dreach (snd (devmgr_removedevice i m)) h"
| quiesce: "dreach m h \<Longrightarrow> dreach (snd (devmgr_quiesce_device i m)) h"
| setlock: "dreach m h \<Longrightarrow> dreach (snd (devmgr_setlock i v m)) h"
| get: "dreach m h \<Longrightarrow> devmgr_getdevice_ref i m = (Some b, m') \<Longrightarrow> dreach m' (b # h)"
| claim: "dreach m h \<Longrightarrow> devmgr_claimdevice_ref i m = (Some b, m') \<Longrightarrow> dreach m' (b # h)"
| put: "dreach m h \<Longrightarrow> b \<in> set h \<Longrightarrow> dreach (snd (devmgr_putdevice (Some b) m)) (remove1 b h)"

text \<open>What holds of one slot: \<open>n\<close> is the number of handles on the device in it.\<close>

definition slot_ok :: "nat \<Rightarrow> 'x devmgr_generic \<Rightarrow> devmgr_status \<Rightarrow> nat \<Rightarrow> bool" where
  "slot_ok i b st n \<longleftrightarrow> dv_id b = int i \<and> unat (ds_refs st) = n \<and>
     (ds_state st = DEVMGR_STATE_LIVE \<or> ds_state st = DEVMGR_STATE_QUIESCING \<and> n > 0)"

definition dm_inv :: "'x devmgr \<Rightarrow> 'x devmgr_generic list \<Rightarrow> bool" where
  "dm_inv m h \<longleftrightarrow> length (devmgr_devlist m) = MAXDEVICES \<and> length (devmgr_statuslist m) = MAXDEVICES \<and>
     (\<forall>i < MAXDEVICES. \<forall>b. devmgr_devlist m ! i = Some b \<longrightarrow> slot_ok i b (devmgr_statuslist m ! i) (count_list h b)) \<and>
     (\<forall>b \<in> set h. dev_slot (dv_id b) m = Some b)"

text \<open>Two live devices never have the same name.\<close>

definition names_ok :: "'x devmgr \<Rightarrow> bool" where
  "names_ok m \<longleftrightarrow> (\<forall>i < MAXDEVICES. \<forall>j < MAXDEVICES. \<forall>a b.
     devmgr_devlist m ! i = Some a \<longrightarrow> devmgr_devlist m ! j = Some b \<longrightarrow>
     ds_state (devmgr_statuslist m ! i) = DEVMGR_STATE_LIVE \<longrightarrow> ds_state (devmgr_statuslist m ! j) = DEVMGR_STATE_LIVE \<longrightarrow>
     dv_name a = dv_name b \<longrightarrow> i = j)"

lemma u32_Suc: "(x :: u32) \<noteq> NOT 0 \<Longrightarrow> unat (x + 1) = Suc (unat x)"
proof -
  assume "x \<noteq> NOT 0"
  then have "1 + x \<noteq> 0" by (metis add_eq_0_iff bit.compl_zero)
  then show ?thesis using unatSuc [of x] by (simp add: add.commute)
qed

lemma u32_pred: "(x :: u32) \<noteq> 0 \<Longrightarrow> unat (x - 1) = unat x - 1"
  by (metis diff_add_cancel diff_Suc_1 add.commute unatSuc)

lemmas dm_defs = dev_slot_def set_slot_def upd_status_def

lemma dev_slot_upd [simp]: "dev_slot i (upd_status j f m) = dev_slot i m"
  by (simp add: dev_slot_def upd_status_def)

lemma dev_slot_Some:
  assumes "dev_slot i m = Some b"
  obtains k where "i = int k" "k < MAXDEVICES" "devmgr_devlist m ! k = Some b"
proof -
  have "i = int (nat i)" "nat i < MAXDEVICES" "devmgr_devlist m ! nat i = Some b"
    using assms by (auto simp: dev_slot_def split: if_splits)
  then show thesis by (rule that)
qed

text \<open>A step that rewrites the status of one occupied slot.\<close>

lemma dm_inv_upd:
  assumes inv: "dm_inv m h" and k: "k < MAXDEVICES" and b: "devmgr_devlist m ! k = Some b"
    and ok: "slot_ok k b (f (devmgr_statuslist m ! k)) (count_list h' b)"
    and h': "\<And>c. c \<noteq> b \<Longrightarrow> count_list h' c = count_list h c"
  shows "dm_inv (upd_status (int k) f m) h'"
proof -
  have "slot_ok i c ((devmgr_statuslist m)[k := f (devmgr_statuslist m ! k)] ! i) (count_list h' c)"
    if i: "i < MAXDEVICES" and c: "devmgr_devlist m ! i = Some c" for i c
  proof (cases "i = k")
    case True
    then show ?thesis using ok b c inv k by (simp add: dm_inv_def)
  next
    case False
    have "dv_id c = int i" "dv_id b = int k" using inv i c k b by (auto simp: dm_inv_def slot_ok_def)
    with False have "c \<noteq> b" by auto
    then show ?thesis using False inv i c by (simp add: dm_inv_def h')
  qed
  moreover have "dev_slot (dv_id c) m = Some c" if "c \<in> set h'" for c
  proof (cases "c = b")
    case True
    have "dv_id b = int k" using inv k b by (auto simp: dm_inv_def slot_ok_def)
    then show ?thesis using True k b by (simp add: dev_slot_def)
  next
    case False
    then have "count_list h c > 0" using h' [of c] that by (metis count_list_0_iff neq0_conv)
    then have "c \<in> set h" by (metis count_notin neq0_conv)
    then show ?thesis using inv by (simp add: dm_inv_def)
  qed
  moreover have "devmgr_devlist (upd_status (int k) f m) = devmgr_devlist m"
    "devmgr_statuslist (upd_status (int k) f m) = (devmgr_statuslist m)[k := f (devmgr_statuslist m ! k)]"
    by (simp_all add: upd_status_def)
  ultimately show ?thesis using inv by (simp add: dm_inv_def)
qed

text \<open>A step that empties a slot nobody refers to.\<close>

lemma dm_inv_retire:
  assumes len: "length (devmgr_devlist m) = MAXDEVICES" "length (devmgr_statuslist m) = MAXDEVICES"
    and k: "k < MAXDEVICES" and b: "devmgr_devlist m ! k = Some b" and cnt: "b \<notin> set h"
    and others: "\<And>i c. i < MAXDEVICES \<Longrightarrow> i \<noteq> k \<Longrightarrow> devmgr_devlist m ! i = Some c \<Longrightarrow> slot_ok i c (devmgr_statuslist m ! i) (count_list h c)"
    and held: "\<And>c. c \<in> set h \<Longrightarrow> dev_slot (dv_id c) m = Some c"
  shows "dm_inv (upd_status (int k) f (set_slot (int k) None m)) h"
proof -
  have "dev_slot (dv_id c) (upd_status (int k) f (set_slot (int k) None m)) = Some c" if c: "c \<in> set h" for c
  proof -
    obtain j where j: "dv_id c = int j" "j < MAXDEVICES" "devmgr_devlist m ! j = Some c"
      using dev_slot_Some [OF held [OF c]] .
    with b cnt c have "j \<noteq> k" by auto
    with j show ?thesis using len by (simp add: dm_defs)
  qed
  then show ?thesis using len k others by (auto simp: dm_inv_def dm_defs nth_list_update)
qed

text \<open>
  The end of every operation that lowers a count or a state: afterwards a slot that is being
  removed and has no user is empty.
\<close>

lemma retire_inv:
  assumes len: "length (devmgr_devlist m) = MAXDEVICES" "length (devmgr_statuslist m) = MAXDEVICES"
    and k: "k < MAXDEVICES" and b: "devmgr_devlist m ! k = Some b"
    and id: "dv_id b = int k" and refs: "unat (ds_refs (devmgr_statuslist m ! k)) = count_list h b"
    and st: "ds_state (devmgr_statuslist m ! k) \<in> {DEVMGR_STATE_LIVE, DEVMGR_STATE_QUIESCING}"
    and others: "\<And>i c. i < MAXDEVICES \<Longrightarrow> i \<noteq> k \<Longrightarrow> devmgr_devlist m ! i = Some c \<Longrightarrow> slot_ok i c (devmgr_statuslist m ! i) (count_list h c)"
    and held: "\<And>c. c \<in> set h \<Longrightarrow> dev_slot (dv_id c) m = Some c"
  shows "dm_inv (snd (devmgr_retire_locked (int k) m)) h"
proof (cases "devmgr_lifecycle_can_retire (ds_state (devmgr_statuslist m ! k)) (ds_refs (devmgr_statuslist m ! k))")
  case True
  then have "count_list h b = 0" using refs by (simp add: devmgr_lifecycle_can_retire_def)
  then have b0: "b \<notin> set h" by (simp add: count_list_0_iff)
  have "dm_inv (upd_status (int k) (ds_state_update (\<lambda>_. DEVMGR_STATE_DEAD)) (set_slot (int k) None m)) h"
    by (rule dm_inv_retire [OF len k b b0]) (fact others held)+
  then show ?thesis using True by (simp add: devmgr_retire_locked_def)
next
  case False
  have "slot_ok k b (devmgr_statuslist m ! k) (count_list h b)"
    using False id refs st by (auto simp: slot_ok_def devmgr_lifecycle_can_retire_def unat_gt_0 simp flip: refs)
  then have "slot_ok i c (devmgr_statuslist m ! i) (count_list h c)" if "i < MAXDEVICES" "devmgr_devlist m ! i = Some c" for i c
    using others [OF that(1) _ that(2)] b that by (cases "i = k") auto
  then show ?thesis using False len held by (simp add: devmgr_retire_locked_def dm_inv_def)
qed

lemma slot_inv:
  assumes "dm_inv m h" "dev_slot i m = Some b"
  obtains k where "i = int k" "k < MAXDEVICES" "devmgr_devlist m ! k = Some b"
    "slot_ok k b (devmgr_statuslist m ! k) (count_list h b)"
  using assms by (auto simp: dm_inv_def elim: dev_slot_Some)

lemma upd_retire_inv:
  assumes inv: "dm_inv m h" and k: "k < MAXDEVICES" and b: "devmgr_devlist m ! k = Some b"
    and refs: "unat (ds_refs (f (devmgr_statuslist m ! k))) = count_list h' b"
    and st: "ds_state (f (devmgr_statuslist m ! k)) \<in> {DEVMGR_STATE_LIVE, DEVMGR_STATE_QUIESCING}"
    and h': "\<And>c. c \<noteq> b \<Longrightarrow> count_list h' c = count_list h c" and sub: "set h' \<subseteq> set h"
  shows "dm_inv (snd (devmgr_retire_locked (int k) (upd_status (int k) f m))) h'"
proof (rule retire_inv)
  have dev: "devmgr_devlist (upd_status (int k) f m) = devmgr_devlist m"
    "devmgr_statuslist (upd_status (int k) f m) = (devmgr_statuslist m)[k := f (devmgr_statuslist m ! k)]"
    by (simp_all add: upd_status_def)
  have len: "length (devmgr_devlist m) = MAXDEVICES" "length (devmgr_statuslist m) = MAXDEVICES" using inv by (auto simp: dm_inv_def)
  show "dv_id b = int k" using inv k b by (auto simp: dm_inv_def slot_ok_def)
  then have id: "c \<noteq> b" if "i < MAXDEVICES" "i \<noteq> k" "devmgr_devlist m ! i = Some c" for i c
    using inv that by (auto simp: dm_inv_def slot_ok_def)
  show "slot_ok i c (devmgr_statuslist (upd_status (int k) f m) ! i) (count_list h' c)"
    if "i < MAXDEVICES" "i \<noteq> k" "devmgr_devlist (upd_status (int k) f m) ! i = Some c" for i c
    using that inv id [of i c] by (simp add: dm_inv_def h' dev)
  show "dev_slot (dv_id c) (upd_status (int k) f m) = Some c" if "c \<in> set h'" for c
    using that inv sub by (auto simp: dm_inv_def)
qed (use assms in \<open>auto simp: dm_inv_def upd_status_def\<close>)

lemma get_inv:
  assumes inv: "dm_inv m h" and get: "devmgr_getdevice_ref i m = (Some b, m')"
  shows "dm_inv m' (b # h)"
proof -
  have s: "dev_slot i m = Some b" using get by (auto simp: devmgr_getdevice_ref_def Let_def split: if_splits prod.splits)
  obtain k where k: "i = int k" "k < MAXDEVICES" "devmgr_devlist m ! k = Some b"
    "slot_ok k b (devmgr_statuslist m ! k) (count_list h b)" using slot_inv [OF inv s] .
  let ?st = "devmgr_statuslist m ! k"
  have g: "ds_state ?st = DEVMGR_STATE_LIVE" "ds_refs ?st \<noteq> NOT 0" "m' = upd_status (int k) (ds_refs_update (\<lambda>_. ds_refs ?st + 1)) m"
    using get s k(1) by (auto simp: devmgr_getdevice_ref_def devmgr_lifecycle_get_def Let_def split: if_splits)
  have "unat (ds_refs ?st + 1) = Suc (unat (ds_refs ?st))" using g(2) by (simp add: u32_Suc)
  then show ?thesis unfolding g(3) using inv k g(1) by (intro dm_inv_upd [of m h]) (auto simp: slot_ok_def)
qed

lemma claim_inv:
  assumes inv: "dm_inv m h" and get: "devmgr_claimdevice_ref i m = (Some b, m')"
  shows "dm_inv m' (b # h)"
proof -
  have s: "dev_slot i m = Some b" using get by (auto simp: devmgr_claimdevice_ref_def Let_def split: if_splits prod.splits)
  obtain k where k: "i = int k" "k < MAXDEVICES" "devmgr_devlist m ! k = Some b"
    "slot_ok k b (devmgr_statuslist m ! k) (count_list h b)" using slot_inv [OF inv s] .
  let ?st = "devmgr_statuslist m ! k"
  have g: "ds_state ?st = DEVMGR_STATE_LIVE" "ds_refs ?st \<noteq> NOT 0"
      "m' = upd_status (int k) (\<lambda>s. s\<lparr>ds_refs := ds_refs ?st + 1, ds_locked := 1\<rparr>) m"
    using get s k(1) by (auto simp: devmgr_claimdevice_ref_def devmgr_lifecycle_get_def Let_def split: if_splits)
  have "unat (ds_refs ?st + 1) = Suc (unat (ds_refs ?st))" using g(2) by (simp add: u32_Suc)
  then show ?thesis unfolding g(3) using inv k g(1) by (intro dm_inv_upd [of m h]) (auto simp: slot_ok_def)
qed

text \<open>Giving back a handle finds the device and never reports an underflow.\<close>

lemma put_inv:
  assumes inv: "dm_inv m h" and b: "b \<in> set h"
  shows "fst (devmgr_putdevice (Some b) m)" and "dm_inv (snd (devmgr_putdevice (Some b) m)) (remove1 b h)"
proof -
  have s: "dev_slot (dv_id b) m = Some b" using inv b by (simp add: dm_inv_def)
  obtain k where k: "dv_id b = int k" "k < MAXDEVICES" "devmgr_devlist m ! k = Some b"
    "slot_ok k b (devmgr_statuslist m ! k) (count_list h b)" using slot_inv [OF inv s] .
  let ?st = "devmgr_statuslist m ! k"
  have cnt: "count_list h b > 0" using b by (metis count_list_0_iff neq0_conv)
  then have r: "ds_refs ?st \<noteq> 0" using k(4) by (auto simp: slot_ok_def)
  have e: "devmgr_putdevice (Some b) m = (True, snd (devmgr_retire_locked (int k) (upd_status (int k) (ds_refs_update (\<lambda>_. ds_refs ?st - 1)) m)))"
    using s k(1) r by (simp add: devmgr_putdevice_def same_addr_def devmgr_lifecycle_put_def Let_def)
  then show "fst (devmgr_putdevice (Some b) m)" by simp
  have c: "count_list (remove1 b h) c = (if c = b then count_list h b - 1 else count_list h c)" for c
    by (induction h) auto
  show "dm_inv (snd (devmgr_putdevice (Some b) m)) (remove1 b h)"
    unfolding e snd_conv
  proof (rule upd_retire_inv [OF inv k(2,3)])
    show "unat (ds_refs ((ds_refs_update (\<lambda>_. ds_refs ?st - 1)) ?st)) = count_list (remove1 b h) b"
      using k(4) r by (simp add: c slot_ok_def u32_pred)
    show "set (remove1 b h) \<subseteq> set h" by (rule set_remove1_subset)
  qed (use k(4) in \<open>auto simp: c slot_ok_def\<close>)
qed

lemma remove_inv:
  assumes inv: "dm_inv m h" shows "dm_inv (snd (devmgr_removedevice i m)) h"
proof (cases "dev_slot i m")
  case None then show ?thesis using inv by (simp add: devmgr_removedevice_def)
next
  case (Some b)
  obtain k where k: "i = int k" "k < MAXDEVICES" "devmgr_devlist m ! k = Some b"
    "slot_ok k b (devmgr_statuslist m ! k) (count_list h b)" using slot_inv [OF inv Some] .
  let ?st = "devmgr_statuslist m ! k"
  have a: "dm_inv (snd (devmgr_retire_locked (int k) (upd_status (int k) f m))) h"
    if "unat (ds_refs (f ?st)) = unat (ds_refs ?st)" "ds_state (f ?st) = DEVMGR_STATE_QUIESCING" for f
    using that k(4) by (intro upd_retire_inv [OF inv k(2,3)]) (auto simp: slot_ok_def)
  have idu: "upd_status (int k) (\<lambda>s. s) m = m" by (simp add: upd_status_def)
  show ?thesis using inv Some k a [of "ds_state_update (\<lambda>_. DEVMGR_STATE_QUIESCING)"] a [of "\<lambda>s. s"]
    by (auto simp: devmgr_removedevice_def Let_def slot_ok_def idu split: prod.splits)
qed

lemma quiesce_inv:
  assumes inv: "dm_inv m h" shows "dm_inv (snd (devmgr_quiesce_device i m)) h"
proof (cases "dev_slot i m")
  case None then show ?thesis using inv by (simp add: devmgr_quiesce_device_def)
next
  case (Some b)
  obtain k where k: "i = int k" "k < MAXDEVICES" "devmgr_devlist m ! k = Some b"
    "slot_ok k b (devmgr_statuslist m ! k) (count_list h b)" using slot_inv [OF inv Some] .
  let ?st = "devmgr_statuslist m ! k"
  have "dm_inv (snd (devmgr_retire_locked (int k) (upd_status (int k) (ds_state_update (\<lambda>_. DEVMGR_STATE_QUIESCING)) m))) h"
    using k(4) by (intro upd_retire_inv [OF inv k(2,3)]) (auto simp: slot_ok_def)
  then show ?thesis using Some k
    by (auto simp: devmgr_quiesce_device_def devmgr_lifecycle_quiesce_def Let_def slot_ok_def split: prod.splits)
qed

lemma setlock_inv:
  assumes inv: "dm_inv m h" shows "dm_inv (snd (devmgr_setlock i v m)) h"
proof (cases "dev_slot i m")
  case None then show ?thesis using inv by (simp add: devmgr_setlock_def)
next
  case (Some b)
  obtain k where k: "i = int k" "k < MAXDEVICES" "devmgr_devlist m ! k = Some b"
    "slot_ok k b (devmgr_statuslist m ! k) (count_list h b)" using slot_inv [OF inv Some] .
  then show ?thesis using Some by (auto simp: devmgr_setlock_def slot_ok_def intro!: dm_inv_upd [OF inv])
qed

lemma register_inv:
  assumes inv: "dm_inv m h" shows "dm_inv (snd (devmgr_register d addr m)) h"
proof (cases "snd (devmgr_register d addr m) = m")
  case True then show ?thesis using inv by simp
next
  case False
  then obtain a n where n: "find (\<lambda>i. devmgr_devlist m ! i = None) [0..<MAXDEVICES] = Some n"
    and e: "snd (devmgr_register d addr m) = upd_status (int n) (\<lambda>s. s\<lparr>ds_refs := 0, ds_locked := 0, ds_generation := ds_generation s + 1,
                 ds_state := DEVMGR_STATE_LIVE\<rparr>) (set_slot (int n) (Some (d\<lparr>dv_addr := a, dv_id := int n\<rparr>)) m)"
    by (auto simp: devmgr_register_def Let_def split: if_splits option.splits)
  have f: "n < MAXDEVICES" "devmgr_devlist m ! n = None" using n by (auto simp: find_Some_iff)
  have held: "dv_id c \<noteq> int n" if "c \<in> set h" for c
    using inv that f by (auto simp: dm_inv_def dev_slot_def split: if_splits)
  let ?b = "d\<lparr>dv_addr := a, dv_id := int n\<rparr>" and ?m = "snd (devmgr_register d addr m)"
  have dev: "devmgr_devlist ?m = (devmgr_devlist m)[n := Some ?b]"
    and stat: "devmgr_statuslist ?m ! i = (if i = n then (devmgr_statuslist m ! n)\<lparr>ds_refs := 0, ds_locked := 0,
        ds_generation := ds_generation (devmgr_statuslist m ! n) + 1, ds_state := DEVMGR_STATE_LIVE\<rparr> else devmgr_statuslist m ! i)" for i
    using inv f(1) by (simp_all add: e upd_status_def set_slot_def dm_inv_def)
  have cnt: "count_list h ?b = 0" using held by (force simp: count_list_0_iff)
  have "slot_ok i c (devmgr_statuslist ?m ! i) (count_list h c)" if "i < MAXDEVICES" "devmgr_devlist ?m ! i = Some c" for i c
  proof (cases "i = n")
    case True
    then have "c = ?b" using that inv by (simp add: dev dm_inv_def)
    then show ?thesis using True cnt by (simp add: stat slot_ok_def)
  next
    case False
    then show ?thesis using that inv by (simp add: dev stat dm_inv_def)
  qed
  moreover have "dev_slot (dv_id c) ?m = Some c" if "c \<in> set h" for c
  proof -
    have "dev_slot (dv_id c) ?m = dev_slot (dv_id c) m"
      using held [OF that] by (cases "0 \<le> dv_id c") (auto simp: dev_slot_def dev nth_list_update)
    then show ?thesis using inv that by (simp add: dm_inv_def)
  qed
  moreover have "length (devmgr_devlist ?m) = MAXDEVICES" "length (devmgr_statuslist ?m) = MAXDEVICES"
    using inv by (simp_all add: e upd_status_def set_slot_def dm_inv_def)
  ultimately show ?thesis by (simp add: dm_inv_def)
qed

lemma dreach_inv: "dreach m h \<Longrightarrow> dm_inv m h"
proof (induction rule: dreach.induct)
  case init
  show ?case by (simp add: dm_inv_def devmgr_empty_def)
qed (auto intro: register_inv remove_inv quiesce_inv setlock_inv get_inv claim_inv put_inv)

section \<open>Names\<close>

definition live_name :: "'x devmgr \<Rightarrow> nat \<Rightarrow> string option" where
  "live_name m i = (case devmgr_devlist m ! i of None \<Rightarrow> None
     | Some b \<Rightarrow> if ds_state (devmgr_statuslist m ! i) = DEVMGR_STATE_LIVE then Some (dv_name b) else None)"

lemma names_ok_alt:
  "names_ok m \<longleftrightarrow> (\<forall>i < MAXDEVICES. \<forall>j < MAXDEVICES. live_name m i \<noteq> None \<longrightarrow> live_name m i = live_name m j \<longrightarrow> i = j)"
proof
  assume *: "names_ok m"
  show "\<forall>i < MAXDEVICES. \<forall>j < MAXDEVICES. live_name m i \<noteq> None \<longrightarrow> live_name m i = live_name m j \<longrightarrow> i = j"
  proof (intro allI impI)
    fix i j assume "i < MAXDEVICES" "j < MAXDEVICES" "live_name m i \<noteq> None" "live_name m i = live_name m j"
    then show "i = j" using * unfolding names_ok_def live_name_def by (auto split: option.splits if_splits)
  qed
qed (force simp: names_ok_def live_name_def)

text \<open>No step but registration makes a name live.\<close>

definition no_new_name :: "'x devmgr \<Rightarrow> 'x devmgr \<Rightarrow> bool" where
  "no_new_name m m' \<longleftrightarrow> (\<forall>i < MAXDEVICES. live_name m' i \<noteq> None \<longrightarrow> live_name m' i = live_name m i)"

lemma no_new_name_ok: "no_new_name m m' \<Longrightarrow> names_ok m \<Longrightarrow> names_ok m'"
  unfolding names_ok_alt no_new_name_def by metis

lemma no_new_name_refl [simp]: "no_new_name m m" by (simp add: no_new_name_def)

lemma no_new_name_trans: "no_new_name a b \<Longrightarrow> no_new_name b c \<Longrightarrow> no_new_name a c"
  unfolding no_new_name_def by metis

lemma nth_update_if: "xs[i := x] ! j = (if i = j \<and> j < length xs then x else xs ! j)"
  by (cases "i = j") (auto simp: list_update_beyond)

lemma no_new_name_upd:
  assumes "ds_state (f (dev_status i m)) = DEVMGR_STATE_LIVE \<Longrightarrow> ds_state (dev_status i m) = DEVMGR_STATE_LIVE"
  shows "no_new_name m (upd_status i f m)"
  using assms unfolding no_new_name_def live_name_def upd_status_def
  by (auto simp: nth_update_if split: option.splits if_splits)

lemma no_new_name_retire: "no_new_name m (snd (devmgr_retire_locked i m))"
proof -
  have "no_new_name m (set_slot i None m)"
    unfolding no_new_name_def live_name_def set_slot_def by (auto simp: nth_update_if split: option.splits if_splits)
  moreover have "no_new_name (set_slot i None m) (upd_status i (ds_state_update (\<lambda>_. DEVMGR_STATE_DEAD)) (set_slot i None m))"
    by (rule no_new_name_upd) simp
  ultimately show ?thesis by (auto simp: devmgr_retire_locked_def intro: no_new_name_trans)
qed

lemmas no_new_name_intros = no_new_name_upd no_new_name_trans [OF no_new_name_upd no_new_name_retire] no_new_name_retire

lemma no_new_name_steps:
  "no_new_name m (snd (devmgr_removedevice i m))" "no_new_name m (snd (devmgr_quiesce_device i m))"
  "no_new_name m (snd (devmgr_setlock i v m))" "no_new_name m (snd (devmgr_getdevice_ref i m))"
  "no_new_name m (snd (devmgr_claimdevice_ref i m))" "no_new_name m (snd (devmgr_putdevice dev m))"
proof -
  show "no_new_name m (snd (devmgr_removedevice i m))"
    by (auto simp: devmgr_removedevice_def Let_def case_prod_beta intro!: no_new_name_intros)
  show "no_new_name m (snd (devmgr_quiesce_device i m))"
    by (auto simp: devmgr_quiesce_device_def devmgr_lifecycle_quiesce_def Let_def case_prod_beta intro!: no_new_name_intros)
  show "no_new_name m (snd (devmgr_setlock i v m))"
    by (auto simp: devmgr_setlock_def intro!: no_new_name_intros)
  show "no_new_name m (snd (devmgr_getdevice_ref i m))"
    by (auto simp: devmgr_getdevice_ref_def devmgr_lifecycle_get_def Let_def intro!: no_new_name_intros)
  show "no_new_name m (snd (devmgr_claimdevice_ref i m))"
    by (auto simp: devmgr_claimdevice_ref_def devmgr_lifecycle_get_def Let_def intro!: no_new_name_intros)
  show "no_new_name m (snd (devmgr_putdevice dev m))"
    by (auto simp: devmgr_putdevice_def Let_def case_prod_beta split: option.split intro!: no_new_name_intros)
qed

lemma register_names:
  assumes inv: "dm_inv m h" and ok: "names_ok m" shows "names_ok (snd (devmgr_register d addr m))"
proof (cases "snd (devmgr_register d addr m) = m")
  case True then show ?thesis using ok by simp
next
  case False
  then obtain a n where n: "find (\<lambda>i. devmgr_devlist m ! i = None) [0..<MAXDEVICES] = Some n"
    and new: "devmgr_finddevice_locked (dv_name d) m = -1"
    and e: "snd (devmgr_register d addr m) = upd_status (int n) (\<lambda>s. s\<lparr>ds_refs := 0, ds_locked := 0, ds_generation := ds_generation s + 1,
                 ds_state := DEVMGR_STATE_LIVE\<rparr>) (set_slot (int n) (Some (d\<lparr>dv_addr := a, dv_id := int n\<rparr>)) m)"
    by (auto simp: devmgr_register_def Let_def split: if_splits option.splits)
  have f: "n < MAXDEVICES" using n by (auto simp: find_Some_iff)
  have l: "live_name (snd (devmgr_register d addr m)) i = (if i = n then Some (dv_name d) else live_name m i)" for i
    using inv f by (simp add: e live_name_def upd_status_def set_slot_def dm_inv_def split: option.split)
  have "live_name m i \<noteq> Some (dv_name d)" if "i < MAXDEVICES" for i
    using new that by (auto simp: devmgr_finddevice_locked_def live_name_def find_None_iff split: option.splits if_splits)
  then show ?thesis using ok unfolding names_ok_alt l by (metis option.distinct(1))
qed

lemma dreach_names: "dreach m h \<Longrightarrow> names_ok m"
proof (induction rule: dreach.induct)
  case init
  show ?case by (simp add: names_ok_def devmgr_empty_def)
next
  case (register m h d addr)
  then show ?case by (intro register_names [OF dreach_inv])
next
  case (get m h i b m')
  then show ?case using no_new_name_steps(4) [of m i] by (auto intro: no_new_name_ok)
next
  case (claim m h i b m')
  then show ?case using no_new_name_steps(5) [of m i] by (auto intro: no_new_name_ok)
qed (blast intro: no_new_name_ok no_new_name_steps)+

text \<open>C14.
  A device that somebody has a handle on is never taken out of the registry, also while its removal is pending: every
  handle refers to the device that is in its slot. The count of a slot is the number of handles, so it never
  underflows; a device whose removal is pending has a user, and it is gone when the last handle is given back. Two
  live devices have different names.
\<close>

theorem devmgr_handles_exact:
  assumes "dreach m h"
  shows "(\<forall>b \<in> set h. dev_slot (dv_id b) m = Some b \<and> fst (devmgr_putdevice (Some b) m)) \<and>
    (\<forall>i b. dev_slot i m = Some b \<longrightarrow> dv_id b = i \<and> unat (ds_refs (dev_status i m)) = count_list h b \<and>
        (ds_state (dev_status i m) = DEVMGR_STATE_LIVE \<or> ds_state (dev_status i m) = DEVMGR_STATE_QUIESCING \<and> b \<in> set h)) \<and>
    names_ok m"
proof (intro conjI allI ballI impI)
  have inv: "dm_inv m h" by (rule dreach_inv [OF assms])
  fix b assume b: "b \<in> set h"
  then show "dev_slot (dv_id b) m = Some b" using inv by (simp add: dm_inv_def)
  show "fst (devmgr_putdevice (Some b) m)" by (rule put_inv(1) [OF inv b])
next
  fix i b assume s: "dev_slot i m = Some b"
  obtain k where k: "i = int k" "slot_ok k b (devmgr_statuslist m ! k) (count_list h b)"
    using slot_inv [OF dreach_inv [OF assms] s] by blast
  then show "dv_id b = i" "unat (ds_refs (dev_status i m)) = count_list h b"
    by (auto simp: slot_ok_def)
  show "ds_state (dev_status i m) = DEVMGR_STATE_LIVE \<or> ds_state (dev_status i m) = DEVMGR_STATE_QUIESCING \<and> b \<in> set h"
    using k by (auto simp: slot_ok_def) (metis count_notin neq0_conv)
qed (rule dreach_names [OF assms])

definition demo_dev :: "unit devmgr_generic" where
  "demo_dev = \<lparr>dv_addr = 0, dv_size = 400, dv_id = 0, dv_type = DEVMGR_BLOCK, dv_name = ''hdd0'', dv_ops = ()\<rparr>"

definition demo_registered :: "unit devmgr" where
  "demo_registered = snd (devmgr_register demo_dev (Some 4096) devmgr_empty)"

definition demo_pending :: "unit devmgr" where
  "demo_pending = snd (devmgr_removedevice 0 (snd (devmgr_getdevice_ref 0 demo_registered)))"

text \<open>The first registration takes slot 0.\<close>

lemma first_register:
  fixes d :: "'x devmgr_generic"
  assumes "\<not> (0 \<le> dv_size d \<and> dv_size d < SIZEOF_DEVMGR_GENERIC)"
  shows "devmgr_register d (Some a) devmgr_empty =
    (0, upd_status 0 (\<lambda>s. s\<lparr>ds_refs := 0, ds_locked := 0, ds_generation := ds_generation s + 1, ds_state := DEVMGR_STATE_LIVE\<rparr>)
          (set_slot 0 (Some (d\<lparr>dv_addr := a, dv_id := 0\<rparr>)) devmgr_empty))"
proof -
  have "devmgr_finddevice_locked (dv_name d) (devmgr_empty :: 'x devmgr) = -1"
    by (auto simp: devmgr_finddevice_locked_def devmgr_empty_def find_None_iff split: option.splits dest!: find_Some_iff [THEN iffD1])
  moreover have "find (\<lambda>i. devmgr_devlist (devmgr_empty :: 'x devmgr) ! i = None) [0..<MAXDEVICES] = Some 0"
    by (simp add: devmgr_empty_def MAXDEVICES_def upt_conv_Cons)
  ultimately show ?thesis using assms by (simp add: devmgr_register_def)
qed

lemmas demo_steps = demo_pending_def devmgr_removedevice_def devmgr_getdevice_ref_def devmgr_lifecycle_get_def
  devmgr_putdevice_def devmgr_lifecycle_put_def devmgr_retire_locked_def devmgr_lifecycle_can_retire_def same_addr_def dm_defs devmgr_empty_def

theorem devmgr_handles_exact_witness:
  "dev_slot 0 demo_pending = Some (demo_dev\<lparr>dv_addr := 4096\<rparr>) \<and> devmgr_getdevice_ref 0 demo_pending = (None, demo_pending) \<and>
   dev_slot 0 (snd (devmgr_putdevice (Some (demo_dev\<lparr>dv_addr := 4096\<rparr>)) demo_pending)) = None"
proof -
  have reg: "demo_registered =
     upd_status 0 (\<lambda>s. s\<lparr>ds_refs := 0, ds_locked := 0, ds_generation := ds_generation s + 1, ds_state := DEVMGR_STATE_LIVE\<rparr>)
       (set_slot 0 (Some (demo_dev\<lparr>dv_addr := 4096, dv_id := 0\<rparr>)) devmgr_empty)"
    unfolding demo_registered_def by (subst first_register) (simp_all add: demo_dev_def SIZEOF_DEVMGR_GENERIC_def)
  have pos: "0 < MAXDEVICES" by (simp add: MAXDEVICES_def)
  have "dreach demo_registered []" unfolding demo_registered_def by (rule dreach.register [OF dreach.init])
  moreover have "devmgr_getdevice_ref 0 demo_registered = (Some (demo_dev\<lparr>dv_addr := 4096\<rparr>), snd (devmgr_getdevice_ref 0 demo_registered))"
    using pos by (simp add: demo_steps reg demo_dev_def)
  ultimately have "dreach demo_pending [demo_dev\<lparr>dv_addr := 4096\<rparr>]"
    unfolding demo_pending_def by (rule dreach.remove [OF dreach.get])
  then have "dev_slot (dv_id (demo_dev\<lparr>dv_addr := 4096\<rparr>)) demo_pending = Some (demo_dev\<lparr>dv_addr := 4096\<rparr>)"
    using devmgr_handles_exact [of demo_pending "[demo_dev\<lparr>dv_addr := 4096\<rparr>]"] by simp
  moreover have "devmgr_getdevice_ref 0 demo_pending = (None, demo_pending)"
    using pos by (simp add: demo_steps reg)
  moreover have "dev_slot 0 (snd (devmgr_putdevice (Some (demo_dev\<lparr>dv_addr := 4096\<rparr>)) demo_pending)) = None"
    using pos by (simp add: demo_steps reg demo_dev_def)
  ultimately show ?thesis by (simp add: demo_dev_def)
qed

text \<open>A reference that is taken and given back at once leaves the registry as it was.\<close>

lemma get_put:
  assumes "dm_inv m h" "devmgr_getdevice_ref i m = (Some b, m')"
  shows "devmgr_putdevice (Some b) m' = (True, m)"
proof -
  have s: "dev_slot i m = Some b" using assms(2) by (auto simp: devmgr_getdevice_ref_def Let_def split: if_splits prod.splits)
  obtain k where k: "i = int k" "k < MAXDEVICES" "slot_ok k b (devmgr_statuslist m ! k) (count_list h b)"
    using slot_inv [OF assms(1) s] by blast
  let ?st = "devmgr_statuslist m ! k"
  have len: "k < length (devmgr_statuslist m)" using k(2) assms(1) by (simp add: dm_inv_def)
  have g: "ds_state ?st = DEVMGR_STATE_LIVE" "ds_refs ?st \<noteq> NOT 0" "m' = upd_status (int k) (ds_refs_update (\<lambda>_. ds_refs ?st + 1)) m"
    using assms(2) s k(1) by (auto simp: devmgr_getdevice_ref_def devmgr_lifecycle_get_def Let_def split: if_splits)
  have nz: "ds_refs ?st + 1 \<noteq> 0" using u32_Suc [OF g(2)] by auto
  have id: "dv_id b = int k" using k(3) by (simp add: slot_ok_def)
  have slot: "dev_slot (int k) m' = Some b" using s k(1) g(3) by simp
  have st: "dev_status (int k) m' = ?st\<lparr>ds_refs := ds_refs ?st + 1\<rparr>" using len by (simp add: g(3) upd_status_def)
  have restored: "upd_status (int k) (ds_refs_update (\<lambda>_. ds_refs ?st)) m' = m" using len by (simp add: g(3) upd_status_def)
  have "devmgr_retire_locked (int k) m = (None, m)" using g(1) by (simp add: devmgr_retire_locked_def devmgr_lifecycle_can_retire_def)
  then show ?thesis using nz by (simp add: devmgr_putdevice_def id slot same_addr_def st devmgr_lifecycle_put_def Let_def restored del: nat_int)
qed

end
