(* ===== verification/Ramdisk.thy ===== *)
theory Ramdisk
  imports Devmgr
begin

text \<open>
  Block devices as the registry offers them (\<open>devmgr_block_desc\<close> of \<^verbatim>\<open>devmgr/dex32_devmgr.h\<close>), the contract
  that the block layer relies on, and the RAM disk of \<^verbatim>\<open>filesystem/ramdisk.c\<close>, which is shown to
  satisfy it. The state behind the drivers is one value of type \<open>'d\<close>; a driver entry is a function on it,
  absent when the pointer is null. A transfer answers an integer as in the source, positive for success.
\<close>

section \<open>Block devices\<close>

record 'd block_desc =
  bd_read_block :: "(u64 \<Rightarrow> u32 \<Rightarrow> 'd \<Rightarrow> int \<times> bytes \<times> 'd) option"
  bd_write_block :: "(u64 \<Rightarrow> bytes \<Rightarrow> u32 \<Rightarrow> 'd \<Rightarrow> int \<times> 'd) option"
  bd_get_block_size :: "int option"
  bd_total_blocks :: "u64 option"
  bd_getcache :: "(u32 \<Rightarrow> u32 \<Rightarrow> 'd \<Rightarrow> bytes option) option"
  bd_putcache :: "(bytes \<Rightarrow> u32 \<Rightarrow> u32 \<Rightarrow> 'd \<Rightarrow> bool \<times> 'd) option"
  bd_flush_device :: "('d \<Rightarrow> int \<times> 'd) option"

text \<open>The operation table of a device that is not a block device is \<open>None\<close>.\<close>

type_synonym 'd registry = "'d block_desc option devmgr"

text \<open>
  A reference is taken and given back around every use; \<open>get_put\<close> shows that the registry is then as
  before, so that only the answer of the lookup matters.
\<close>

definition dev_ref :: "'d registry \<Rightarrow> int \<Rightarrow> 'd block_desc option devmgr_generic option" where
  "dev_ref dm d = fst (devmgr_getdevice_ref d dm)"

definition dev_block :: "'d registry \<Rightarrow> int \<Rightarrow> 'd block_desc option" where
  "dev_block dm d = (case dev_ref dm d of None \<Rightarrow> None
     | Some b \<Rightarrow> if dv_type b = DEVMGR_BLOCK then dv_ops b else None)"

definition pc_valid_bsize :: "u32 \<Rightarrow> bool" where
  "pc_valid_bsize s \<longleftrightarrow> s = 512 \<or> s = 1024 \<or> s = 2048 \<or> s = 4096"

text \<open>The block size that is used for a device: what the driver says, 512 when that is not a valid size.\<close>

definition block_size :: "'d block_desc \<Rightarrow> u32" where
  "block_size ops = (case bd_get_block_size ops of None \<Rightarrow> 512
     | Some got \<Rightarrow> if pc_valid_bsize (word_of_int got) then word_of_int got else 512)"

definition byte_range :: "(nat \<Rightarrow> u8) \<Rightarrow> nat \<Rightarrow> nat \<Rightarrow> bytes" where
  "byte_range c a n = map c [a..<a + n]"

text \<open>
  The contract of the drivers. \<open>content d w\<close> are the bytes of device \<open>d\<close> in the state \<open>w\<close>. A read changes
  no content, and returns the content when it succeeds. A write touches only its own range of its own
  device, and the range holds the data when it succeeds; after a failed write the range may hold anything.
\<close>

locale block_devices =
  fixes dm :: "'d registry" and content :: "int \<Rightarrow> 'd \<Rightarrow> nat \<Rightarrow> u8" and wfd :: "'d \<Rightarrow> bool"
  assumes read_contract: "\<lbrakk>wfd w; dev_block dm d = Some ops; bd_read_block ops = Some rd; rd lba n w = (r, buf, w')\<rbrakk> \<Longrightarrow>
      wfd w' \<and> content d' w' = content d' w \<and>
      (r > 0 \<longrightarrow> buf = byte_range (content d w) (unat lba * unat (block_size ops)) (unat n * unat (block_size ops)))"
    and write_contract: "\<lbrakk>wfd w; dev_block dm d = Some ops; bd_write_block ops = Some wr; wr lba buf n w = (r, w');
        length buf = unat n * unat (block_size ops)\<rbrakk> \<Longrightarrow>
      wfd w' \<and> (d' \<noteq> d \<longrightarrow> content d' w' = content d' w) \<and>
      (a < unat lba * unat (block_size ops) \<or> unat lba * unat (block_size ops) + length buf \<le> a \<longrightarrow> content d w' a = content d w a) \<and>
      (r > 0 \<longrightarrow> byte_range (content d w') (unat lba * unat (block_size ops)) (length buf) = buf)"

section \<open>The RAM disk\<close>

definition RAMDISK_SECTORS :: u64 where [wire_defs]: "RAMDISK_SECTORS = 32768"
definition RAMDISK_SECSIZE :: u32 where [wire_defs]: "RAMDISK_SECSIZE = 512"
definition RAMDISK_BYTES :: nat where [wire_defs]: "RAMDISK_BYTES = 16777216"

type_synonym ramdisk = "bytes option"

definition ramdisk_range :: "u64 \<Rightarrow> u32 \<Rightarrow> ramdisk \<Rightarrow> bool" where
  "ramdisk_range block n data \<longleftrightarrow> data \<noteq> None \<and> \<not> sint n \<le> 0 \<and>
     \<not> (block \<ge> RAMDISK_SECTORS \<or> block + ucast n > RAMDISK_SECTORS)"

definition ramdisk_read_block :: "u64 \<Rightarrow> u32 \<Rightarrow> ramdisk \<Rightarrow> int \<times> bytes \<times> ramdisk" where
  "ramdisk_read_block block n data =
     (if \<not> ramdisk_range block n data then (-1, [], data)
      else let off = ucast block * RAMDISK_SECSIZE
           in (1, mem_get (the data) (unat off) (unat (n * RAMDISK_SECSIZE)), data))"

definition ramdisk_write_block :: "u64 \<Rightarrow> bytes \<Rightarrow> u32 \<Rightarrow> ramdisk \<Rightarrow> int \<times> ramdisk" where
  "ramdisk_write_block block buf n data =
     (if \<not> ramdisk_range block n data then (-1, data)
      else let off = ucast block * RAMDISK_SECSIZE
           in (1, Some (mem_put (the data) (unat off) (mem_get buf 0 (unat (n * RAMDISK_SECSIZE))))))"

definition ramdisk_get_block_size :: int where
  "ramdisk_get_block_size = uint RAMDISK_SECSIZE"

definition ramdisk_total_blocks :: u64 where
  "ramdisk_total_blocks = RAMDISK_SECTORS"

definition ramdisk_getcache :: "u32 \<Rightarrow> u32 \<Rightarrow> ramdisk \<Rightarrow> bytes option" where
  "ramdisk_getcache block n data =
     (case ramdisk_read_block (scast block) n data of (r, buf, _) \<Rightarrow> if r = 1 then Some buf else None)"

definition ramdisk_putcache :: "bytes \<Rightarrow> u32 \<Rightarrow> u32 \<Rightarrow> ramdisk \<Rightarrow> bool \<times> ramdisk" where
  "ramdisk_putcache buf block n data =
     (case ramdisk_write_block (scast block) buf n data of (r, data') \<Rightarrow> (r = 1, data'))"

text \<open>An empty FAT16 volume: the boot sector, and the media bytes at the start of the two tables.\<close>

definition bytes_of :: "string \<Rightarrow> bytes" where
  "bytes_of s = map (of_nat \<circ> of_char) s"

definition ramdisk_boot_fields :: "(nat \<times> bytes) list" where
  "ramdisk_boot_fields =
     [(0, [0xEB, 0x3C, 0x90]), (3, bytes_of ''ICSOSRAM''), (11, [0x00, 0x02]), (13, [4]), (14, [1, 0]), (16, [2]),
      (17, [0x00, 0x02]), (19, [0x00, 0x80]), (21, [0xF8]), (22, [128, 0]), (24, [32, 0]), (26, [2, 0]), (36, [0x80]), (38, [0x29]),
      (39, [0x49, 0x43, 0x53, 0x4F]), (43, bytes_of ''ICSOS_RAM  ''), (54, bytes_of ''FAT16   ''), (510, [0x55, 0xAA]),
      (512, [0xF8, 0xFF, 0xFF, 0xFF]), (129 * 512, [0xF8, 0xFF, 0xFF, 0xFF])]"

definition ramdisk_format_fat16 :: bytes where
  "ramdisk_format_fat16 = fold (\<lambda>(off, bs) b. mem_put b off bs) ramdisk_boot_fields (replicate RAMDISK_BYTES 0)"

definition ramdisk_desc :: "ramdisk block_desc" where
  "ramdisk_desc = \<lparr>bd_read_block = Some ramdisk_read_block, bd_write_block = Some ramdisk_write_block,
     bd_get_block_size = Some ramdisk_get_block_size, bd_total_blocks = Some ramdisk_total_blocks,
     bd_getcache = Some ramdisk_getcache, bd_putcache = Some ramdisk_putcache, bd_flush_device = None\<rparr>"

text \<open>
  \<^verbatim>\<open>ramdisk_init\<close>: \<open>mem\<close> says whether the disk's memory could be allocated, \<open>addr\<close> is what registration
  gets from the allocator, \<open>sz\<close> is the size of the descriptor.
\<close>

definition ramdisk_init :: "bool \<Rightarrow> nat option \<Rightarrow> int \<Rightarrow> ramdisk registry \<Rightarrow> int \<times> ramdisk \<times> ramdisk registry" where
  "ramdisk_init mem addr sz dm =
     (if \<not> mem then (-1, None, dm)
      else let d = \<lparr>dv_addr = 0, dv_size = sz, dv_id = 0, dv_type = DEVMGR_BLOCK, dv_name = ''ramdisk'', dv_ops = Some ramdisk_desc\<rparr>;
               (devid, dm') = devmgr_register d addr dm
           in (devid, Some ramdisk_format_fat16, dm'))"

section \<open>The RAM disk keeps the contract\<close>

text \<open>The memory of the disk has been allocated.\<close>

definition ramdisk_wf :: "ramdisk \<Rightarrow> bool" where
  "ramdisk_wf data = (case data of None \<Rightarrow> False | Some b \<Rightarrow> length b = RAMDISK_BYTES)"

definition ramdisk_content :: "int \<Rightarrow> int \<Rightarrow> ramdisk \<Rightarrow> nat \<Rightarrow> u8" where
  "ramdisk_content dev d data a =
     (if d = dev then (case data of None \<Rightarrow> 0 | Some b \<Rightarrow> if a < RAMDISK_BYTES then b ! a else 0) else 0)"

text \<open>The range test keeps a transfer inside the memory of the disk, and no product wraps around.\<close>

lemma ramdisk_range_bounds:
  assumes "ramdisk_range block n data"
  shows "unat (ucast block * RAMDISK_SECSIZE) = unat block * 512" and "unat (n * RAMDISK_SECSIZE) = unat n * 512"
    and "unat block * 512 + unat n * 512 \<le> RAMDISK_BYTES" and "data \<noteq> None"
proof -
  have b: "unat block < 32768" using assms by (simp add: ramdisk_range_def RAMDISK_SECTORS_def word_less_nat_alt not_le)
  have "unat (block + ucast n) = unat block + unat n"
    using b unat_u32_bound [of n] by (subst unat_add_lem [THEN iffD1]) (simp_all add: unat_ucast_eq)
  then have s: "unat block + unat n \<le> 32768"
    using assms by (simp add: ramdisk_range_def RAMDISK_SECTORS_def word_less_nat_alt not_less)
  have u: "unat (ucast block :: u32) = unat block" using b by (subst unat_ucast_eq) simp_all
  show "unat (ucast block * RAMDISK_SECSIZE) = unat block * 512"
    using b u by (subst unat_mult_lem [THEN iffD1]) (simp_all add: RAMDISK_SECSIZE_def)
  show "unat (n * RAMDISK_SECSIZE) = unat n * 512"
    using s by (subst unat_mult_lem [THEN iffD1]) (simp_all add: RAMDISK_SECSIZE_def)
  show "unat block * 512 + unat n * 512 \<le> RAMDISK_BYTES" using s by (simp add: RAMDISK_BYTES_def)
  show "data \<noteq> None" using assms by (simp add: ramdisk_range_def)
qed

lemma length_byte_range [simp]: "length (byte_range c a n) = n" by (simp add: byte_range_def)

lemma nth_byte_range [simp]: "i < n \<Longrightarrow> byte_range c a n ! i = c (a + i)" by (simp add: byte_range_def)

lemma byte_rangeI: "length xs = n \<Longrightarrow> (\<And>i. i < n \<Longrightarrow> xs ! i = c (a + i)) \<Longrightarrow> byte_range c a n = xs"
  by (rule nth_equalityI) simp_all

lemma ramdisk_block_size: "unat (block_size ramdisk_desc) = 512"
  by (simp add: block_size_def ramdisk_desc_def ramdisk_get_block_size_def RAMDISK_SECSIZE_def pc_valid_bsize_def)

lemma ramdisk_read_contract:
  assumes wf: "ramdisk_wf w" and rd: "ramdisk_read_block lba n w = (r, buf, w')"
  shows "w' = w" and "r > 0 \<Longrightarrow> buf = byte_range (ramdisk_content d d w) (unat lba * 512) (unat n * 512)"
proof -
  show "w' = w" using rd by (auto simp: ramdisk_read_block_def Let_def split: if_splits)
  assume "r > 0"
  then have rg: "ramdisk_range lba n w" and buf: "buf = mem_get (the w) (unat (ucast lba * RAMDISK_SECSIZE)) (unat (n * RAMDISK_SECSIZE))"
    using rd by (auto simp: ramdisk_read_block_def Let_def split: if_splits)
  obtain b where w: "w = Some b" using ramdisk_range_bounds(4) [OF rg] by blast
  have "length b = RAMDISK_BYTES" using wf by (simp add: ramdisk_wf_def w)
  with ramdisk_range_bounds [OF rg] show "buf = byte_range (ramdisk_content d d w) (unat lba * 512) (unat n * 512)"
    unfolding buf by (intro byte_rangeI [symmetric]) (simp_all add: w ramdisk_content_def)
qed

lemma ramdisk_write_contract:
  assumes wf: "ramdisk_wf w" and wr: "ramdisk_write_block lba buf n w = (r, w')" and len: "length buf = unat n * 512"
  shows "ramdisk_wf w'" and "a < unat lba * 512 \<or> unat lba * 512 + length buf \<le> a \<Longrightarrow> ramdisk_content d d w' a = ramdisk_content d d w a"
    and "r > 0 \<Longrightarrow> byte_range (ramdisk_content d d w') (unat lba * 512) (length buf) = buf"
proof -
  have *: "ramdisk_wf w' \<and> (a < unat lba * 512 \<or> unat lba * 512 + length buf \<le> a \<longrightarrow> ramdisk_content d d w' a = ramdisk_content d d w a) \<and>
    (r > 0 \<longrightarrow> byte_range (ramdisk_content d d w') (unat lba * 512) (length buf) = buf)"
  proof (cases "ramdisk_range lba n w")
    case False
    then show ?thesis using wr wf by (auto simp: ramdisk_write_block_def)
  next
    case True
    note bd = ramdisk_range_bounds [OF True]
    obtain b where w: "w = Some b" using bd(4) by blast
    have lb: "length b = RAMDISK_BYTES" using wf by (simp add: ramdisk_wf_def w)
    have w': "w' = Some (mem_put b (unat lba * 512) buf)"
      using wr True bd len by (simp add: ramdisk_write_block_def w Let_def mem_get_def)
    have fit: "unat lba * 512 + length buf \<le> length b" using bd(3) lb len by simp
    show ?thesis
      using fit lb by (auto simp: w' w ramdisk_wf_def ramdisk_content_def nth_mem_put intro!: byte_rangeI)
  qed
  show "ramdisk_wf w'" using * by blast
  show "a < unat lba * 512 \<or> unat lba * 512 + length buf \<le> a \<Longrightarrow> ramdisk_content d d w' a = ramdisk_content d d w a" using * by blast
  show "r > 0 \<Longrightarrow> byte_range (ramdisk_content d d w') (unat lba * 512) (length buf) = buf" using * by blast
qed

text \<open>The registry in which the RAM disk is the only block device, and the same with other entries for it.\<close>

definition ramdisk_registry :: "ramdisk registry" where
  "ramdisk_registry = snd (snd (ramdisk_init True (Some 4096) 400 devmgr_empty))"

definition one_disk :: "'d block_desc \<Rightarrow> 'd registry" where
  "one_disk ops = snd (devmgr_register \<lparr>dv_addr = 0, dv_size = 400, dv_id = 0, dv_type = DEVMGR_BLOCK, dv_name = ''ramdisk'', dv_ops = Some ops\<rparr>
     (Some 4096) devmgr_empty)"

lemma ramdisk_registry_one: "ramdisk_registry = one_disk ramdisk_desc"
  by (simp add: ramdisk_registry_def ramdisk_init_def one_disk_def case_prod_beta Let_def)

lemma one_disk_eq:
  "one_disk ops = upd_status 0 (\<lambda>s. s\<lparr>ds_refs := 0, ds_locked := 0, ds_generation := ds_generation s + 1, ds_state := DEVMGR_STATE_LIVE\<rparr>)
     (set_slot 0 (Some \<lparr>dv_addr = 4096, dv_size = 400, dv_id = 0, dv_type = DEVMGR_BLOCK, dv_name = ''ramdisk'', dv_ops = Some ops\<rparr>) devmgr_empty)"
  unfolding one_disk_def by (simp add: first_register SIZEOF_DEVMGR_GENERIC_def)

lemma one_disk_slot:
  "dev_slot d (one_disk ops) = (if d = 0 then Some \<lparr>dv_addr = 4096, dv_size = 400, dv_id = 0, dv_type = DEVMGR_BLOCK,
      dv_name = ''ramdisk'', dv_ops = Some ops\<rparr> else None)"
  unfolding one_disk_eq by (auto simp: dm_defs devmgr_empty_def MAXDEVICES_def nth_update_if)

lemma one_disk_block: "dev_block (one_disk ops) d = (if d = 0 then Some ops else None)"
proof -
  have "ds_state (dev_status 0 (one_disk ops)) = DEVMGR_STATE_LIVE" "ds_refs (dev_status 0 (one_disk ops)) = 0"
    unfolding one_disk_eq by (simp_all add: dm_defs devmgr_empty_def MAXDEVICES_def)
  then show ?thesis
    by (cases "d = 0") (simp_all add: one_disk_slot dev_block_def dev_ref_def devmgr_getdevice_ref_def devmgr_lifecycle_get_def)
qed

lemma one_disk_generation: "devmgr_get_generation 0 (one_disk ops) = 1"
  unfolding one_disk_eq by (simp add: devmgr_get_generation_def dm_defs devmgr_empty_def MAXDEVICES_def)

lemma one_disk_reach: "dreach (one_disk ops) []"
  unfolding one_disk_def by (intro dreach.intros)

lemmas ramdisk_registry_block = one_disk_block [of ramdisk_desc, folded ramdisk_registry_one]
lemmas ramdisk_registry_generation = one_disk_generation [of ramdisk_desc, folded ramdisk_registry_one]

lemma one_ramdisk:
  assumes ops: "bd_read_block ops = Some ramdisk_read_block" "bd_write_block ops = Some ramdisk_write_block" "unat (block_size ops) = 512"
  shows "block_devices (one_disk ops) (ramdisk_content 0) ramdisk_wf"
proof
  fix w :: ramdisk and d ops' rd lba n r buf w' d'
  assume "ramdisk_wf w" "dev_block (one_disk ops) d = Some ops'" "bd_read_block ops' = Some rd" "rd lba n w = (r, buf, w')"
  then show "ramdisk_wf w' \<and> ramdisk_content 0 d' w' = ramdisk_content 0 d' w \<and>
      (0 < r \<longrightarrow> buf = byte_range (ramdisk_content 0 d w) (unat lba * unat (block_size ops')) (unat n * unat (block_size ops')))"
    using ramdisk_read_contract(1) [of w lba n r buf w'] ramdisk_read_contract(2) [of w lba n r buf w' 0] ops
    by (auto simp: one_disk_block split: if_splits)
next
  fix w :: ramdisk and d ops' wr lba buf n r w' d' a
  assume "ramdisk_wf w" "dev_block (one_disk ops) d = Some ops'" "bd_write_block ops' = Some wr" "wr lba buf n w = (r, w')"
    "length buf = unat n * unat (block_size ops')"
  then show "ramdisk_wf w' \<and> (d' \<noteq> d \<longrightarrow> ramdisk_content 0 d' w' = ramdisk_content 0 d' w) \<and>
      (a < unat lba * unat (block_size ops') \<or> unat lba * unat (block_size ops') + length buf \<le> a \<longrightarrow> ramdisk_content 0 d w' a = ramdisk_content 0 d w a) \<and>
      (0 < r \<longrightarrow> byte_range (ramdisk_content 0 d w') (unat lba * unat (block_size ops')) (length buf) = buf)"
    using ramdisk_write_contract(1) [of w lba buf n r w'] ramdisk_write_contract(2) [of w lba buf n r w' a 0]
      ramdisk_write_contract(3) [of w lba buf n r w' 0] ops
    by (auto simp: one_disk_block ramdisk_content_def split: if_splits)
qed

interpretation ramdisk: block_devices ramdisk_registry "ramdisk_content 0" ramdisk_wf
  unfolding ramdisk_registry_one by (intro one_ramdisk ramdisk_block_size) (simp_all add: ramdisk_desc_def)

end
