(* ===== verification/Blkcache.thy ===== *)
theory Blkcache
  imports Ramdisk
begin

text \<open>
  The page cache of \<^verbatim>\<open>iomgr/blkcache.c\<close>: 4096 lines of 4 KiB, keyed by the device, the page number and
  the generation of the device's registry slot. Misses read runs of pages; writes are kept and written
  back by a flush. The calls are modelled one after another; where the source drops \<^verbatim>\<open>pc_busy\<close> around a
  device transfer, no other call comes in between.

  The state of the drivers behind the registry is the field \<open>pc_world\<close>. What the allocator answers for the
  bounce buffers is the list \<open>pc_mallocs\<close>, success when it is used up. Page numbers of a request are a byte
  offset shifted by 12 and therefore below \<open>2 ^ 52\<close>.
\<close>

section \<open>Data\<close>

definition PC_SIZE :: nat where [wire_defs]: "PC_SIZE = 4096"
definition PC_NPAGES :: nat where [wire_defs]: "PC_NPAGES = 4096"
definition PC_UPTODATE :: u8 where [wire_defs]: "PC_UPTODATE = 1"
definition PC_DIRTY :: u8 where [wire_defs]: "PC_DIRTY = 2"
definition PC_MAX_IO :: nat where [wire_defs]: "PC_MAX_IO = 32 * PC_SIZE"

record pc_page =
  pg_deviceid :: int
  pg_index :: u64
  pg_age :: u32
  pg_generation :: u32
  pg_device_generation :: u32
  pg_flags :: u8
  pg_data :: bytes

record 'd pcache =
  pc_alloc :: bool
  pc_tab :: "pc_page list"
  pc_bsz :: "u32 list"
  pc_bsz_generation :: "u32 list"
  pc_clock :: u32
  pc_hits :: u32
  pc_misses :: u32
  pc_fills :: u32
  pc_merged :: u32
  pc_dirty :: u32
  pc_mallocs :: "bool list"
  pc_world :: 'd

definition pc_uptodate :: "pc_page \<Rightarrow> bool" where
  "pc_uptodate p \<longleftrightarrow> pg_flags p AND PC_UPTODATE \<noteq> 0"

definition pc_isdirty :: "pc_page \<Rightarrow> bool" where
  "pc_isdirty p \<longleftrightarrow> pg_flags p AND PC_DIRTY \<noteq> 0"

definition pc_malloc :: "'d pcache \<Rightarrow> bool \<times> 'd pcache" where
  "pc_malloc s = (case pc_mallocs s of [] \<Rightarrow> (True, s) | a # as \<Rightarrow> (a, s\<lparr>pc_mallocs := as\<rparr>))"

text \<open>
  \<^verbatim>\<open>blkcache_init\<close>; \<open>ok\<close> says whether the table could be allocated. The allocated memory holds \<open>junk\<close> and the
  loop does not set the age or the data.
\<close>

definition blkcache_init :: "bool \<Rightarrow> pc_page list \<Rightarrow> bool list \<Rightarrow> 'd \<Rightarrow> 'd pcache" where
  "blkcache_init ok junk mallocs w =
     \<lparr>pc_alloc = ok,
      pc_tab = map (\<lambda>p. p\<lparr>pg_flags := 0, pg_deviceid := -1, pg_index := NOT 0, pg_generation := 0, pg_device_generation := 0\<rparr>) junk,
      pc_bsz = replicate MAXDEVICES 0, pc_bsz_generation = replicate MAXDEVICES 0, pc_clock = 1, pc_hits = 0, pc_misses = 0,
      pc_fills = 0, pc_merged = 0, pc_dirty = 0, pc_mallocs = mallocs, pc_world = w\<rparr>"

section \<open>Block sizes\<close>

definition set_bsize :: "int \<Rightarrow> u32 \<Rightarrow> u32 \<Rightarrow> 'd pcache \<Rightarrow> 'd pcache" where
  "set_bsize d sz gen s = (if gen \<noteq> 0 \<and> pc_valid_bsize sz
     then s\<lparr>pc_bsz := (pc_bsz s)[nat d := sz], pc_bsz_generation := (pc_bsz_generation s)[nat d := gen]\<rparr> else s)"

definition pc_bsize :: "'d registry \<Rightarrow> int \<Rightarrow> 'd pcache \<Rightarrow> u32 \<times> 'd pcache" where
  "pc_bsize dm d s =
     (if d < 0 \<or> d \<ge> int MAXDEVICES then (512, s)
      else if pc_bsz s ! nat d \<noteq> 0 \<and> pc_bsz_generation s ! nat d = devmgr_get_generation d dm then (pc_bsz s ! nat d, s)
      else case dev_ref dm d of
          None \<Rightarrow> (512, s)
        | Some b \<Rightarrow> (let sz = (case dv_ops b of None \<Rightarrow> 512 | Some ops \<Rightarrow> block_size ops)
                    in (sz, set_bsize d sz (devmgr_get_generation d dm) s)))"

definition pc_remember_bsize :: "'d registry \<Rightarrow> int \<Rightarrow> 'd pcache \<Rightarrow> 'd pcache" where
  "pc_remember_bsize dm d s =
     (if d < 0 \<or> d \<ge> int MAXDEVICES then s
      else case dev_ref dm d of None \<Rightarrow> s
        | Some b \<Rightarrow> (case dv_ops b of None \<Rightarrow> s
            | Some ops \<Rightarrow> (case bd_get_block_size ops of None \<Rightarrow> s
                | Some got \<Rightarrow> set_bsize d (word_of_int got) (devmgr_get_generation d dm) s)))"

section \<open>The table\<close>

definition blkcache_writeback_is_current :: "bool \<Rightarrow> u32 \<Rightarrow> u32 \<Rightarrow> bool" where
  "blkcache_writeback_is_current same_key current written \<longleftrightarrow> same_key \<and> current = written"

definition blkcache_device_key_is_current :: "u32 \<Rightarrow> u32 \<Rightarrow> bool" where
  "blkcache_device_key_is_current cached live \<longleftrightarrow> cached \<noteq> 0 \<and> cached = live"

definition pc_slot :: "int \<Rightarrow> u64 \<Rightarrow> nat" where
  "pc_slot d index =
     unat ((ucast index * 2654435761 + ucast (drop_bit 32 index) * 2246822519 + word_of_int d * 40503 :: u32) mod of_nat PC_NPAGES)"

definition pc_probes :: "int \<Rightarrow> u64 \<Rightarrow> nat list" where
  "pc_probes d index = map (\<lambda>probe. (pc_slot d index + probe) mod PC_NPAGES) [0..<8]"

definition pc_hit :: "'d registry \<Rightarrow> int \<Rightarrow> u64 \<Rightarrow> pc_page \<Rightarrow> bool" where
  "pc_hit dm d index p \<longleftrightarrow> pc_uptodate p \<and> pg_deviceid p = d \<and>
     blkcache_device_key_is_current (pg_device_generation p) (devmgr_get_generation d dm) \<and> pg_index p = index"

definition pc_lookup :: "'d registry \<Rightarrow> pc_page list \<Rightarrow> int \<Rightarrow> u64 \<Rightarrow> nat option" where
  "pc_lookup dm tab d index =
     (case find (\<lambda>j. pc_hit dm d index (tab ! j)) (pc_probes d index) of
        Some j \<Rightarrow> Some j
      | None \<Rightarrow> find (\<lambda>j. pc_hit dm d index (tab ! j)) [0..<PC_NPAGES])"

fun claim_scan :: "pc_page list \<Rightarrow> nat list \<Rightarrow> u32 \<Rightarrow> nat option \<Rightarrow> nat option" where
  "claim_scan tab [] oldest idx = idx"
| "claim_scan tab (j # js) oldest idx =
     (if \<not> pc_uptodate (tab ! j) then Some j
      else if \<not> pc_isdirty (tab ! j) \<and> pg_age (tab ! j) < oldest then claim_scan tab js (pg_age (tab ! j)) (Some j)
      else claim_scan tab js oldest idx)"

text \<open>The first scan leaves \<open>oldest\<close> at its start value when it finds nothing.\<close>

definition claim_victim :: "pc_page list \<Rightarrow> int \<Rightarrow> u64 \<Rightarrow> nat option" where
  "claim_victim tab d index =
     (case claim_scan tab (pc_probes d index) (NOT 0) None of
        Some j \<Rightarrow> Some j | None \<Rightarrow> claim_scan tab [0..<PC_NPAGES] (NOT 0) None)"

definition pc_claim :: "'d registry \<Rightarrow> pc_page list \<Rightarrow> int \<Rightarrow> u64 \<Rightarrow> nat option \<times> pc_page list" where
  "pc_claim dm tab d index =
     (case pc_lookup dm tab d index of Some j \<Rightarrow> (Some j, tab)
      | None \<Rightarrow>
          (case claim_victim tab d index of None \<Rightarrow> (None, tab)
           | Some j \<Rightarrow>
               if pc_isdirty (tab ! j) then (None, tab)
               else (Some j, tab[j := (tab ! j)\<lparr>pg_deviceid := d, pg_index := index, pg_generation := 0,
                                        pg_device_generation := devmgr_get_generation d dm, pg_flags := 0\<rparr>])))"

text \<open>\<open>p->age = ++pc_clock\<close> after a change \<open>f\<close> of the line.\<close>

definition upd_line :: "nat \<Rightarrow> (pc_page \<Rightarrow> pc_page) \<Rightarrow> 'd pcache \<Rightarrow> 'd pcache" where
  "upd_line j f s = s\<lparr>pc_tab := (pc_tab s)[j := f (pc_tab s ! j)]\<rparr>"

definition touch_line :: "nat \<Rightarrow> (pc_page \<Rightarrow> pc_page) \<Rightarrow> 'd pcache \<Rightarrow> 'd pcache" where
  "touch_line j f s = upd_line j (\<lambda>p. (f p)\<lparr>pg_age := pc_clock s + 1\<rparr>) s\<lparr>pc_clock := pc_clock s + 1\<rparr>"

lemma page_offset: "unat (x AND 0xFFF) = unat x mod PC_SIZE" for x :: u64
proof -
  have "x AND 0xFFF = take_bit 12 x" by (simp add: take_bit_eq_mask mask_eq_exp_minus_1)
  then show ?thesis by (simp add: take_bit_eq_mod unat_mod PC_SIZE_def)
qed

lemma page_offset_less: "unat (x AND 0xFFF) < PC_SIZE" for x :: u64
  by (simp add: page_offset PC_SIZE_def)

lemma chunk_advance:
  assumes "pos < nb" and n: "n = (if of_nat (PC_SIZE - unat ((off + pos) AND 0xFFF)) > nb - pos then unat (nb - pos)
      else PC_SIZE - unat ((off + pos :: u64) AND 0xFFF))"
  shows "0 < n" and "n \<le> unat (nb - pos)" and "unat (pos + of_nat n) = unat pos + n" and "unat (pos + of_nat n) \<le> unat nb"
    and "n = min (PC_SIZE - unat ((off + pos) AND 0xFFF)) (unat (nb - pos))"
proof -
  have d: "unat (nb - pos) = unat nb - unat pos" using assms(1) by (simp add: unat_sub less_imp_le)
  have lt: "unat pos < unat nb" using assms(1) by (simp add: word_less_nat_alt)
  have p: "unat (of_nat (PC_SIZE - unat ((off + pos) AND 0xFFF)) :: u64) = PC_SIZE - unat ((off + pos) AND 0xFFF)"
    by (simp add: PC_SIZE_def unat_of_nat)
  show mn: "n = min (PC_SIZE - unat ((off + pos) AND 0xFFF)) (unat (nb - pos))"
    unfolding n by (auto simp: word_less_nat_alt p)
  show "0 < n" using page_offset_less [of "off + pos"] d lt by (simp add: mn)
  show le: "n \<le> unat (nb - pos)" by (simp add: mn)
  show "unat (pos + of_nat n) = unat pos + n"
    using le d lt unat_u64_bound [of nb] by (simp add: unat_word_ariths unat_of_nat)
  then show "unat (pos + of_nat n) \<le> unat nb" using le d lt by simp
qed

text \<open>
  The pieces \<open>(index, poff, n, done)\<close> of a byte range, one per page, as the three copying loops go through
  them. The offset into the caller's buffer is truncated to 32 bits.
\<close>

function pc_chunks :: "u64 \<Rightarrow> u64 \<Rightarrow> u64 \<Rightarrow> (u64 \<times> nat \<times> nat \<times> nat) list" where
  "pc_chunks off nb pos =
     (if pos < nb then
        let poff = unat ((off + pos) AND 0xFFF);
            n = (if of_nat (PC_SIZE - poff) > nb - pos then unat (nb - pos) else PC_SIZE - poff)
        in (drop_bit 12 (off + pos), poff, n, unat (ucast pos :: u32)) # pc_chunks off nb (pos + of_nat n)
      else [])"
  by pat_completeness auto
termination
proof (relation "measure (\<lambda>(off, nb, pos). unat nb - unat pos)")
  fix off nb pos x xa
  assume lt: "pos < nb" and x: "x = unat ((off + pos :: u64) AND 0xFFF)"
    and xa: "xa = (if nb - pos < of_nat (PC_SIZE - x) then unat (nb - pos) else PC_SIZE - x)"
  note adv = chunk_advance [OF lt xa [unfolded x]]
  have "unat nb - unat (pos + of_nat xa) < unat nb - unat pos"
    using adv(1,4) lt by (simp add: adv(3) word_less_nat_alt)
  then show "((off, nb, pos + of_nat xa), off, nb, pos) \<in> measure (\<lambda>(off, nb, pos). unat nb - unat pos)" by simp
qed simp

declare pc_chunks.simps [simp del]

section \<open>Copying out of the cache\<close>

fun copy_chunks :: "'d registry \<Rightarrow> int \<Rightarrow> (u64 \<times> nat \<times> nat \<times> nat) list \<Rightarrow> bytes \<Rightarrow> 'd pcache \<Rightarrow> bytes option \<times> 'd pcache" where
  "copy_chunks dm d [] dst s = (Some dst, s)"
| "copy_chunks dm d ((index, poff, n, pos) # cs) dst s =
     (case pc_lookup dm (pc_tab s) d index of None \<Rightarrow> (None, s)
      | Some j \<Rightarrow> copy_chunks dm d cs (mem_put dst pos (mem_get (pg_data (pc_tab s ! j)) poff n)) (touch_line j (\<lambda>p. p) s))"

definition pc_copy_out :: "'d registry \<Rightarrow> int \<Rightarrow> u64 \<Rightarrow> u64 \<Rightarrow> 'd pcache \<Rightarrow> bytes option \<times> 'd pcache" where
  "pc_copy_out dm d byte_off nbytes s =
     copy_chunks dm d (pc_chunks byte_off nbytes 0) (replicate (unat nbytes) 0) s"

text \<open>A null buffer of the caller is \<open>buf = False\<close> for reads and \<open>None\<close> for writes.\<close>

definition blkcache_get :: "'d registry \<Rightarrow> int \<Rightarrow> u64 \<Rightarrow> u32 \<Rightarrow> bool \<Rightarrow> 'd pcache \<Rightarrow> bytes option \<times> 'd pcache" where
  "blkcache_get dm d sector n buf s =
     (if \<not> pc_alloc s \<or> n = 0 \<or> \<not> buf then (None, s)
      else let (bsz, s) = pc_bsize dm d s;
               (res, s) = pc_copy_out dm d (sector * ucast bsz) (ucast n * ucast bsz) s
           in (res, if res \<noteq> None then s\<lparr>pc_hits := pc_hits s + n\<rparr> else s))"

text \<open>The line for a page that is not cached, zeroed unless the whole page is about to be written.\<close>

definition put_line :: "'d registry \<Rightarrow> int \<Rightarrow> u64 \<Rightarrow> nat \<Rightarrow> nat \<Rightarrow> 'd pcache \<Rightarrow> nat option \<times> 'd pcache" where
  "put_line dm d index poff n s =
     (case pc_lookup dm (pc_tab s) d index of Some j \<Rightarrow> (Some j, s)
      | None \<Rightarrow>
          (case pc_claim dm (pc_tab s) d index of
             (None, tab) \<Rightarrow> (None, s\<lparr>pc_tab := tab\<rparr>)
           | (Some j, tab) \<Rightarrow>
               (Some j, upd_line j (\<lambda>p. (if poff \<noteq> 0 \<or> n \<noteq> PC_SIZE then p\<lparr>pg_data := replicate PC_SIZE 0\<rparr> else p)\<lparr>pg_flags := PC_UPTODATE\<rparr>)
                          (s\<lparr>pc_tab := tab\<rparr>))))"

fun put_chunks :: "'d registry \<Rightarrow> int \<Rightarrow> (u64 \<times> nat \<times> nat \<times> nat) list \<Rightarrow> bytes \<Rightarrow> 'd pcache \<Rightarrow> bool \<times> 'd pcache" where
  "put_chunks dm d [] src s = (True, s)"
| "put_chunks dm d ((index, poff, n, pos) # cs) src s =
     (let fresh = pc_lookup dm (pc_tab s) d index = None
      in case put_line dm d index poff n s of
           (None, s) \<Rightarrow> (False, s)
         | (Some j, s) \<Rightarrow>
             put_chunks dm d cs src
               (touch_line j (\<lambda>p. p\<lparr>pg_data := mem_put (pg_data p) poff (mem_get src pos n)\<rparr>)
                 (if fresh then s\<lparr>pc_fills := pc_fills s + 1\<rparr> else s)))"

definition blkcache_put :: "'d registry \<Rightarrow> int \<Rightarrow> u64 \<Rightarrow> u32 \<Rightarrow> bytes option \<Rightarrow> 'd pcache \<Rightarrow> bool \<times> 'd pcache" where
  "blkcache_put dm d sector n buf s =
     (if \<not> pc_alloc s \<or> n = 0 then (False, s)
      else case buf of None \<Rightarrow> (False, s)
        | Some src \<Rightarrow> (let (bsz, s) = pc_bsize dm d s
                      in put_chunks dm d (pc_chunks (sector * ucast bsz) (ucast n * ucast bsz) 0) src s))"

section \<open>Device transfers\<close>

text \<open>
  \<^verbatim>\<open>pc_dev_rw\<close>. \<open>expected\<close> is what the pointer \<^verbatim>\<open>device_generation\<close> holds, \<open>None\<close> for a null pointer; the answer
  of a read comes with the generation that is stored there.
\<close>

definition pc_dev_open :: "'d registry \<Rightarrow> int \<Rightarrow> u32 option \<Rightarrow> ('d block_desc \<times> u32) option" where
  "pc_dev_open dm d expected =
     (case dev_block dm d of None \<Rightarrow> None
      | Some ops \<Rightarrow>
          (let generation = devmgr_get_generation d dm
           in if generation = 0 \<or> (case expected of None \<Rightarrow> False | Some e \<Rightarrow> e \<noteq> 0 \<and> e \<noteq> generation) then None
              else Some (ops, generation)))"

definition pc_dev_read :: "'d registry \<Rightarrow> int \<Rightarrow> u64 \<Rightarrow> u32 \<Rightarrow> u32 option \<Rightarrow> 'd \<Rightarrow> (bytes \<times> u32) option \<times> 'd" where
  "pc_dev_read dm d lba n expected w =
     (case pc_dev_open dm d expected of None \<Rightarrow> (None, w)
      | Some (ops, generation) \<Rightarrow>
          (case bd_read_block ops of None \<Rightarrow> (None, w)
           | Some rd \<Rightarrow> (case rd lba n w of (r, buf, w') \<Rightarrow> (if r > 0 then Some (buf, generation) else None, w'))))"

definition pc_dev_write :: "'d registry \<Rightarrow> int \<Rightarrow> u64 \<Rightarrow> bytes \<Rightarrow> u32 \<Rightarrow> u32 option \<Rightarrow> 'd \<Rightarrow> bool \<times> 'd" where
  "pc_dev_write dm d lba buf n expected w =
     (case pc_dev_open dm d expected of None \<Rightarrow> (False, w)
      | Some (ops, generation) \<Rightarrow>
          (case bd_write_block ops of None \<Rightarrow> (False, w)
           | Some wr \<Rightarrow> (case wr lba buf n w of (r, w') \<Rightarrow> (r > 0, w'))))"

definition direct_read :: "'d registry \<Rightarrow> int \<Rightarrow> u64 \<Rightarrow> u32 \<Rightarrow> 'd pcache \<Rightarrow> bytes option \<times> 'd pcache" where
  "direct_read dm d sector n s =
     (case pc_dev_read dm d sector n None (pc_world s) of (res, w) \<Rightarrow> (map_option fst res, s\<lparr>pc_world := w\<rparr>))"

definition direct_write :: "'d registry \<Rightarrow> int \<Rightarrow> u64 \<Rightarrow> bytes \<Rightarrow> u32 \<Rightarrow> 'd pcache \<Rightarrow> bool \<times> 'd pcache" where
  "direct_write dm d sector buf n s =
     (case pc_dev_write dm d sector buf n None (pc_world s) of (ok, w) \<Rightarrow> (ok, s\<lparr>pc_world := w\<rparr>))"

section \<open>Filling a range of pages\<close>

definition pc_cached :: "'d registry \<Rightarrow> int \<Rightarrow> 'd pcache \<Rightarrow> u64 \<Rightarrow> bool" where
  "pc_cached dm d s index \<longleftrightarrow> pc_lookup dm (pc_tab s) d index \<noteq> None"

text \<open>One line from the bounce buffer; a page that cannot get a line is left out.\<close>

definition fill_one :: "'d registry \<Rightarrow> int \<Rightarrow> u32 \<Rightarrow> u64 \<Rightarrow> bytes \<Rightarrow> 'd pcache \<Rightarrow> 'd pcache" where
  "fill_one dm d gen index page s =
     (case pc_lookup dm (pc_tab s) d index of Some _ \<Rightarrow> s
      | None \<Rightarrow>
          (case pc_claim dm (pc_tab s) d index of
             (None, tab) \<Rightarrow> s\<lparr>pc_tab := tab\<rparr>
           | (Some j, tab) \<Rightarrow>
               (touch_line j (\<lambda>p. p\<lparr>pg_device_generation := gen, pg_data := page, pg_flags := PC_UPTODATE\<rparr>) (s\<lparr>pc_tab := tab\<rparr>))
               \<lparr>pc_fills := pc_fills s + 1\<rparr>))"

fun fill_insert :: "'d registry \<Rightarrow> int \<Rightarrow> u32 \<Rightarrow> u64 list \<Rightarrow> nat \<Rightarrow> bytes \<Rightarrow> 'd pcache \<Rightarrow> 'd pcache" where
  "fill_insert dm d gen [] i bounce s = s"
| "fill_insert dm d gen (index # run) i bounce s =
     fill_insert dm d gen run (Suc i) bounce (fill_one dm d gen index (mem_get bounce (i * PC_SIZE) PC_SIZE) s)"

text \<open>The next run: cached pages are skipped, then pages are taken that are not cached, 32 at most.\<close>

definition fill_run :: "'d registry \<Rightarrow> int \<Rightarrow> 'd pcache \<Rightarrow> u64 list \<Rightarrow> u64 list" where
  "fill_run dm d s pages = take (PC_MAX_IO div PC_SIZE) (takeWhile (\<lambda>pg. \<not> pc_cached dm d s pg) pages)"

function fill_pages :: "'d registry \<Rightarrow> int \<Rightarrow> u32 \<Rightarrow> u64 list \<Rightarrow> 'd pcache \<Rightarrow> bool \<times> 'd pcache" where
  "fill_pages dm d sect_per pages s =
     (case dropWhile (pc_cached dm d s) pages of
        [] \<Rightarrow> (True, s)
      | pg # rest \<Rightarrow>
          (let run = fill_run dm d s (pg # rest);
               np = length run;
               nsect = of_nat np * sect_per;
               (ok, s1) = pc_malloc s
           in if \<not> ok then (False, s1)
              else case pc_dev_read dm d (pg * ucast sect_per) nsect (Some 0) (pc_world s1) of
                  (None, w) \<Rightarrow> (False, s1\<lparr>pc_world := w\<rparr>)
                | (Some (bounce, gen), w) \<Rightarrow>
                    fill_pages dm d sect_per (drop (np - 1) rest)
                      (fill_insert dm d gen run 0 bounce (s1\<lparr>pc_world := w, pc_merged := pc_merged s1 + nsect\<rparr>))))"
  by pat_completeness auto
termination
proof (relation "measure (\<lambda>(dm, d, sect_per, pages, s). length pages)", goal_cases)
  case (2 dm d sect_per pages s pg rest)
  have "length (pg # rest) \<le> length pages" using 2(1) by (metis length_dropWhile_le)
  then show ?case by simp
qed simp

declare fill_pages.simps [simp del]

definition pc_fill_range :: "'d registry \<Rightarrow> int \<Rightarrow> u64 \<Rightarrow> u64 \<Rightarrow> 'd pcache \<Rightarrow> bool \<times> 'd pcache" where
  "pc_fill_range dm d pg0 pg1 s =
     (let (bsz, s) = pc_bsize dm d s
      in fill_pages dm d (of_nat PC_SIZE div bsz) (map of_nat [unat pg0..<Suc (unat pg1)]) s)"

section \<open>Reading and writing\<close>

definition blkcache_read :: "'d registry \<Rightarrow> int \<Rightarrow> u64 \<Rightarrow> u32 \<Rightarrow> bool \<Rightarrow> 'd pcache \<Rightarrow> bytes option \<times> 'd pcache" where
  "blkcache_read dm d sector n buf s =
     (if n = 0 \<or> \<not> buf then (None, s)
      else if \<not> pc_alloc s then direct_read dm d sector n s
      else let s = pc_remember_bsize dm d s;
               (bsz, s) = pc_bsize dm d s;
               start = sector * ucast bsz;
               finish = start + ucast n * ucast bsz;
               (res, s) = pc_copy_out dm d start (finish - start) s
           in if res \<noteq> None then (res, s\<lparr>pc_hits := pc_hits s + n\<rparr>)
              else let (ok, s) = pc_fill_range dm d (drop_bit 12 start) (drop_bit 12 (finish - 1)) (s\<lparr>pc_misses := pc_misses s + n\<rparr>)
                   in if \<not> ok then direct_read dm d sector n s
                      else let (res, s) = pc_copy_out dm d start (finish - start) s
                           in if res \<noteq> None then (res, s) else direct_read dm d sector n s)"

text \<open>The loop of a write; the dirty count goes up for a line that was clean.\<close>

definition dirty_line :: "nat \<Rightarrow> nat \<Rightarrow> bytes \<Rightarrow> 'd pcache \<Rightarrow> 'd pcache" where
  "dirty_line j poff bs s =
     (let was = pc_isdirty (pc_tab s ! j)
      in (touch_line j (\<lambda>p. p\<lparr>pg_data := mem_put (pg_data p) poff bs, pg_generation := pg_generation p + 1,
                          pg_flags := PC_UPTODATE OR PC_DIRTY\<rparr>) s)
         \<lparr>pc_dirty := (if was then pc_dirty s else pc_dirty s + 1)\<rparr>)"

fun write_chunks :: "'d registry \<Rightarrow> int \<Rightarrow> (u64 \<times> nat \<times> nat \<times> nat) list \<Rightarrow> bytes \<Rightarrow> 'd pcache \<Rightarrow> bool \<times> 'd pcache" where
  "write_chunks dm d [] src s = (True, s)"
| "write_chunks dm d ((index, poff, n, pos) # cs) src s =
     (case put_line dm d index poff n s of
        (None, s) \<Rightarrow> (False, s)
      | (Some j, s) \<Rightarrow> write_chunks dm d cs src (dirty_line j poff (mem_get src pos n) s))"

definition blkcache_write :: "'d registry \<Rightarrow> int \<Rightarrow> u64 \<Rightarrow> u32 \<Rightarrow> bytes option \<Rightarrow> 'd pcache \<Rightarrow> bool \<times> 'd pcache" where
  "blkcache_write dm d sector n buf s =
     (if n = 0 then (False, s)
      else case buf of None \<Rightarrow> (False, s)
      | Some src \<Rightarrow>
          if \<not> pc_alloc s then direct_write dm d sector src n s
          else let s = pc_remember_bsize dm d s;
                   (bsz, s) = pc_bsize dm d s;
                   start = sector * ucast bsz;
                   len = ucast n * ucast bsz;
                   finish = start + len;
                   (ok, s) = (if start AND 0xFFF \<noteq> 0 \<or> finish AND 0xFFF \<noteq> 0
                              then pc_fill_range dm d (drop_bit 12 start) (drop_bit 12 (finish - 1)) s else (True, s))
               in if \<not> ok then direct_write dm d sector src n s
                  else let (ok, s) = write_chunks dm d (pc_chunks start len 0) src s
                       in if ok then (True, s) else direct_write dm d sector src n s)"

section \<open>Writing back, invalidation, counters\<close>

definition blkcache_has_dirty :: "'d pcache \<Rightarrow> bool" where
  "blkcache_has_dirty s \<longleftrightarrow> pc_dirty s \<noteq> 0"

definition flush_line :: "'d registry \<Rightarrow> nat \<Rightarrow> 'd pcache \<Rightarrow> bool \<times> 'd pcache" where
  "flush_line dm i s =
     (let p = pc_tab s ! i
      in if pg_flags p AND (PC_DIRTY OR PC_UPTODATE) \<noteq> PC_DIRTY OR PC_UPTODATE then (True, s)
         else let dev = pg_deviceid p;
                  s = pc_remember_bsize dm dev s
              in if \<not> blkcache_device_key_is_current (pg_device_generation p) (devmgr_get_generation dev dm)
                 then (False, (upd_line i (\<lambda>q. q\<lparr>pg_flags := 0, pg_deviceid := -1\<rparr>) s)
                                \<lparr>pc_dirty := (if pc_isdirty p \<and> pc_dirty s \<noteq> 0 then pc_dirty s - 1 else pc_dirty s)\<rparr>)
                 else let (bsz, s) = pc_bsize dm dev s;
                          (ok, w) = pc_dev_write dm dev (pg_index p * (of_nat PC_SIZE div ucast bsz)) (pg_data p) (of_nat PC_SIZE div bsz)
                                      (Some (pg_device_generation p)) (pc_world s);
                          s = s\<lparr>pc_world := w\<rparr>;
                          q = pc_tab s ! i
                      in if \<not> ok then (False, s)
                         else (True, if blkcache_writeback_is_current (pg_deviceid q = dev \<and> pg_index q = pg_index p) (pg_generation q) (pg_generation p)
                                        \<and> pc_isdirty q
                                     then (upd_line i (\<lambda>q. q\<lparr>pg_flags := pg_flags q AND NOT PC_DIRTY\<rparr>) s)
                                            \<lparr>pc_dirty := (if pc_dirty s \<noteq> 0 then pc_dirty s - 1 else pc_dirty s)\<rparr>
                                     else s))"

fun flush_lines :: "'d registry \<Rightarrow> nat list \<Rightarrow> 'd pcache \<Rightarrow> bool \<times> 'd pcache" where
  "flush_lines dm [] s = (True, s)"
| "flush_lines dm (i # is) s = (case flush_line dm i s of (ok, s') \<Rightarrow> if ok then flush_lines dm is s' else (False, s'))"

definition blkcache_flush :: "'d registry \<Rightarrow> 'd pcache \<Rightarrow> bool \<times> 'd pcache" where
  "blkcache_flush dm s = (if \<not> pc_alloc s then (True, s) else flush_lines dm [0..<PC_NPAGES] s)"

fun invalidate_lines :: "int \<Rightarrow> nat list \<Rightarrow> int \<Rightarrow> 'd pcache \<Rightarrow> int \<times> 'd pcache" where
  "invalidate_lines d [] dirty s = (dirty, s)"
| "invalidate_lines d (i # is) dirty s =
     (if pg_deviceid (pc_tab s ! i) = d then
        let was = pc_isdirty (pc_tab s ! i)
        in invalidate_lines d is (if was then dirty + 1 else dirty)
             ((upd_line i (\<lambda>q. q\<lparr>pg_flags := 0, pg_deviceid := -1\<rparr>) s)\<lparr>pc_dirty := (if was then pc_dirty s - 1 else pc_dirty s)\<rparr>)
      else invalidate_lines d is dirty s)"

definition blkcache_invalidate_device :: "int \<Rightarrow> 'd pcache \<Rightarrow> int \<times> 'd pcache" where
  "blkcache_invalidate_device d s = (if \<not> pc_alloc s then (0, s) else invalidate_lines d [0..<PC_NPAGES] 0 s)"

definition blkcache_stats :: "'d pcache \<Rightarrow> u32 \<times> u32 \<times> u32 \<times> nat" where
  "blkcache_stats s = (pc_hits s, pc_misses s, pc_fills s, PC_NPAGES)"

definition blkcache_reset_stats :: "'d pcache \<Rightarrow> 'd pcache" where
  "blkcache_reset_stats s = s\<lparr>pc_hits := 0, pc_misses := 0, pc_fills := 0, pc_merged := 0\<rparr>"

definition blkcache_mq_stats :: "'d pcache \<Rightarrow> u32" where
  "blkcache_mq_stats s = pc_merged s"

end
