(* ===== verification/Blkcache_Refine.thy ===== *)
theory Blkcache_Refine
  imports Blkcache
begin

text \<open>
  What the page cache promises. \<open>pc_view\<close> is the content of the devices as a client of the cache sees it: the
  cached page where there is one, the device otherwise. \<open>pc_ok\<close> is the invariant: at most one line per
  page, a clean line agrees with the device, and the dirty count is exact. The lemmas are proved for any
  drivers that keep the contract \<open>block_devices\<close>.
\<close>

section \<open>Invariant and view\<close>

definition pc_current :: "'d registry \<Rightarrow> pc_page \<Rightarrow> bool" where
  "pc_current dm p \<longleftrightarrow> pc_uptodate p \<and> blkcache_device_key_is_current (pg_device_generation p) (devmgr_get_generation (pg_deviceid p) dm)"

definition line_ok :: "pc_page \<Rightarrow> bool" where
  "line_ok p \<longleftrightarrow> length (pg_data p) = PC_SIZE \<and> pg_flags p \<in> {0, PC_UPTODATE, PC_UPTODATE OR PC_DIRTY} \<and>
     (pc_uptodate p \<longrightarrow> unat (pg_index p) < 2 ^ 52)"

definition clean_ok :: "'d registry \<Rightarrow> (int \<Rightarrow> 'd \<Rightarrow> nat \<Rightarrow> u8) \<Rightarrow> 'd \<Rightarrow> pc_page \<Rightarrow> bool" where
  "clean_ok dm content w p \<longleftrightarrow> (pc_current dm p \<and> \<not> pc_isdirty p \<longrightarrow>
     pg_data p = byte_range (content (pg_deviceid p) w) (unat (pg_index p) * PC_SIZE) PC_SIZE)"

definition tab_ok :: "'d registry \<Rightarrow> (int \<Rightarrow> 'd \<Rightarrow> nat \<Rightarrow> u8) \<Rightarrow> 'd \<Rightarrow> pc_page list \<Rightarrow> bool" where
  "tab_ok dm content w tab \<longleftrightarrow> length tab = PC_NPAGES \<and>
     (\<forall>j < PC_NPAGES. line_ok (tab ! j) \<and> clean_ok dm content w (tab ! j)) \<and>
     (\<forall>j < PC_NPAGES. \<forall>k < PC_NPAGES. pc_current dm (tab ! j) \<and> pc_current dm (tab ! k) \<and>
        pg_deviceid (tab ! j) = pg_deviceid (tab ! k) \<and> pg_index (tab ! j) = pg_index (tab ! k) \<longrightarrow> j = k)"

definition bsz_ok :: "'d registry \<Rightarrow> 'd pcache \<Rightarrow> bool" where
  "bsz_ok dm s \<longleftrightarrow> length (pc_bsz s) = MAXDEVICES \<and> length (pc_bsz_generation s) = MAXDEVICES \<and>
     (\<forall>i < MAXDEVICES. \<forall>ops. dev_block dm (int i) = Some ops \<longrightarrow> pc_bsz s ! i \<noteq> 0 \<longrightarrow>
        pc_bsz_generation s ! i = devmgr_get_generation (int i) dm \<longrightarrow> pc_bsz s ! i = block_size ops)"

definition pc_ok :: "'d registry \<Rightarrow> (int \<Rightarrow> 'd \<Rightarrow> nat \<Rightarrow> u8) \<Rightarrow> ('d \<Rightarrow> bool) \<Rightarrow> 'd pcache \<Rightarrow> bool" where
  "pc_ok dm content wfd s \<longleftrightarrow> pc_alloc s \<and> wfd (pc_world s) \<and> tab_ok dm content (pc_world s) (pc_tab s) \<and> bsz_ok dm s \<and>
     unat (pc_dirty s) = length (filter pc_isdirty (pc_tab s))"

definition pc_view :: "'d registry \<Rightarrow> (int \<Rightarrow> 'd \<Rightarrow> nat \<Rightarrow> u8) \<Rightarrow> 'd pcache \<Rightarrow> int \<Rightarrow> nat \<Rightarrow> u8" where
  "pc_view dm content s d a =
     (case pc_lookup dm (pc_tab s) d (of_nat (a div PC_SIZE)) of
        None \<Rightarrow> content d (pc_world s) a
      | Some j \<Rightarrow> pg_data (pc_tab s ! j) ! (a mod PC_SIZE))"

section \<open>Lookups\<close>

lemma pc_hit_current: "pc_hit dm d i p \<longleftrightarrow> pc_current dm p \<and> pg_deviceid p = d \<and> pg_index p = i"
  by (auto simp: pc_hit_def pc_current_def)

lemma probes_less: "j \<in> set (pc_probes d i) \<Longrightarrow> j < PC_NPAGES"
  by (auto simp: pc_probes_def PC_NPAGES_def)

lemma lookup_Some:
  assumes "pc_lookup dm tab d i = Some j" shows "j < PC_NPAGES" "pc_hit dm d i (tab ! j)"
  using assms probes_less [of j d i] by (auto simp: pc_lookup_def find_Some_iff in_set_conv_nth split: option.splits)

lemma pc_lookup_None: "pc_lookup dm tab d i = None \<Longrightarrow> k < PC_NPAGES \<Longrightarrow> \<not> pc_hit dm d i (tab ! k)"
  by (auto simp: pc_lookup_def find_None_iff split: option.splits)

lemma tab_ok_unique:
  assumes "tab_ok dm content w tab" "j < PC_NPAGES" "k < PC_NPAGES" "pc_hit dm d i (tab ! j)" "pc_hit dm d i (tab ! k)"
  shows "j = k"
proof -
  have "\<forall>j < PC_NPAGES. \<forall>k < PC_NPAGES. pc_current dm (tab ! j) \<and> pc_current dm (tab ! k) \<and>
        pg_deviceid (tab ! j) = pg_deviceid (tab ! k) \<and> pg_index (tab ! j) = pg_index (tab ! k) \<longrightarrow> j = k"
    using assms(1) unfolding tab_ok_def by (elim conjE)
  then show ?thesis using assms(2-5) unfolding pc_hit_current by metis
qed

lemma lookup_iff:
  assumes "tab_ok dm content w tab"
  shows "pc_lookup dm tab d i = Some j \<longleftrightarrow> j < PC_NPAGES \<and> pc_hit dm d i (tab ! j)"
proof
  assume j: "j < PC_NPAGES \<and> pc_hit dm d i (tab ! j)"
  then obtain k where k: "pc_lookup dm tab d i = Some k" using pc_lookup_None by fastforce
  have "k < PC_NPAGES" "pc_hit dm d i (tab ! k)" using lookup_Some [OF k] by auto
  then have "k = j" using j tab_ok_unique [OF assms] by blast
  then show "pc_lookup dm tab d i = Some j" using k by simp
qed (auto dest: lookup_Some)

lemma lookup_eqI:
  assumes "tab_ok dm content w tab" "tab_ok dm' content' w' tab'"
    and "\<And>j. j < PC_NPAGES \<Longrightarrow> pc_hit dm d i (tab ! j) = pc_hit dm' d i (tab' ! j)"
  shows "pc_lookup dm' tab' d i = pc_lookup dm tab d i"
proof (cases "pc_lookup dm tab d i")
  case (Some j)
  then have "pc_lookup dm' tab' d i = Some j"
    using assms(3) [of j] by (simp add: lookup_iff [OF assms(1)] lookup_iff [OF assms(2)])
  then show ?thesis using Some by simp
next
  case None
  have "\<not> (j < PC_NPAGES \<and> pc_hit dm' d i (tab' ! j))" for j using pc_lookup_None [OF None] assms(3) by blast
  then have "pc_lookup dm' tab' d i \<noteq> Some j" for j using assms(2) by (simp add: lookup_iff)
  then show ?thesis using None by auto
qed

lemma claim_scan_found:
  "claim_scan tab js oldest idx = Some j \<Longrightarrow> idx = Some j \<or> j \<in> set js \<and> (\<not> pc_uptodate (tab ! j) \<or> \<not> pc_isdirty (tab ! j))"
  by (induction tab js oldest idx rule: claim_scan.induct) (auto split: if_splits)

lemma claim_cases:
  assumes none: "pc_lookup dm tab d i = None" and claim: "pc_claim dm tab d i = (r, tab')"
  obtains (none) "r = None" "tab' = tab"
  | (line) j where "r = Some j" "j < PC_NPAGES" "\<not> pc_isdirty (tab ! j)"
      "tab' = tab[j := (tab ! j)\<lparr>pg_deviceid := d, pg_index := i, pg_generation := 0,
          pg_device_generation := devmgr_get_generation d dm, pg_flags := 0\<rparr>]"
proof (cases "r")
  case None
  then show thesis using assms by (intro none) (auto simp: pc_claim_def split: option.splits if_splits)
next
  case (Some j)
  then have v: "claim_victim tab d i = Some j" "\<not> pc_isdirty (tab ! j)"
    and t: "tab' = tab[j := (tab ! j)\<lparr>pg_deviceid := d, pg_index := i, pg_generation := 0,
          pg_device_generation := devmgr_get_generation d dm, pg_flags := 0\<rparr>]"
    using assms by (auto simp: pc_claim_def split: option.splits if_splits)
  have less: "j < PC_NPAGES"
    using v(1) by (auto simp: claim_victim_def split: option.splits dest!: claim_scan_found probes_less)
  show thesis by (rule line [OF Some less v(2) t])
qed

section \<open>Replacing one line\<close>

lemma tab_ok_update:
  assumes ok: "tab_ok dm content w tab" and j: "j < PC_NPAGES"
    and alone: "\<And>k. pc_current dm p \<Longrightarrow> k < PC_NPAGES \<Longrightarrow> pc_hit dm (pg_deviceid p) (pg_index p) (tab ! k) \<Longrightarrow> k = j"
    and p: "line_ok p" "clean_ok dm content w p"
  shows "tab_ok dm content w (tab[j := p])"
proof -
  have len: "length tab = PC_NPAGES" using ok by (simp add: tab_ok_def)
  have lines: "line_ok (tab[j := p] ! k) \<and> clean_ok dm content w (tab[j := p] ! k)" if "k < PC_NPAGES" for k
    using ok p that len by (cases "k = j") (auto simp: tab_ok_def)
  have "k = l" if kl: "k < PC_NPAGES" "l < PC_NPAGES" and cur: "pc_current dm (tab[j := p] ! k)" "pc_current dm (tab[j := p] ! l)"
      and same: "pg_deviceid (tab[j := p] ! k) = pg_deviceid (tab[j := p] ! l)" "pg_index (tab[j := p] ! k) = pg_index (tab[j := p] ! l)" for k l
  proof -
    consider "k = j" "l = j" | "k = j" "l \<noteq> j" | "k \<noteq> j" "l = j" | "k \<noteq> j" "l \<noteq> j" by blast
    then show "k = l"
    proof cases
      case 2 then show ?thesis using alone [of l] kl cur same len by (auto simp: pc_hit_current)
    next
      case 3 then show ?thesis using alone [of k] kl cur same len by (auto simp: pc_hit_current)
    next
      case 4 then show ?thesis using tab_ok_unique [OF ok kl] cur same by (simp add: pc_hit_current)
    qed simp
  qed
  then show ?thesis using lines len unfolding tab_ok_def by auto
qed

lemma lookup_update:
  assumes ok: "tab_ok dm content w tab" and ok': "tab_ok dm content w (tab[j := p])" and j: "j < PC_NPAGES"
  shows "pc_lookup dm (tab[j := p]) d i =
    (if pc_hit dm d i p then Some j else if pc_lookup dm tab d i = Some j then None else pc_lookup dm tab d i)"
proof -
  have len: "length tab = PC_NPAGES" using ok by (simp add: tab_ok_def)
  show ?thesis
  proof (cases "pc_hit dm d i p")
    case True
    then show ?thesis using lookup_iff [OF ok', of d i j] j len by simp
  next
    case hit: False
    show ?thesis
    proof (cases "pc_lookup dm tab d i")
      case None
      have "pc_lookup dm (tab[j := p]) d i \<noteq> Some k" for k
        using pc_lookup_None [OF None, of k] hit len by (cases "k = j") (auto simp: lookup_iff [OF ok'])
      then show ?thesis using None hit by (cases "pc_lookup dm (tab[j := p]) d i") auto
    next
      case (Some k)
      have "pc_lookup dm (tab[j := p]) d i \<noteq> Some l" if "l \<noteq> k \<or> k = j" for l
      proof
        assume "pc_lookup dm (tab[j := p]) d i = Some l"
        then have l: "l < PC_NPAGES" "pc_hit dm d i (tab[j := p] ! l)" by (auto simp: lookup_iff [OF ok'])
        then have "l \<noteq> j" using hit len by auto
        then have "pc_lookup dm tab d i = Some l" using l by (simp add: lookup_iff [OF ok])
        then show False using Some that \<open>l \<noteq> j\<close> by auto
      qed
      moreover have "pc_lookup dm (tab[j := p]) d i = Some k" if "k \<noteq> j"
        using Some that by (simp add: lookup_iff [OF ok'] lookup_iff [OF ok])
      ultimately show ?thesis using Some hit by (cases "pc_lookup dm (tab[j := p]) d i") auto
    qed
  qed
qed

lemma filter_update_length:
  "j < length xs \<Longrightarrow> length (filter P (xs[j := x])) + (if P (xs ! j) then 1 else 0) = length (filter P xs) + (if P x then 1 else 0)"
proof (induction xs arbitrary: j)
  case (Cons y ys)
  then show ?case using Cons.IH [of "j - 1"] by (cases j) (simp_all split: if_splits)
qed simp

lemma page_index: "a < 2 ^ 64 \<Longrightarrow> unat (of_nat (a div PC_SIZE) :: u64) = a div PC_SIZE"
  by (simp add: PC_SIZE_def unat_of_nat)

text \<open>A clean line that a lookup finds shows what the device holds.\<close>

lemma clean_view:
  assumes ok: "tab_ok dm content w tab" and l: "pc_lookup dm tab d (of_nat (a div PC_SIZE)) = Some j"
    and cl: "\<not> pc_isdirty (tab ! j)" and a: "a < 2 ^ 64"
  shows "pg_data (tab ! j) ! (a mod PC_SIZE) = content d w a"
proof -
  have j: "j < PC_NPAGES" "pc_hit dm d (of_nat (a div PC_SIZE)) (tab ! j)" using lookup_Some [OF l] by auto
  have "pg_data (tab ! j) = byte_range (content d w) (a div PC_SIZE * PC_SIZE) PC_SIZE"
    using ok j cl page_index [OF a] by (auto simp: tab_ok_def clean_ok_def pc_hit_current)
  moreover have "a mod PC_SIZE < PC_SIZE" by (simp add: PC_SIZE_def)
  ultimately show ?thesis by (simp add: div_mult_mod_eq)
qed

text \<open>
  The effect of replacing a line on what a client sees: only the page of the new line changes, because a
  line that is not dirty agrees with the device.
\<close>

lemma view_update:
  assumes ok: "tab_ok dm content (pc_world s) (pc_tab s)" and ok': "tab_ok dm content (pc_world s) ((pc_tab s)[j := p])"
    and j: "j < PC_NPAGES" and a: "a < 2 ^ 64"
    and victim: "\<not> pc_isdirty (pc_tab s ! j) \<or> pc_lookup dm (pc_tab s) d (of_nat (a div PC_SIZE)) \<noteq> Some j \<or> pc_hit dm d (of_nat (a div PC_SIZE)) p"
    and s': "pc_tab s' = (pc_tab s)[j := p]" "pc_world s' = pc_world s"
  shows "pc_view dm content s' d a =
    (if pc_hit dm d (of_nat (a div PC_SIZE)) p then pg_data p ! (a mod PC_SIZE) else pc_view dm content s d a)"
proof -
  have len: "length (pc_tab s) = PC_NPAGES" using ok by (simp add: tab_ok_def)
  have "pg_data (pc_tab s ! j) ! (a mod PC_SIZE) = content d (pc_world s) a"
    if "\<not> pc_hit dm d (of_nat (a div PC_SIZE)) p" "pc_lookup dm (pc_tab s) d (of_nat (a div PC_SIZE)) = Some j"
    using clean_view [OF ok that(2) _ a] victim that by blast
  then show ?thesis using j len
    by (auto simp: pc_view_def s' lookup_update [OF ok ok' j] split: option.splits)
qed

section \<open>Steps that a client does not see\<close>

definition pc_keeps :: "'d registry \<Rightarrow> (int \<Rightarrow> 'd \<Rightarrow> nat \<Rightarrow> u8) \<Rightarrow> ('d \<Rightarrow> bool) \<Rightarrow> 'd pcache \<Rightarrow> 'd pcache \<Rightarrow> bool" where
  "pc_keeps dm content wfd s s' \<longleftrightarrow> (pc_ok dm content wfd s \<longrightarrow> pc_ok dm content wfd s' \<and>
     (\<forall>d a. a < 2 ^ 64 \<longrightarrow> pc_view dm content s' d a = pc_view dm content s d a) \<and>
     (\<forall>d. content d (pc_world s') = content d (pc_world s)))"

lemma pc_keeps_refl [simp]: "pc_keeps dm content wfd s s" by (simp add: pc_keeps_def)

lemma keeps_okI: "(pc_ok dm content wfd s \<Longrightarrow> pc_keeps dm content wfd s s') \<Longrightarrow> pc_keeps dm content wfd s s'"
  by (auto simp: pc_keeps_def)

lemma pc_ok_length: "pc_ok dm content wfd s \<Longrightarrow> length (pc_tab s) = PC_NPAGES"
  by (simp add: pc_ok_def tab_ok_def)

lemma pc_keeps_trans: "pc_keeps dm content wfd a b \<Longrightarrow> pc_keeps dm content wfd b c \<Longrightarrow> pc_keeps dm content wfd a c"
  unfolding pc_keeps_def by metis

lemma pc_keepsD:
  assumes "pc_keeps dm content wfd s s'" "pc_ok dm content wfd s"
  shows "pc_ok dm content wfd s'" "a < 2 ^ 64 \<Longrightarrow> pc_view dm content s' d a = pc_view dm content s d a"
    "content d (pc_world s') = content d (pc_world s)"
  using assms unfolding pc_keeps_def by metis+

text \<open>States that agree on everything the invariant looks at but the table and the dirty count.\<close>

definition same_env :: "'d pcache \<Rightarrow> 'd pcache \<Rightarrow> bool" where
  "same_env s s' \<longleftrightarrow> pc_alloc s' = pc_alloc s \<and> pc_bsz s' = pc_bsz s \<and> pc_bsz_generation s' = pc_bsz_generation s \<and> pc_world s' = pc_world s"

lemma keeps_fields:
  assumes "same_env s s'" "pc_tab s' = pc_tab s" "pc_dirty s' = pc_dirty s"
  shows "pc_keeps dm content wfd s s'"
  using assms by (simp add: pc_keeps_def pc_ok_def same_env_def bsz_ok_def pc_view_def split: option.split)

lemma pc_ok_replace:
  assumes ok: "pc_ok dm content wfd s" and j: "j < PC_NPAGES"
    and alone: "\<And>k. pc_current dm p \<Longrightarrow> k < PC_NPAGES \<Longrightarrow> pc_hit dm (pg_deviceid p) (pg_index p) (pc_tab s ! k) \<Longrightarrow> k = j"
    and p: "line_ok p" "clean_ok dm content (pc_world s) p"
    and s': "same_env s s'" "pc_tab s' = (pc_tab s)[j := p]"
    and cnt: "unat (pc_dirty s') + (if pc_isdirty (pc_tab s ! j) then 1 else 0) = unat (pc_dirty s) + (if pc_isdirty p then 1 else 0)"
  shows "pc_ok dm content wfd s'" and "tab_ok dm content (pc_world s) ((pc_tab s)[j := p])"
proof -
  have t: "tab_ok dm content (pc_world s) (pc_tab s)" using ok by (simp add: pc_ok_def)
  show t': "tab_ok dm content (pc_world s) ((pc_tab s)[j := p])" by (rule tab_ok_update [OF t j alone p])
  have "j < length (pc_tab s)" using t j by (simp add: tab_ok_def)
  from filter_update_length [OF this, of pc_isdirty p] cnt ok
  have "unat (pc_dirty s') = length (filter pc_isdirty ((pc_tab s)[j := p]))" by (auto simp: pc_ok_def split: if_splits)
  then show "pc_ok dm content wfd s'" using ok s' t' by (simp add: pc_ok_def same_env_def bsz_ok_def)
qed

text \<open>Replacing a line that is not dirty by a clean line, or a line by one with the same content.\<close>

lemma keeps_replace:
  assumes j: "j < PC_NPAGES"
    and alone: "\<And>k. pc_ok dm content wfd s \<Longrightarrow> pc_current dm p \<Longrightarrow> k < PC_NPAGES \<Longrightarrow> pc_hit dm (pg_deviceid p) (pg_index p) (pc_tab s ! k) \<Longrightarrow> k = j"
    and p: "pc_ok dm content wfd s \<Longrightarrow> line_ok p" "pc_ok dm content wfd s \<Longrightarrow> clean_ok dm content (pc_world s) p"
    and s': "same_env s s'" "pc_tab s' = (pc_tab s)[j := p]" "pc_dirty s' = pc_dirty s"
    and clean: "\<not> pc_isdirty (pc_tab s ! j)" "\<not> pc_isdirty p"
    and fresh: "pc_current dm p \<Longrightarrow> pc_lookup dm (pc_tab s) (pg_deviceid p) (pg_index p) = None"
  shows "pc_keeps dm content wfd s s'"
  unfolding pc_keeps_def
proof (intro impI conjI allI)
  assume ok: "pc_ok dm content wfd s"
  have t: "tab_ok dm content (pc_world s) (pc_tab s)" using ok by (simp add: pc_ok_def)
  have r: "pc_ok dm content wfd s'" "tab_ok dm content (pc_world s) ((pc_tab s)[j := p])"
    using pc_ok_replace [OF ok j alone [OF ok] p(1) [OF ok] p(2) [OF ok] s'(1,2)] clean s'(3) by simp_all
  show "pc_ok dm content wfd s'" by (rule r)
  show "content d (pc_world s') = content d (pc_world s)" for d using s'(1) by (simp add: same_env_def)
  fix d a assume a: "a < (2 ^ 64 :: nat)"
  have w: "pc_world s' = pc_world s" using s'(1) by (simp add: same_env_def)
  have v: "pc_view dm content s' d a =
    (if pc_hit dm d (of_nat (a div PC_SIZE)) p then pg_data p ! (a mod PC_SIZE) else pc_view dm content s d a)"
    by (rule view_update [OF t r(2) j a disjI1 [OF clean(1)] s'(2) w])
  show "pc_view dm content s' d a = pc_view dm content s d a"
  proof (cases "pc_hit dm d (of_nat (a div PC_SIZE)) p")
    case True
    then have h: "pc_current dm p" "pg_deviceid p = d" "pg_index p = of_nat (a div PC_SIZE)" by (auto simp: pc_hit_current)
    have "pg_data p = byte_range (content d (pc_world s)) (a div PC_SIZE * PC_SIZE) PC_SIZE"
      using p(2) [OF ok] h clean(2) page_index [OF a] by (simp add: clean_ok_def)
    moreover have "a mod PC_SIZE < PC_SIZE" by (simp add: PC_SIZE_def)
    ultimately have "pg_data p ! (a mod PC_SIZE) = content d (pc_world s) a" by (simp add: div_mult_mod_eq)
    then show ?thesis using v True fresh [OF h(1)] h by (simp add: pc_view_def)
  qed (simp add: v)
qed

lemma touch_line_simps [simp]:
  "pc_tab (touch_line j f s) = (pc_tab s)[j := (f (pc_tab s ! j))\<lparr>pg_age := pc_clock s + 1\<rparr>]"
  "pc_dirty (touch_line j f s) = pc_dirty s" "same_env s (touch_line j f s)"
  "pc_world (touch_line j f s) = pc_world s" "pc_fills (touch_line j f s) = pc_fills s" "pc_mallocs (touch_line j f s) = pc_mallocs s"
  by (simp_all add: touch_line_def upd_line_def same_env_def)

lemma age_simps [simp]:
  "pc_uptodate (p\<lparr>pg_age := t\<rparr>) = pc_uptodate p" "pc_isdirty (p\<lparr>pg_age := t\<rparr>) = pc_isdirty p" "pc_current dm (p\<lparr>pg_age := t\<rparr>) = pc_current dm p"
  "pc_hit dm d i (p\<lparr>pg_age := t\<rparr>) = pc_hit dm d i p" "line_ok (p\<lparr>pg_age := t\<rparr>) = line_ok p"
  "clean_ok dm content w (p\<lparr>pg_age := t\<rparr>) = clean_ok dm content w p"
  by (simp_all add: pc_uptodate_def pc_isdirty_def pc_current_def pc_hit_def line_ok_def clean_ok_def)

lemma touch_ok:
  assumes ok: "pc_ok dm content wfd s" and j: "j < PC_NPAGES"
  shows "pc_ok dm content wfd (touch_line j (\<lambda>p. p) s)"
    and "pc_lookup dm (pc_tab (touch_line j (\<lambda>p. p) s)) d i = pc_lookup dm (pc_tab s) d i"
proof -
  let ?p = "(pc_tab s ! j)\<lparr>pg_age := pc_clock s + 1\<rparr>" and ?s = "touch_line j (\<lambda>p. p) s"
  have t: "tab_ok dm content (pc_world s) (pc_tab s)" using ok by (simp add: pc_ok_def)
  have lines: "line_ok (pc_tab s ! j)" "clean_ok dm content (pc_world s) (pc_tab s ! j)" using t j by (auto simp: tab_ok_def)
  have alone: "k = j" if "pc_current dm ?p" "k < PC_NPAGES" "pc_hit dm (pg_deviceid ?p) (pg_index ?p) (pc_tab s ! k)" for k
    using tab_ok_unique [OF t that(2) j that(3)] that(1) by (simp add: pc_hit_current)
  have r: "pc_ok dm content wfd ?s" "tab_ok dm content (pc_world s) ((pc_tab s)[j := ?p])"
    using lines alone by (intro pc_ok_replace [OF ok j, of ?p ?s]; simp)+
  show "pc_ok dm content wfd ?s" by (rule r)
  show "pc_lookup dm (pc_tab ?s) d i = pc_lookup dm (pc_tab s) d i"
    using t r(2) by (intro lookup_eqI [OF t, of dm content "pc_world s"]) (auto simp: nth_update_if)
qed

lemma keeps_touch:
  assumes j: "j < PC_NPAGES" shows "pc_keeps dm content wfd s (touch_line j (\<lambda>p. p) s)"
proof (rule keeps_okI)
  assume ok: "pc_ok dm content wfd s"
  have l: "pc_lookup dm ((pc_tab s)[j := (pc_tab s ! j)\<lparr>pg_age := pc_clock s + 1\<rparr>]) d i = pc_lookup dm (pc_tab s) d i" for d i
    using touch_ok(2) [OF ok j, of d i] by simp
  show "pc_keeps dm content wfd s (touch_line j (\<lambda>p. p) s)"
    using touch_ok(1) [OF ok j] by (simp add: pc_keeps_def pc_view_def l nth_update_if split: option.split)
qed

section \<open>Filling\<close>

lemma flag_simps [simp]:
  "pc_uptodate p \<longleftrightarrow> pg_flags p AND 1 \<noteq> 0" "pc_isdirty p \<longleftrightarrow> pg_flags p AND 2 \<noteq> 0"
  by (simp_all add: pc_uptodate_def pc_isdirty_def PC_UPTODATE_def PC_DIRTY_def)

lemma keeps_fill_one:
  assumes gen: "gen = devmgr_get_generation d dm" "gen \<noteq> 0" and idx: "unat index < 2 ^ 52"
    and page: "page = byte_range (content d (pc_world s)) (unat index * PC_SIZE) PC_SIZE"
  shows "pc_keeps dm content wfd s (fill_one dm d gen index page s)"
proof (cases "pc_lookup dm (pc_tab s) d index")
  case None
  obtain r tab where c: "pc_claim dm (pc_tab s) d index = (r, tab)" by fastforce
  from None c show ?thesis
  proof (cases rule: claim_cases)
    case none
    then show ?thesis by (simp add: fill_one_def None c keeps_fields same_env_def)
  next
    case (line j)
    let ?p = "(pc_tab s ! j)\<lparr>pg_deviceid := d, pg_index := index, pg_generation := 0,
      pg_device_generation := gen, pg_data := page, pg_flags := PC_UPTODATE, pg_age := pc_clock s + 1\<rparr>"
    let ?s = "fill_one dm d gen index page s"
    have cur: "pc_current dm ?p" using gen by (simp add: pc_current_def blkcache_device_key_is_current_def PC_UPTODATE_def)
    have e: "?s = (touch_line j (\<lambda>p. p\<lparr>pg_device_generation := gen, pg_data := page, pg_flags := PC_UPTODATE\<rparr>) (s\<lparr>pc_tab := tab\<rparr>))
         \<lparr>pc_fills := pc_fills s + 1\<rparr>"
      by (simp add: fill_one_def None c line(1))
    show ?thesis
    proof (rule keeps_okI, rule keeps_replace [of j _ _ _ _ ?p])
      assume ok: "pc_ok dm content wfd s"
      show "k = j" if "k < PC_NPAGES" "pc_hit dm (pg_deviceid ?p) (pg_index ?p) (pc_tab s ! k)" for k
        using pc_lookup_None [OF None that(1)] that(2) by simp
      show "line_ok ?p" using idx page by (simp add: line_ok_def)
      show "clean_ok dm content (pc_world s) ?p" using page by (simp add: clean_ok_def)
      show "same_env s ?s" by (simp add: e same_env_def touch_line_def upd_line_def)
      show "pc_tab ?s = (pc_tab s)[j := ?p]" using pc_ok_length [OF ok] line by (simp add: e)
    qed (use line None in \<open>simp_all add: e PC_UPTODATE_def\<close>)
  qed
qed (simp add: fill_one_def)

lemma keeps_fill_insert:
  assumes gen: "gen = devmgr_get_generation d dm" "gen \<noteq> 0"
    and pages: "\<And>k. k < length run \<Longrightarrow> unat (run ! k) < 2 ^ 52 \<and>
       mem_get bounce ((i + k) * PC_SIZE) PC_SIZE = byte_range (content d (pc_world s)) (unat (run ! k) * PC_SIZE) PC_SIZE"
  shows "pc_keeps dm content wfd s (fill_insert dm d gen run i bounce s)"
  using pages
proof (induction run arbitrary: i s)
  case (Cons index run)
  let ?s = "fill_one dm d gen index (mem_get bounce (i * PC_SIZE) PC_SIZE) s"
  have one: "pc_keeps dm content wfd s ?s"
    using Cons.prems [of 0] by (intro keeps_fill_one [OF gen]) simp_all
  show ?case
  proof (rule keeps_okI)
    assume ok: "pc_ok dm content wfd s"
    have c: "content d (pc_world ?s) = content d (pc_world s)" by (rule pc_keepsD(3) [OF one ok])
    have "pc_keeps dm content wfd ?s (fill_insert dm d gen run (Suc i) bounce ?s)"
      using Cons.prems [of "Suc k" for k] by (intro Cons.IH) (simp add: c)
    then show "pc_keeps dm content wfd s (fill_insert dm d gen (index # run) i bounce s)"
      using pc_keeps_trans [OF one] by simp
  qed
qed simp

lemma block_size_valid: "pc_valid_bsize (block_size ops)"
  by (auto simp: block_size_def pc_valid_bsize_def split: option.split)

lemma block_size_cases:
  obtains "unat (block_size ops) = 512" "block_size ops = 512" | "unat (block_size ops) = 1024" "block_size ops = 1024"
  | "unat (block_size ops) = 2048" "block_size ops = 2048" | "unat (block_size ops) = 4096" "block_size ops = 4096"
  using block_size_valid [of ops] by (auto simp: pc_valid_bsize_def)

lemma dev_block_ref:
  assumes "dev_block dm d = Some ops"
  obtains b where "dev_ref dm d = Some b" "dv_ops b = Some ops" "0 \<le> d" "d < int MAXDEVICES"
proof -
  obtain b where b: "dev_ref dm d = Some b" "dv_ops b = Some ops"
    using assms by (auto simp: dev_block_def split: option.splits if_splits)
  then have "dev_slot d dm \<noteq> None" by (auto simp: dev_ref_def devmgr_getdevice_ref_def split: if_splits)
  then have "0 \<le> d" "d < int MAXDEVICES" by (auto simp: dev_slot_def split: if_splits)
  with b show thesis by (rule that)
qed

lemma set_bsize_simps [simp]:
  "pc_tab (set_bsize d sz gen s) = pc_tab s" "pc_world (set_bsize d sz gen s) = pc_world s" "pc_dirty (set_bsize d sz gen s) = pc_dirty s"
  "pc_alloc (set_bsize d sz gen s) = pc_alloc s" "pc_mallocs (set_bsize d sz gen s) = pc_mallocs s"
  by (simp_all add: set_bsize_def)

lemma bsz_ok_set:
  assumes "bsz_ok dm s" and d: "0 \<le> d" "d < int MAXDEVICES"
    and sz: "\<And>ops. pc_valid_bsize sz \<Longrightarrow> dev_block dm d = Some ops \<Longrightarrow> sz = block_size ops"
  shows "bsz_ok dm (set_bsize d sz gen s)"
proof (cases "gen \<noteq> 0 \<and> pc_valid_bsize sz")
  case True
  then show ?thesis using assms by (auto simp: bsz_ok_def set_bsize_def nth_update_if)
qed (use assms in \<open>auto simp: set_bsize_def\<close>)

lemma bsz_ok_bsize: "bsz_ok dm s \<Longrightarrow> bsz_ok dm (snd (pc_bsize dm d s))"
  unfolding pc_bsize_def by (auto simp: Let_def dev_block_def split: option.splits if_splits intro!: bsz_ok_set)

lemma bsz_ok_remember: "bsz_ok dm s \<Longrightarrow> bsz_ok dm (pc_remember_bsize dm d s)"
  unfolding pc_remember_bsize_def by (auto simp: Let_def dev_block_def block_size_def split: option.splits if_splits intro!: bsz_ok_set)

lemma bsize_simps [simp]:
  "pc_tab (snd (pc_bsize dm d s)) = pc_tab s" "pc_world (snd (pc_bsize dm d s)) = pc_world s"
  "pc_tab (pc_remember_bsize dm d s) = pc_tab s" "pc_world (pc_remember_bsize dm d s) = pc_world s"
  "pc_mallocs (snd (pc_bsize dm d s)) = pc_mallocs s" "pc_mallocs (pc_remember_bsize dm d s) = pc_mallocs s"
  "pc_alloc (snd (pc_bsize dm d s)) = pc_alloc s" "pc_alloc (pc_remember_bsize dm d s) = pc_alloc s"
  "pc_dirty (snd (pc_bsize dm d s)) = pc_dirty s" "pc_dirty (pc_remember_bsize dm d s) = pc_dirty s"
  by (auto simp: pc_bsize_def pc_remember_bsize_def Let_def split: option.split)

lemma bsz_keeps:
  assumes "pc_tab s' = pc_tab s" "pc_world s' = pc_world s" "pc_dirty s' = pc_dirty s" "pc_alloc s' = pc_alloc s" "bsz_ok dm s \<Longrightarrow> bsz_ok dm s'"
  shows "pc_keeps dm content wfd s s'"
  using assms by (simp add: pc_keeps_def pc_ok_def pc_view_def split: option.split)

lemma keeps_bsize: "pc_keeps dm content wfd s (snd (pc_bsize dm d s))"
  by (rule bsz_keeps) (simp_all add: bsz_ok_bsize)

lemma keeps_remember: "pc_keeps dm content wfd s (pc_remember_bsize dm d s)"
  by (rule bsz_keeps) (simp_all add: bsz_ok_remember)

lemma bsz_value:
  assumes ok: "bsz_ok dm s" and ops: "dev_block dm d = Some ops"
  shows "fst (pc_bsize dm d s) = block_size ops"
proof -
  obtain b where b: "dev_ref dm d = Some b" "dv_ops b = Some ops" "0 \<le> d" "d < int MAXDEVICES" using dev_block_ref [OF ops] .
  have "pc_bsz s ! nat d = block_size ops" if "pc_bsz s ! nat d \<noteq> 0" "pc_bsz_generation s ! nat d = devmgr_get_generation d dm"
  proof -
    have "\<forall>i < MAXDEVICES. \<forall>ops. dev_block dm (int i) = Some ops \<longrightarrow> pc_bsz s ! i \<noteq> 0 \<longrightarrow>
        pc_bsz_generation s ! i = devmgr_get_generation (int i) dm \<longrightarrow> pc_bsz s ! i = block_size ops"
      using ok unfolding bsz_ok_def by (elim conjE)
    from this [rule_format, of "nat d" ops] show ?thesis using that ops b by simp
  qed
  then show ?thesis using b by (auto simp: pc_bsize_def Let_def)
qed

lemma bsize_value: "pc_ok dm content wfd s \<Longrightarrow> dev_block dm d = Some ops \<Longrightarrow> fst (pc_bsize dm d s) = block_size ops"
  by (simp add: bsz_value pc_ok_def)

lemma mem_get_byte_range: "off + n \<le> m \<Longrightarrow> mem_get (byte_range c a m) off n = byte_range c (a + off) n"
  by (rule nth_equalityI) (simp_all add: add.assoc)

lemma drop_pages: "\<exists>a'. drop m (map of_nat [a..<b] :: u64 list) = map of_nat [a'..<b] \<and> a \<le> a'"
  by (simp add: drop_map drop_upt) (metis le_add1)

lemma pages_Cons:
  assumes "pg # rest = (map of_nat [a..<b] :: u64 list)" shows "pg = of_nat a" "a < b" "rest = map of_nat [Suc a..<b]"
  using assms by (cases "a < b"; simp add: upt_conv_Cons)+

lemma page_sectors:
  "i < 2 ^ 52 \<Longrightarrow> unat (of_nat i * ucast (of_nat PC_SIZE div block_size ops :: u32) :: u64) * unat (block_size ops) = i * PC_SIZE"
  "n \<le> 4096 \<Longrightarrow> unat (of_nat n * (of_nat PC_SIZE div block_size ops) :: u32) * unat (block_size ops) = n * PC_SIZE"
  by (rule block_size_cases [of ops]; simp add: PC_SIZE_def unat_word_ariths unat_of_nat)+

section \<open>Copying\<close>

lemma byte_range_0 [simp]: "byte_range c a 0 = []" by (simp add: byte_range_def)

lemma byte_range_add: "byte_range c a (m + n) = byte_range c a m @ byte_range c (a + m) n"
  by (rule nth_equalityI) (auto simp: nth_append)

lemma byte_range_cong: "(\<And>x. a \<le> x \<Longrightarrow> x < a + n \<Longrightarrow> c x = c' x) \<Longrightarrow> byte_range c a n = byte_range c' a n"
  by (rule nth_equalityI) auto

text \<open>The pieces of the byte range from \<open>a\<close> to \<open>b\<close> of a request that starts at \<open>off\<close>.\<close>

fun spans :: "nat \<Rightarrow> nat \<Rightarrow> nat \<Rightarrow> (u64 \<times> nat \<times> nat \<times> nat) list \<Rightarrow> bool" where
  "spans off a b [] \<longleftrightarrow> a = b"
| "spans off a b ((i, poff, n, pos) # cs) \<longleftrightarrow> a < b \<and> i = of_nat (a div PC_SIZE) \<and> poff = a mod PC_SIZE \<and>
     n = min (PC_SIZE - poff) (b - a) \<and> pos = a - off \<and> spans off (a + n) b cs"

lemma spans_chunks:
  "unat off + unat nb \<le> 2 ^ 64 \<Longrightarrow> unat nb \<le> 2 ^ 32 \<Longrightarrow> unat pos \<le> unat nb \<Longrightarrow>
   spans (unat off) (unat off + unat pos) (unat off + unat nb) (pc_chunks off nb pos)"
proof (induction off nb pos rule: pc_chunks.induct)
  case (1 off nb pos)
  show ?case
  proof (cases "pos < nb")
    case False
    then have "unat pos = unat nb" using 1(4) by (simp add: word_less_nat_alt)
    then show ?thesis using False by (subst pc_chunks.simps) simp
  next
    case True
    define poff where "poff = unat ((off + pos) AND 0xFFF)"
    define n where "n = (if of_nat (PC_SIZE - poff) > nb - pos then unat (nb - pos) else PC_SIZE - poff)"
    note adv = chunk_advance [OF True n_def [unfolded poff_def]]
    have lt: "unat pos < unat nb" using True by (simp add: word_less_nat_alt)
    have sum: "unat (off + pos) = unat off + unat pos" using 1(2) lt by (simp add: unat_word_ariths)
    have d: "unat (nb - pos) = unat nb - unat pos" using True by (simp add: unat_sub less_imp_le)
    have po: "poff = (unat off + unat pos) mod PC_SIZE" by (simp add: poff_def page_offset sum)
    have i: "drop_bit 12 (off + pos) = of_nat ((unat off + unat pos) div PC_SIZE)"
      using 1(2) lt by (intro word_unat_eq_iff [THEN iffD2]) (simp add: unat_drop_bit sum PC_SIZE_def unat_of_nat)
    have ps: "unat (ucast pos :: u32) = unat pos" using 1(3) lt by (subst unat_ucast_eq) simp_all
    have IH: "spans (unat off) (unat off + unat (pos + of_nat n)) (unat off + unat nb) (pc_chunks off nb (pos + of_nat n))"
      using 1(1) [OF True poff_def n_def] 1(2,3) adv(4) by simp
    have e: "pc_chunks off nb pos = (drop_bit 12 (off + pos), poff, n, unat (ucast pos :: u32)) # pc_chunks off nb (pos + of_nat n)"
      using True by (subst pc_chunks.simps) (simp add: Let_def poff_def n_def)
    have IH': "spans (unat off) (unat off + unat pos + n) (unat off + unat nb) (pc_chunks off nb (pos + of_nat n))"
      using IH unfolding adv(3) add.assoc .
    have n': "n = min (PC_SIZE - poff) (unat off + unat nb - (unat off + unat pos))" using adv(5) d by (simp add: poff_def)
    show ?thesis unfolding e spans.simps
      by (intro conjI IH' n' i po) (use lt ps in simp_all)
  qed
qed

lemma page_of: "a mod PC_SIZE + x < PC_SIZE \<Longrightarrow> (a + x) div PC_SIZE = a div PC_SIZE \<and> (a + x) mod PC_SIZE = a mod PC_SIZE + x"
proof -
  assume *: "a mod PC_SIZE + x < PC_SIZE"
  have "a + x = a div PC_SIZE * PC_SIZE + (a mod PC_SIZE + x)" by (simp add: div_mult_mod_eq)
  then show ?thesis using * by (metis div_mult_self3 div_less mod_less mod_mult_self3 add_0_right gr_implies_not0 add.commute)
qed

lemma copy_chunks_view:
  assumes "spans off a b cs" "off \<le> a" "b \<le> 2 ^ 64" "length dst = b - off" "pc_ok dm content wfd s"
  shows "pc_keeps dm content wfd s (snd (copy_chunks dm d cs dst s)) \<and>
    (\<forall>r. fst (copy_chunks dm d cs dst s) = Some r \<longrightarrow> r = take (a - off) dst @ byte_range (pc_view dm content s d) a (b - a)) \<and>
    ((\<forall>(i, _) \<in> set cs. pc_cached dm d s i) \<longrightarrow> fst (copy_chunks dm d cs dst s) \<noteq> None)"
  using assms
proof (induction cs arbitrary: a dst s)
  case (Cons c cs)
  obtain i poff n pos where c: "c = (i, poff, n, pos)" by (metis prod_cases4)
  show ?case
  proof (cases "pc_lookup dm (pc_tab s) d i")
    case None
    then show ?thesis by (simp add: c pc_cached_def)
  next
    case (Some j)
    have sp: "a < b" "i = of_nat (a div PC_SIZE)" "poff = a mod PC_SIZE" "n = min (PC_SIZE - poff) (b - a)" "pos = a - off" "spans off (a + n) b cs"
      using Cons.prems(1) by (auto simp: c)
    have j: "j < PC_NPAGES" using lookup_Some [OF Some] by simp
    let ?s = "touch_line j (\<lambda>p. p) s" and ?x = "mem_get (pg_data (pc_tab s ! j)) poff n"
    have ok': "pc_ok dm content wfd ?s" by (rule touch_ok(1) [OF Cons.prems(5) j])
    have k: "pc_keeps dm content wfd s ?s" by (rule keeps_touch [OF j])
    have len: "length (pg_data (pc_tab s ! j)) = PC_SIZE" using Cons.prems(5) j by (auto simp: pc_ok_def tab_ok_def line_ok_def)
    have pl: "poff < PC_SIZE" by (simp add: sp(3) PC_SIZE_def)
    have n: "n \<le> b - a" "poff + n \<le> PC_SIZE" using sp(4) pl by auto
    have x: "?x = byte_range (pc_view dm content s d) a n"
    proof (rule byte_rangeI [symmetric])
      show "length ?x = n" using len n by simp
      show "?x ! k = pc_view dm content s d (a + k)" if "k < n" for k
        using that n len Some page_of [of a k] sp(2,3) by (simp add: pc_view_def)
    qed
    let ?d = "mem_put dst pos ?x"
    have ld: "length ?d = b - off" using Cons.prems(2,4) sp(1,5) n len by simp
    note IH = Cons.IH [OF sp(6) _ Cons.prems(3) ld ok']
    have t: "take (a + n - off) ?d = take (a - off) dst @ ?x"
      using Cons.prems(2,4) sp(1,5) n len by (simp add: mem_put_def)
    have v: "byte_range (pc_view dm content ?s d) (a + n) (b - (a + n)) = byte_range (pc_view dm content s d) (a + n) (b - (a + n))"
      using pc_keepsD(2) [OF k Cons.prems(5)] Cons.prems(3) by (intro byte_range_cong) simp
    have join: "byte_range (pc_view dm content s d) a n @ byte_range (pc_view dm content s d) (a + n) (b - (a + n))
        = byte_range (pc_view dm content s d) a (b - a)"
      using byte_range_add [of _ a n "b - (a + n)"] n sp(1) by simp
    have ca: "pc_cached dm d ?s i' = pc_cached dm d s i'" for i'
      unfolding pc_cached_def by (subst touch_ok(2) [OF Cons.prems(5) j]) simp
    have tot: "take (a + n - off) ?d @ byte_range (pc_view dm content ?s d) (a + n) (b - (a + n))
        = take (a - off) dst @ byte_range (pc_view dm content s d) a (b - a)"
      by (simp only: t v append_assoc, simp only: x join)
    have e: "copy_chunks dm d (c # cs) dst s = copy_chunks dm d cs ?d ?s" by (simp add: c Some)
    have "off \<le> a + n" using Cons.prems(2) by simp
    note IH' = IH [OF this, unfolded tot ca]
    show ?thesis unfolding e using IH' pc_keeps_trans [OF k] by simp
  qed
qed simp

section \<open>Requests\<close>

definition req_start :: "'d block_desc \<Rightarrow> u64 \<Rightarrow> nat" where
  "req_start ops sector = unat sector * unat (block_size ops)"

definition req_len :: "'d block_desc \<Rightarrow> u32 \<Rightarrow> nat" where
  "req_len ops n = unat n * unat (block_size ops)"

text \<open>A request whose byte range does not wrap around and whose buffer is smaller than 4 GiB.\<close>

definition req_ok :: "'d block_desc \<Rightarrow> u64 \<Rightarrow> u32 \<Rightarrow> bool" where
  "req_ok ops sector n \<longleftrightarrow> n \<noteq> 0 \<and> req_start ops sector + req_len ops n \<le> 2 ^ 64 \<and> req_len ops n \<le> 2 ^ 32"

definition req_pages :: "'d block_desc \<Rightarrow> u64 \<Rightarrow> u32 \<Rightarrow> nat set" where
  "req_pages ops sector n = {req_start ops sector div PC_SIZE .. (req_start ops sector + req_len ops n - 1) div PC_SIZE}"

definition page_dirty :: "'d registry \<Rightarrow> 'd pcache \<Rightarrow> int \<Rightarrow> nat \<Rightarrow> bool" where
  "page_dirty dm s d i = (case pc_lookup dm (pc_tab s) d (of_nat i) of None \<Rightarrow> False | Some j \<Rightarrow> pc_isdirty (pc_tab s ! j))"

text \<open>Either the whole range is cached, or nothing in it is waiting to be written back.\<close>

definition settled :: "'d registry \<Rightarrow> 'd pcache \<Rightarrow> int \<Rightarrow> nat set \<Rightarrow> bool" where
  "settled dm s d pages \<longleftrightarrow> (\<forall>i \<in> pages. pc_cached dm d s (of_nat i)) \<or> (\<forall>i \<in> pages. \<not> page_dirty dm s d i)"

lemma settled_one_page: "settled dm s d {i}"
  by (auto simp: settled_def page_dirty_def pc_cached_def split: option.splits)

lemma req_words:
  assumes "req_ok ops sector n"
  shows "unat (sector * ucast (block_size ops)) = req_start ops sector" and "unat (ucast n * ucast (block_size ops) :: u64) = req_len ops n"
    and "0 < req_len ops n"
    and "unat (drop_bit 12 (sector * ucast (block_size ops))) = req_start ops sector div PC_SIZE"
    and "unat (drop_bit 12 (sector * ucast (block_size ops) + ucast n * ucast (block_size ops) - 1)) = (req_start ops sector + req_len ops n - 1) div PC_SIZE"
    and "(req_start ops sector + req_len ops n - 1) div PC_SIZE < 2 ^ 52"
proof -
  have b: "0 < unat (block_size ops)" by (rule block_size_cases [of ops]) simp_all
  have u: "unat (ucast (block_size ops) :: u64) = unat (block_size ops)" "unat (ucast n :: u64) = unat n"
    using unat_u32_bound [of "block_size ops"] unat_u32_bound [of n] by (subst unat_ucast_eq; simp)+
  have n: "0 < unat n" using assms by (simp add: req_ok_def unat_gt_0)
  show pos: "0 < req_len ops n" using b n by (simp add: req_len_def)
  have bnd: "req_start ops sector + req_len ops n \<le> 2 ^ 64" "req_len ops n \<le> 2 ^ 32" using assms by (auto simp: req_ok_def)
  show st: "unat (sector * ucast (block_size ops)) = req_start ops sector"
    using bnd pos by (simp add: unat_word_ariths u req_start_def)
  show ln: "unat (ucast n * ucast (block_size ops) :: u64) = req_len ops n"
    using bnd by (simp add: unat_word_ariths u req_len_def)
  show "unat (drop_bit 12 (sector * ucast (block_size ops))) = req_start ops sector div PC_SIZE"
    by (simp add: unat_drop_bit st PC_SIZE_def)
  let ?len = "ucast n * ucast (block_size ops) :: u64"
  have l1: "unat (?len - 1) = req_len ops n - 1" using pos ln by (metis unat_1 unat_sub_if' Suc_leI One_nat_def)
  have "unat (sector * ucast (block_size ops) + (?len - 1)) = req_start ops sector + (req_len ops n - 1)"
    using bnd pos st l1 by (simp add: unat_word_ariths)
  then have "unat (sector * ucast (block_size ops) + ?len - 1) = req_start ops sector + (req_len ops n - 1)"
    by (simp only: add_diff_eq)
  then show "unat (drop_bit 12 (sector * ucast (block_size ops) + ?len - 1)) = (req_start ops sector + req_len ops n - 1) div PC_SIZE"
    using pos by (simp add: unat_drop_bit PC_SIZE_def)
  show "(req_start ops sector + req_len ops n - 1) div PC_SIZE < 2 ^ 52" using bnd by (simp add: PC_SIZE_def)
qed

lemma spans_pages: "spans off a b cs \<Longrightarrow> (i, x) \<in> set cs \<Longrightarrow> \<exists>k. i = of_nat k \<and> a div PC_SIZE \<le> k \<and> k \<le> (b - 1) div PC_SIZE"
proof (induction cs arbitrary: a)
  case (Cons c cs)
  obtain i' poff n pos where c: "c = (i', poff, n, pos)" by (metis prod_cases4)
  have sp: "a < b" "i' = of_nat (a div PC_SIZE)" "spans off (a + n) b cs" using Cons.prems(1) by (auto simp: c)
  show ?case
  proof (cases "(i, x) = c")
    case True
    moreover have "a div PC_SIZE \<le> (b - 1) div PC_SIZE" using sp(1) by (intro div_le_mono) simp
    ultimately show ?thesis using sp(2) c by auto
  next
    case False
    then obtain k where k: "i = of_nat k" "(a + n) div PC_SIZE \<le> k" "k \<le> (b - 1) div PC_SIZE"
      using Cons.IH [OF sp(3)] Cons.prems(2) by auto
    have "a div PC_SIZE \<le> (a + n) div PC_SIZE" by (rule div_le_mono) simp
    then show ?thesis using k by auto
  qed
qed simp

lemma copy_out_view:
  assumes ok: "pc_ok dm content wfd s" and req: "req_ok ops sector n"
    and co: "pc_copy_out dm d (sector * ucast (block_size ops)) (ucast n * ucast (block_size ops)) s = (res, s')"
  shows "pc_keeps dm content wfd s s'"
    and "res = Some buf \<Longrightarrow> buf = byte_range (pc_view dm content s d) (req_start ops sector) (req_len ops n)"
    and "\<forall>i \<in> req_pages ops sector n. pc_cached dm d s (of_nat i) \<Longrightarrow> res \<noteq> None"
proof -
  note w = req_words [OF req]
  let ?cs = "pc_chunks (sector * ucast (block_size ops)) (ucast n * ucast (block_size ops)) 0"
  have sp: "spans (req_start ops sector) (req_start ops sector) (req_start ops sector + req_len ops n) ?cs"
    using spans_chunks [of "sector * ucast (block_size ops)" "ucast n * ucast (block_size ops)" 0] req w(1,2) by (simp add: req_ok_def)
  have b: "req_start ops sector + req_len ops n \<le> 2 ^ 64" using req by (simp add: req_ok_def)
  note c = copy_chunks_view [OF sp _ b _ ok, of "replicate (req_len ops n) 0" d]
  have co': "copy_chunks dm d ?cs (replicate (req_len ops n) 0) s = (res, s')" using co w(2) by (simp add: pc_copy_out_def)
  show "pc_keeps dm content wfd s s'" using c co' by simp
  show "res = Some buf \<Longrightarrow> buf = byte_range (pc_view dm content s d) (req_start ops sector) (req_len ops n)" using c co' by simp
  assume "\<forall>i \<in> req_pages ops sector n. pc_cached dm d s (of_nat i)"
  then have "\<forall>(i, x) \<in> set ?cs. pc_cached dm d s i" using spans_pages [OF sp] by (fastforce simp: req_pages_def)
  then show "res \<noteq> None" using c co' by simp
qed

text \<open>Where nothing is dirty, the device holds what the client sees.\<close>

lemma undirty_view:
  assumes ok: "pc_ok dm content wfd s" and a: "a < 2 ^ 64" and nd: "\<not> page_dirty dm s d (a div PC_SIZE)"
  shows "pc_view dm content s d a = content d (pc_world s) a"
  using nd clean_view [OF _ _ _ a, of dm content "pc_world s" "pc_tab s" d] ok
  by (auto simp: pc_view_def page_dirty_def pc_ok_def split: option.splits)

lemma undirty_range:
  assumes ok: "pc_ok dm content wfd s" and req: "req_ok ops sector n" and nd: "\<forall>i \<in> req_pages ops sector n. \<not> page_dirty dm s d i"
  shows "byte_range (content d (pc_world s)) (req_start ops sector) (req_len ops n) =
    byte_range (pc_view dm content s d) (req_start ops sector) (req_len ops n)"
proof (rule byte_range_cong)
  fix x assume x: "req_start ops sector \<le> x" "x < req_start ops sector + req_len ops n"
  then have "x div PC_SIZE \<in> req_pages ops sector n" by (auto simp: req_pages_def intro!: div_le_mono)
  moreover have "x < 2 ^ 64" using x req by (simp add: req_ok_def)
  ultimately show "content d (pc_world s) x = pc_view dm content s d x" using undirty_view [OF ok] nd by metis
qed

context block_devices
begin

lemma dev_read_ok:
  assumes wfd: "wfd w" and ops: "dev_block dm d = Some ops" and rd: "pc_dev_read dm d lba n expected w = (res, w')"
  shows "wfd w'" "content d' w' = content d' w"
    and "res = Some (buf, gen) \<Longrightarrow> gen = devmgr_get_generation d dm \<and> gen \<noteq> 0 \<and>
      buf = byte_range (content d w) (unat lba * unat (block_size ops)) (unat n * unat (block_size ops))"
proof -
  have *: "(wfd w' \<and> content d' w' = content d' w) \<and>
    (res = Some (buf, gen) \<longrightarrow> gen = devmgr_get_generation d dm \<and> gen \<noteq> 0 \<and>
      buf = byte_range (content d w) (unat lba * unat (block_size ops)) (unat n * unat (block_size ops)))"
  proof (cases "pc_dev_open dm d expected")
    case None then show ?thesis using rd wfd by (auto simp: pc_dev_read_def)
  next
    case (Some og)
    then have og: "og = (ops, devmgr_get_generation d dm)" "devmgr_get_generation d dm \<noteq> 0"
      using ops by (auto simp: pc_dev_open_def Let_def split: if_splits)
    show ?thesis
    proof (cases "bd_read_block ops")
      case None then show ?thesis using rd wfd Some og by (auto simp: pc_dev_read_def)
    next
      case (Some f)
      obtain r b v where f: "f lba n w = (r, b, v)" by (metis prod_cases3)
      note c = read_contract [OF wfd ops Some f]
      show ?thesis using rd c [of d'] \<open>pc_dev_open dm d expected = Some og\<close> og Some f by (auto simp: pc_dev_read_def split: if_splits)
    qed
  qed
  show "wfd w'" "content d' w' = content d' w" using * by auto
  show "res = Some (buf, gen) \<Longrightarrow> gen = devmgr_get_generation d dm \<and> gen \<noteq> 0 \<and>
      buf = byte_range (content d w) (unat lba * unat (block_size ops)) (unat n * unat (block_size ops))" using * by blast
qed

lemma keeps_world:
  assumes "wfd (pc_world s) \<Longrightarrow> wfd w" "\<And>d. content d w = content d (pc_world s)"
  shows "pc_keeps dm content wfd s (s\<lparr>pc_world := w\<rparr>)"
proof -
  have "clean_ok dm content w p = clean_ok dm content (pc_world s) p" for p by (simp add: clean_ok_def assms(2))
  then show ?thesis using assms by (simp add: pc_keeps_def pc_ok_def tab_ok_def bsz_ok_def pc_view_def split: option.split)
qed

lemma keeps_malloc: "pc_keeps dm content wfd s (snd (pc_malloc s))"
  by (rule keeps_fields) (auto simp: pc_malloc_def same_env_def split: list.split)

lemma keeps_fill_pages:
  assumes ops: "dev_block dm d = Some ops" and b: "b \<le> 2 ^ 52"
  shows "pc_keeps dm content wfd s (snd (fill_pages dm d (of_nat PC_SIZE div block_size ops) (map of_nat [a..<b]) s))"
proof (induction "b - a" arbitrary: a s rule: less_induct)
  case less
  let ?sp = "of_nat PC_SIZE div block_size ops :: u32" and ?P = "\<lambda>pg. \<not> pc_cached dm d s pg"
  show ?case
  proof (cases "dropWhile (pc_cached dm d s) (map of_nat [a..<b])")
    case Nil
    show ?thesis by (subst fill_pages.simps, subst Nil) simp
  next
    case (Cons pg rest)
    obtain a' where a': "pg # rest = map of_nat [a'..<b]" "a \<le> a'"
      using drop_pages [of _ a b] Cons by (metis dropWhile_eq_drop)
    note pg = pages_Cons [OF a'(1)]
    let ?run = "fill_run dm d s (pg # rest)"
    obtain m where m: "?run = take m (map of_nat [a'..<b])" "m \<le> 32"
    proof
      show "?run = take (min 32 (length (takeWhile ?P (pg # rest)))) (map of_nat [a'..<b])"
        unfolding fill_run_def by (subst takeWhile_eq_take) (simp only: a'(1) take_take, simp add: PC_MAX_IO_def PC_SIZE_def)
    qed simp
    have len: "length ?run \<le> 32" using m by simp
    have run: "?run ! k = of_nat (a' + k) \<and> a' + k < b" if "k < length ?run" for k
    proof -
      have "k < b - a'" using that m by simp
      then have "a' + k < b" by linarith
      then show ?thesis using that m by simp
    qed
    obtain mok s1 where s1: "pc_malloc s = (mok, s1)" by fastforce
    have k1: "pc_keeps dm content wfd s s1" using keeps_malloc [of s] s1 by simp
    obtain res w where rd: "pc_dev_read dm d (pg * ucast ?sp) (of_nat (length ?run) * ?sp) (Some 0) (pc_world s1) = (res, w)" by fastforce
    let ?s2 = "s1\<lparr>pc_world := w, pc_merged := pc_merged s1 + of_nat (length ?run) * ?sp\<rparr>"
    have k2: "pc_keeps dm content wfd s (s1\<lparr>pc_world := w\<rparr>)" "pc_keeps dm content wfd s ?s2"
    proof -
      show k: "pc_keeps dm content wfd s (s1\<lparr>pc_world := w\<rparr>)"
      proof (rule keeps_okI)
        assume "pc_ok dm content wfd s"
        then have "wfd (pc_world s1)" using pc_keepsD(1) [OF k1] by (simp add: pc_ok_def)
        with dev_read_ok [OF this ops rd] have "pc_keeps dm content wfd s1 (s1\<lparr>pc_world := w\<rparr>)" by (intro keeps_world) auto
        then show "pc_keeps dm content wfd s (s1\<lparr>pc_world := w\<rparr>)" by (rule pc_keeps_trans [OF k1])
      qed
      show "pc_keeps dm content wfd s ?s2" by (rule pc_keeps_trans [OF k keeps_fields]) (simp_all add: same_env_def)
    qed
    show ?thesis
    proof (cases res)
      case None
      then show ?thesis using k1 k2 by (subst fill_pages.simps, subst Cons) (simp add: s1 rd Let_def)
    next
      case (Some bg)
      obtain bounce gen where bg: "bg = (bounce, gen)" by fastforce
      let ?s3 = "fill_insert dm d gen ?run 0 bounce ?s2"
      have k3: "pc_keeps dm content wfd s ?s3"
      proof (rule keeps_okI)
        assume ok: "pc_ok dm content wfd s"
        then have "wfd (pc_world s1)" using pc_keepsD(1) [OF k1] by (simp add: pc_ok_def)
        note r = dev_read_ok [OF this ops rd]
        have g: "gen = devmgr_get_generation d dm" "gen \<noteq> 0" and buf: "bounce = byte_range (content d (pc_world s1)) (a' * PC_SIZE) (length ?run * PC_SIZE)"
          using r(3) [of bounce gen] Some bg len pg(1,2) b by (auto simp: page_sectors)
        have "pc_keeps dm content wfd ?s2 ?s3"
        proof (rule keeps_fill_insert [OF g])
          fix k assume k: "k < length ?run"
          have i: "unat (?run ! k) = a' + k" "a' + k < 2 ^ 52" using run [OF k] b by (auto simp: unat_of_nat simp flip: of_nat_add)
          have "k * PC_SIZE + PC_SIZE \<le> length ?run * PC_SIZE" using k by (metis Suc_leI add.commute mult_Suc mult_le_mono1)
          then have "mem_get bounce (k * PC_SIZE) PC_SIZE = byte_range (content d (pc_world s1)) (a' * PC_SIZE + k * PC_SIZE) PC_SIZE"
            unfolding buf by (rule mem_get_byte_range)
          then show "unat (?run ! k) < 2 ^ 52 \<and> mem_get bounce ((0 + k) * PC_SIZE) PC_SIZE =
              byte_range (content d (pc_world ?s2)) (unat (?run ! k) * PC_SIZE) PC_SIZE"
            using i r(2) by (simp add: distrib_right)
        qed
        then show "pc_keeps dm content wfd s ?s3" by (rule pc_keeps_trans [OF k2(2)])
      qed
      have "drop (length ?run - 1) rest = map of_nat [Suc a' + (length ?run - 1)..<b]" by (simp add: pg(3) drop_map drop_upt)
      moreover have "b - (Suc a' + (length ?run - 1)) < b - a" using a'(2) pg(2) by simp
      note IH = less.hyps [OF this, of ?s3]
      ultimately have "pc_keeps dm content wfd s (snd (fill_pages dm d ?sp (drop (length ?run - 1) rest) ?s3))"
        using pc_keeps_trans [OF k3 IH] by simp
      then show ?thesis using k1 Some bg by (subst fill_pages.simps, subst Cons) (simp add: s1 rd Let_def)
    qed
  qed
qed

lemma keeps_fill_range:
  assumes ops: "dev_block dm d = Some ops" and pg: "unat pg1 < 2 ^ 52"
  shows "pc_keeps dm content wfd s (snd (pc_fill_range dm d pg0 pg1 s))"
proof (rule keeps_okI)
  assume ok: "pc_ok dm content wfd s"
  have e: "pc_fill_range dm d pg0 pg1 s =
      fill_pages dm d (of_nat PC_SIZE div block_size ops) (map of_nat [unat pg0..<Suc (unat pg1)]) (snd (pc_bsize dm d s))"
    by (simp only: pc_fill_range_def Let_def case_prod_beta bsize_value [OF ok ops])
  show "pc_keeps dm content wfd s (snd (pc_fill_range dm d pg0 pg1 s))"
    unfolding e using pg by (intro pc_keeps_trans [OF keeps_bsize keeps_fill_pages [OF ops]]) simp
qed

lemma direct_read_ok:
  assumes ok: "pc_ok dm content wfd s" and ops: "dev_block dm d = Some ops" and rd: "direct_read dm d sector n s = (res, s')"
  shows "pc_keeps dm content wfd s s'"
    and "res = Some buf \<Longrightarrow> buf = byte_range (content d (pc_world s)) (req_start ops sector) (req_len ops n)"
proof -
  obtain r w where r: "pc_dev_read dm d sector n None (pc_world s) = (r, w)" by fastforce
  have wfd: "wfd (pc_world s)" using ok by (simp add: pc_ok_def)
  note c = dev_read_ok [OF wfd ops r]
  have s': "s' = s\<lparr>pc_world := w\<rparr>" "res = map_option fst r" using rd r by (auto simp: direct_read_def)
  show "pc_keeps dm content wfd s s'" unfolding s' using c by (intro keeps_world) auto
  assume "res = Some buf"
  then obtain gen where "r = Some (buf, gen)" using s' by auto
  then show "buf = byte_range (content d (pc_world s)) (req_start ops sector) (req_len ops n)"
    using c(3) by (simp add: req_start_def req_len_def)
qed

lemma read_refines:
  assumes ok: "pc_ok dm content wfd s" and ops: "dev_block dm d = Some ops" and req: "req_ok ops sector n"
    and rd: "blkcache_read dm d sector n True s = (res, s')"
  shows "pc_keeps dm content wfd s s'"
    and "\<lbrakk>res = Some buf; settled dm s d (req_pages ops sector n)\<rbrakk> \<Longrightarrow>
      buf = byte_range (pc_view dm content s d) (req_start ops sector) (req_len ops n)"
    and "res = None \<Longrightarrow> \<exists>w. wfd w \<and> fst (pc_dev_read dm d sector n None w) = None"
proof -
  let ?st = "sector * ucast (block_size ops) :: u64" and ?ln = "ucast n * ucast (block_size ops) :: u64"
  let ?V = "\<lambda>s. byte_range (pc_view dm content s d) (req_start ops sector) (req_len ops n)"
  define s1 where "s1 = snd (pc_bsize dm d (pc_remember_bsize dm d s))"
  have k1: "pc_keeps dm content wfd s s1" unfolding s1_def by (rule pc_keeps_trans [OF keeps_remember keeps_bsize])
  have ok1: "pc_ok dm content wfd s1" by (rule pc_keepsD(1) [OF k1 ok])
  have bs: "pc_bsize dm d (pc_remember_bsize dm d s) = (block_size ops, s1)"
    using bsize_value [OF pc_keepsD(1) [OF keeps_remember ok] ops] by (simp add: s1_def prod_eq_iff)
  have V: "?V s' = ?V s" if "pc_keeps dm content wfd s s'" for s'
    using pc_keepsD(2) [OF that ok] req by (intro byte_range_cong) (simp add: req_ok_def)
  obtain r1 s2 where c1: "pc_copy_out dm d ?st ?ln s1 = (r1, s2)" by fastforce
  note cv1 = copy_out_view [OF ok1 req c1]
  have k2: "pc_keeps dm content wfd s (s2\<lparr>pc_misses := pc_misses s2 + n\<rparr>)"
    by (rule pc_keeps_trans [OF pc_keeps_trans [OF k1 cv1(1)] keeps_fields]) (simp_all add: same_env_def)
  obtain fok s3 where fl: "pc_fill_range dm d (drop_bit 12 ?st) (drop_bit 12 (?st + ?ln - 1)) (s2\<lparr>pc_misses := pc_misses s2 + n\<rparr>) = (fok, s3)"
    by fastforce
  have "pc_keeps dm content wfd (s2\<lparr>pc_misses := pc_misses s2 + n\<rparr>) s3"
    using keeps_fill_range [OF ops, of "drop_bit 12 (?st + ?ln - 1)" "s2\<lparr>pc_misses := pc_misses s2 + n\<rparr>"] req_words(5,6) [OF req] fl
    by (metis snd_conv)
  then have k3: "pc_keeps dm content wfd s s3" by (rule pc_keeps_trans [OF k2])
  have ok3: "pc_ok dm content wfd s3" by (rule pc_keepsD(1) [OF k3 ok])
  obtain r4 s4 where c4: "pc_copy_out dm d ?st ?ln s3 = (r4, s4)" by fastforce
  note cv4 = copy_out_view [OF ok3 req c4]
  have k4: "pc_keeps dm content wfd s s4" by (rule pc_keeps_trans [OF k3 cv4(1)])
  have n0: "n \<noteq> 0" "pc_alloc s" using req ok by (auto simp: req_ok_def pc_ok_def)
  have e: "blkcache_read dm d sector n True s =
    (if r1 \<noteq> None then (r1, s2\<lparr>pc_hits := pc_hits s2 + n\<rparr>)
     else if \<not> fok then direct_read dm d sector n s3
     else if r4 \<noteq> None then (r4, s4) else direct_read dm d sector n s4)"
    using n0 by (simp add: blkcache_read_def bs Let_def c1 c4 fl)
  have direct: "pc_keeps dm content wfd s s'' \<and> (res = Some buf \<longrightarrow> settled dm s d (req_pages ops sector n) \<longrightarrow> r1 = None \<longrightarrow> buf = ?V s)"
    if k: "pc_keeps dm content wfd s t" and d: "direct_read dm d sector n t = (res, s'')" for t s''
  proof -
    have okt: "pc_ok dm content wfd t" by (rule pc_keepsD(1) [OF k ok])
    note dr = direct_read_ok [OF okt ops d]
    have "buf = ?V s" if "res = Some buf" "settled dm s d (req_pages ops sector n)" "r1 = None"
    proof -
      have "pc_tab s1 = pc_tab s" by (simp add: s1_def)
      then have "pc_cached dm d s1 i = pc_cached dm d s i" for i by (simp add: pc_cached_def)
      then have "\<not> (\<forall>i \<in> req_pages ops sector n. pc_cached dm d s (of_nat i))" using cv1(3) that(3) by auto
      then have "\<forall>i \<in> req_pages ops sector n. \<not> page_dirty dm s d i" using that(2) by (auto simp: settled_def)
      from undirty_range [OF ok req this] dr(2) [OF that(1)] pc_keepsD(3) [OF k ok] show ?thesis by simp
    qed
    then show ?thesis using pc_keeps_trans [OF k dr(1)] by blast
  qed
  have hits: "pc_keeps dm content wfd s (s2\<lparr>pc_hits := pc_hits s2 + n\<rparr>)"
    by (rule pc_keeps_trans [OF pc_keeps_trans [OF k1 cv1(1)] keeps_fields]) (simp_all add: same_env_def)
  have both: "pc_keeps dm content wfd s s' \<and> (res = Some buf \<longrightarrow> settled dm s d (req_pages ops sector n) \<longrightarrow> buf = ?V s)"
  proof (cases "r1 = None \<and> (\<not> fok \<or> r4 = None)")
    case True
    then obtain t where "pc_keeps dm content wfd s t" "direct_read dm d sector n t = (res, s')" using rd e k3 k4 by (auto split: if_splits)
    from direct [OF this] True show ?thesis by simp
  next
    case False
    then show ?thesis
      using rd e hits k4 cv1(2) [of buf] cv4(2) [of buf] V [OF k1] V [OF k3] by (auto split: if_splits)
  qed
  show "\<exists>w. wfd w \<and> fst (pc_dev_read dm d sector n None w) = None" if none: "res = None"
  proof -
    obtain t where t: "pc_keeps dm content wfd s t" "fst (direct_read dm d sector n t) = None"
      using rd e k3 k4 none by (auto split: if_splits)
    then have "wfd (pc_world t)" using pc_keepsD(1) [OF t(1) ok] by (simp add: pc_ok_def)
    then show ?thesis using t(2) by (auto simp: direct_read_def split: prod.splits)
  qed
  show "pc_keeps dm content wfd s s'" using both by simp
  show "\<lbrakk>res = Some buf; settled dm s d (req_pages ops sector n)\<rbrakk> \<Longrightarrow> buf = ?V s" using both by simp
qed

end

end
