(* ===== verification/Blkcache_Write.thy ===== *)
theory Blkcache_Write
  imports Blkcache_Refine
begin

text \<open>
  Writing through the page cache and writing back: what a client sees after a write, that the flush puts
  every dirty page on its device without changing what a client sees, and what goes wrong when a write
  bypasses pages that are cached.
\<close>

section \<open>Writing\<close>

text \<open>What a client sees after the bytes \<open>bs\<close> have been written at \<open>a\<close> on device \<open>d\<close>.\<close>

definition written :: "(int \<Rightarrow> nat \<Rightarrow> u8) \<Rightarrow> int \<Rightarrow> nat \<Rightarrow> bytes \<Rightarrow> int \<Rightarrow> nat \<Rightarrow> u8" where
  "written v d a bs d' x = (if d' = d \<and> a \<le> x \<and> x < a + length bs then bs ! (x - a) else v d' x)"

definition view_is :: "'d registry \<Rightarrow> (int \<Rightarrow> 'd \<Rightarrow> nat \<Rightarrow> u8) \<Rightarrow> 'd pcache \<Rightarrow> (int \<Rightarrow> nat \<Rightarrow> u8) \<Rightarrow> bool" where
  "view_is dm content s v \<longleftrightarrow> (\<forall>d a. a < 2 ^ 64 \<longrightarrow> pc_view dm content s d a = v d a)"

lemma dirty_count_bound: "pc_ok dm content wfd s \<Longrightarrow> unat (pc_dirty s) \<le> PC_NPAGES"
  by (metis pc_ok_def pc_ok_length length_filter_le)

lemma dirty_inc: "pc_ok dm content wfd s \<Longrightarrow> unat (pc_dirty s + 1) = unat (pc_dirty s) + 1"
  using dirty_count_bound [of dm content wfd s] by (simp add: unat_word_ariths PC_NPAGES_def)

lemma dirty_line_simps [simp]:
  "pc_tab (dirty_line j poff bs s) = (pc_tab s)[j := (pc_tab s ! j)\<lparr>pg_data := mem_put (pg_data (pc_tab s ! j)) poff bs,
      pg_generation := pg_generation (pc_tab s ! j) + 1, pg_flags := PC_UPTODATE OR PC_DIRTY, pg_age := pc_clock s + 1\<rparr>]"
  "pc_dirty (dirty_line j poff bs s) = (if pc_isdirty (pc_tab s ! j) then pc_dirty s else pc_dirty s + 1)"
  "pc_world (dirty_line j poff bs s) = pc_world s" "same_env s (dirty_line j poff bs s)"
  by (simp_all add: dirty_line_def Let_def touch_line_def upd_line_def same_env_def)

text \<open>
  One line becomes dirty with new bytes: either it holds the page already, or it was taken for it and the
  whole page is overwritten.
\<close>

lemma dirty_replace:
  assumes ok: "pc_ok dm content wfd s" and j: "j < PC_NPAGES" and i: "i < 2 ^ 52" and gen: "devmgr_get_generation d dm \<noteq> 0"
    and victim: "pc_lookup dm (pc_tab s) d (of_nat i) = Some j \<or> pc_lookup dm (pc_tab s) d (of_nat i) = None \<and> \<not> pc_isdirty (pc_tab s ! j)"
    and p: "pg_deviceid p = d" "pg_index p = of_nat i" "pg_device_generation p = devmgr_get_generation d dm" "pg_flags p = PC_UPTODATE OR PC_DIRTY"
      "length (pg_data p) = PC_SIZE"
    and data: "\<And>x. x < PC_SIZE \<Longrightarrow> pg_data p ! x = written (pc_view dm content s) d a bs d (i * PC_SIZE + x)"
    and inside: "i * PC_SIZE \<le> a" "a + length bs \<le> i * PC_SIZE + PC_SIZE"
    and s': "same_env s s'" "pc_tab s' = (pc_tab s)[j := p]" "pc_dirty s' = (if pc_isdirty (pc_tab s ! j) then pc_dirty s else pc_dirty s + 1)"
  shows "pc_ok dm content wfd s'" and "view_is dm content s' (written (pc_view dm content s) d a bs)"
    and "\<And>d' k. pc_lookup dm (pc_tab s) d' k \<noteq> None \<Longrightarrow> pc_lookup dm (pc_tab s) d (of_nat i) = Some j \<Longrightarrow> pc_lookup dm (pc_tab s') d' k \<noteq> None"
proof -
  have t: "tab_ok dm content (pc_world s) (pc_tab s)" using ok by (simp add: pc_ok_def)
  have cur: "pc_current dm p" using p gen by (simp add: pc_current_def blkcache_device_key_is_current_def PC_UPTODATE_def PC_DIRTY_def)
  have hit: "pc_hit dm d' k p \<longleftrightarrow> d' = d \<and> k = of_nat i" for d' k using cur p by (auto simp: pc_hit_current)
  have dp: "pc_isdirty p" using p by (simp add: PC_UPTODATE_def PC_DIRTY_def)
  have alone: "k = j" if "k < PC_NPAGES" "pc_hit dm (pg_deviceid p) (pg_index p) (pc_tab s ! k)" for k
    using that victim pc_lookup_None [of dm "pc_tab s" d "of_nat i" k] lookup_Some [of dm "pc_tab s" d "of_nat i" j] tab_ok_unique [OF t that(1) j that(2)] p
    by (metis option.distinct(1))
  have ui: "unat (of_nat i :: u64) = i" using i by (simp add: unat_of_nat)
  have lp: "line_ok p" using p i ui by (simp add: line_ok_def)
  have cp: "clean_ok dm content (pc_world s) p" using dp by (simp add: clean_ok_def)
  have cnt: "unat (pc_dirty s') + (if pc_isdirty (pc_tab s ! j) then 1 else 0) = unat (pc_dirty s) + (if pc_isdirty p then 1 else 0)"
    using dp s'(3) dirty_inc [OF ok] by simp
  note r = pc_ok_replace [OF ok j alone lp cp s'(1,2) cnt]
  show "pc_ok dm content wfd s'" using r(1) by simp
  have t': "tab_ok dm content (pc_world s) ((pc_tab s)[j := p])" using r(2) by simp
  have w: "pc_world s' = pc_world s" using s'(1) by (simp add: same_env_def)
  have key: "d' = d \<and> k = of_nat i" if "pc_lookup dm (pc_tab s) d' k = Some j" "pc_lookup dm (pc_tab s) d (of_nat i) = Some j" for d' k
    using lookup_Some(2) [OF that(1)] lookup_Some(2) [OF that(2)] by (auto simp: pc_hit_current)
  show "pc_lookup dm (pc_tab s') d' k \<noteq> None" if "pc_lookup dm (pc_tab s) d' k \<noteq> None" "pc_lookup dm (pc_tab s) d (of_nat i) = Some j" for d' k
  proof (cases "d' = d \<and> k = of_nat i")
    case True then show ?thesis unfolding s'(2) lookup_update [OF t t' j] hit by simp
  next
    case False
    then have "pc_lookup dm (pc_tab s) d' k \<noteq> Some j" using key [OF _ that(2)] by blast
    then show ?thesis unfolding s'(2) lookup_update [OF t t' j] using that(1) by simp
  qed
  show "view_is dm content s' (written (pc_view dm content s) d a bs)"
    unfolding view_is_def
  proof (intro allI impI)
    fix d' x assume x: "x < (2 ^ 64 :: nat)"
    have "pc_view dm content s' d' x =
      (if pc_hit dm d' (of_nat (x div PC_SIZE)) p then pg_data p ! (x mod PC_SIZE) else pc_view dm content s d' x)"
    proof (rule view_update [OF t t' j x _ s'(2) w])
      show "\<not> pc_isdirty (pc_tab s ! j) \<or> pc_lookup dm (pc_tab s) d' (of_nat (x div PC_SIZE)) \<noteq> Some j \<or> pc_hit dm d' (of_nat (x div PC_SIZE)) p"
        using victim key [of d' "of_nat (x div PC_SIZE)"] by (auto simp: hit)
    qed
    moreover have "of_nat (x div PC_SIZE) = (of_nat i :: u64) \<longleftrightarrow> x div PC_SIZE = i" using ui page_index [OF x] by metis
    moreover have "written (pc_view dm content s) d a bs d' x = pc_view dm content s d' x" if "\<not> (d' = d \<and> x div PC_SIZE = i)"
    proof -
      have "x div PC_SIZE = i" if "a \<le> x" "x < a + length bs"
        using that inside by (intro div_nat_eqI) (auto simp: mult.commute PC_SIZE_def)
      then show ?thesis using that by (auto simp: written_def)
    qed
    moreover have "pg_data p ! (x mod PC_SIZE) = written (pc_view dm content s) d a bs d x" if "x div PC_SIZE = i"
      using data [of "x mod PC_SIZE"] that div_mult_mod_eq [of x PC_SIZE] by (simp add: PC_SIZE_def)
    ultimately show "pc_view dm content s' d' x = written (pc_view dm content s) d a bs d' x" by (auto simp: hit)
  qed
qed

lemma dirty_hit:
  assumes ok: "pc_ok dm content wfd s" and i: "i < 2 ^ 52" and l: "pc_lookup dm (pc_tab s) d (of_nat i) = Some j"
    and fit: "poff + length bs \<le> PC_SIZE"
  shows "pc_ok dm content wfd (dirty_line j poff bs s)" and "view_is dm content (dirty_line j poff bs s) (written (pc_view dm content s) d (i * PC_SIZE + poff) bs)"
    and "pc_cached dm d' s k \<Longrightarrow> pc_cached dm d' (dirty_line j poff bs s) k"
proof -
  let ?p = "(pc_tab s ! j)\<lparr>pg_data := mem_put (pg_data (pc_tab s ! j)) poff bs, pg_generation := pg_generation (pc_tab s ! j) + 1,
      pg_flags := PC_UPTODATE OR PC_DIRTY, pg_age := pc_clock s + 1\<rparr>"
  have j: "j < PC_NPAGES" and h: "pc_hit dm d (of_nat i) (pc_tab s ! j)" using lookup_Some [OF l] by auto
  have hk: "pg_deviceid (pc_tab s ! j) = d" "pg_index (pc_tab s ! j) = of_nat i" "pg_device_generation (pc_tab s ! j) = devmgr_get_generation d dm"
      "devmgr_get_generation d dm \<noteq> 0"
    using h by (auto simp: pc_hit_def blkcache_device_key_is_current_def)
  have len: "length (pg_data (pc_tab s ! j)) = PC_SIZE" using ok j by (auto simp: pc_ok_def tab_ok_def line_ok_def)
  have view: "pc_view dm content s d (i * PC_SIZE + x) = pg_data (pc_tab s ! j) ! x" if "x < PC_SIZE" for x
    using that l by (simp add: pc_view_def)
  have data: "pg_data ?p ! x = written (pc_view dm content s) d (i * PC_SIZE + poff) bs d (i * PC_SIZE + x)" if "x < PC_SIZE" for x
    using that len fit view [OF that] by (auto simp: written_def nth_mem_put)
  note R = dirty_replace [OF ok j i hk(4) disjI1 [OF l], of ?p "i * PC_SIZE + poff" bs "dirty_line j poff bs s"]
  show "pc_ok dm content wfd (dirty_line j poff bs s)" "view_is dm content (dirty_line j poff bs s) (written (pc_view dm content s) d (i * PC_SIZE + poff) bs)"
    using hk len fit data by (intro R(1) R(2); simp)+
  show "pc_cached dm d' s k \<Longrightarrow> pc_cached dm d' (dirty_line j poff bs s) k"
    unfolding pc_cached_def using hk len fit data l by (intro R(3)) simp_all
qed


text \<open>A line taken for a page that is overwritten as a whole.\<close>

lemma dirty_claimed:
  assumes ok: "pc_ok dm content wfd s" and i: "i < 2 ^ 52" and gen: "devmgr_get_generation d dm \<noteq> 0"
    and none: "pc_lookup dm (pc_tab s) d (of_nat i) = None" and pl: "put_line dm d (of_nat i) 0 PC_SIZE s = (Some j, s1)"
    and bs: "length bs = PC_SIZE"
  shows "pc_ok dm content wfd (dirty_line j 0 bs s1)" and "view_is dm content (dirty_line j 0 bs s1) (written (pc_view dm content s) d (i * PC_SIZE) bs)"
proof -
  obtain tab where c: "pc_claim dm (pc_tab s) d (of_nat i) = (Some j, tab)"
    and s1: "s1 = upd_line j (\<lambda>p. p\<lparr>pg_flags := PC_UPTODATE\<rparr>) (s\<lparr>pc_tab := tab\<rparr>)"
    using pl none by (auto simp: put_line_def split: prod.splits option.splits)
  obtain j: "j < PC_NPAGES" and clean: "\<not> pc_isdirty (pc_tab s ! j)" and tab: "tab = (pc_tab s)[j := (pc_tab s ! j)\<lparr>pg_deviceid := d, pg_index := of_nat i,
      pg_generation := 0, pg_device_generation := devmgr_get_generation d dm, pg_flags := 0\<rparr>]"
    using none c by (cases rule: claim_cases) auto
  have jl: "j < length (pc_tab s)" using j pc_ok_length [OF ok] by simp
  have len: "length (pg_data (pc_tab s ! j)) = PC_SIZE" using ok j by (auto simp: pc_ok_def tab_ok_def line_ok_def)
  let ?s' = "dirty_line j 0 bs s1"
  define p where "p = pc_tab ?s' ! j"
  have p: "p = (pc_tab s ! j)\<lparr>pg_deviceid := d, pg_index := of_nat i, pg_device_generation := devmgr_get_generation d dm,
      pg_data := bs, pg_generation := 1, pg_flags := PC_UPTODATE OR PC_DIRTY, pg_age := pc_clock s + 1\<rparr>"
    using jl bs len by (simp add: p_def s1 upd_line_def tab mem_put_zero)
  have s': "same_env s ?s'" "pc_tab ?s' = (pc_tab s)[j := p]" "pc_dirty ?s' = (if pc_isdirty (pc_tab s ! j) then pc_dirty s else pc_dirty s + 1)"
    using jl clean by (simp_all add: same_env_def dirty_line_def Let_def touch_line_def p_def s1 upd_line_def tab PC_UPTODATE_def)
  have data: "pg_data p ! x = written (pc_view dm content s) d (i * PC_SIZE) bs d (i * PC_SIZE + x)" if "x < PC_SIZE" for x
    using that bs by (simp add: p written_def)
  note R = dirty_replace [OF ok j i gen disjI2 [OF conjI [OF none clean]], of p "i * PC_SIZE" bs ?s']
  show "pc_ok dm content wfd ?s'" "view_is dm content ?s' (written (pc_view dm content s) d (i * PC_SIZE) bs)"
    using s' bs data by (intro R(1) R(2); simp add: p)+
qed

lemma written_written:
  "b = a + length xs \<Longrightarrow> written (written v d a xs) d b ys = written v d a (xs @ ys)"
  by (rule ext, rule ext) (auto simp: written_def nth_append)

lemma view_is_written: "view_is dm content s v \<Longrightarrow> view_is dm content s' (written (pc_view dm content s) d a bs) \<Longrightarrow> view_is dm content s' (written v d a bs)"
  by (simp add: view_is_def written_def)

lemma mem_get_mem_get: "n \<le> b \<Longrightarrow> mem_get xs a n @ mem_get xs (a + n) (b - n) = mem_get xs a b"
  by (simp add: mem_get_def) (metis add.commute drop_drop le_add_diff_inverse take_add)

lemma write_chunks_cached:
  assumes "spans off a b cs" "off \<le> a" "b \<le> 2 ^ 64" "length src = b - off" "pc_ok dm content wfd s"
    and "\<forall>(i, _) \<in> set cs. pc_cached dm d s i"
  shows "\<exists>s'. write_chunks dm d cs src s = (True, s') \<and> pc_ok dm content wfd s' \<and>
    view_is dm content s' (written (pc_view dm content s) d a (mem_get src (a - off) (b - a)))"
  using assms
proof (induction cs arbitrary: a s)
  case Nil
  then show ?case by (auto simp: view_is_def written_def mem_get_def)
next
  case (Cons c cs)
  obtain i poff n pos where c: "c = (i, poff, n, pos)" by (metis prod_cases4)
  have sp: "a < b" "i = of_nat (a div PC_SIZE)" "poff = a mod PC_SIZE" "n = min (PC_SIZE - poff) (b - a)" "pos = a - off" "spans off (a + n) b cs"
    using Cons.prems(1) by (auto simp: c)
  obtain j where l: "pc_lookup dm (pc_tab s) d (of_nat (a div PC_SIZE)) = Some j"
    using Cons.prems(6) sp(2) by (auto simp: c pc_cached_def)
  have i52: "a div PC_SIZE < 2 ^ 52" using sp(1) Cons.prems(3) by (simp add: PC_SIZE_def)
  let ?bs = "mem_get src pos n" and ?s = "dirty_line j poff (mem_get src pos n) s"
  have n: "n \<le> b - a" by (simp add: sp(4))
  have lb: "length ?bs = n" using Cons.prems(2,4) n sp(1,5) by simp
  have "poff < PC_SIZE" by (simp add: sp(3) PC_SIZE_def)
  then have fit: "poff + length ?bs \<le> PC_SIZE" unfolding lb using sp(4) by simp
  note D = dirty_hit [OF Cons.prems(5) i52 l fit]
  have pa: "a div PC_SIZE * PC_SIZE + poff = a" by (simp add: sp(3) div_mult_mod_eq)
  have e: "write_chunks dm d (c # cs) src s = write_chunks dm d cs src ?s" using l sp(2) by (simp add: c put_line_def)
  obtain s' where s': "write_chunks dm d cs src ?s = (True, s')" "pc_ok dm content wfd s'"
      "view_is dm content s' (written (pc_view dm content ?s) d (a + n) (mem_get src (a + n - off) (b - (a + n))))"
  proof -
    have "\<forall>(i, _) \<in> set cs. pc_cached dm d ?s i" using Cons.prems(6) D(3) by (auto simp: c)
    from Cons.IH [OF sp(6) _ Cons.prems(3,4) D(1) this] Cons.prems(2) that show thesis by auto
  qed
  have "view_is dm content s' (written (written (pc_view dm content s) d a ?bs) d (a + n) (mem_get src (a + n - off) (b - (a + n))))"
    by (rule view_is_written [OF D(2) [unfolded pa] s'(3)])
  moreover have "?bs @ mem_get src (a + n - off) (b - (a + n)) = mem_get src (a - off) (b - a)"
    using mem_get_mem_get [OF n, of src pos] Cons.prems(2) sp(5) by (simp add: add.commute)
  moreover have "written (written v d a ?bs) d (a + n) ys = written v d a (?bs @ ys)" for v ys
    by (rule written_written) (simp only: lb)
  ultimately show ?case using s'(1,2) unfolding e by auto
qed

lemma spans_one_page:
  assumes "spans off a b cs" "a div PC_SIZE = (b - 1) div PC_SIZE" "a < b"
  shows "cs = [(of_nat (a div PC_SIZE), a mod PC_SIZE, b - a, a - off)]"
proof -
  have fit: "a mod PC_SIZE + (b - a) \<le> PC_SIZE"
  proof -
    have "b - 1 = (b - 1) div PC_SIZE * PC_SIZE + (b - 1) mod PC_SIZE" by simp
    moreover have "a = (b - 1) div PC_SIZE * PC_SIZE + a mod PC_SIZE" by (metis assms(2) div_mult_mod_eq)
    moreover have "(b - 1) mod PC_SIZE < PC_SIZE" by (simp add: PC_SIZE_def)
    ultimately show ?thesis using assms(3) by linarith
  qed
  obtain i poff n pos ds where cs: "cs = (i, poff, n, pos) # ds" using assms(1,3) by (cases cs) auto
  have n: "n = b - a" using assms(1) fit by (auto simp: cs)
  then have "ds = []" using assms(1) by (cases ds) (auto simp: cs)
  then show ?thesis using assms(1) n by (simp add: cs)
qed

lemma put_line_world: "put_line dm d i poff n s = (r, s') \<Longrightarrow> pc_world s' = pc_world s"
  by (auto simp: put_line_def upd_line_def split: option.splits prod.splits)

lemma write_chunks_world: "write_chunks dm d cs src s = (okk, s') \<Longrightarrow> pc_world s' = pc_world s"
  by (induction dm d cs src s rule: write_chunks.induct) (auto split: prod.splits option.splits dest!: put_line_world)

lemma fill_cached:
  assumes "\<And>k. unat pg0 \<le> k \<Longrightarrow> k \<le> unat pg1 \<Longrightarrow> pc_cached dm d s (of_nat k)"
  shows "pc_fill_range dm d pg0 pg1 s = (True, snd (pc_bsize dm d s))"
proof -
  let ?s = "snd (pc_bsize dm d s)"
  have "\<forall>x \<in> set (map of_nat [unat pg0..<Suc (unat pg1)] :: u64 list). pc_cached dm d ?s x" using assms by (auto simp: pc_cached_def)
  then have "dropWhile (pc_cached dm d ?s) (map of_nat [unat pg0..<Suc (unat pg1)]) = []" by (simp only: dropWhile_eq_Nil_conv)
  then have "fill_pages dm d x (map of_nat [unat pg0..<Suc (unat pg1)]) ?s = (True, ?s)" for x
    by (subst fill_pages.simps) (simp only: list.case)
  then show ?thesis by (simp only: pc_fill_range_def Let_def case_prod_beta)
qed

context block_devices
begin

lemma dev_write_ok:
  assumes wfd: "wfd w" and ops: "dev_block dm d = Some ops" and wr: "pc_dev_write dm d lba buf n expected w = (res, w')"
    and len: "length buf = unat n * unat (block_size ops)"
  shows "wfd w'" "d' \<noteq> d \<Longrightarrow> content d' w' = content d' w"
    "a < unat lba * unat (block_size ops) \<or> unat lba * unat (block_size ops) + length buf \<le> a \<Longrightarrow> content d w' a = content d w a"
    and "res \<Longrightarrow> byte_range (content d w') (unat lba * unat (block_size ops)) (length buf) = buf"
proof -
  have *: "wfd w' \<and> (d' \<noteq> d \<longrightarrow> content d' w' = content d' w) \<and>
      (a < unat lba * unat (block_size ops) \<or> unat lba * unat (block_size ops) + length buf \<le> a \<longrightarrow> content d w' a = content d w a) \<and>
      (res \<longrightarrow> byte_range (content d w') (unat lba * unat (block_size ops)) (length buf) = buf)"
  proof (cases "pc_dev_open dm d expected")
    case None then show ?thesis using wr wfd by (auto simp: pc_dev_write_def)
  next
    case (Some og)
    then have og: "og = (ops, devmgr_get_generation d dm)" using ops by (auto simp: pc_dev_open_def Let_def split: if_splits)
    show ?thesis
    proof (cases "bd_write_block ops")
      case None then show ?thesis using wr wfd Some og by (auto simp: pc_dev_write_def)
    next
      case (Some f)
      obtain r v where f: "f lba buf n w = (r, v)" by fastforce
      note c = write_contract [OF wfd ops Some f len]
      show ?thesis using wr c [of d' a] \<open>pc_dev_open dm d expected = Some og\<close> og Some f by (auto simp: pc_dev_write_def)
    qed
  qed
  show "wfd w'" "d' \<noteq> d \<Longrightarrow> content d' w' = content d' w"
    "a < unat lba * unat (block_size ops) \<or> unat lba * unat (block_size ops) + length buf \<le> a \<Longrightarrow> content d w' a = content d w a"
    "res \<Longrightarrow> byte_range (content d w') (unat lba * unat (block_size ops)) (length buf) = buf" using * by auto
qed

text \<open>
  A transfer to the device that changes only bytes of pages which are not cached, or cached and dirty:
  the invariant stays, and a client sees the change where the page is not cached.
\<close>

lemma device_change:
  assumes ok: "pc_ok dm content wfd s" and wfd: "wfd w"
    and frame: "\<And>d' x. \<lbrakk>d' \<noteq> d \<or> x < lo \<or> hi \<le> x\<rbrakk> \<Longrightarrow> content d' w x = content d' (pc_world s) x"
    and pages: "\<And>x. \<lbrakk>lo \<le> x; x < hi; x < 2 ^ 64\<rbrakk> \<Longrightarrow> \<not> pc_cached dm d s (of_nat (x div PC_SIZE)) \<or> page_dirty dm s d (x div PC_SIZE)"
  shows "pc_ok dm content wfd (s\<lparr>pc_world := w\<rparr>)"
    and "a < 2 ^ 64 \<Longrightarrow> pc_view dm content (s\<lparr>pc_world := w\<rparr>) d' a =
      (if pc_cached dm d' s (of_nat (a div PC_SIZE)) then pc_view dm content s d' a else content d' w a)"
proof -
  have t: "tab_ok dm content (pc_world s) (pc_tab s)" using ok by (simp add: pc_ok_def)
  have "clean_ok dm content w (pc_tab s ! j)" if j: "j < PC_NPAGES" for j
    unfolding clean_ok_def
  proof (intro impI, elim conjE)
    let ?p = "pc_tab s ! j"
    assume cur: "pc_current dm ?p" and cl: "\<not> pc_isdirty ?p"
    have l: "pc_lookup dm (pc_tab s) (pg_deviceid ?p) (pg_index ?p) = Some j" using cur j by (simp add: lookup_iff [OF t] pc_hit_current)
    have lo: "line_ok ?p" "clean_ok dm content (pc_world s) ?p" using t j by (auto simp: tab_ok_def)
    have i: "unat (pg_index ?p) < 2 ^ 52" using lo(1) cur by (auto simp: line_ok_def pc_current_def)
    have "byte_range (content (pg_deviceid ?p) w) (unat (pg_index ?p) * PC_SIZE) PC_SIZE =
        byte_range (content (pg_deviceid ?p) (pc_world s)) (unat (pg_index ?p) * PC_SIZE) PC_SIZE"
    proof (rule byte_range_cong)
      fix x assume x: "unat (pg_index ?p) * PC_SIZE \<le> x" "x < unat (pg_index ?p) * PC_SIZE + PC_SIZE"
      have xd: "x div PC_SIZE = unat (pg_index ?p)" using x by (intro div_nat_eqI) (simp_all add: mult.commute PC_SIZE_def)
      have x64: "x < 2 ^ 64" using x i by (simp add: PC_SIZE_def)
      show "content (pg_deviceid ?p) w x = content (pg_deviceid ?p) (pc_world s) x"
      proof (rule frame, rule ccontr)
        assume "\<not> (pg_deviceid ?p \<noteq> d \<or> x < lo \<or> hi \<le> x)"
        then have "pg_deviceid ?p = d" "lo \<le> x" "x < hi" by auto
        with pages [OF this(2,3) x64] l cl xd show False by (simp add: pc_cached_def page_dirty_def)
      qed
    qed
    then show "pg_data ?p = byte_range (content (pg_deviceid ?p) w) (unat (pg_index ?p) * PC_SIZE) PC_SIZE"
      using lo(2) cur cl by (simp add: clean_ok_def)
  qed
  then show "pc_ok dm content wfd (s\<lparr>pc_world := w\<rparr>)" using ok wfd t by (simp add: pc_ok_def tab_ok_def bsz_ok_def)
  show "pc_view dm content (s\<lparr>pc_world := w\<rparr>) d' a =
      (if pc_cached dm d' s (of_nat (a div PC_SIZE)) then pc_view dm content s d' a else content d' w a)"
    by (auto simp: pc_view_def pc_cached_def)
qed

lemma uncached_view: "\<not> pc_cached dm d s (of_nat (a div PC_SIZE)) \<Longrightarrow> pc_view dm content s d a = content d (pc_world s) a"
  by (simp add: pc_view_def pc_cached_def)

lemma direct_write_ok:
  assumes ok: "pc_ok dm content wfd s" and ops: "dev_block dm d = Some ops" and req: "req_ok ops sector n"
    and len: "length src = req_len ops n" and nc: "\<forall>i \<in> req_pages ops sector n. \<not> pc_cached dm d s (of_nat i)"
    and wr: "direct_write dm d sector src n s = (okk, s')"
  shows "pc_ok dm content wfd s'"
    and "\<lbrakk>x < 2 ^ 64; \<not> (d' = d \<and> req_start ops sector \<le> x \<and> x < req_start ops sector + req_len ops n)\<rbrakk> \<Longrightarrow> pc_view dm content s' d' x = pc_view dm content s d' x"
    and "okk \<Longrightarrow> view_is dm content s' (written (pc_view dm content s) d (req_start ops sector) src)"
proof -
  let ?a = "req_start ops sector"
  obtain w where w: "pc_dev_write dm d sector src n None (pc_world s) = (okk, w)" and s': "s' = s\<lparr>pc_world := w\<rparr>"
    using wr by (auto simp: direct_write_def split: prod.splits)
  have wfd: "wfd (pc_world s)" using ok by (simp add: pc_ok_def)
  note W = dev_write_ok [OF wfd ops w len [unfolded req_len_def]]
  have nc': "\<not> pc_cached dm d s (of_nat (x div PC_SIZE))" if "?a \<le> x" "x < ?a + length src" for x
    using nc that len by (auto simp: req_pages_def intro!: div_le_mono bspec [OF nc])
  have frame: "content d' w x = content d' (pc_world s) x" if "d' \<noteq> d \<or> x < ?a \<or> ?a + length src \<le> x" for d' x
    using that W(2) [of d'] W(3) [of x] by (cases "d' = d") (auto simp: req_start_def)
  note C = device_change [OF ok W(1) frame, of d]
  show "pc_ok dm content wfd s'" unfolding s' by (rule C(1)) (use nc' in auto)
  have v: "pc_view dm content s' d' x = (if pc_cached dm d' s (of_nat (x div PC_SIZE)) then pc_view dm content s d' x else content d' w x)"
    if "x < 2 ^ 64" for d' x unfolding s' by (rule C(2) [OF _ _ that]) (use nc' in auto)
  show out: "pc_view dm content s' d' x = pc_view dm content s d' x"
    if "x < 2 ^ 64" "\<not> (d' = d \<and> ?a \<le> x \<and> x < ?a + req_len ops n)" for d' x
    using v [OF that(1)] frame [of d' x] that(2) len uncached_view [of d' s x] by auto
  assume "okk"
  then have "byte_range (content d w) ?a (length src) = src" using W(4) by (simp add: req_start_def)
  then have "content d w x = src ! (x - ?a)" if "?a \<le> x" "x < ?a + length src" for x
    using that nth_byte_range [of "x - ?a" "length src" "content d w" ?a] by simp
  then show "view_is dm content s' (written (pc_view dm content s) d ?a src)"
    unfolding view_is_def using v nc' out len by (auto simp: written_def)
qed

text \<open>Filling a single page that is not cached: afterwards it is cached, or no line could be taken for it.\<close>

lemma fill_single:
  assumes ok: "pc_ok dm content wfd s" and ops: "dev_block dm d = Some ops" and i: "i < 2 ^ 52"
    and nc: "\<not> pc_cached dm d s (of_nat i)" and fl: "pc_fill_range dm d (of_nat i) (of_nat i) s = (fok, s')"
  shows "pc_keeps dm content wfd s s'"
    and "pc_cached dm d s' (of_nat i) \<and> fok \<or> \<not> pc_cached dm d s' (of_nat i) \<and> (fok \<longrightarrow> fst (pc_claim dm (pc_tab s') d (of_nat i)) = None)"
proof -
  have ui: "unat (of_nat i :: u64) = i" using i by (simp add: unat_of_nat)
  show "pc_keeps dm content wfd s s'" using keeps_fill_range [OF ops, of "of_nat i" s "of_nat i"] ui i fl by simp
  let ?sp = "of_nat PC_SIZE div block_size ops :: u32"
  define s0 where "s0 = snd (pc_bsize dm d s)"
  have t0: "pc_tab s0 = pc_tab s" by (simp add: s0_def)
  have fp: "fill_pages dm d ?sp [of_nat i] s0 = (fok, s')"
    using fl ui by (simp add: pc_fill_range_def Let_def case_prod_beta bsize_value [OF ok ops] s0_def)
  have l: "pc_lookup dm (pc_tab s) d (of_nat i) = None" using nc by (simp add: pc_cached_def)
  have nc0: "\<not> pc_cached dm d s0 (of_nat i)" using nc t0 by (simp add: pc_cached_def)
  have run: "fill_run dm d s0 [of_nat i] = [of_nat i]" using nc0 by (simp add: fill_run_def PC_MAX_IO_def PC_SIZE_def)
  obtain mok s1 where m: "pc_malloc s0 = (mok, s1)" by fastforce
  have t1: "pc_tab s1 = pc_tab s" using m t0 by (auto simp: pc_malloc_def split: list.splits)
  have fill_nil: "fill_pages dm d ?sp [] t = (True, t)" for t by (subst fill_pages.simps) simp
  obtain res w where rd: "pc_dev_read dm d (of_nat i * ucast ?sp) ?sp (Some 0) (pc_world s1) = (res, w)" by fastforce
  let ?s2 = "s1\<lparr>pc_world := w, pc_merged := pc_merged s1 + ?sp\<rparr>"
  have out: "(fok, s') = (if \<not> mok then (False, s1) else case res of None \<Rightarrow> (False, s1\<lparr>pc_world := w\<rparr>)
     | Some (bounce, gen) \<Rightarrow> (True, fill_one dm d gen (of_nat i) (mem_get bounce 0 PC_SIZE) ?s2))"
    unfolding fp [symmetric] using nc0
    by (subst fill_pages.simps) (simp add: run m rd Let_def fill_nil split: option.split)
  show "pc_cached dm d s' (of_nat i) \<and> fok \<or> \<not> pc_cached dm d s' (of_nat i) \<and> (fok \<longrightarrow> fst (pc_claim dm (pc_tab s') d (of_nat i)) = None)"
  proof (cases "mok \<and> res \<noteq> None")
    case False
    then have "\<not> fok" "pc_tab s' = pc_tab s" using out t1 by (auto split: if_splits option.splits)
    then show ?thesis using l by (simp add: pc_cached_def)
  next
    case True
    then obtain bounce gen where r: "res = Some (bounce, gen)" by auto
    have fok: "fok" and s': "s' = fill_one dm d gen (of_nat i) (mem_get bounce 0 PC_SIZE) ?s2" using out True r by auto
    have gen: "gen = devmgr_get_generation d dm" "gen \<noteq> 0"
      using rd r by (auto simp: pc_dev_read_def pc_dev_open_def Let_def split: option.splits prod.splits if_splits)
    have l2: "pc_lookup dm (pc_tab ?s2) d (of_nat i) = None" using l t1 by simp
    obtain cr tab where c: "pc_claim dm (pc_tab ?s2) d (of_nat i) = (cr, tab)" by fastforce
    from l2 c show ?thesis
    proof (cases rule: claim_cases)
      case none
      then have "pc_tab s' = pc_tab ?s2" using l2 c by (simp add: s' fill_one_def)
      then show ?thesis using c none l2 by (simp add: pc_cached_def)
    next
      case (line j)
      have jl: "j < length (pc_tab s1)" using line(2) t1 pc_ok_length [OF ok] by simp
      have "pc_hit dm d (of_nat i) (pc_tab s' ! j)"
        using jl line l2 c gen by (simp add: s' fill_one_def pc_hit_def blkcache_device_key_is_current_def PC_UPTODATE_def)
      then have "pc_cached dm d s' (of_nat i)" using pc_lookup_None [of dm "pc_tab s'" d "of_nat i" j] line(2) by (auto simp: pc_cached_def)
      then show ?thesis using fok by blast
    qed
  qed
qed

text \<open>The loop of a write on one page that is not cached and has to be written as a whole, or for which no line can be taken.\<close>

lemma write_uncached:
  assumes ok: "pc_ok dm content wfd s" and i: "i < 2 ^ 52" and gen: "devmgr_get_generation d dm \<noteq> 0"
    and nc: "\<not> pc_cached dm d s (of_nat i)"
    and whole: "poff = 0 \<and> m = PC_SIZE \<and> length src = PC_SIZE \<or> fst (pc_claim dm (pc_tab s) d (of_nat i)) = None"
    and wr: "write_chunks dm d [(of_nat i, poff, m, 0)] src s = (okk, s')"
  shows "if okk then pc_ok dm content wfd s' \<and> view_is dm content s' (written (pc_view dm content s) d (i * PC_SIZE) src) else s' = s"
proof -
  have l: "pc_lookup dm (pc_tab s) d (of_nat i) = None" using nc by (simp add: pc_cached_def)
  obtain r tab where c: "pc_claim dm (pc_tab s) d (of_nat i) = (r, tab)" by fastforce
  from l c show ?thesis
  proof (cases rule: claim_cases)
    case none
    then show ?thesis using wr l c by (simp add: put_line_def)
  next
    case (line j)
    then have w: "poff = 0" "m = PC_SIZE" "length src = PC_SIZE" using whole c by auto
    obtain s1 where pl: "put_line dm d (of_nat i) 0 PC_SIZE s = (Some j, s1)" using l c line(1) by (simp add: put_line_def)
    have "mem_get src 0 PC_SIZE = src" using w(3) by (simp add: mem_get_all)
    then have "okk" "s' = dirty_line j 0 src s1" using wr pl w by simp_all
    then show ?thesis using dirty_claimed [OF ok i gen l pl w(3)] by simp
  qed
qed

lemma write_refines:
  assumes ok: "pc_ok dm content wfd s" and ops: "dev_block dm d = Some ops" and req: "req_ok ops sector n"
    and gen: "devmgr_get_generation d dm \<noteq> 0" and len: "length src = req_len ops n"
    and pages: "req_pages ops sector n = {i} \<or> (\<forall>i \<in> req_pages ops sector n. pc_cached dm d s (of_nat i))"
    and wr: "blkcache_write dm d sector n (Some src) s = (okk, s')"
  shows "pc_ok dm content wfd s' \<and>
    (\<forall>d' x. x < 2 ^ 64 \<and> \<not> (d' = d \<and> req_start ops sector \<le> x \<and> x < req_start ops sector + req_len ops n) \<longrightarrow>
        pc_view dm content s' d' x = pc_view dm content s d' x) \<and>
    (okk \<longrightarrow> view_is dm content s' (written (pc_view dm content s) d (req_start ops sector) src))"
    (is "?post s")
    and "\<not> okk \<Longrightarrow> \<exists>w. wfd w \<and> \<not> fst (pc_dev_write dm d sector src n None w)"
proof -
  let ?st = "sector * ucast (block_size ops) :: u64" and ?ln = "ucast n * ucast (block_size ops) :: u64"
  let ?a = "req_start ops sector" and ?b = "req_start ops sector + req_len ops n"
  define s1 where "s1 = snd (pc_bsize dm d (pc_remember_bsize dm d s))"
  have k1: "pc_keeps dm content wfd s s1" unfolding s1_def by (rule pc_keeps_trans [OF keeps_remember keeps_bsize])
  have t1: "pc_tab s1 = pc_tab s" by (simp add: s1_def)
  have bs: "pc_bsize dm d (pc_remember_bsize dm d s) = (block_size ops, s1)"
    using bsize_value [OF pc_keepsD(1) [OF keeps_remember ok] ops] by (simp add: s1_def prod_eq_iff)
  note w = req_words [OF req]
  have b64: "?b \<le> 2 ^ 64" using req by (simp add: req_ok_def)
  have sp: "spans ?a ?a ?b (pc_chunks ?st ?ln 0)" using spans_chunks [of ?st ?ln 0] req w(1,2) by (simp add: req_ok_def)
  have n0: "n \<noteq> 0" "pc_alloc s" using req ok by (auto simp: req_ok_def pc_ok_def)
  obtain fok s2 where fl: "(if ?st AND 0xFFF \<noteq> 0 \<or> (?st + ?ln) AND 0xFFF \<noteq> 0
      then pc_fill_range dm d (drop_bit 12 ?st) (drop_bit 12 (?st + ?ln - 1)) s1 else (True, s1)) = (fok, s2)" by fastforce
  obtain wok s3 where wc: "write_chunks dm d (pc_chunks ?st ?ln 0) src s2 = (wok, s3)" by fastforce
  have e: "blkcache_write dm d sector n (Some src) s =
      (if \<not> fok then direct_write dm d sector src n s2 else if wok then (True, s3) else direct_write dm d sector src n s3)"
    using n0 fl wc by (simp add: blkcache_write_def bs Let_def)
  have "pc_keeps dm content wfd s1 (snd (pc_fill_range dm d (drop_bit 12 ?st) (drop_bit 12 (?st + ?ln - 1)) s1))"
    using w(5,6) by (intro keeps_fill_range [OF ops]) simp
  then have "pc_keeps dm content wfd s1 s2"
    using fl by (cases "?st AND 0xFFF \<noteq> 0 \<or> (?st + ?ln) AND 0xFFF \<noteq> 0") simp_all
  then have k2: "pc_keeps dm content wfd s s2" by (rule pc_keeps_trans [OF k1])
  have ok2: "pc_ok dm content wfd s2" by (rule pc_keepsD(1) [OF k2 ok])
  have v2: "view_is dm content s' (written (pc_view dm content s2) d ?a src) \<Longrightarrow> view_is dm content s' (written (pc_view dm content s) d ?a src)" for s'
    using pc_keepsD(2) [OF k2 ok] by (auto simp: view_is_def written_def)
  have inside: "pc_view dm content s' d' x = pc_view dm content s d' x"
    if "view_is dm content s' (written (pc_view dm content s) d ?a src)" "x < 2 ^ 64" "\<not> (d' = d \<and> ?a \<le> x \<and> x < ?b)" for s' d' x
    using that len by (auto simp: view_is_def written_def)
  have direct: "?post s" if "direct_write dm d sector src n s2 = (okk, s')" "\<forall>i \<in> req_pages ops sector n. \<not> pc_cached dm d s2 (of_nat i)"
    using direct_write_ok [OF ok2 ops req len that(2,1)] pc_keepsD(2) [OF k2 ok] v2 by (metis (no_types, lifting))
  have ok3: "wfd (pc_world s3)" if "\<not> wok"
    using write_chunks_world [OF wc] ok2 by (simp add: pc_ok_def)
  show "\<exists>w. wfd w \<and> \<not> fst (pc_dev_write dm d sector src n None w)" if bad: "\<not> okk"
  proof -
    obtain t where t: "wfd (pc_world t)" "\<not> fst (direct_write dm d sector src n t)"
      using wr e ok2 ok3 bad by (auto simp: pc_ok_def split: if_splits)
    then show ?thesis by (auto simp: direct_write_def split: prod.splits)
  qed
  show "?post s"
  proof (cases "\<forall>i \<in> req_pages ops sector n. pc_cached dm d s (of_nat i)")
    case True
    then have all: "pc_cached dm d s1 (of_nat k)" if "?a div PC_SIZE \<le> k" "k \<le> (?b - 1) div PC_SIZE" for k
      using that t1 by (auto simp: req_pages_def pc_cached_def)
    have f: "fok" "pc_tab s2 = pc_tab s1" using fl fill_cached [of "drop_bit 12 ?st" "drop_bit 12 (?st + ?ln - 1)" dm d s1] all w(4,5) by (auto split: if_splits)
    have "\<forall>(i, _) \<in> set (pc_chunks ?st ?ln 0). pc_cached dm d s2 i"
      using spans_pages [OF sp] all f(2) by (fastforce simp: pc_cached_def)
    from write_chunks_cached [OF sp _ b64 _ ok2 this, of src] wc len
    have "wok" "pc_ok dm content wfd s3" "view_is dm content s3 (written (pc_view dm content s2) d ?a src)"
      by (auto simp: mem_get_all)
    then show ?thesis using wr e f(1) v2 inside by auto
  next
    case False
    then obtain one: "req_pages ops sector n = {i}" and nc: "\<not> pc_cached dm d s (of_nat i)" using pages by auto
    have ab: "?a div PC_SIZE = i" "(?b - 1) div PC_SIZE = i" using one by (auto simp: req_pages_def)
    have i52: "i < 2 ^ 52" using w(6) ab by simp
    have cs: "pc_chunks ?st ?ln 0 = [(of_nat i, ?a mod PC_SIZE, req_len ops n, 0)]"
      using spans_one_page [OF sp] ab w(3) by simp
    have nc1: "\<not> pc_cached dm d s1 (of_nat i)" using nc t1 by (simp add: pc_cached_def)
    have ok1: "pc_ok dm content wfd s1" by (rule pc_keepsD(1) [OF k1 ok])
    show ?thesis
    proof (cases "?st AND 0xFFF \<noteq> 0 \<or> (?st + ?ln) AND 0xFFF \<noteq> 0")
      case partial: True
      have "drop_bit 12 ?st = of_nat i" "drop_bit 12 (?st + ?ln - 1) = of_nat i"
        using w(4,5) ab i52 by (simp_all add: word_unat_eq_iff unat_of_nat)
      then have "pc_fill_range dm d (of_nat i) (of_nat i) s1 = (fok, s2)" using fl partial by simp
      note fs = fill_single [OF ok1 ops i52 nc1 this]
      show ?thesis
      proof (cases "pc_cached dm d s2 (of_nat i)")
        case cached: True
        then have "\<forall>(i, _) \<in> set (pc_chunks ?st ?ln 0). pc_cached dm d s2 i" by (simp add: cs)
        from write_chunks_cached [OF sp _ b64 _ ok2 this, of src] wc len
        have "wok" "pc_ok dm content wfd s3" "view_is dm content s3 (written (pc_view dm content s2) d ?a src)" by (auto simp: mem_get_all)
        then show ?thesis using wr e fs(2) cached v2 inside by auto
      next
        case uncached: False
        have "s3 = s2 \<and> \<not> wok" if "fok"
          using that fs(2) uncached wc [unfolded cs] by (auto simp: put_line_def pc_cached_def pc_claim_def split: option.splits if_splits)
        then have "direct_write dm d sector src n s2 = (okk, s')" using wr e by (auto split: if_splits)
        then show ?thesis using direct uncached one by simp
      qed
    next
      case False
      then have s2: "fok" "s2 = s1" using fl by auto
      have "?a mod PC_SIZE = 0" using False page_offset [of ?st] w(1) by simp
      moreover have "?b mod PC_SIZE = 0"
      proof -
        have "unat (?st + ?ln) mod PC_SIZE = 0" using False page_offset [of "?st + ?ln"] by simp
        moreover have "unat (?st + ?ln) = ?b mod 2 ^ 64" using w(1,2) by (simp add: unat_word_ariths)
        ultimately show ?thesis by (simp add: PC_SIZE_def mod_mod_cancel)
      qed
      ultimately have al: "?a = i * PC_SIZE" "req_len ops n = PC_SIZE"
      proof -
        assume m: "?a mod PC_SIZE = 0" "?b mod PC_SIZE = 0"
        show "?a = i * PC_SIZE" using m(1) ab(1) div_mult_mod_eq [of ?a PC_SIZE] by simp
        have "?b = ?b div PC_SIZE * PC_SIZE" using m(2) by auto
        moreover have "?b div PC_SIZE = Suc i"
          using m(2) ab(2) w(3) by (metis One_nat_def Suc_pred add_gr_0 div_Suc)
        ultimately show "req_len ops n = PC_SIZE" using \<open>?a = i * PC_SIZE\<close> by simp
      qed
      have nc2: "\<not> pc_cached dm d s2 (of_nat i)" using nc1 s2 by simp
      have W: "if wok then pc_ok dm content wfd s3 \<and> view_is dm content s3 (written (pc_view dm content s2) d (i * PC_SIZE) src) else s3 = s2"
        using al len by (intro write_uncached [OF ok2 i52 gen nc2 _ wc [unfolded cs]]) simp
      show ?thesis
      proof (cases wok)
        case True
        then show ?thesis using W wr e s2(1) v2 inside al by auto
      next
        case False
        then have "direct_write dm d sector src n s2 = (okk, s')" using W wr e s2(1) by simp
        then show ?thesis using direct nc2 one by simp
      qed
    qed
  qed
qed

end

end
