(* ===== verification/Blkcache_Flush.thy ===== *)
theory Blkcache_Flush
  imports Blkcache_Write
begin

text \<open>
  Writing the dirty pages back, and the promises of the page cache as theorems about any drivers that keep
  the contract of block devices.
\<close>

section \<open>Writing back\<close>

lemma flags_cases: "line_ok p \<Longrightarrow> pg_flags p = 0 \<or> pg_flags p = 1 \<or> pg_flags p = 3"
  by (auto simp: line_ok_def PC_UPTODATE_def PC_DIRTY_def)

lemma dirty_positive:
  assumes ok: "pc_ok dm content wfd s" and i: "i < PC_NPAGES" and d: "pc_isdirty (pc_tab s ! i)"
  shows "pc_dirty s \<noteq> 0" and "unat (pc_dirty s - 1) + 1 = unat (pc_dirty s)"
proof -
  have "pc_tab s ! i \<in> set (filter pc_isdirty (pc_tab s))" using i d pc_ok_length [OF ok] by simp
  then have "0 < length (filter pc_isdirty (pc_tab s))" by (metis length_pos_if_in_set)
  then show nz: "pc_dirty s \<noteq> 0" using ok by (auto simp: pc_ok_def)
  then have "0 < unat (pc_dirty s)" by (simp add: unat_gt_0)
  then show "unat (pc_dirty s - 1) + 1 = unat (pc_dirty s)" using u32_pred [OF nz] by simp
qed

lemma upd_line_simps [simp]:
  "pc_tab (upd_line i f s) = (pc_tab s)[i := f (pc_tab s ! i)]" "pc_dirty (upd_line i f s) = pc_dirty s" "same_env s (upd_line i f s)"
  "pc_world (upd_line i f s) = pc_world s"
  by (simp_all add: upd_line_def same_env_def)

text \<open>Dropping a dirty line of a device that has been replaced.\<close>

lemma drop_stale:
  assumes ok: "pc_ok dm content wfd s" and i: "i < PC_NPAGES" and d: "pc_isdirty (pc_tab s ! i)" and st: "\<not> pc_current dm (pc_tab s ! i)"
    and s': "s' = (upd_line i (\<lambda>q. q\<lparr>pg_flags := 0, pg_deviceid := -1\<rparr>) s)\<lparr>pc_dirty := pc_dirty s - 1\<rparr>"
  shows "pc_ok dm content wfd s'" and "a < 2 ^ 64 \<Longrightarrow> pc_view dm content s' d' a = pc_view dm content s d' a"
proof -
  let ?p = "(pc_tab s ! i)\<lparr>pg_flags := 0, pg_deviceid := -1\<rparr>"
  have t: "tab_ok dm content (pc_world s) (pc_tab s)" using ok by (simp add: pc_ok_def)
  have nc: "\<not> pc_current dm ?p" by (simp add: pc_current_def)
  have lp: "line_ok ?p" "clean_ok dm content (pc_world s) ?p" using t i nc by (auto simp: tab_ok_def line_ok_def clean_ok_def)
  have env: "same_env s s'" "pc_tab s' = (pc_tab s)[i := ?p]" "pc_world s' = pc_world s" by (simp_all add: s' same_env_def upd_line_def)
  have cnt: "unat (pc_dirty s') + (if pc_isdirty (pc_tab s ! i) then 1 else 0) = unat (pc_dirty s) + (if pc_isdirty ?p then 1 else 0)"
    using d dirty_positive(2) [OF ok i d] by (simp add: s')
  note R = pc_ok_replace [OF ok i _ lp env(1,2) cnt]
  show "pc_ok dm content wfd s'" using nc by (intro R(1)) simp
  have t': "tab_ok dm content (pc_world s) ((pc_tab s)[i := ?p])" using nc by (intro R(2)) simp
  assume a: "a < 2 ^ 64"
  have "pc_lookup dm (pc_tab s) d' (of_nat (a div PC_SIZE)) \<noteq> Some i"
    using lookup_Some(2) [of dm "pc_tab s" d' "of_nat (a div PC_SIZE)" i] st by (auto simp: pc_hit_current)
  then have "pc_view dm content s' d' a = (if pc_hit dm d' (of_nat (a div PC_SIZE)) ?p then pg_data ?p ! (a mod PC_SIZE) else pc_view dm content s d' a)"
    by (intro view_update [OF t t' i a _ env(2,3)]) blast
  then show "pc_view dm content s' d' a = pc_view dm content s d' a" using nc by (simp add: pc_hit_current)
qed

text \<open>A dirty line whose data the device holds becomes clean.\<close>

lemma clean_line:
  assumes ok: "pc_ok dm content wfd s" and i: "i < PC_NPAGES" and d: "pg_flags (pc_tab s ! i) = 3" and cur: "pc_current dm (pc_tab s ! i)"
    and data: "pg_data (pc_tab s ! i) = byte_range (content (pg_deviceid (pc_tab s ! i)) (pc_world s)) (unat (pg_index (pc_tab s ! i)) * PC_SIZE) PC_SIZE"
    and s': "s' = (upd_line i (\<lambda>q. q\<lparr>pg_flags := pg_flags q AND NOT PC_DIRTY\<rparr>) s)\<lparr>pc_dirty := pc_dirty s - 1\<rparr>"
  shows "pc_ok dm content wfd s'" and "a < 2 ^ 64 \<Longrightarrow> pc_view dm content s' d' a = pc_view dm content s d' a"
proof -
  let ?q = "pc_tab s ! i" and ?p = "(pc_tab s ! i)\<lparr>pg_flags := 1\<rparr>"
  have f: "3 AND NOT (2 :: u8) = 1" by simp
  have t: "tab_ok dm content (pc_world s) (pc_tab s)" using ok by (simp add: pc_ok_def)
  have curp: "pc_current dm ?p" using cur by (simp add: pc_current_def)
  have dq: "pc_isdirty ?q" using d by simp
  have lq: "line_ok ?q" using t i by (auto simp: tab_ok_def)
  have lp: "line_ok ?p" "clean_ok dm content (pc_world s) ?p" using lq d data by (auto simp: line_ok_def clean_ok_def PC_UPTODATE_def)
  have env: "same_env s s'" "pc_tab s' = (pc_tab s)[i := ?p]" "pc_world s' = pc_world s"
    by (simp_all add: s' same_env_def upd_line_def d PC_DIRTY_def f)
  have cnt: "unat (pc_dirty s') + (if pc_isdirty ?q then 1 else 0) = unat (pc_dirty s) + (if pc_isdirty ?p then 1 else 0)"
    using dq dirty_positive(2) [OF ok i dq] by (simp add: s')
  have alone: "k = i" if "k < PC_NPAGES" "pc_hit dm (pg_deviceid ?p) (pg_index ?p) (pc_tab s ! k)" for k
    using tab_ok_unique [OF t that(1) i that(2)] cur by (simp add: pc_hit_current)
  note R = pc_ok_replace [OF ok i alone lp env(1,2) cnt]
  show "pc_ok dm content wfd s'" using R(1) by simp
  have t': "tab_ok dm content (pc_world s) ((pc_tab s)[i := ?p])" using R(2) by simp
  have hit: "pc_hit dm d' k ?p = pc_hit dm d' k ?q" for d' k using cur curp by (simp add: pc_hit_current)
  assume a: "a < 2 ^ 64"
  have "pc_view dm content s' d' a = (if pc_hit dm d' (of_nat (a div PC_SIZE)) ?p then pg_data ?p ! (a mod PC_SIZE) else pc_view dm content s d' a)"
    using lookup_Some(2) [of dm "pc_tab s" d' "of_nat (a div PC_SIZE)" i] by (intro view_update [OF t t' i a _ env(2,3)]) (auto simp: hit)
  moreover have "pc_view dm content s d' a = pg_data ?q ! (a mod PC_SIZE)" if "pc_hit dm d' (of_nat (a div PC_SIZE)) ?q"
    using that i lookup_iff [OF t, of d' "of_nat (a div PC_SIZE)" i] by (simp add: pc_view_def)
  ultimately show "pc_view dm content s' d' a = pc_view dm content s d' a" by (simp add: hit)
qed

text \<open>What a step of the flush promises.\<close>

definition flush_step :: "'d registry \<Rightarrow> (int \<Rightarrow> 'd \<Rightarrow> nat \<Rightarrow> u8) \<Rightarrow> ('d \<Rightarrow> bool) \<Rightarrow> 'd pcache \<Rightarrow> 'd pcache \<Rightarrow> bool" where
  "flush_step dm content wfd s s' \<longleftrightarrow> (pc_ok dm content wfd s \<longrightarrow> pc_ok dm content wfd s' \<and>
     (\<forall>d a. a < 2 ^ 64 \<longrightarrow> pc_view dm content s' d a = pc_view dm content s d a) \<and>
     (\<forall>k < PC_NPAGES. pc_isdirty (pc_tab s' ! k) \<longrightarrow> pc_isdirty (pc_tab s ! k)))"

lemma flush_step_trans: "flush_step dm content wfd a b \<Longrightarrow> flush_step dm content wfd b c \<Longrightarrow> flush_step dm content wfd a c"
  unfolding flush_step_def by metis

lemma keeps_flush_step: "pc_keeps dm content wfd s s' \<Longrightarrow> pc_tab s' = pc_tab s \<Longrightarrow> flush_step dm content wfd s s'"
  unfolding flush_step_def pc_keeps_def by metis

context block_devices
begin

lemma flush_line_ok:
  assumes i: "i < PC_NPAGES" and fl: "flush_line dm i s = (fok, s')" and ok: "pc_ok dm content wfd s"
  shows "flush_step dm content wfd s s' \<and> (fok \<longrightarrow> \<not> pc_isdirty (pc_tab s' ! i))"
proof -
  let ?p = "pc_tab s ! i"
  have t: "tab_ok dm content (pc_world s) (pc_tab s)" using ok by (simp add: pc_ok_def)
  have lp: "line_ok ?p" using t i by (auto simp: tab_ok_def)
  show ?thesis
  proof (cases "pg_flags ?p = 3")
    case False
    then have "pg_flags ?p = 0 \<or> pg_flags ?p = 1" using flags_cases [OF lp] by blast
    then have "fok" "s' = s" "\<not> pc_isdirty ?p" using fl by (auto simp: flush_line_def Let_def PC_DIRTY_def PC_UPTODATE_def)
    then show ?thesis by (simp add: flush_step_def)
  next
    case f3: True
    define s1 where "s1 = pc_remember_bsize dm (pg_deviceid ?p) s"
    have k1: "pc_keeps dm content wfd s s1" "pc_tab s1 = pc_tab s" by (simp_all add: s1_def keeps_remember)
    have ok1: "pc_ok dm content wfd s1" by (rule pc_keepsD(1) [OF k1(1) ok])
    have dp: "pc_isdirty ?p" using f3 by simp
    show ?thesis
    proof (cases "blkcache_device_key_is_current (pg_device_generation ?p) (devmgr_get_generation (pg_deviceid ?p) dm)")
      case False
      have e: "fok = False" "s' = (upd_line i (\<lambda>q. q\<lparr>pg_flags := 0, pg_deviceid := -1\<rparr>) s1)\<lparr>pc_dirty := pc_dirty s1 - 1\<rparr>"
        using fl f3 False dirty_positive(1) [OF ok1 i] k1(2) by (simp_all add: flush_line_def Let_def PC_DIRTY_def PC_UPTODATE_def s1_def)
      have st: "\<not> pc_current dm (pc_tab s1 ! i)" using False k1(2) by (simp add: pc_current_def)
      note D = drop_stale [OF ok1 i _ st e(2)]
      have "flush_step dm content wfd s1 s'"
        unfolding flush_step_def using D dp k1(2) i pc_ok_length [OF ok1] by (auto simp: e(2) nth_update_if split: if_splits)
      then show ?thesis using flush_step_trans [OF keeps_flush_step [OF k1]] e(1) by simp
    next
      case key: True
      then have cur: "pc_current dm ?p" using f3 by (simp add: pc_current_def)
      let ?d = "pg_deviceid ?p"
      obtain bsz s2 where b2: "pc_bsize dm ?d s1 = (bsz, s2)" by fastforce
      then have s2: "s2 = snd (pc_bsize dm ?d s1)" by simp
      have k2: "pc_keeps dm content wfd s s2" "pc_tab s2 = pc_tab s" unfolding s2 using k1 by (auto intro: pc_keeps_trans [OF k1(1) keeps_bsize])
      have ok2: "pc_ok dm content wfd s2" by (rule pc_keepsD(1) [OF k2(1) ok])
      obtain wok w where dw: "pc_dev_write dm ?d (pg_index ?p * (of_nat PC_SIZE div ucast bsz)) (pg_data ?p) (of_nat PC_SIZE div bsz)
          (Some (pg_device_generation ?p)) (pc_world s2) = (wok, w)" by fastforce
      let ?s3 = "s2\<lparr>pc_world := w\<rparr>"
      have out: "(fok, s') = (if \<not> wok then (False, ?s3)
          else (True, (upd_line i (\<lambda>q. q\<lparr>pg_flags := pg_flags q AND NOT PC_DIRTY\<rparr>) ?s3)\<lparr>pc_dirty := pc_dirty s2 - 1\<rparr>))"
        using fl f3 key dw dirty_positive(1) [OF ok2 i] k2(2) dp
        by (cases wok) (simp_all add: flush_line_def Let_def PC_DIRTY_def PC_UPTODATE_def blkcache_writeback_is_current_def b2 flip: s1_def)
      have wfd: "wfd (pc_world s2)" using ok2 by (simp add: pc_ok_def)
      show ?thesis
      proof (cases "dev_block dm ?d")
        case None
        then have "wok = False" "w = pc_world s2" using dw by (auto simp: pc_dev_write_def pc_dev_open_def)
        then have "fok = False" "s' = s2" using out by auto
        then show ?thesis using keeps_flush_step [OF k2] by simp
      next
        case (Some ops)
        have bs: "bsz = block_size ops" using bsize_value [OF ok1 Some] b2 by simp
        have idx: "unat (pg_index ?p) < 2 ^ 52" using lp f3 by (simp add: line_ok_def)
        have ld: "length (pg_data ?p) = PC_SIZE" using lp by (simp add: line_ok_def)
        have sec: "unat (pg_index ?p * (of_nat PC_SIZE div ucast bsz)) * unat (block_size ops) = unat (pg_index ?p) * PC_SIZE"
          "unat (of_nat PC_SIZE div bsz :: u32) * unat (block_size ops) = PC_SIZE"
          unfolding bs by (rule block_size_cases [of ops]; use idx in \<open>simp add: PC_SIZE_def unat_word_ariths\<close>)+
        note W = dev_write_ok [OF wfd Some dw]
        let ?lo = "unat (pg_index ?p) * PC_SIZE" and ?hi = "unat (pg_index ?p) * PC_SIZE + PC_SIZE"
        have pi: "x div PC_SIZE = unat (pg_index ?p)" if "?lo \<le> x" "x < ?hi" for x
          using that by (intro div_nat_eqI) (simp_all add: mult.commute PC_SIZE_def)
        have look: "pc_lookup dm (pc_tab s2) ?d (pg_index ?p) = Some i" using cur i by (simp add: k2(2) lookup_iff [OF t] pc_hit_current)
        have pd: "pc_cached dm ?d s2 (of_nat (x div PC_SIZE))" "page_dirty dm s2 ?d (x div PC_SIZE)" if "?lo \<le> x" "x < ?hi" for x
          using pi [OF that] look dp k2(2) by (simp_all add: pc_cached_def page_dirty_def)
        have frame: "content d' w x = content d' (pc_world s2) x" if "d' \<noteq> ?d \<or> x < ?lo \<or> ?hi \<le> x" for d' x
          using that W(2) [of d'] W(3) [of x] sec ld by (cases "d' = ?d") auto
        have wfw: "wfd w" using W(1) sec ld by simp
        note C = device_change [OF ok2 wfw frame, of ?d ?lo ?hi]
        have ok3: "pc_ok dm content wfd ?s3" by (rule C(1)) (use pd in auto)
        have v3: "pc_view dm content ?s3 d' a = pc_view dm content s2 d' a" if "a < 2 ^ 64" for d' a
        proof -
          have "pc_view dm content ?s3 d' a = (if pc_cached dm d' s2 (of_nat (a div PC_SIZE)) then pc_view dm content s2 d' a else content d' w a)"
            by (rule C(2) [OF _ _ that]) (use pd in auto)
          moreover have "content d' w a = pc_view dm content s2 d' a" if nc: "\<not> pc_cached dm d' s2 (of_nat (a div PC_SIZE))"
          proof -
            have "d' \<noteq> ?d \<or> a < ?lo \<or> ?hi \<le> a" using nc pd(1) [of a] by (metis linorder_not_less)
            then show ?thesis using frame uncached_view [OF nc] by simp
          qed
          ultimately show ?thesis by simp
        qed
        have st3: "flush_step dm content wfd s2 ?s3" using ok3 v3 by (simp add: flush_step_def)
        then have st: "flush_step dm content wfd s ?s3" by (rule flush_step_trans [OF keeps_flush_step [OF k2]])
        show ?thesis
        proof (cases wok)
          case False then show ?thesis using out st by simp
        next
          case True
          have e: "fok" "s' = (upd_line i (\<lambda>q. q\<lparr>pg_flags := pg_flags q AND NOT PC_DIRTY\<rparr>) ?s3)\<lparr>pc_dirty := pc_dirty ?s3 - 1\<rparr>" using out True by auto
          have data: "pg_data (pc_tab ?s3 ! i) = byte_range (content (pg_deviceid (pc_tab ?s3 ! i)) (pc_world ?s3)) (unat (pg_index (pc_tab ?s3 ! i)) * PC_SIZE) PC_SIZE"
            using W(4) True sec ld k2(2) by simp
          note L = clean_line [OF ok3 i _ _ data e(2)]
          have i3: "pg_flags (pc_tab ?s3 ! i) = 3" "pc_current dm (pc_tab ?s3 ! i)" "i < length (pc_tab ?s3)"
            using f3 cur k2(2) pc_ok_length [OF ok3] i by simp_all
          have clean: "\<not> pc_isdirty (pc_tab s' ! i)" using i3 by (simp add: e(2) PC_DIRTY_def)
          have "flush_step dm content wfd ?s3 s'"
            unfolding flush_step_def using L [OF i3(1,2)] clean by (auto simp: e(2) nth_update_if split: if_splits)
          then show ?thesis using flush_step_trans [OF st] clean by blast
        qed
      qed
    qed
  qed
qed

lemma flush_lines_ok:
  "\<lbrakk>\<forall>i \<in> set is. i < PC_NPAGES; flush_lines dm is s = (fok, s'); pc_ok dm content wfd s\<rbrakk> \<Longrightarrow>
   flush_step dm content wfd s s' \<and> (fok \<longrightarrow> (\<forall>i \<in> set is. \<not> pc_isdirty (pc_tab s' ! i)))"
proof (induction "is" arbitrary: s)
  case Nil
  then show ?case by (simp add: flush_step_def)
next
  case (Cons i "is")
  obtain ok1 s1 where f1: "flush_line dm i s = (ok1, s1)" by fastforce
  have i: "i < PC_NPAGES" using Cons.prems(1) by simp
  note F = flush_line_ok [OF i f1 Cons.prems(3)]
  have okk: "pc_ok dm content wfd s1" using F Cons.prems(3) by (simp add: flush_step_def)
  show ?case
  proof (cases ok1)
    case False then show ?thesis using F f1 Cons.prems(2) by simp
  next
    case True
    then have "flush_lines dm is s1 = (fok, s')" using f1 Cons.prems(2) by simp
    from Cons.IH [OF _ this okk] Cons.prems(1)
    have IH: "flush_step dm content wfd s1 s'" "fok \<Longrightarrow> \<forall>i \<in> set is. \<not> pc_isdirty (pc_tab s' ! i)" by auto
    have "\<not> pc_isdirty (pc_tab s' ! i)" using F True IH(1) okk i unfolding flush_step_def by blast
    then show ?thesis using IH F flush_step_trans by auto
  qed
qed

lemma flush_refines:
  assumes ok: "pc_ok dm content wfd s" and fl: "blkcache_flush dm s = (fok, s')"
  shows "pc_ok dm content wfd s'" and "a < 2 ^ 64 \<Longrightarrow> pc_view dm content s' d a = pc_view dm content s d a"
    and "fok \<Longrightarrow> \<not> blkcache_has_dirty s'" and "\<lbrakk>fok; a < 2 ^ 64\<rbrakk> \<Longrightarrow> content d (pc_world s') a = pc_view dm content s d a"
proof -
  have "flush_lines dm [0..<PC_NPAGES] s = (fok, s')" using fl ok by (simp add: blkcache_flush_def pc_ok_def)
  from flush_lines_ok [OF _ this ok]
  have F: "flush_step dm content wfd s s'" "fok \<Longrightarrow> \<forall>i < PC_NPAGES. \<not> pc_isdirty (pc_tab s' ! i)" by auto
  have v: "pc_view dm content s' d a = pc_view dm content s d a" if "a < 2 ^ 64" for a
    using F(1) ok that by (simp add: flush_step_def)
  show ok': "pc_ok dm content wfd s'" using F(1) ok by (simp add: flush_step_def)
  show "a < 2 ^ 64 \<Longrightarrow> pc_view dm content s' d a = pc_view dm content s d a" by (rule v)
  assume fok
  have "filter pc_isdirty (pc_tab s') = []"
    using F(2) [OF \<open>fok\<close>] pc_ok_length [OF ok'] by (auto simp: filter_empty_conv in_set_conv_nth)
  then have "unat (pc_dirty s') = 0" using ok' by (simp add: pc_ok_def)
  then show "\<not> blkcache_has_dirty s'" by (simp add: blkcache_has_dirty_def unat_eq_0)
  assume a: "a < 2 ^ 64"
  have "\<not> page_dirty dm s' d (a div PC_SIZE)"
    using F(2) [OF \<open>fok\<close>] lookup_Some(1) [of dm "pc_tab s'" d "of_nat (a div PC_SIZE)"] by (auto simp: page_dirty_def split: option.splits)
  then have "pc_view dm content s' d a = content d (pc_world s') a" by (rule undirty_view [OF ok' a])
  then show "content d (pc_world s') a = pc_view dm content s d a" using v [OF a] by simp
qed

end

section \<open>The state after initialisation\<close>

lemma init_tab_nohit: "j < length junk \<Longrightarrow> \<not> pc_hit dm d i (pc_tab (blkcache_init okk junk mallocs w) ! j)"
  by (simp add: blkcache_init_def pc_hit_def)

lemma init_ok:
  assumes junk: "length junk = PC_NPAGES" "\<forall>p \<in> set junk. length (pg_data p) = PC_SIZE" and w: "wfd w"
  shows "pc_ok dm content wfd (blkcache_init True junk mallocs w)"
proof -
  have "line_ok (pc_tab (blkcache_init True junk mallocs w) ! j) \<and> \<not> pc_current dm (pc_tab (blkcache_init True junk mallocs w) ! j)"
    if "j < PC_NPAGES" for j using that junk by (simp add: blkcache_init_def line_ok_def pc_current_def)
  then have "tab_ok dm content w (pc_tab (blkcache_init True junk mallocs w))"
    using junk(1) by (auto simp: tab_ok_def clean_ok_def blkcache_init_def)
  then show ?thesis using w by (simp add: pc_ok_def bsz_ok_def blkcache_init_def filter_map o_def)
qed

lemma init_view:
  assumes "length junk = PC_NPAGES" shows "pc_view dm content (blkcache_init True junk mallocs w) d a = content d w a"
proof -
  have "pc_lookup dm (pc_tab (blkcache_init True junk mallocs w)) d i = None" for i
    using lookup_Some [of dm "pc_tab (blkcache_init True junk mallocs w)" d i] init_tab_nohit [of _ junk dm d i True mallocs w] assms
    by (cases "pc_lookup dm (pc_tab (blkcache_init True junk mallocs w)) d i") auto
  then show ?thesis by (simp add: pc_view_def blkcache_init_def)
qed

section \<open>The promises of the cache\<close>

text \<open>C13.
  A read through the cache returns what a client sees, that is the data last written, whether cached, dirty or on the
  device, provided the range is settled: wholly cached, or not waiting to be written back anywhere. Every request that
  lies in one page is settled. No read changes what a client sees or what the devices hold, and a read fails only
  when the device fails.
\<close>

theorem blkcache_read_refines:
  assumes "block_devices dm content wfd" "pc_ok dm content wfd s" "dev_block dm d = Some ops" "req_ok ops sector n"
    and "settled dm s d (req_pages ops sector n)" and "blkcache_read dm d sector n True s = (res, s')"
  shows "pc_ok dm content wfd s' \<and> view_is dm content s' (pc_view dm content s) \<and>
    (\<forall>d. content d (pc_world s') = content d (pc_world s)) \<and>
    (case res of Some buf \<Rightarrow> buf = byte_range (pc_view dm content s d) (req_start ops sector) (req_len ops n)
     | None \<Rightarrow> \<exists>w. wfd w \<and> fst (pc_dev_read dm d sector n None w) = None)"
  using block_devices.read_refines [OF assms(1-4,6)] assms(5) pc_keepsD [OF block_devices.read_refines(1) [OF assms(1-4,6)] assms(2)]
  by (auto simp: view_is_def split: option.split)

definition demo_junk :: "pc_page list" where
  "demo_junk = replicate PC_NPAGES \<lparr>pg_deviceid = 0, pg_index = 0, pg_age = 0, pg_generation = 0, pg_device_generation = 0,
     pg_flags = 0, pg_data = replicate PC_SIZE 0\<rparr>"

definition demo_block :: "u8 \<Rightarrow> bytes" where
  "demo_block v = replicate 512 v"

definition demo_cache :: "ramdisk pcache" where
  "demo_cache = blkcache_init True demo_junk [] (Some (replicate RAMDISK_BYTES 0))"

lemma demo_cache_ok: "pc_ok ramdisk_registry (ramdisk_content 0) ramdisk_wf demo_cache"
  unfolding demo_cache_def by (rule init_ok) (simp_all add: demo_junk_def ramdisk_wf_def)

lemma demo_view: "pc_view ramdisk_registry (ramdisk_content 0) demo_cache 0 a = 0"
  unfolding demo_cache_def by (subst init_view) (simp_all add: demo_junk_def ramdisk_content_def)

lemma demo_req: "req_ok ramdisk_desc 5 1" "req_pages ramdisk_desc 5 1 = {0}" "req_start ramdisk_desc 5 = 2560" "req_len ramdisk_desc 1 = 512"
  by (simp_all add: req_ok_def req_pages_def req_start_def req_len_def ramdisk_block_size PC_SIZE_def)

lemma demo_range: "ramdisk_wf w \<Longrightarrow> ramdisk_range 5 1 w"
  by (auto simp: ramdisk_wf_def ramdisk_range_def RAMDISK_SECTORS_def split: option.splits)

lemma demo_open: "pc_dev_open ramdisk_registry 0 None = Some (ramdisk_desc, 1)"
  by (simp add: pc_dev_open_def ramdisk_registry_block ramdisk_registry_generation)

lemma length_demo_block: "length (demo_block v) = 512" and demo_block_nth: "k < 512 \<Longrightarrow> demo_block v ! k = v"
  unfolding demo_block_def by (simp_all only: length_replicate nth_replicate)

lemma demo_byte_range: "byte_range (pc_view ramdisk_registry (ramdisk_content 0) demo_cache 0) 2560 512 = demo_block 0"
  by (rule nth_equalityI) (simp_all add: byte_range_def length_demo_block demo_block_nth demo_view del: upt_Suc upt_rec_numeral)

theorem blkcache_read_refines_witness:
  "fst (blkcache_read ramdisk_registry 0 5 1 True demo_cache) = Some (demo_block 0)"
proof -
  obtain res s' where r: "blkcache_read ramdisk_registry 0 5 1 True demo_cache = (res, s')" by fastforce
  have b: "dev_block ramdisk_registry 0 = Some ramdisk_desc" by (simp add: ramdisk_registry_block)
  have st: "settled ramdisk_registry demo_cache 0 (req_pages ramdisk_desc 5 1)" unfolding demo_req(2) by (rule settled_one_page)
  have "fst (pc_dev_read ramdisk_registry 0 5 1 None w) \<noteq> None" if "ramdisk_wf w" for w
    using demo_range [OF that] by (simp add: pc_dev_read_def demo_open ramdisk_desc_def ramdisk_read_block_def Let_def)
  then have "\<not> (\<exists>w. ramdisk_wf w \<and> fst (pc_dev_read ramdisk_registry 0 5 1 None w) = None)" by blast
  with blkcache_read_refines [OF ramdisk.block_devices_axioms demo_cache_ok b demo_req(1) st r]
  have "\<exists>buf. res = Some buf \<and> buf = byte_range (pc_view ramdisk_registry (ramdisk_content 0) demo_cache 0) 2560 512"
    by (cases res) (simp_all add: demo_req(3,4))
  then show ?thesis using r demo_byte_range by simp
qed

text \<open>C11.
  A write through the cache that succeeds changes what a client sees exactly in its range and to the data written,
  when the request lies in one page or its pages are all cached. A write that fails, which happens only when the
  device fails, changes nothing outside its range. The registry slot of the device has been used less than \<open>2 ^ 32\<close>
  times, so that its generation is not zero.
\<close>

theorem blkcache_write_refines:
  assumes "block_devices dm content wfd" "pc_ok dm content wfd s" "dev_block dm d = Some ops" "req_ok ops sector n"
    and "devmgr_get_generation d dm \<noteq> 0" "length src = req_len ops n"
    and "req_pages ops sector n = {i} \<or> (\<forall>i \<in> req_pages ops sector n. pc_cached dm d s (of_nat i))"
    and "blkcache_write dm d sector n (Some src) s = (okk, s')"
  shows "pc_ok dm content wfd s' \<and>
    (\<forall>d' x. x < 2 ^ 64 \<and> \<not> (d' = d \<and> req_start ops sector \<le> x \<and> x < req_start ops sector + req_len ops n) \<longrightarrow>
        pc_view dm content s' d' x = pc_view dm content s d' x) \<and>
    (if okk then view_is dm content s' (written (pc_view dm content s) d (req_start ops sector) src)
     else \<exists>w. wfd w \<and> \<not> fst (pc_dev_write dm d sector src n None w))"
  using block_devices.write_refines [OF assms] by auto

definition demo_after :: "ramdisk pcache" where
  "demo_after = snd (blkcache_write ramdisk_registry 0 5 1 (Some (demo_block 7)) demo_cache)"

theorem blkcache_write_refines_witness:
  "fst (blkcache_write ramdisk_registry 0 5 1 (Some (demo_block 7)) demo_cache) \<and>
   pc_view ramdisk_registry (ramdisk_content 0) demo_after 0 2560 = 7 \<and> pc_view ramdisk_registry (ramdisk_content 0) demo_after 0 3072 = 0"
proof -
  obtain okk s' where r: "blkcache_write ramdisk_registry 0 5 1 (Some (demo_block 7)) demo_cache = (okk, s')" by fastforce
  have b: "dev_block ramdisk_registry 0 = Some ramdisk_desc" by (simp add: ramdisk_registry_block)
  have l: "length (demo_block 7) = req_len ramdisk_desc 1" by (simp add: demo_req(4) length_demo_block)
  have "fst (pc_dev_write ramdisk_registry 0 5 (demo_block 7) 1 None w)" if "ramdisk_wf w" for w
    using demo_range [OF that] by (simp add: pc_dev_write_def demo_open ramdisk_desc_def ramdisk_write_block_def Let_def)
  with blkcache_write_refines [OF ramdisk.block_devices_axioms demo_cache_ok b demo_req(1) _ l disjI1 [OF demo_req(2)] r]
  have "okk" "view_is ramdisk_registry (ramdisk_content 0) s' (written (pc_view ramdisk_registry (ramdisk_content 0) demo_cache) 0 2560 (demo_block 7))"
    by (auto simp: ramdisk_registry_generation demo_req(3) split: if_splits)
  then show ?thesis using r by (simp add: demo_after_def view_is_def written_def demo_view length_demo_block demo_block_nth)
qed

text \<open>C12.
  A flush never changes what a client sees, whether it succeeds or stops at a failing device. After a flush that
  succeeds nothing is dirty, and every device holds what a client sees.
\<close>

theorem blkcache_flush_durable:
  assumes "block_devices dm content wfd" "pc_ok dm content wfd s" "blkcache_flush dm s = (fok, s')"
  shows "pc_ok dm content wfd s' \<and> view_is dm content s' (pc_view dm content s) \<and>
    (fok \<longrightarrow> \<not> blkcache_has_dirty s' \<and> (\<forall>d a. a < 2 ^ 64 \<longrightarrow> content d (pc_world s') a = pc_view dm content s d a))"
  using block_devices.flush_refines [OF assms] by (simp add: view_is_def)

lemma demo_after_ok: "pc_ok ramdisk_registry (ramdisk_content 0) ramdisk_wf demo_after"
proof -
  obtain okk s' where r: "blkcache_write ramdisk_registry 0 5 1 (Some (demo_block 7)) demo_cache = (okk, s')" by fastforce
  have b: "dev_block ramdisk_registry 0 = Some ramdisk_desc" by (simp add: ramdisk_registry_block)
  have l: "length (demo_block 7) = req_len ramdisk_desc 1" by (simp add: demo_req(4) length_demo_block)
  from ramdisk.write_refines(1) [OF demo_cache_ok b demo_req(1) _ l disjI1 [OF demo_req(2)] r] r
  show ?thesis by (simp add: demo_after_def ramdisk_registry_generation)
qed

theorem blkcache_flush_durable_witness:
  "view_is ramdisk_registry (ramdisk_content 0) (snd (blkcache_flush ramdisk_registry demo_after))
     (pc_view ramdisk_registry (ramdisk_content 0) demo_after)"
  using blkcache_flush_durable [OF ramdisk.block_devices_axioms demo_after_ok, of "fst (blkcache_flush ramdisk_registry demo_after)"
      "snd (blkcache_flush ramdisk_registry demo_after)"] by simp

section \<open>Where the cache does not keep its promise\<close>

context block_devices
begin

text \<open>A range of two pages of which the first is cached and the second cannot be read: nothing changes.\<close>

lemma fill_second_fails:
  assumes ok: "pc_ok dm content wfd s" and ops: "dev_block dm d = Some ops"
    and c: "pc_cached dm d s (of_nat i)" "\<not> pc_cached dm d s (of_nat (Suc i))" and i: "Suc i < 2 ^ 52"
    and bad: "pc_mallocs s = False # ms \<or> (\<forall>w. fst (pc_dev_read dm d (of_nat (Suc i) * ucast (of_nat PC_SIZE div block_size ops))
                (of_nat PC_SIZE div block_size ops) (Some 0) w) = None)"
    and fl: "pc_fill_range dm d (of_nat i) (of_nat (Suc i)) s = (fok, s')"
  shows "\<not> fok" "pc_tab s' = pc_tab s" "wfd (pc_world s')"
proof -
  define q :: u64 where "q = of_nat (Suc i)"
  note c = c [folded q_def] and bad = bad [folded q_def] and fl = fl [folded q_def]
  let ?sp = "of_nat PC_SIZE div block_size ops :: u32"
  define s0 where "s0 = snd (pc_bsize dm d s)"
  have t0: "pc_tab s0 = pc_tab s" "pc_mallocs s0 = pc_mallocs s" by (simp_all add: s0_def)
  have w0: "wfd (pc_world s0)" using pc_keepsD(1) [OF keeps_bsize ok, of d] by (simp add: s0_def pc_ok_def)
  have u: "unat (of_nat i :: u64) = i" "unat q = Suc i" using i by (simp_all add: q_def unat_of_nat del: of_nat_Suc)
  have two: "[i..<Suc (Suc i)] = [i, Suc i]" by simp
  have fp: "fill_pages dm d ?sp [of_nat i, q] s0 = (fok, s')"
    using fl by (simp only: pc_fill_range_def Let_def case_prod_beta bsize_value [OF ok ops] s0_def u two list.map flip: q_def)
  have c0: "pc_cached dm d s0 (of_nat i)" "\<not> pc_cached dm d s0 (q)" using c t0 by (simp_all add: pc_cached_def)
  have dw: "dropWhile (pc_cached dm d s0) [of_nat i, q] = [q]" using c0 by (simp)
  have run: "fill_run dm d s0 [q] = [q]" using c0 by (simp add: fill_run_def PC_MAX_IO_def PC_SIZE_def)
  obtain mok s1 where m: "pc_malloc s0 = (mok, s1)" by fastforce
  have s1: "pc_tab s1 = pc_tab s" "pc_world s1 = pc_world s0" "pc_mallocs s = False # ms \<Longrightarrow> \<not> mok"
    using m t0 by (auto simp: pc_malloc_def split: list.splits)
  obtain res w where rd: "pc_dev_read dm d (q * ucast ?sp) ?sp (Some 0) (pc_world s1) = (res, w)" by fastforce
  have ww: "wfd w" using dev_read_ok(1) [OF _ ops rd] w0 s1(2) by simp
  have "res = None" if mok using bad s1(3) that rd by (metis fst_conv)
  then have "(fok, s') = (if mok then (False, s1\<lparr>pc_world := w\<rparr>) else (False, s1))"
    unfolding fp [symmetric] by (subst fill_pages.simps, subst dw) (simp add: run m rd Let_def)
  then show "\<not> fok" "pc_tab s' = pc_tab s" "wfd (pc_world s')" using s1 ww w0 by (auto split: if_splits)
qed

end

text \<open>C40.
  A write that starts inside a page that is cached and goes on into one that is not is sent to the device past the
  cache when there is no memory for the bounce buffer, or the second page cannot be read (the last, partial page of a
  disk). It reports success and the device has the new data, but the cached page keeps the old data, which every
  later read of that page returns.
\<close>

theorem blkcache_write_bypass:
  assumes "block_devices dm content wfd" "pc_ok dm content wfd s" "dev_block dm d = Some ops" "req_ok ops sector n"
    and "length src = req_len ops n" and "req_pages ops sector n = {i, Suc i}" and "req_start ops sector mod PC_SIZE \<noteq> 0"
    and "pc_cached dm d s (of_nat i)" and "\<not> pc_cached dm d s (of_nat (Suc i))"
    and "pc_mallocs s = False # ms \<or> (\<forall>w. fst (pc_dev_read dm d (of_nat (Suc i) * ucast (of_nat PC_SIZE div block_size ops))
                (of_nat PC_SIZE div block_size ops) (Some 0) w) = None)"
    and "\<And>w. wfd w \<Longrightarrow> fst (pc_dev_write dm d sector src n None w)"
  shows "\<exists>s'. blkcache_write dm d sector n (Some src) s = (True, s') \<and>
    byte_range (content d (pc_world s')) (req_start ops sector) (req_len ops n) = src \<and>
    (\<forall>x. x div PC_SIZE = i \<and> x < 2 ^ 64 \<longrightarrow> pc_view dm content s' d x = pc_view dm content s d x)"
proof -
  let ?st = "sector * ucast (block_size ops) :: u64" and ?ln = "ucast n * ucast (block_size ops) :: u64"
  define s1 where "s1 = snd (pc_bsize dm d (pc_remember_bsize dm d s))"
  have ok1: "pc_ok dm content wfd s1" unfolding s1_def using assms(2) pc_keeps_trans [OF keeps_remember keeps_bsize] pc_keepsD(1) by blast
  have t1: "pc_tab s1 = pc_tab s" "pc_mallocs s1 = pc_mallocs s" by (simp_all add: s1_def)
  have bs: "pc_bsize dm d (pc_remember_bsize dm d s) = (block_size ops, s1)"
    using bsize_value [OF pc_keepsD(1) [OF keeps_remember assms(2)] assms(3)] by (simp add: s1_def prod_eq_iff)
  note w = req_words [OF assms(4)]
  have le: "req_start ops sector div PC_SIZE \<le> (req_start ops sector + req_len ops n - 1) div PC_SIZE" using w(3) by (intro div_le_mono) simp
  have pair: "{i, Suc i} = {i..Suc i}" by auto
  have ab: "req_start ops sector div PC_SIZE = i" "(req_start ops sector + req_len ops n - 1) div PC_SIZE = Suc i"
    using assms(6) le unfolding req_pages_def pair by (simp_all add: Icc_eq_Icc)
  have pg: "drop_bit 12 ?st = of_nat i" "drop_bit 12 (?st + ?ln - 1) = of_nat (Suc i)"
    using w(4-6) ab by (simp_all add: word_unat_eq_iff unat_of_nat del: of_nat_Suc)
  have un: "?st AND 0xFFF \<noteq> 0" using assms(7) page_offset [of ?st] w(1) by auto
  obtain fok s2 where fl: "pc_fill_range dm d (of_nat i) (of_nat (Suc i)) s1 = (fok, s2)" by fastforce
  have c1: "pc_cached dm d s1 (of_nat i)" "\<not> pc_cached dm d s1 (of_nat (Suc i))" using assms(8,9) t1 by (simp_all add: pc_cached_def del: of_nat_Suc)
  have i52: "Suc i < 2 ^ 52" using w(6) ab by simp
  note F = block_devices.fill_second_fails [OF assms(1) ok1 assms(3) c1 i52 assms(10) [folded t1(2)] fl]
  have n0: "n \<noteq> 0" "pc_alloc s" using assms(2,4) by (auto simp: req_ok_def pc_ok_def)
  obtain w' where wr: "pc_dev_write dm d sector src n None (pc_world s2) = (True, w')"
    using assms(11) [OF F(3)] by (metis (full_types) prod.collapse)
  have e: "blkcache_write dm d sector n (Some src) s = (True, s2\<lparr>pc_world := w'\<rparr>)"
    using n0 un fl F(1) wr pg by (simp add: blkcache_write_def bs Let_def direct_write_def del: of_nat_Suc)
  have "byte_range (content d w') (req_start ops sector) (req_len ops n) = src"
    using block_devices.dev_write_ok(4) [OF assms(1) F(3) assms(3) wr] assms(5) by (simp add: req_start_def req_len_def)
  moreover have "pc_view dm content (s2\<lparr>pc_world := w'\<rparr>) d x = pc_view dm content s d x" if "x div PC_SIZE = i" for x
    using assms(8) that F(2) t1 by (auto simp: pc_view_def pc_cached_def)
  ultimately show ?thesis using e by simp
qed

definition demo_page :: pc_page where
  "demo_page = \<lparr>pg_deviceid = 0, pg_index = 0, pg_age = 1, pg_generation = 1, pg_device_generation = 1,
     pg_flags = 3, pg_data = replicate PC_SIZE 5\<rparr>"

definition demo_dirty :: "ramdisk pcache" where
  "demo_dirty = demo_cache\<lparr>pc_tab := (pc_tab demo_cache)[0 := demo_page], pc_dirty := 1, pc_mallocs := [False]\<rparr>"

lemma demo_cache_nohit: "j < PC_NPAGES \<Longrightarrow> \<not> pc_hit dm d i (pc_tab demo_cache ! j)"
  unfolding demo_cache_def by (rule init_tab_nohit) (simp add: demo_junk_def)

lemma demo_dirty_ok:
  shows "pc_ok ramdisk_registry (ramdisk_content 0) ramdisk_wf demo_dirty"
    and "pc_lookup ramdisk_registry (pc_tab demo_dirty) 0 i = (if i = 0 then Some 0 else None)"
proof -
  have cur: "pc_current ramdisk_registry demo_page"
    by (simp add: pc_current_def demo_page_def ramdisk_registry_generation pc_uptodate_def PC_UPTODATE_def blkcache_device_key_is_current_def)
  have dirty: "pc_isdirty demo_page" by (simp add: demo_page_def pc_isdirty_def PC_DIRTY_def)
  have p: "line_ok demo_page" "clean_ok ramdisk_registry (ramdisk_content 0) (pc_world demo_cache) demo_page"
    using dirty by (simp_all add: line_ok_def clean_ok_def demo_page_def PC_UPTODATE_def PC_DIRTY_def)
  have cl: "\<not> pc_isdirty (pc_tab demo_cache ! 0)" "pc_dirty demo_cache = 0"
    by (simp_all add: demo_cache_def blkcache_init_def demo_junk_def PC_NPAGES_def pc_isdirty_def)
  have np: "0 < PC_NPAGES" by (simp add: PC_NPAGES_def)
  note R = pc_ok_replace [OF demo_cache_ok np _ p, of demo_dirty]
  show "pc_ok ramdisk_registry (ramdisk_content 0) ramdisk_wf demo_dirty"
    by (rule R(1)) (use cl dirty in \<open>simp_all add: demo_cache_nohit demo_dirty_def same_env_def\<close>)
  have "tab_ok ramdisk_registry (ramdisk_content 0) (pc_world demo_cache) ((pc_tab demo_cache)[0 := demo_page])"
    by (rule R(2)) (use cl dirty in \<open>simp_all add: demo_cache_nohit demo_dirty_def same_env_def\<close>)
  note L = lookup_update [OF _ this np, of 0 i]
  have "pc_lookup ramdisk_registry (pc_tab demo_cache) 0 i = None"
    using lookup_Some [of ramdisk_registry "pc_tab demo_cache" 0 i] demo_cache_nohit
    by (cases "pc_lookup ramdisk_registry (pc_tab demo_cache) 0 i") auto
  then show "pc_lookup ramdisk_registry (pc_tab demo_dirty) 0 i = (if i = 0 then Some 0 else None)"
    using L cur demo_cache_ok by (auto simp: demo_dirty_def pc_hit_current pc_ok_def demo_page_def)
qed

lemma demo_dirty_cached: "pc_cached ramdisk_registry 0 demo_dirty (of_nat 0)" "\<not> pc_cached ramdisk_registry 0 demo_dirty (of_nat (Suc 0))"
  by (simp_all add: pc_cached_def demo_dirty_ok(2))

theorem blkcache_write_bypass_witness:
  "\<exists>s'. blkcache_write ramdisk_registry 0 4 8 (Some (replicate PC_SIZE 7)) demo_dirty = (True, s') \<and>
    ramdisk_content 0 0 (pc_world s') 2048 = 7 \<and> pc_view ramdisk_registry (ramdisk_content 0) s' 0 2048 = 5"
proof -
  have b: "dev_block ramdisk_registry 0 = Some ramdisk_desc" by (simp add: ramdisk_registry_block)
  have rq: "req_ok ramdisk_desc 4 8" "req_start ramdisk_desc 4 = 2048" "req_len ramdisk_desc 8 = 4096" "req_pages ramdisk_desc 4 8 = {0, Suc 0}"
    by (auto simp: req_ok_def req_pages_def req_start_def req_len_def ramdisk_block_size PC_SIZE_def)
  have un: "req_start ramdisk_desc 4 mod PC_SIZE \<noteq> 0" by (simp add: rq PC_SIZE_def)
  have l: "length (replicate PC_SIZE 7) = req_len ramdisk_desc 8" by (simp add: rq(3) PC_SIZE_def)
  have m: "pc_mallocs demo_dirty = False # [] \<or> P" for P by (simp add: demo_dirty_def)
  have "ramdisk_range 4 8 w" if "ramdisk_wf w" for w
    using that by (auto simp: ramdisk_wf_def ramdisk_range_def RAMDISK_SECTORS_def split: option.splits)
  then have wr: "fst (pc_dev_write ramdisk_registry 0 4 (replicate PC_SIZE 7) 8 None w)" if "ramdisk_wf w" for w
    using that by (simp add: pc_dev_write_def demo_open ramdisk_desc_def ramdisk_write_block_def Let_def)
  have v: "pc_view ramdisk_registry (ramdisk_content 0) demo_dirty 0 2048 = 5"
    by (simp add: pc_view_def demo_dirty_ok(2) PC_SIZE_def)
      (simp add: demo_dirty_def demo_page_def demo_cache_def blkcache_init_def demo_junk_def PC_NPAGES_def PC_SIZE_def)
  obtain s' where s': "blkcache_write ramdisk_registry 0 4 8 (Some (replicate PC_SIZE 7)) demo_dirty = (True, s')"
      "byte_range (ramdisk_content 0 0 (pc_world s')) 2048 4096 = replicate PC_SIZE 7"
      "pc_view ramdisk_registry (ramdisk_content 0) s' 0 2048 = 5"
    using blkcache_write_bypass [OF ramdisk.block_devices_axioms demo_dirty_ok(1) b rq(1) l rq(4) un demo_dirty_cached m wr] v
    by (auto simp: rq(2,3) PC_SIZE_def)
  have "ramdisk_content 0 0 (pc_world s') 2048 = byte_range (ramdisk_content 0 0 (pc_world s')) 2048 4096 ! 0" by (subst nth_byte_range) simp_all
  then show ?thesis using s' by (auto simp: PC_SIZE_def)
qed



end
