(* ===== verification/Blkcache_Type.thy ===== *)
theory Blkcache_Type
  imports Blkcache_Flush
begin

text \<open>
  The well-formedness of the page cache under every sequence of its operations, with requests of any size, aligned or
  not, failing devices and failing allocations included: the refinement theorems are about requests that the cache
  serves well, the shape of its data never depends on that.
\<close>

section \<open>The shape of a cache\<close>

definition pc_line_typed :: "pc_page \<Rightarrow> bool" where
  "pc_line_typed p \<longleftrightarrow> length (pg_data p) = PC_SIZE \<and> pg_flags p \<in> {0, 1, 3}"

definition pc_typed :: "'d registry \<Rightarrow> ('d \<Rightarrow> bool) \<Rightarrow> 'd pcache \<Rightarrow> bool" where
  "pc_typed dm wfd s \<longleftrightarrow> pc_alloc s \<and> wfd (pc_world s) \<and> bsz_ok dm s \<and> length (pc_tab s) = PC_NPAGES \<and>
     (\<forall>j < PC_NPAGES. pc_line_typed (pc_tab s ! j)) \<and> unat (pc_dirty s) = length (filter pc_isdirty (pc_tab s))"

text \<open>The states that the operations lead to. A written buffer has the size that the request asks for.\<close>

inductive creach :: "'d registry \<Rightarrow> ('d \<Rightarrow> bool) \<Rightarrow> 'd pcache \<Rightarrow> bool" for dm wfd where
  creach_init: "\<lbrakk>length junk = PC_NPAGES; \<forall>p \<in> set junk. length (pg_data p) = PC_SIZE; wfd w\<rbrakk> \<Longrightarrow> creach dm wfd (blkcache_init True junk mallocs w)"
| creach_get: "creach dm wfd s \<Longrightarrow> creach dm wfd (snd (blkcache_get dm d sector n buf s))"
| creach_read: "creach dm wfd s \<Longrightarrow> creach dm wfd (snd (blkcache_read dm d sector n buf s))"
| creach_put: "creach dm wfd s \<Longrightarrow> creach dm wfd (snd (blkcache_put dm d sector n src s))"
| creach_write: "\<lbrakk>creach dm wfd s; \<And>ops bs. dev_block dm d = Some ops \<Longrightarrow> src = Some bs \<Longrightarrow> length bs = unat n * unat (block_size ops)\<rbrakk> \<Longrightarrow>
    creach dm wfd (snd (blkcache_write dm d sector n src s))"
| creach_flush: "creach dm wfd s \<Longrightarrow> creach dm wfd (snd (blkcache_flush dm s))"
| creach_invalidate: "creach dm wfd s \<Longrightarrow> creach dm wfd (snd (blkcache_invalidate_device d s))"
| creach_reset: "creach dm wfd s \<Longrightarrow> creach dm wfd (blkcache_reset_stats s)"

section \<open>Single lines\<close>

lemma typed_fields:
  assumes "pc_typed dm wfd s" "same_env s s'" "pc_tab s' = pc_tab s" "pc_dirty s' = pc_dirty s"
  shows "pc_typed dm wfd s'"
  using assms by (simp add: pc_typed_def same_env_def bsz_ok_def)

lemma typed_replace:
  assumes "pc_typed dm wfd s" "same_env s s'" "j < PC_NPAGES" "pc_line_typed p" "pc_tab s' = (pc_tab s)[j := p]"
    and cnt: "unat (pc_dirty s') + (if pc_isdirty (pc_tab s ! j) then 1 else 0) = unat (pc_dirty s) + (if pc_isdirty p then 1 else 0)"
  shows "pc_typed dm wfd s'"
proof -
  have "j < length (pc_tab s)" using assms by (simp add: pc_typed_def)
  from filter_update_length [OF this, of pc_isdirty p]
  have "unat (pc_dirty s') = length (filter pc_isdirty ((pc_tab s)[j := p]))" using assms(1) cnt by (auto simp: pc_typed_def split: if_splits)
  then show ?thesis using assms by (auto simp: pc_typed_def same_env_def bsz_ok_def nth_update_if)
qed

lemma typed_line: "pc_typed dm wfd s \<Longrightarrow> j < PC_NPAGES \<Longrightarrow> pc_line_typed (pc_tab s ! j)"
  by (simp add: pc_typed_def)

lemma typed_dirty_bound: "pc_typed dm wfd s \<Longrightarrow> unat (pc_dirty s) \<le> PC_NPAGES"
  by (metis pc_typed_def length_filter_le)

lemma typed_dirty_pred:
  assumes ok: "pc_typed dm wfd s" and i: "i < PC_NPAGES" and d: "pc_isdirty (pc_tab s ! i)"
  shows "pc_dirty s \<noteq> 0" and "unat (pc_dirty s - 1) + 1 = unat (pc_dirty s)"
proof -
  have "pc_tab s ! i \<in> set (filter pc_isdirty (pc_tab s))" using i d ok by (simp add: pc_typed_def)
  then have "0 < length (filter pc_isdirty (pc_tab s))" by (metis length_pos_if_in_set)
  then show nz: "pc_dirty s \<noteq> 0" using ok by (auto simp: pc_typed_def)
  then have "0 < unat (pc_dirty s)" by (simp add: unat_gt_0)
  then show "unat (pc_dirty s - 1) + 1 = unat (pc_dirty s)" using u32_pred [OF nz] by simp
qed

lemma typed_bsize:
  assumes "pc_typed dm wfd s" shows "pc_typed dm wfd (snd (pc_bsize dm d s))" "pc_typed dm wfd (pc_remember_bsize dm d s)"
  using assms by (simp_all add: pc_typed_def bsz_ok_bsize bsz_ok_remember)

lemma typed_touch:
  assumes "pc_typed dm wfd s" "j < PC_NPAGES" "pc_line_typed (f (pc_tab s ! j))" "pg_flags (f (pc_tab s ! j)) = pg_flags (pc_tab s ! j)"
  shows "pc_typed dm wfd (touch_line j f s)"
  by (rule typed_replace [OF assms(1) touch_line_simps(3) assms(2) _ touch_line_simps(1)]) (use assms in \<open>auto simp: pc_line_typed_def\<close>)

lemma typed_claim:
  assumes ok: "pc_typed dm wfd s" and l: "pc_lookup dm (pc_tab s) d i = None" and c: "pc_claim dm (pc_tab s) d i = (r, tab)"
  shows "pc_typed dm wfd (s\<lparr>pc_tab := tab\<rparr>)" and "r = Some j \<Longrightarrow> j < PC_NPAGES \<and> pg_flags (tab ! j) = 0"
proof -
  have *: "pc_typed dm wfd (s\<lparr>pc_tab := tab\<rparr>) \<and> (\<forall>j. r = Some j \<longrightarrow> j < PC_NPAGES \<and> pg_flags (tab ! j) = 0)"
    using l c
  proof (cases rule: claim_cases)
    case none then show ?thesis using ok by simp
  next
    case (line j)
    have len: "length (pc_tab s) = PC_NPAGES" using ok by (simp add: pc_typed_def)
    let ?p = "(pc_tab s ! j)\<lparr>pg_deviceid := d, pg_index := i, pg_generation := 0, pg_device_generation := devmgr_get_generation d dm, pg_flags := 0\<rparr>"
    have "pc_typed dm wfd (s\<lparr>pc_tab := tab\<rparr>)"
      by (rule typed_replace [OF ok _ line(2), of _ ?p]) (use line typed_line [OF ok line(2)] in \<open>auto simp: same_env_def pc_line_typed_def\<close>)
    then show ?thesis using line len by auto
  qed
  show "pc_typed dm wfd (s\<lparr>pc_tab := tab\<rparr>)" using * by blast
  show "r = Some j \<Longrightarrow> j < PC_NPAGES \<and> pg_flags (tab ! j) = 0" using * by blast
qed

text \<open>A line that is not in use gets clean data.\<close>

lemma typed_install:
  assumes ok: "pc_typed dm wfd s" and j: "j < PC_NPAGES" "pg_flags (pc_tab s ! j) = 0" and p: "pg_flags p = 1" "length (pg_data p) = PC_SIZE"
    and s': "same_env s s'" "pc_tab s' = (pc_tab s)[j := p]" "pc_dirty s' = pc_dirty s"
  shows "pc_typed dm wfd s'"
  by (rule typed_replace [OF ok s'(1) j(1) _ s'(2)]) (use j p s' in \<open>auto simp: pc_line_typed_def\<close>)

lemma typed_put_line:
  assumes ok: "pc_typed dm wfd s" and e: "put_line dm d i poff n s = (r, s')"
  shows "pc_typed dm wfd s'" and "r = Some j \<Longrightarrow> j < PC_NPAGES"
proof -
  have *: "pc_typed dm wfd s' \<and> (\<forall>j. r = Some j \<longrightarrow> j < PC_NPAGES)"
  proof (cases "pc_lookup dm (pc_tab s) d i")
    case (Some k)
    then show ?thesis using ok e lookup_Some [OF Some] by (auto simp: put_line_def)
  next
    case None
    obtain q tab where c: "pc_claim dm (pc_tab s) d i = (q, tab)" by fastforce
    note C = typed_claim [OF ok None c]
    show ?thesis
    proof (cases q)
      case None
      then show ?thesis using C(1) e c \<open>pc_lookup dm (pc_tab s) d i = None\<close> by (auto simp: put_line_def)
    next
      case (Some k)
      let ?p = "(if poff \<noteq> 0 \<or> n \<noteq> PC_SIZE then (tab ! k)\<lparr>pg_data := replicate PC_SIZE 0\<rparr> else tab ! k)\<lparr>pg_flags := PC_UPTODATE\<rparr>"
      have k: "k < PC_NPAGES" "pg_flags (tab ! k) = 0" using C(2) [OF Some] by auto
      have s': "s' = upd_line k (\<lambda>p. (if poff \<noteq> 0 \<or> n \<noteq> PC_SIZE then p\<lparr>pg_data := replicate PC_SIZE 0\<rparr> else p)\<lparr>pg_flags := PC_UPTODATE\<rparr>) (s\<lparr>pc_tab := tab\<rparr>)"
        and r: "r = Some k" using e c Some None by (auto simp: put_line_def)
      have "pc_typed dm wfd s'"
        by (rule typed_install [OF C(1) k(1), of ?p])
          (use k typed_line [OF C(1) k(1)] in \<open>auto simp: s' upd_line_def same_env_def PC_UPTODATE_def pc_line_typed_def\<close>)
      then show ?thesis using r k by simp
    qed
  qed
  show "pc_typed dm wfd s'" using * by blast
  show "r = Some j \<Longrightarrow> j < PC_NPAGES" using * by blast
qed

lemma typed_dirty_line:
  assumes ok: "pc_typed dm wfd s" and j: "j < PC_NPAGES" and b: "poff + length bs \<le> PC_SIZE"
  shows "pc_typed dm wfd (dirty_line j poff bs s)"
proof (rule typed_replace [OF ok dirty_line_simps(4) j _ dirty_line_simps(1)])
  have "unat (pc_dirty s + 1) = unat (pc_dirty s) + 1"
    using typed_dirty_bound [OF ok] by (simp add: unat_word_ariths PC_NPAGES_def)
  then show "unat (pc_dirty (dirty_line j poff bs s)) + (if pc_isdirty (pc_tab s ! j) then 1 else 0) =
      unat (pc_dirty s) + (if pc_isdirty ((pc_tab s ! j)\<lparr>pg_data := mem_put (pg_data (pc_tab s ! j)) poff bs,
        pg_generation := pg_generation (pc_tab s ! j) + 1, pg_flags := PC_UPTODATE OR PC_DIRTY, pg_age := pc_clock s + 1\<rparr>) then 1 else 0)"
    by (simp add: PC_UPTODATE_def PC_DIRTY_def)
qed (use typed_line [OF ok j] b in \<open>simp add: pc_line_typed_def PC_UPTODATE_def PC_DIRTY_def\<close>)

section \<open>The copying loops\<close>

lemma chunk_inside: "(i, poff, n, q) \<in> set (pc_chunks off nb pos) \<Longrightarrow> poff + n \<le> PC_SIZE"
proof (induction off nb pos rule: pc_chunks.induct)
  case (1 off nb pos)
  show ?case
  proof (cases "pos < nb")
    case False then show ?thesis using "1.prems" by (subst (asm) pc_chunks.simps) simp
  next
    case True
    define m where "m = (if nb - pos < of_nat (PC_SIZE - unat ((off + pos) AND 0xFFF)) then unat (nb - pos) else PC_SIZE - unat ((off + pos) AND 0xFFF))"
    note adv = chunk_advance [OF True m_def]
    have "(i, poff, n, q) = (drop_bit 12 (off + pos), unat ((off + pos) AND 0xFFF), m, unat (ucast pos :: u32)) \<or>
        (i, poff, n, q) \<in> set (pc_chunks off nb (pos + of_nat m))"
      using "1.prems" True by (subst (asm) pc_chunks.simps) (auto simp: Let_def m_def split: if_splits)
    then show ?thesis
    proof
      assume "(i, poff, n, q) = (drop_bit 12 (off + pos), unat ((off + pos) AND 0xFFF), m, unat (ucast pos :: u32))"
      then show ?thesis using adv(5) page_offset_less [of "off + pos"] by simp
    next
      assume "(i, poff, n, q) \<in> set (pc_chunks off nb (pos + of_nat m))"
      then show ?thesis using "1.IH" [OF True refl m_def] by simp
    qed
  qed
qed

lemma typed_copy: "pc_typed dm wfd s \<Longrightarrow> pc_typed dm wfd (snd (copy_chunks dm d cs dst s))"
proof (induction dm d cs dst s rule: copy_chunks.induct)
  case (2 dm d index poff n pos cs dst s)
  show ?case
  proof (cases "pc_lookup dm (pc_tab s) d index")
    case (Some j)
    have "j < PC_NPAGES" using lookup_Some [OF Some] by simp
    then have "pc_typed dm wfd (touch_line j (\<lambda>p. p) s)" using "2.prems" typed_line by (intro typed_touch) auto
    then show ?thesis using "2.IH" [OF Some] Some by simp
  qed (use "2.prems" in simp)
qed simp

lemma typed_put_chunks:
  "pc_typed dm wfd s \<Longrightarrow> \<forall>(i, poff, n, q) \<in> set cs. poff + n \<le> PC_SIZE \<Longrightarrow> pc_typed dm wfd (snd (put_chunks dm d cs src s))"
proof (induction dm d cs src s rule: put_chunks.induct)
  case (2 dm d index poff n pos cs src s)
  obtain r s1 where e: "put_line dm d index poff n s = (r, s1)" by fastforce
  note P = typed_put_line [OF "2.prems"(1) e]
  show ?case
  proof (cases r)
    case None then show ?thesis using P(1) e by (simp add: Let_def)
  next
    case (Some j)
    let ?s = "if pc_lookup dm (pc_tab s) d index = None then s1\<lparr>pc_fills := pc_fills s1 + 1\<rparr> else s1"
    have t: "pc_typed dm wfd ?s" using typed_fields [OF P(1), of "s1\<lparr>pc_fills := pc_fills s1 + 1\<rparr>"] P(1) by (simp add: same_env_def)
    have "pc_typed dm wfd (touch_line j (\<lambda>p. p\<lparr>pg_data := mem_put (pg_data p) poff (mem_get src pos n)\<rparr>) ?s)"
      using typed_line [OF t P(2) [OF Some]] "2.prems"(2) by (intro typed_touch [OF t P(2) [OF Some]]) (auto simp: pc_line_typed_def)
    then show ?thesis using "2.IH" [OF refl e [symmetric] Some] "2.prems"(2) e Some by (simp add: Let_def)
  qed
qed simp

lemma typed_write_chunks:
  "pc_typed dm wfd s \<Longrightarrow> \<forall>(i, poff, n, q) \<in> set cs. poff + n \<le> PC_SIZE \<Longrightarrow> pc_typed dm wfd (snd (write_chunks dm d cs src s))"
proof (induction dm d cs src s rule: write_chunks.induct)
  case (2 dm d index poff n pos cs src s)
  obtain r s1 where e: "put_line dm d index poff n s = (r, s1)" by fastforce
  note P = typed_put_line [OF "2.prems"(1) e]
  show ?case
  proof (cases r)
    case None then show ?thesis using P(1) e by simp
  next
    case (Some j)
    have "pc_typed dm wfd (dirty_line j poff (mem_get src pos n) s1)"
      using "2.prems"(2) by (intro typed_dirty_line [OF P(1) P(2) [OF Some]]) auto
    then show ?thesis using "2.IH" [OF e [symmetric] Some] "2.prems"(2) e Some by simp
  qed
qed simp

section \<open>Filling\<close>

lemma typed_fill_one:
  assumes ok: "pc_typed dm wfd s" and page: "length page = PC_SIZE"
  shows "pc_typed dm wfd (fill_one dm d gen index page s)"
proof (cases "pc_lookup dm (pc_tab s) d index")
  case None
  obtain r tab where c: "pc_claim dm (pc_tab s) d index = (r, tab)" by fastforce
  note C = typed_claim [OF ok None c]
  show ?thesis
  proof (cases r)
    case None
    then show ?thesis using C(1) c \<open>pc_lookup dm (pc_tab s) d index = None\<close> by (simp add: fill_one_def)
  next
    case (Some j)
    let ?p = "(tab ! j)\<lparr>pg_device_generation := gen, pg_data := page, pg_flags := PC_UPTODATE, pg_age := pc_clock s + 1\<rparr>"
    have j: "j < PC_NPAGES" "pg_flags (tab ! j) = 0" using C(2) [OF Some] by auto
    show ?thesis
      by (rule typed_install [OF C(1) j(1), of ?p])
        (use j page None c Some in \<open>auto simp: fill_one_def touch_line_def upd_line_def same_env_def PC_UPTODATE_def\<close>)
  qed
qed (use ok in \<open>simp add: fill_one_def\<close>)

lemma typed_fill_insert:
  "pc_typed dm wfd s \<Longrightarrow> (i + length run) * PC_SIZE \<le> length bounce \<Longrightarrow> pc_typed dm wfd (fill_insert dm d gen run i bounce s)"
proof (induction dm d gen run i bounce s rule: fill_insert.induct)
  case (2 dm d gen index run i bounce s)
  have "length (mem_get bounce (i * PC_SIZE) PC_SIZE) = PC_SIZE" using "2.prems"(2) by (simp add: distrib_right)
  then show ?case using "2.IH" typed_fill_one [OF "2.prems"(1)] "2.prems"(2) by simp
qed simp

lemma typed_malloc: "pc_typed dm wfd s \<Longrightarrow> pc_malloc s = (ok, s') \<Longrightarrow> pc_typed dm wfd s'"
  by (auto simp: pc_malloc_def pc_typed_def bsz_ok_def split: list.splits)

lemma typed_world: "pc_typed dm wfd s \<Longrightarrow> wfd w \<Longrightarrow> pc_typed dm wfd (s\<lparr>pc_world := w\<rparr>)"
  by (simp add: pc_typed_def bsz_ok_def)

lemma typed_count: "pc_typed dm wfd s \<Longrightarrow> pc_typed dm wfd (s\<lparr>pc_merged := x\<rparr>)" "pc_typed dm wfd s \<Longrightarrow> pc_typed dm wfd (s\<lparr>pc_hits := x\<rparr>)"
  "pc_typed dm wfd s \<Longrightarrow> pc_typed dm wfd (s\<lparr>pc_misses := x\<rparr>)"
  by (simp_all add: pc_typed_def bsz_ok_def)

context block_devices
begin

lemma read_wfd: "wfd w \<Longrightarrow> pc_dev_read dm d lba n e w = (r, w') \<Longrightarrow> wfd w'"
proof (cases "dev_block dm d")
  case None
  then show "wfd w \<Longrightarrow> pc_dev_read dm d lba n e w = (r, w') \<Longrightarrow> wfd w'" by (simp add: pc_dev_read_def pc_dev_open_def)
qed (rule dev_read_ok(1))

lemma read_block_of: "pc_dev_read dm d lba n e w = (Some (buf, gen), w') \<Longrightarrow> \<exists>ops. dev_block dm d = Some ops"
  by (auto simp: pc_dev_read_def pc_dev_open_def split: option.splits)

lemma typed_fill_pages:
  assumes "\<And>ops. dev_block dm d = Some ops \<Longrightarrow> sp = of_nat PC_SIZE div block_size ops"
  shows "pc_typed dm wfd s \<Longrightarrow> pc_typed dm wfd (snd (fill_pages dm d sp pages s))"
proof (induction "length pages" arbitrary: pages s rule: less_induct)
  case less
  show ?case
  proof (cases "dropWhile (pc_cached dm d s) pages")
    case Nil
    then show ?thesis using less.prems by (subst fill_pages.simps, subst Nil) simp
  next
    case (Cons pg rest)
    define run where "run = fill_run dm d s (pg # rest)"
    obtain ok s1 where m: "pc_malloc s = (ok, s1)" by fastforce
    have t1: "pc_typed dm wfd s1" by (rule typed_malloc [OF less.prems m])
    then have w1: "wfd (pc_world s1)" by (simp add: pc_typed_def)
    obtain res w where rd: "pc_dev_read dm d (pg * ucast sp) (of_nat (length run) * sp) (Some 0) (pc_world s1) = (res, w)" by fastforce
    have tw: "pc_typed dm wfd (s1\<lparr>pc_world := w\<rparr>)" by (rule typed_world [OF t1 read_wfd [OF w1 rd]])
    show ?thesis
    proof (cases "ok \<and> res \<noteq> None")
      case False
      then show ?thesis using t1 tw by (cases res) (subst fill_pages.simps, subst Cons, auto simp: m rd Let_def run_def [symmetric])+
    next
      case True
      then obtain bounce gen where r: "res = Some (bounce, gen)" by auto
      obtain ops where ops: "dev_block dm d = Some ops" using read_block_of rd r by blast
      have nr: "length run \<le> 4096" by (simp add: run_def fill_run_def PC_MAX_IO_def PC_SIZE_def)
      have "length bounce = length run * PC_SIZE"
        using dev_read_ok(3) [OF w1 ops rd r] page_sectors(2) [OF nr, of ops] assms [OF ops] by simp
      then have ti: "pc_typed dm wfd (fill_insert dm d gen run 0 bounce (s1\<lparr>pc_world := w, pc_merged := pc_merged s1 + of_nat (length run) * sp\<rparr>))"
        using typed_count(1) [OF tw, of "pc_merged s1 + of_nat (length run) * sp"] by (intro typed_fill_insert) simp_all
      have "length rest < length pages" using Cons by (metis Suc_le_lessD length_Cons length_dropWhile_le)
      then have "length (drop (length run - 1) rest) < length pages" by simp
      from less.hyps [OF this ti] show ?thesis
        using True by (subst fill_pages.simps, subst Cons) (simp add: m rd r Let_def run_def [symmetric])
    qed
  qed
qed

lemma typed_fill_range: "pc_typed dm wfd s \<Longrightarrow> pc_typed dm wfd (snd (pc_fill_range dm d pg0 pg1 s))"
proof -
  assume t: "pc_typed dm wfd s"
  then have b: "bsz_ok dm s" by (simp add: pc_typed_def)
  show ?thesis unfolding pc_fill_range_def Let_def case_prod_beta
    by (rule typed_fill_pages [OF _ typed_bsize(1) [OF t]]) (simp add: bsz_value [OF b])
qed

lemma typed_direct_read: "pc_typed dm wfd s \<Longrightarrow> pc_typed dm wfd (snd (direct_read dm d sector n s))"
  using typed_world read_wfd by (auto simp: direct_read_def pc_typed_def bsz_ok_def split: prod.split)

lemma write_wfd:
  assumes w: "wfd w" and e: "pc_dev_write dm d lba buf n ex w = (r, w')"
    and len: "\<And>ops. dev_block dm d = Some ops \<Longrightarrow> length buf = unat n * unat (block_size ops)"
  shows "wfd w'"
proof (cases "dev_block dm d")
  case None
  then show ?thesis using w e by (simp add: pc_dev_write_def pc_dev_open_def)
next
  case (Some ops)
  show ?thesis by (rule dev_write_ok(1) [OF w Some e len [OF Some]])
qed

lemma typed_direct_write:
  assumes t: "pc_typed dm wfd s" and len: "\<And>ops. dev_block dm d = Some ops \<Longrightarrow> length src = unat n * unat (block_size ops)"
  shows "pc_typed dm wfd (snd (direct_write dm d sector src n s))"
proof -
  obtain r w where e: "pc_dev_write dm d sector src n None (pc_world s) = (r, w)" by fastforce
  have "wfd w" by (rule write_wfd [OF _ e len]) (use t in \<open>simp_all add: pc_typed_def\<close>)
  then show ?thesis using t e by (simp add: direct_write_def typed_world)
qed

lemma typed_read:
  assumes t: "pc_typed dm wfd s" shows "pc_typed dm wfd (snd (blkcache_read dm d sector n buf s))"
proof -
  have t1: "pc_typed dm wfd (snd (pc_bsize dm d (pc_remember_bsize dm d s)))" by (intro typed_bsize t)
  note steps = typed_copy typed_fill_range typed_direct_read typed_count(2,3)
  have al: "pc_alloc s" using t by (simp add: pc_typed_def)
  show ?thesis
    unfolding blkcache_read_def Let_def case_prod_beta pc_copy_out_def using t al
    by (auto intro!: steps t1)
qed

lemma typed_write:
  assumes t: "pc_typed dm wfd s" and len: "\<And>ops bs. dev_block dm d = Some ops \<Longrightarrow> src = Some bs \<Longrightarrow> length bs = unat n * unat (block_size ops)"
  shows "pc_typed dm wfd (snd (blkcache_write dm d sector n src s))"
proof (cases src)
  case None then show ?thesis using t by (simp add: blkcache_write_def)
next
  case (Some bs)
  have len': "length bs = unat n * unat (block_size ops)" if "dev_block dm d = Some ops" for ops by (rule len [OF that Some])
  have t1: "pc_typed dm wfd (snd (pc_bsize dm d (pc_remember_bsize dm d s)))" by (intro typed_bsize t)
  have t3: "pc_typed dm wfd (snd (write_chunks dm d (pc_chunks off nb 0) bs u))" if "pc_typed dm wfd u" for off nb u
    using that chunk_inside by (intro typed_write_chunks) auto
  show ?thesis
    unfolding blkcache_write_def Let_def case_prod_beta Some option.case
    using t by (auto intro!: typed_direct_write len' t3 typed_fill_range t1)
qed

lemma typed_flush_line:
  assumes t: "pc_typed dm wfd s" and i: "i < PC_NPAGES" shows "pc_typed dm wfd (snd (flush_line dm i s))"
proof (cases "pg_flags (pc_tab s ! i) AND (PC_DIRTY OR PC_UPTODATE) = PC_DIRTY OR PC_UPTODATE")
  case False then show ?thesis using t by (simp add: flush_line_def)
next
  case True
  let ?p = "pc_tab s ! i"
  define s1 where "s1 = pc_remember_bsize dm (pg_deviceid ?p) s"
  define s2 where "s2 = snd (pc_bsize dm (pg_deviceid ?p) s1)"
  have t1: "pc_typed dm wfd s1" and t2: "pc_typed dm wfd s2" by (simp_all add: s1_def s2_def typed_bsize t)
  have tab: "pc_tab s1 = pc_tab s" "pc_tab s2 = pc_tab s" by (simp_all add: s1_def s2_def)
  have fl: "pg_flags ?p = 3" "length (pg_data ?p) = PC_SIZE" using typed_line [OF t i] True by (auto simp: pc_line_typed_def PC_DIRTY_def PC_UPTODATE_def)
  have dirty: "pc_isdirty ?p" using fl by simp
  show ?thesis
  proof (cases "blkcache_device_key_is_current (pg_device_generation ?p) (devmgr_get_generation (pg_deviceid ?p) dm)")
    case False
    let ?s = "(upd_line i (\<lambda>q. q\<lparr>pg_flags := 0, pg_deviceid := -1\<rparr>) s1)\<lparr>pc_dirty := pc_dirty s1 - 1\<rparr>"
    have d: "pc_isdirty (pc_tab s1 ! i)" using dirty tab by simp
    have "pc_typed dm wfd ?s"
      by (rule typed_replace [OF t1 _ i, of _ "?p\<lparr>pg_flags := 0, pg_deviceid := -1\<rparr>"])
        (use fl tab typed_dirty_pred(2) [OF t1 i d] in \<open>simp_all add: same_env_def upd_line_def pc_line_typed_def\<close>)
    then show ?thesis using True False dirty typed_dirty_pred(1) [OF t1 i d] by (simp add: flush_line_def s1_def [symmetric] Let_def del: flag_simps)
  next
    case cur: True
    define bsz where "bsz = fst (pc_bsize dm (pg_deviceid ?p) s1)"
    obtain ok w where wr: "pc_dev_write dm (pg_deviceid ?p) (pg_index ?p * (of_nat PC_SIZE div ucast bsz)) (pg_data ?p) (of_nat PC_SIZE div bsz)
        (Some (pg_device_generation ?p)) (pc_world s2) = (ok, w)" by fastforce
    have "wfd w"
    proof (rule write_wfd [OF _ wr])
      show "wfd (pc_world s2)" using t2 by (simp add: pc_typed_def)
      fix ops assume o: "dev_block dm (pg_deviceid ?p) = Some ops"
      have "bsz = block_size ops" using bsz_value [OF _ o] t1 by (simp add: bsz_def pc_typed_def)
      then show "length (pg_data ?p) = unat (of_nat PC_SIZE div bsz) * unat (block_size ops)"
        using fl(2) page_sectors(2) [of 1 ops] by simp
    qed
    then have t3: "pc_typed dm wfd (s2\<lparr>pc_world := w\<rparr>)" (is "pc_typed dm wfd ?s3") by (rule typed_world [OF t2])
    have d: "pc_isdirty (pc_tab ?s3 ! i)" using dirty tab by simp
    have "pc_typed dm wfd ((upd_line i (\<lambda>q. q\<lparr>pg_flags := pg_flags q AND NOT PC_DIRTY\<rparr>) ?s3)\<lparr>pc_dirty := pc_dirty ?s3 - 1\<rparr>)"
      by (rule typed_replace [OF t3 _ i, of _ "?p\<lparr>pg_flags := pg_flags ?p AND NOT PC_DIRTY\<rparr>"])
        (use fl tab typed_dirty_pred(2) [OF t3 i d] in \<open>simp_all add: same_env_def upd_line_def pc_line_typed_def PC_DIRTY_def\<close>)
    moreover have "snd (flush_line dm i s) = (if ok \<and> blkcache_writeback_is_current True (pg_generation ?p) (pg_generation ?p)
        then (upd_line i (\<lambda>q. q\<lparr>pg_flags := pg_flags q AND NOT PC_DIRTY\<rparr>) ?s3)\<lparr>pc_dirty := pc_dirty ?s3 - 1\<rparr> else ?s3)"
      using True cur wr dirty typed_dirty_pred(1) [OF t3 i d] tab
      by (auto simp: flush_line_def s1_def [symmetric] s2_def [symmetric] bsz_def [symmetric] Let_def case_prod_beta
          blkcache_writeback_is_current_def simp del: flag_simps)
    ultimately show ?thesis using t3 by simp
  qed
qed

lemma typed_flush_lines: "pc_typed dm wfd s \<Longrightarrow> \<forall>i \<in> set is. i < PC_NPAGES \<Longrightarrow> pc_typed dm wfd (snd (flush_lines dm is s))"
proof (induction "is" arbitrary: s)
  case (Cons i "is")
  obtain ok s1 where e: "flush_line dm i s = (ok, s1)" by fastforce
  have "pc_typed dm wfd s1" using typed_flush_line [OF Cons.prems(1), of i] Cons.prems(2) e by simp
  then show ?case using Cons.IH Cons.prems(2) e by simp
qed simp

end

lemma typed_invalidate:
  "pc_typed dm wfd s \<Longrightarrow> \<forall>i \<in> set is. i < PC_NPAGES \<Longrightarrow> pc_typed dm wfd (snd (invalidate_lines d is n s))"
proof (induction d "is" n s rule: invalidate_lines.induct)
  case (2 d i "is" n s)
  let ?s = "(upd_line i (\<lambda>q. q\<lparr>pg_flags := 0, pg_deviceid := -1\<rparr>) s)\<lparr>pc_dirty := (if pc_isdirty (pc_tab s ! i) then pc_dirty s - 1 else pc_dirty s)\<rparr>"
  have i: "i < PC_NPAGES" using "2.prems" by simp
  have "pc_typed dm wfd ?s"
    by (rule typed_replace [OF "2.prems"(1) _ i, of _ "(pc_tab s ! i)\<lparr>pg_flags := 0, pg_deviceid := -1\<rparr>"])
      (use typed_line [OF "2.prems"(1) i] typed_dirty_pred(2) [OF "2.prems"(1) i] in \<open>auto simp: same_env_def upd_line_def pc_line_typed_def\<close>)
  then show ?case using "2.IH" "2.prems" by (auto simp: Let_def)
qed simp

section \<open>All operations\<close>

context block_devices
begin

lemma creach_typed: "creach dm wfd s \<Longrightarrow> pc_typed dm wfd s"
proof (induction rule: creach.induct)
  case (creach_init junk w mallocs)
  then show ?case by (auto simp: pc_typed_def blkcache_init_def bsz_ok_def pc_line_typed_def filter_map o_def)
next
  case (creach_get s d sector n buf)
  then show ?case by (auto simp: blkcache_get_def Let_def case_prod_beta pc_copy_out_def intro!: typed_count(2) typed_copy typed_bsize(1))
next
  case (creach_put s d sector n src)
  have "pc_typed dm wfd (snd (put_chunks dm d (pc_chunks off nb 0) bs (snd (pc_bsize dm d s))))" for off nb bs
    using chunk_inside by (intro typed_put_chunks typed_bsize creach_put.IH) auto
  then show ?case using creach_put.IH by (auto simp: blkcache_put_def Let_def case_prod_beta split: option.split)
next
  case (creach_flush s)
  then show ?case using typed_flush_lines by (simp add: blkcache_flush_def)
next
  case (creach_invalidate s d)
  then show ?case by (auto simp: blkcache_invalidate_device_def intro!: typed_invalidate)
next
  case (creach_reset s)
  then show ?case by (simp add: blkcache_reset_stats_def pc_typed_def bsz_ok_def)
qed (simp_all add: typed_read typed_write)

end

text \<open>C15.
  The cache is well-formed after every sequence of its operations: the table has its \<open>PC_NPAGES\<close> lines, every line holds a
  whole page and legal flags, so that a line is never dirty without being up to date and no copy leaves a page, and the
  dirty counter is the number of dirty lines. It never wraps around, and \<^verbatim>\<open>blkcache_has_dirty\<close> is exact.
\<close>

theorem blkcache_typed:
  assumes "block_devices dm content wfd" "creach dm wfd s"
  shows "length (pc_tab s) = PC_NPAGES \<and>
    (\<forall>j < PC_NPAGES. length (pg_data (pc_tab s ! j)) = PC_SIZE \<and> (pc_isdirty (pc_tab s ! j) \<longrightarrow> pc_uptodate (pc_tab s ! j))) \<and>
    unat (pc_dirty s) = length (filter pc_isdirty (pc_tab s)) \<and>
    (blkcache_has_dirty s \<longleftrightarrow> (\<exists>p \<in> set (pc_tab s). pc_isdirty p))"
proof -
  have t: "pc_typed dm wfd s" by (rule block_devices.creach_typed [OF assms])
  then have d: "unat (pc_dirty s) = length (filter pc_isdirty (pc_tab s))" by (simp add: pc_typed_def)
  have "pc_dirty s = 0 \<longleftrightarrow> filter pc_isdirty (pc_tab s) = []" using d by (metis length_0_conv unat_0 unat_eq_zero)
  then have "blkcache_has_dirty s \<longleftrightarrow> (\<exists>p \<in> set (pc_tab s). pc_isdirty p)" by (auto simp: blkcache_has_dirty_def filter_empty_conv)
  moreover have "length (pg_data (pc_tab s ! j)) = PC_SIZE \<and> (pc_isdirty (pc_tab s ! j) \<longrightarrow> pc_uptodate (pc_tab s ! j))" if "j < PC_NPAGES" for j
    using typed_line [OF t that] by (auto simp: pc_line_typed_def)
  ultimately show ?thesis using t d by (simp add: pc_typed_def)
qed

lemma demo_reach: "creach ramdisk_registry ramdisk_wf demo_cache"
  unfolding demo_cache_def by (rule creach_init) (simp_all add: demo_junk_def ramdisk_wf_def)

lemma demo_bytes: "dev_block ramdisk_registry 0 = Some ops \<Longrightarrow> Some (demo_block 7) = Some bs \<Longrightarrow> length bs = unat (1 :: u32) * unat (block_size ops)"
  using ramdisk_block_size length_demo_block by (auto simp: ramdisk_registry_block)

theorem blkcache_typed_witness:
  "length (pc_tab (snd (blkcache_flush ramdisk_registry (snd (blkcache_write ramdisk_registry 0 5 1 (Some (demo_block 7)) demo_cache))))) = PC_NPAGES"
  using blkcache_typed [OF ramdisk.block_devices_axioms creach_flush [OF creach_write [OF demo_reach demo_bytes]]] by blast

end
