(* ===== verification/Crc32.thy ===== *)
theory Crc32
  imports Kernel_Prelude
begin

text \<open>
  The table-driven CRC-32 of \<^verbatim>\<open>kernel/partition/crc32.c\<close>, which protects the partition tables.
  The lemmas show that it is the bit-serial division by the polynomial of IEEE 802.3 in its
  reflected form, that it can be computed in pieces, and that it detects every error confined
  to four adjacent bytes.
\<close>

section \<open>The routine\<close>

definition crc32_table :: "u32 list" where
  "crc32_table = [
    0x00000000, 0x77073096, 0xEE0E612C, 0x990951BA, 0x076DC419, 0x706AF48F, 0xE963A535, 0x9E6495A3,
    0x0EDB8832, 0x79DCB8A4, 0xE0D5E91E, 0x97D2D988, 0x09B64C2B, 0x7EB17CBD, 0xE7B82D07, 0x90BF1D91,
    0x1DB71064, 0x6AB020F2, 0xF3B97148, 0x84BE41DE, 0x1ADAD47D, 0x6DDDE4EB, 0xF4D4B551, 0x83D385C7,
    0x136C9856, 0x646BA8C0, 0xFD62F97A, 0x8A65C9EC, 0x14015C4F, 0x63066CD9, 0xFA0F3D63, 0x8D080DF5,
    0x3B6E20C8, 0x4C69105E, 0xD56041E4, 0xA2677172, 0x3C03E4D1, 0x4B04D447, 0xD20D85FD, 0xA50AB56B,
    0x35B5A8FA, 0x42B2986C, 0xDBBBC9D6, 0xACBCF940, 0x32D86CE3, 0x45DF5C75, 0xDCD60DCF, 0xABD13D59,
    0x26D930AC, 0x51DE003A, 0xC8D75180, 0xBFD06116, 0x21B4F4B5, 0x56B3C423, 0xCFBA9599, 0xB8BDA50F,
    0x2802B89E, 0x5F058808, 0xC60CD9B2, 0xB10BE924, 0x2F6F7C87, 0x58684C11, 0xC1611DAB, 0xB6662D3D,
    0x76DC4190, 0x01DB7106, 0x98D220BC, 0xEFD5102A, 0x71B18589, 0x06B6B51F, 0x9FBFE4A5, 0xE8B8D433,
    0x7807C9A2, 0x0F00F934, 0x9609A88E, 0xE10E9818, 0x7F6A0DBB, 0x086D3D2D, 0x91646C97, 0xE6635C01,
    0x6B6B51F4, 0x1C6C6162, 0x856530D8, 0xF262004E, 0x6C0695ED, 0x1B01A57B, 0x8208F4C1, 0xF50FC457,
    0x65B0D9C6, 0x12B7E950, 0x8BBEB8EA, 0xFCB9887C, 0x62DD1DDF, 0x15DA2D49, 0x8CD37CF3, 0xFBD44C65,
    0x4DB26158, 0x3AB551CE, 0xA3BC0074, 0xD4BB30E2, 0x4ADFA541, 0x3DD895D7, 0xA4D1C46D, 0xD3D6F4FB,
    0x4369E96A, 0x346ED9FC, 0xAD678846, 0xDA60B8D0, 0x44042D73, 0x33031DE5, 0xAA0A4C5F, 0xDD0D7CC9,
    0x5005713C, 0x270241AA, 0xBE0B1010, 0xC90C2086, 0x5768B525, 0x206F85B3, 0xB966D409, 0xCE61E49F,
    0x5EDEF90E, 0x29D9C998, 0xB0D09822, 0xC7D7A8B4, 0x59B33D17, 0x2EB40D81, 0xB7BD5C3B, 0xC0BA6CAD,
    0xEDB88320, 0x9ABFB3B6, 0x03B6E20C, 0x74B1D29A, 0xEAD54739, 0x9DD277AF, 0x04DB2615, 0x73DC1683,
    0xE3630B12, 0x94643B84, 0x0D6D6A3E, 0x7A6A5AA8, 0xE40ECF0B, 0x9309FF9D, 0x0A00AE27, 0x7D079EB1,
    0xF00F9344, 0x8708A3D2, 0x1E01F268, 0x6906C2FE, 0xF762575D, 0x806567CB, 0x196C3671, 0x6E6B06E7,
    0xFED41B76, 0x89D32BE0, 0x10DA7A5A, 0x67DD4ACC, 0xF9B9DF6F, 0x8EBEEFF9, 0x17B7BE43, 0x60B08ED5,
    0xD6D6A3E8, 0xA1D1937E, 0x38D8C2C4, 0x4FDFF252, 0xD1BB67F1, 0xA6BC5767, 0x3FB506DD, 0x48B2364B,
    0xD80D2BDA, 0xAF0A1B4C, 0x36034AF6, 0x41047A60, 0xDF60EFC3, 0xA867DF55, 0x316E8EEF, 0x4669BE79,
    0xCB61B38C, 0xBC66831A, 0x256FD2A0, 0x5268E236, 0xCC0C7795, 0xBB0B4703, 0x220216B9, 0x5505262F,
    0xC5BA3BBE, 0xB2BD0B28, 0x2BB45A92, 0x5CB36A04, 0xC2D7FFA7, 0xB5D0CF31, 0x2CD99E8B, 0x5BDEAE1D,
    0x9B64C2B0, 0xEC63F226, 0x756AA39C, 0x026D930A, 0x9C0906A9, 0xEB0E363F, 0x72076785, 0x05005713,
    0x95BF4A82, 0xE2B87A14, 0x7BB12BAE, 0x0CB61B38, 0x92D28E9B, 0xE5D5BE0D, 0x7CDCEFB7, 0x0BDBDF21,
    0x86D3D2D4, 0xF1D4E242, 0x68DDB3F8, 0x1FDA836E, 0x81BE16CD, 0xF6B9265B, 0x6FB077E1, 0x18B74777,
    0x88085AE6, 0xFF0F6A70, 0x66063BCA, 0x11010B5C, 0x8F659EFF, 0xF862AE69, 0x616BFFD3, 0x166CCF45,
    0xA00AE278, 0xD70DD2EE, 0x4E048354, 0x3903B3C2, 0xA7672661, 0xD06016F7, 0x4969474D, 0x3E6E77DB,
    0xAED16A4A, 0xD9D65ADC, 0x40DF0B66, 0x37D83BF0, 0xA9BCAE53, 0xDEBB9EC5, 0x47B2CF7F, 0x30B5FFE9,
    0xBDBDF21C, 0xCABAC28A, 0x53B39330, 0x24B4A3A6, 0xBAD03605, 0xCDD70693, 0x54DE5729, 0x23D967BF,
    0xB3667A2E, 0xC4614AB8, 0x5D681B02, 0x2A6F2B94, 0xB40BBE37, 0xC30C8EA1, 0x5A05DF1B, 0x2D02EF8D]"

definition crc32_step :: "u32 \<Rightarrow> u8 \<Rightarrow> u32" where
  "crc32_step c b = crc32_table ! unat ((c XOR ucast b) AND 0xFF) XOR drop_bit 8 c"

definition crc32_ieee :: "bytes \<Rightarrow> u32 \<Rightarrow> nat \<Rightarrow> u32" where
  "crc32_ieee data crc n = foldl crc32_step (crc XOR 0xFFFFFFFF) (take n data) XOR 0xFFFFFFFF"

section \<open>The bit-serial reference\<close>

definition crc_shift :: "u32 \<Rightarrow> u32" where
  "crc_shift c = (if bit c 0 then drop_bit 1 c XOR 0xEDB88320 else drop_bit 1 c)"

definition crc_ref :: "u32 \<Rightarrow> bytes \<Rightarrow> u32" where
  "crc_ref = foldl (\<lambda>c b. (crc_shift ^^ 8) (c XOR ucast b))"

lemma crc_shift_xor: "crc_shift (a XOR b) = crc_shift a XOR crc_shift b"
  by (simp add: crc_shift_def bit_xor_iff ac_simps)

lemma crc_shift_0 [simp]: "crc_shift 0 = 0"
  by (simp add: crc_shift_def)

lemma crc_shifts_xor: "(crc_shift ^^ n) (a XOR b) = (crc_shift ^^ n) a XOR (crc_shift ^^ n) b"
  by (induction n) (simp_all add: crc_shift_xor)

lemma crc_shift_eq_0: "crc_shift x = 0 \<Longrightarrow> x = 0"
proof (cases "bit x 0")
  case True
  assume "crc_shift x = 0"
  then have "bit (drop_bit 1 x XOR 0xEDB88320) 31 = False" using True by (simp add: crc_shift_def)
  moreover have "\<not> bit (drop_bit 1 x) 31" using u32_bit_bound [of x 32] by (auto simp: bit_drop_bit_eq)
  ultimately show ?thesis by (simp add: bit_xor_iff)
next
  case False
  assume "crc_shift x = 0"
  then have d: "drop_bit 1 x = 0" using False by (simp add: crc_shift_def)
  show ?thesis
  proof (rule bit_word_eqI)
    fix n
    show "bit x n = bit (0 :: u32) n"
      using False arg_cong [OF d, of "\<lambda>w. bit w (n - 1)"] by (cases n) (simp_all add: bit_drop_bit_eq)
  qed
qed

lemma crc_shifts_inj: "(crc_shift ^^ n) a = (crc_shift ^^ n) b \<Longrightarrow> a = b"
proof -
  have z: "(crc_shift ^^ n) x = 0 \<Longrightarrow> x = 0" for x
    by (induction n) (auto dest: crc_shift_eq_0)
  assume "(crc_shift ^^ n) a = (crc_shift ^^ n) b"
  then have "(crc_shift ^^ n) (a XOR b) = 0" by (simp add: crc_shifts_xor)
  then have "a XOR b = 0" by (rule z)
  then have "(a XOR b) XOR b = b" by simp
  then show "a = b" by (simp add: xor.assoc)
qed

lemma shift_8: "(crc_shift ^^ 8) x = crc_shift (crc_shift (crc_shift (crc_shift (crc_shift (crc_shift (crc_shift (crc_shift x)))))))"
  by (simp add: eval_nat_numeral)

lemma crc_table_shift: "crc32_table = map (\<lambda>i. (crc_shift ^^ 8) (of_nat i)) [0..<256]"
  by (simp add: crc32_table_def shift_8 crc_shift_def [of "numeral m" for m] crc_shift_def [of 1] upt_rec)

lemma crc_shifts_high: "(\<forall>i < n. \<not> bit x i) \<Longrightarrow> (crc_shift ^^ n) x = drop_bit n x"
proof (induction n)
  case (Suc n)
  then have "(crc_shift ^^ n) x = drop_bit n x" by simp
  moreover have "\<not> bit (drop_bit n x) 0" using Suc.prems by (simp add: bit_drop_bit_eq)
  ultimately show ?case by (simp add: crc_shift_def [of "drop_bit n x"])
qed simp

lemma u32_low_high: "x = (x AND 0xFF) XOR push_bit 8 (drop_bit 8 x)" for x :: u32
  unfolding u32_masks by (rule bit_word_eqI) (auto simp: bit_simps)

lemma u32_low_bound: "unat (x AND 0xFF) < 256" for x :: u32
proof -
  have "unat (x AND 0xFF) = take_bit 8 (unat x)"
    by (simp only: u32_masks(1) take_bit_eq_mask [symmetric] unsigned_take_bit_eq)
  then show ?thesis using take_bit_nat_less_exp [of 8 "unat x"] by simp
qed

lemma crc32_step_ref: "crc32_step c b = (crc_shift ^^ 8) (c XOR ucast b)"
proof -
  let ?x = "c XOR ucast b"
  have lt: "unat (?x AND 0xFF) < 256" by (rule u32_low_bound)
  have "crc32_table ! unat (?x AND 0xFF) = (crc_shift ^^ 8) (?x AND 0xFF)"
    using lt by (simp add: crc_table_shift)
  moreover have "(crc_shift ^^ 8) (push_bit 8 (drop_bit 8 ?x)) = drop_bit 8 c"
  proof -
    have "(crc_shift ^^ 8) (push_bit 8 (drop_bit 8 ?x)) = drop_bit 8 (push_bit 8 (drop_bit 8 ?x))"
      by (rule crc_shifts_high) (simp add: bit_simps)
    also have "\<dots> = drop_bit 8 c" by (rule bit_word_eqI) (auto simp: bit_simps dest: u8_bit_bound u32_bit_bound)
    finally show ?thesis .
  qed
  moreover have "(crc_shift ^^ 8) ?x = (crc_shift ^^ 8) (?x AND 0xFF) XOR (crc_shift ^^ 8) (push_bit 8 (drop_bit 8 ?x))"
    unfolding crc_shifts_xor [symmetric] using u32_low_high [of ?x] by (rule arg_cong)
  ultimately show ?thesis by (simp add: crc32_step_def)
qed

section \<open>Error detection\<close>

text \<open>The bytes of a window as one number; the register after the window depends on it linearly.\<close>

fun le_num :: "bytes \<Rightarrow> u32" where
  "le_num [] = 0"
| "le_num (b # bs) = ucast b XOR push_bit 8 (le_num bs)"

lemma le_num_bits: "bit (le_num bs) i \<Longrightarrow> i < 8 * length bs"
proof (induction bs arbitrary: i)
  case (Cons b bs)
  consider "bit b i" | "8 \<le> i" "bit (le_num bs) (i - 8)"
    using Cons.prems by (auto simp: bit_simps)
  then show ?case
  proof cases
    case 1
    then show ?thesis using u8_bit_bound [of b i] by simp
  next
    case 2
    then show ?thesis using Cons.IH [of "i - 8"] by simp
  qed
qed simp

lemma le_num_inj: "length bs = length bs' \<Longrightarrow> length bs \<le> 4 \<Longrightarrow> le_num bs = le_num bs' \<Longrightarrow> bs = bs'"
proof (induction bs bs' rule: list_induct2)
  case (Cons b bs b' bs')
  have e: "bit (le_num (b # bs)) i = bit (le_num (b' # bs')) i" for i using Cons.prems(2) by (rule arg_cong)
  have "b = b'"
  proof (rule u8_eqI)
    fix k :: nat assume "k < 8"
    then show "bit b k = bit b' k" using e [of k] by (simp add: bit_simps)
  qed
  moreover have "le_num bs = le_num bs'"
  proof (rule bit_word_eqI)
    fix k :: nat assume "k < LENGTH(32)"
    show "bit (le_num bs) k = bit (le_num bs') k"
      using e [of "k + 8"] le_num_bits [of bs k] le_num_bits [of bs' k] Cons.prems(1) Cons.hyps
      by (auto simp: bit_simps dest: u8_bit_bound)
  qed
  ultimately show ?case using Cons by simp
qed simp

lemma crc_window: "length bs \<le> 4 \<Longrightarrow> foldl crc32_step c bs = (crc_shift ^^ (8 * length bs)) (c XOR le_num bs)"
proof (induction bs arbitrary: c)
  case (Cons b bs)
  have "drop_bit 8 (push_bit 8 (le_num bs)) = le_num bs"
  proof (rule bit_word_eqI)
    fix k
    show "bit (drop_bit 8 (push_bit 8 (le_num bs))) k = bit (le_num bs) k"
      using le_num_bits [of bs k] Cons.prems by (auto simp: bit_simps)
  qed
  then have "(crc_shift ^^ 8) (push_bit 8 (le_num bs)) = le_num bs"
    using crc_shifts_high [of 8 "push_bit 8 (le_num bs)"] by (simp add: bit_simps)
  then have "crc32_step c b XOR le_num bs = (crc_shift ^^ 8) (c XOR le_num (b # bs))"
    by (simp add: crc32_step_ref crc_shifts_xor flip: xor.assoc)
  moreover have "(crc_shift ^^ (8 * length (b # bs))) y = (crc_shift ^^ (8 * length bs)) ((crc_shift ^^ 8) y)" for y
    using funpow_add [of "8 * length bs" 8 crc_shift] by (simp add: add.commute)
  ultimately show ?case using Cons by simp
qed simp

lemma crc_step_inj: "foldl crc32_step c bs = foldl crc32_step c' bs \<Longrightarrow> c = c'"
proof (induction bs arbitrary: c c')
  case (Cons b bs)
  then have "crc32_step c b = crc32_step c' b" by simp
  then have "c XOR ucast b = c' XOR ucast b" unfolding crc32_step_ref by (rule crc_shifts_inj)
  then have "(c XOR ucast b) XOR ucast b = (c' XOR ucast b) XOR ucast b" by simp
  then show ?case by (simp add: xor.assoc)
qed simp

lemma u32_xor_cancel: "a XOR x = b XOR x \<Longrightarrow> a = b" for a b x :: u32
  by (metis xor.assoc xor_self_eq xor.right_neutral)

lemma crc_burst:
  assumes "length w = length w'" "length w \<le> 4" "w \<noteq> w'" "n = length (p @ w @ s)"
  shows "crc32_ieee (p @ w @ s) crc n \<noteq> crc32_ieee (p @ w' @ s) crc n"
proof
  let ?c = "foldl crc32_step (crc XOR 0xFFFFFFFF) p"
  assume "crc32_ieee (p @ w @ s) crc n = crc32_ieee (p @ w' @ s) crc n"
  then have "foldl crc32_step (foldl crc32_step ?c w) s = foldl crc32_step (foldl crc32_step ?c w') s"
    using assms(1,4) by (auto simp: crc32_ieee_def dest: u32_xor_cancel)
  then have "foldl crc32_step ?c w = foldl crc32_step ?c w'" by (rule crc_step_inj)
  then have "?c XOR le_num w = ?c XOR le_num w'"
    using crc_window [of w ?c] crc_window [of w' ?c] assms(1,2) by (auto intro: crc_shifts_inj)
  then have "le_num w = le_num w'" using u32_xor_cancel [of "le_num w" ?c "le_num w'"] by (simp add: xor.commute)
  then show False using le_num_inj [OF assms(1,2)] assms(3) by blast
qed

lemma crc32_take: "crc32_ieee data crc n = crc32_ieee (take n data) crc (length (take n data))"
  by (simp add: crc32_ieee_def min_def)

section \<open>Properties\<close>

text \<open>C19.
  \<^verbatim>\<open>crc32_ieee\<close> is the CRC-32 of IEEE 802.3: the table step equals eight steps of the bit-serial
  division by the reflected polynomial, for every register and byte, and the published check value is met.
  Computing it over two pieces, passing the first result on, gives the value of the whole.
\<close>

theorem crc32_reference:
  "crc32_ieee data crc n = crc_ref (crc XOR 0xFFFFFFFF) (take n data) XOR 0xFFFFFFFF \<and>
   crc32_ieee (a @ b) crc (length a + length b) = crc32_ieee b (crc32_ieee a crc (length a)) (length b) \<and>
   crc32_ieee [0x31, 0x32, 0x33, 0x34, 0x35, 0x36, 0x37, 0x38, 0x39] 0 9 = 0xCBF43926"
proof (intro conjI)
  have r: "foldl crc32_step c bs = crc_ref c bs" for c bs
    by (simp add: crc_ref_def crc32_step_ref [abs_def])
  then show "crc32_ieee data crc n = crc_ref (crc XOR 0xFFFFFFFF) (take n data) XOR 0xFFFFFFFF"
    by (simp add: crc32_ieee_def)
  show "crc32_ieee (a @ b) crc (length a + length b) = crc32_ieee b (crc32_ieee a crc (length a)) (length b)"
    by (simp add: crc32_ieee_def xor.assoc)
  show "crc32_ieee [0x31, 0x32, 0x33, 0x34, 0x35, 0x36, 0x37, 0x38, 0x39] 0 9 = 0xCBF43926"
    by (simp add: crc32_ieee_def crc32_step_ref shift_8 crc_shift_def [of "numeral m" for m] crc_shift_def [of 1])
qed

text \<open>An error that is confined to four adjacent bytes, wherever it is and whatever it changes there,
  changes the CRC.
\<close>

theorem crc32_detects_burst:
  assumes "length w = length w'" "length w \<le> 4" "w \<noteq> w'" "n = length (p @ w @ s)"
  shows "crc32_ieee (p @ w @ s) crc n \<noteq> crc32_ieee (p @ w' @ s) crc n"
  by (rule crc_burst [OF assms])

theorem crc32_detects_burst_witness:
  "length [1 :: u8, 2] = length [1 :: u8, 3] \<and> length [1 :: u8, 2] \<le> 4 \<and> [1 :: u8, 2] \<noteq> [1, 3] \<and>
   (4 :: nat) = length ([7 :: u8] @ [1, 2] @ [9]) \<and>
   crc32_ieee ([7] @ [1, 2] @ [9]) 0 4 \<noteq> crc32_ieee ([7] @ [1, 3] @ [9]) 0 4"
  using crc32_detects_burst [of "[1, 2]" "[1, 3]" 4 "[7]" "[9]" 0] by simp

end
