(* ===== verification/Gpt.thy ===== *)
theory Gpt
  imports Crc32
begin

text \<open>
  The GUID partition table parser of \<^verbatim>\<open>kernel/partition/gpt.c\<close>. The driver's read function is an
  argument: \<open>read lba n\<close> is what a successful read of \<open>n\<close> sectors delivers, \<open>None\<close> a failure; the
  theorems assume only that a successful read fills the buffer. A header that is not accepted
  leaves nothing behind that the callers look at, so the check returns the decoded geometry or
  nothing.

  The lemmas show that what the parser accepts has been verified by both checksums and lies on
  the disk, that it accepts what a correct table contains, and which damage it rejects.
\<close>

section \<open>Constants and byte access\<close>

definition GPT_SECTOR_SIZE :: nat where "GPT_SECTOR_SIZE = 512"
definition GPT_HEADER_SIZE :: nat where "GPT_HEADER_SIZE = 92"
definition GPT_REVISION :: u32 where "GPT_REVISION = 0x00010000"
definition GPT_MAX_ENTRIES :: nat where "GPT_MAX_ENTRIES = 128"
definition GPT_ENTRY_SIZE :: nat where "GPT_ENTRY_SIZE = 128"
definition GPT_NAME_MAX :: nat where "GPT_NAME_MAX = 37"
definition GPT_PROTECTIVE_MBR :: u8 where "GPT_PROTECTIVE_MBR = 0xEE"

lemmas gpt_consts = GPT_SECTOR_SIZE_def GPT_HEADER_SIZE_def GPT_MAX_ENTRIES_def GPT_ENTRY_SIZE_def GPT_NAME_MAX_def

type_synonym gpt_read_fn = "u64 \<Rightarrow> nat \<Rightarrow> bytes option"

fun gpt_memcmp :: "bytes \<Rightarrow> bytes \<Rightarrow> nat \<Rightarrow> int" where
  "gpt_memcmp (x # xs) (y # ys) (Suc n) = (if x \<noteq> y then uint x - uint y else gpt_memcmp xs ys n)"
| "gpt_memcmp xs ys n = 0"

definition gpt_le32 :: "bytes \<Rightarrow> nat \<Rightarrow> u32" where
  "gpt_le32 d off = le32_of (drop off d)"

definition gpt_le64 :: "bytes \<Rightarrow> nat \<Rightarrow> u64" where
  "gpt_le64 d off = ucast (gpt_le32 d off) OR push_bit 32 (ucast (gpt_le32 d (off + 4)))"

definition gpt_types :: "(bytes \<times> string) list" where
  "gpt_types = [
     ([0x28,0x73,0x2A,0xC1, 0x1F,0xF8, 0xD2,0x11, 0xBA,0x4B,0x00,0xA0,0xC9,0x3E,0xC9,0x3B], ''EFI System''),
     ([0xEA,0xAD,0x0A,0xEB, 0xDD,0xB2, 0x3F,0x4F, 0x80,0xFF,0x71,0xE9,0x16,0xB3,0x9E,0x0F], ''Basic Data''),
     ([0x16,0xE3,0xC9,0xE3, 0x0B,0x5C, 0xB8,0x4D, 0x81,0x7D,0xF9,0x2D,0xF0,0x02,0x15,0xAE], ''Microsoft Reserved''),
     ([0x6D,0xFD,0x57,0x06, 0xAB,0xA4, 0xC4,0x43, 0x84,0xE5,0x09,0x33,0xC8,0x4B,0x4F,0x4F], ''Linux swap''),
     ([0xAF,0x3D,0xC6,0x0F, 0x83,0x84, 0x72,0x47, 0x8E,0x79,0x3D,0x69,0xD8,0x47,0x7D,0xE4], ''Linux data''),
     ([0x40,0x95,0x47,0x44, 0x97,0xF2, 0xB2,0x41, 0x9A,0xF7,0xD1,0x31,0xD5,0xF0,0x45,0x8A], ''Linux root (x86)'')]"

definition gpt_type_name :: "bytes \<Rightarrow> string option" where
  "gpt_type_name guid = map_option snd (find (\<lambda>t. gpt_memcmp guid (fst t) 16 = 0) gpt_types)"

section \<open>The header\<close>

record gpt_header_geom =
  gh_my_lba :: u64
  gh_alt_lba :: u64
  gh_first_usable :: u64
  gh_last_usable :: u64
  gh_disk_guid :: bytes
  gh_entry_lba :: u64
  gh_num_entries :: u32
  gh_entry_size :: u32
  gh_array_crc :: u32

text \<open>The bytes \<^verbatim>\<open>EFI PART\<close>.\<close>

definition gpt_signature :: bytes where
  "gpt_signature = [0x45, 0x46, 0x49, 0x20, 0x50, 0x41, 0x52, 0x54]"

text \<open>The tests on the decoded geometry, in the 64-bit arithmetic of the source.\<close>

definition gpt_geom_ok :: "u64 \<Rightarrow> u64 \<Rightarrow> gpt_header_geom \<Rightarrow> bool" where
  "gpt_geom_ok blocks my g \<longleftrightarrow>
     \<not> (gh_my_lba g \<noteq> my) \<and>
     \<not> (gh_num_entries g < 1 \<or> gh_num_entries g > of_nat GPT_MAX_ENTRIES) \<and>
     \<not> (gh_entry_size g \<noteq> of_nat GPT_ENTRY_SIZE) \<and>
     \<not> (gh_first_usable g \<ge> gh_last_usable g) \<and>
     \<not> (gh_first_usable g < 1 \<or> gh_last_usable g \<ge> blocks) \<and>
     \<not> (gh_entry_lba g * 512 + ucast (gh_num_entries g) * ucast (gh_entry_size g) > blocks * 512)"

definition gpt_geom_of :: "bytes \<Rightarrow> gpt_header_geom" where
  "gpt_geom_of hdr = \<lparr>gh_my_lba = gpt_le64 hdr 24, gh_alt_lba = gpt_le64 hdr 32,
     gh_first_usable = gpt_le64 hdr 40, gh_last_usable = gpt_le64 hdr 48,
     gh_disk_guid = mem_get hdr 56 16, gh_entry_lba = gpt_le64 hdr 72,
     gh_num_entries = gpt_le32 hdr 80, gh_entry_size = gpt_le32 hdr 84, gh_array_crc = gpt_le32 hdr 88\<rparr>"

definition gpt_check_header :: "bytes \<Rightarrow> u64 \<Rightarrow> u64 \<Rightarrow> gpt_header_geom option" where
  "gpt_check_header hdr blocks my =
     (if gpt_memcmp hdr gpt_signature 8 \<noteq> 0 then None
      else if gpt_le32 hdr 8 \<noteq> GPT_REVISION then None
      else if gpt_le32 hdr 12 \<noteq> of_nat GPT_HEADER_SIZE then None
      else if crc32_ieee (mem_put hdr 16 [0, 0, 0, 0]) 0 GPT_HEADER_SIZE \<noteq> gpt_le32 hdr 16 then None
      else if gpt_geom_ok blocks my (gpt_geom_of hdr) then Some (gpt_geom_of hdr) else None)"

section \<open>The entries\<close>

record gpt_entry =
  ge_index :: nat
  ge_type_guid :: bytes
  ge_unique_guid :: bytes
  ge_attributes :: u64
  ge_first_lba :: u64
  ge_last_lba :: u64
  ge_name :: string
  ge_type_name :: "string option"

text \<open>The UTF-16 name, up to the first unit that is not printable ASCII; \<open>n\<close> characters still fit.\<close>

fun gpt_decode_name :: "nat \<Rightarrow> bytes \<Rightarrow> string" where
  "gpt_decode_name (Suc n) (lo # hi # src) =
     (let u = ucast lo OR push_bit 8 (ucast hi) :: u16
      in if u = 0 then []
         else if u < 0x20 \<or> u > 0x7E then []
         else char_of (unat u) # gpt_decode_name n src)"
| "gpt_decode_name n src = []"

definition gpt_entry_of :: "nat \<Rightarrow> bytes \<Rightarrow> gpt_entry" where
  "gpt_entry_of i e = \<lparr>ge_index = i, ge_type_guid = mem_get e 0 16, ge_unique_guid = mem_get e 16 16,
     ge_attributes = gpt_le64 e 48, ge_first_lba = gpt_le64 e 32, ge_last_lba = gpt_le64 e 40,
     ge_name = gpt_decode_name (GPT_NAME_MAX - 1) (drop 56 e), ge_type_name = gpt_type_name (mem_get e 0 16)\<rparr>"

definition gpt_slot_used :: "gpt_header_geom \<Rightarrow> bytes \<Rightarrow> bool" where
  "gpt_slot_used g e \<longleftrightarrow>
     \<not> (\<forall>b \<in> set (mem_get e 0 16). b = 0) \<and>
     \<not> (gpt_le64 e 32 < gh_first_usable g \<or> gpt_le64 e 40 > gh_last_usable g \<or> gpt_le64 e 40 < gpt_le64 e 32)"

text \<open>The loop over the slots from \<open>i\<close> on; it ends early when the output array is full.\<close>

fun gpt_slots :: "gpt_header_geom \<Rightarrow> bytes \<Rightarrow> nat \<Rightarrow> nat \<Rightarrow> nat \<Rightarrow> gpt_entry list" where
  "gpt_slots g buf 0 i count = []"
| "gpt_slots g buf (Suc n) i count =
     (let e = mem_get buf (i * GPT_ENTRY_SIZE) GPT_ENTRY_SIZE
      in if \<not> gpt_slot_used g e then gpt_slots g buf n (i + 1) count
         else gpt_entry_of i e #
           (if count + 1 \<ge> GPT_MAX_ENTRIES then [] else gpt_slots g buf n (i + 1) (count + 1)))"

definition gpt_parse_array :: "gpt_read_fn \<Rightarrow> gpt_header_geom \<Rightarrow> gpt_entry list option" where
  "gpt_parse_array read g =
     (let array_bytes = ucast (gh_num_entries g) * ucast (gh_entry_size g) :: u64;
          sectors = ucast ((array_bytes + 511) div 512) :: u32
      in case read (gh_entry_lba g) (unat sectors) of
           None \<Rightarrow> None
         | Some buf \<Rightarrow>
             if crc32_ieee buf 0 (unat (ucast array_bytes :: u32)) \<noteq> gh_array_crc g then None
             else Some (gpt_slots g buf (unat (gh_num_entries g)) 0 0))"

section \<open>The interface\<close>

record gpt_disk =
  gd_valid :: bool
  gd_used_backup :: bool
  gd_disk_guid :: bytes
  gd_first_usable :: u64
  gd_last_usable :: u64
  gd_my_lba :: u64
  gd_entries :: "gpt_entry list"
  gd_primary_header_ok :: bool
  gd_primary_array_ok :: bool
  gd_backup_header_ok :: bool
  gd_backup_array_ok :: bool

definition gpt_detect :: "gpt_read_fn \<Rightarrow> int" where
  "gpt_detect read =
     (case read 0 1 of
        None \<Rightarrow> -1
      | Some mbr \<Rightarrow>
          if mbr ! 510 \<noteq> 0x55 \<or> mbr ! 511 \<noteq> 0xAA then -1
          else if \<exists>i \<in> {0..<4}. mbr ! (446 + i * 16 + 4) = GPT_PROTECTIVE_MBR then 1
          else 0)"

definition zero_disk :: gpt_disk where
  "zero_disk = \<lparr>gd_valid = False, gd_used_backup = False, gd_disk_guid = replicate 16 0, gd_first_usable = 0,
     gd_last_usable = 0, gd_my_lba = 0, gd_entries = [], gd_primary_header_ok = False, gd_primary_array_ok = False,
     gd_backup_header_ok = False, gd_backup_array_ok = False\<rparr>"

definition gpt_take_header :: "gpt_header_geom \<Rightarrow> gpt_disk \<Rightarrow> gpt_disk" where
  "gpt_take_header g d =
     d\<lparr>gd_disk_guid := gh_disk_guid g, gd_first_usable := gh_first_usable g, gd_last_usable := gh_last_usable g,
       gd_my_lba := gh_my_lba g\<rparr>"

definition gpt_header_at :: "gpt_read_fn \<Rightarrow> u64 \<Rightarrow> u64 \<Rightarrow> gpt_header_geom option" where
  "gpt_header_at read blocks lba =
     (case read lba 1 of None \<Rightarrow> None | Some hdr \<Rightarrow> gpt_check_header hdr blocks lba)"

definition gpt_backup :: "gpt_read_fn \<Rightarrow> u64 \<Rightarrow> u64 \<Rightarrow> gpt_disk \<Rightarrow> bool \<times> gpt_disk" where
  "gpt_backup read blocks lba d =
     (if \<not> (lba \<ge> 1 \<and> lba < blocks \<and> lba \<noteq> 1) then (False, d)
      else case gpt_header_at read blocks lba of
        None \<Rightarrow> (False, d)
      | Some g \<Rightarrow>
          let d = gpt_take_header g (d\<lparr>gd_backup_header_ok := True\<rparr>)
          in case gpt_parse_array read g of
               None \<Rightarrow> (False, d)
             | Some es \<Rightarrow> (True, d\<lparr>gd_entries := es, gd_backup_array_ok := True, gd_valid := True, gd_used_backup := True\<rparr>))"

definition gpt_parse :: "gpt_read_fn \<Rightarrow> u64 \<Rightarrow> bool \<times> gpt_disk" where
  "gpt_parse read blocks =
     (if blocks = 0 then (False, zero_disk)
      else case gpt_header_at read blocks 1 of
        None \<Rightarrow> gpt_backup read blocks (blocks - 1) zero_disk
      | Some g \<Rightarrow>
          let d = gpt_take_header g (zero_disk\<lparr>gd_primary_header_ok := True\<rparr>)
          in case gpt_parse_array read g of
               Some es \<Rightarrow> (True, d\<lparr>gd_entries := es, gd_primary_array_ok := True, gd_valid := True\<rparr>)
             | None \<Rightarrow> gpt_backup read blocks (gh_alt_lba g) d)"

section \<open>What is accepted\<close>

definition read_fills :: "gpt_read_fn \<Rightarrow> bool" where
  "read_fills read \<longleftrightarrow> (\<forall>lba n buf. read lba n = Some buf \<longrightarrow> length buf = n * GPT_SECTOR_SIZE)"

text \<open>
  A table that has been verified: the header sector carries the signature and its own CRC, its geometry is
  plausible, the array carries the CRC that the header announces, and \<open>es\<close> are the used slots.
\<close>

definition gpt_verified :: "gpt_read_fn \<Rightarrow> u64 \<Rightarrow> gpt_disk \<Rightarrow> bool" where
  "gpt_verified read blocks d \<longleftrightarrow>
     (\<exists>hdr buf n. read (gd_my_lba d) 1 = Some hdr \<and>
        take 8 hdr = gpt_signature \<and> crc32_ieee (mem_put hdr 16 [0, 0, 0, 0]) 0 92 = gpt_le32 hdr 16 \<and>
        gd_first_usable d = gpt_le64 hdr 40 \<and> gd_last_usable d = gpt_le64 hdr 48 \<and>
        gd_disk_guid d = mem_get hdr 56 16 \<and>
        n = unat (gpt_le32 hdr 80) \<and> 1 \<le> n \<and> n \<le> 128 \<and>
        read (gpt_le64 hdr 72) ((n * 128 + 511) div 512) = Some buf \<and> crc32_ieee buf 0 (n * 128) = gpt_le32 hdr 88 \<and>
        gd_entries d = map (\<lambda>i. gpt_entry_of i (mem_get buf (i * 128) 128))
          (filter (\<lambda>i. gpt_slot_used (gpt_geom_of hdr) (mem_get buf (i * 128) 128)) [0..<n]))"

lemma gpt_memcmp_0:
  "n \<le> length xs \<Longrightarrow> n \<le> length ys \<Longrightarrow> gpt_memcmp xs ys n = 0 \<longleftrightarrow> take n xs = take n ys"
  by (induction xs ys n rule: gpt_memcmp.induct) (auto dest: word_uint_eqI)

lemma gpt_slots_filter:
  "count + n \<le> GPT_MAX_ENTRIES \<Longrightarrow> gpt_slots g buf n i count =
     map (\<lambda>i. gpt_entry_of i (mem_get buf (i * 128) 128))
       (filter (\<lambda>i. gpt_slot_used g (mem_get buf (i * 128) 128)) [i..<i + n])"
proof (induction n arbitrary: i count)
  case (Suc n)
  have u: "[i..<i + Suc n] = i # [i + 1..<i + 1 + n]" by (simp add: upt_conv_Cons)
  have "n = 0" if "count + 1 \<ge> GPT_MAX_ENTRIES" using that Suc.prems by simp
  then show ?case
    using Suc.IH [of count "i + 1"] Suc.IH [of "count + 1" "i + 1"] Suc.prems
    unfolding u by (auto simp: Let_def GPT_ENTRY_SIZE_def)
qed simp

lemma gpt_check_header_Some:
  assumes "gpt_check_header hdr blocks my = Some g" "length hdr = 512"
  shows "g = gpt_geom_of hdr" "gpt_geom_ok blocks my g" "take 8 hdr = gpt_signature"
    "crc32_ieee (mem_put hdr 16 [0, 0, 0, 0]) 0 92 = gpt_le32 hdr 16"
  using assms gpt_memcmp_0 [of 8 hdr gpt_signature]
  by (auto simp: gpt_check_header_def gpt_signature_def GPT_HEADER_SIZE_def split: if_splits)

text \<open>The size of an accepted array is computed without overflow and fits the static buffer.\<close>

lemma gpt_array_size:
  assumes "gpt_geom_ok blocks my g"
  defines "n \<equiv> unat (gh_num_entries g)"
  shows "1 \<le> n" "n \<le> 128" "unat (ucast (gh_num_entries g) * ucast (gh_entry_size g) :: u64) = n * 128"
    "unat (ucast ((ucast (gh_num_entries g) * ucast (gh_entry_size g) + 511 :: u64) div 512) :: u32) = (n * 128 + 511) div 512"
    "unat (ucast (ucast (gh_num_entries g) * ucast (gh_entry_size g) :: u64) :: u32) = n * 128"
proof -
  show n: "1 \<le> n" "n \<le> 128"
    using assms(1) by (auto simp: gpt_geom_ok_def GPT_MAX_ENTRIES_def n_def word_less_nat_alt)
  have sz: "gh_entry_size g = 128" using assms(1) by (simp add: gpt_geom_ok_def GPT_ENTRY_SIZE_def)
  have u: "unat (ucast (gh_num_entries g) :: u64) = n" using n by (simp add: n_def unat_ucast_eq)
  have sz64: "(ucast (gh_entry_size g) :: u64) = 128" by (simp add: sz)
  show p: "unat (ucast (gh_num_entries g) * ucast (gh_entry_size g) :: u64) = n * 128"
    unfolding sz64 using n u by (simp add: unat_word_ariths)
  have "unat (ucast (gh_num_entries g) * ucast (gh_entry_size g) + 511 :: u64) = n * 128 + 511"
    using p n by (simp add: unat_word_ariths)
  then have "unat ((ucast (gh_num_entries g) * ucast (gh_entry_size g) + 511 :: u64) div 512) = (n * 128 + 511) div 512"
    by (simp add: unat_div)
  then show "unat (ucast ((ucast (gh_num_entries g) * ucast (gh_entry_size g) + 511 :: u64) div 512) :: u32) = (n * 128 + 511) div 512"
    using n by (simp add: unat_ucast_eq)
  show "unat (ucast (ucast (gh_num_entries g) * ucast (gh_entry_size g) :: u64) :: u32) = n * 128"
    using p n by (simp add: unat_ucast_eq)
qed

lemma gpt_parse_array_eq:
  assumes "gpt_geom_ok blocks my g"
  defines "n \<equiv> unat (gh_num_entries g)"
  shows "gpt_parse_array read g = (case read (gh_entry_lba g) ((n * 128 + 511) div 512) of
      None \<Rightarrow> None
    | Some buf \<Rightarrow> if crc32_ieee buf 0 (n * 128) \<noteq> gh_array_crc g then None
        else Some (map (\<lambda>i. gpt_entry_of i (mem_get buf (i * 128) 128))
          (filter (\<lambda>i. gpt_slot_used g (mem_get buf (i * 128) 128)) [0..<n])))"
  using gpt_array_size [OF assms(1)] gpt_slots_filter [of 0 n g _ 0]
  unfolding n_def by (simp add: gpt_parse_array_def Let_def GPT_MAX_ENTRIES_def split: option.split)

text \<open>A header and an array that were accepted together.\<close>

lemma gpt_accept:
  assumes "read_fills read" "gpt_header_at read blocks lba = Some g" "gpt_parse_array read g = Some es"
    and "gd_entries d = es" "gd_my_lba d = gh_my_lba g" "gd_disk_guid d = gh_disk_guid g"
    and "gd_first_usable d = gh_first_usable g" "gd_last_usable d = gh_last_usable g"
  shows "gpt_verified read blocks d \<and> length (gd_entries d) \<le> 128 \<and> sorted_wrt (<) (map ge_index (gd_entries d)) \<and>
    1 \<le> gd_first_usable d \<and> gd_last_usable d < blocks \<and>
    (\<forall>e \<in> set (gd_entries d). gd_first_usable d \<le> ge_first_lba e \<and> ge_first_lba e \<le> ge_last_lba e \<and> ge_last_lba e \<le> gd_last_usable d)"
proof -
  obtain hdr where h: "read lba 1 = Some hdr" "gpt_check_header hdr blocks lba = Some g"
    using assms(2) by (auto simp: gpt_header_at_def split: option.splits)
  have l: "length hdr = 512" using assms(1) h(1) by (auto simp: read_fills_def GPT_SECTOR_SIZE_def)
  note c = gpt_check_header_Some [OF h(2) l]
  note sz = gpt_array_size [OF c(2)]
  define n where "n = unat (gh_num_entries g)"
  obtain buf where b: "read (gh_entry_lba g) ((n * 128 + 511) div 512) = Some buf" "crc32_ieee buf 0 (n * 128) = gh_array_crc g"
      "es = map (\<lambda>i. gpt_entry_of i (mem_get buf (i * 128) 128))
          (filter (\<lambda>i. gpt_slot_used g (mem_get buf (i * 128) 128)) [0..<n])"
    using assms(3) by (auto simp: gpt_parse_array_eq [OF c(2)] n_def split: option.splits if_splits)
  have my: "gh_my_lba g = lba" using c(2) by (simp add: gpt_geom_ok_def)
  have "gpt_verified read blocks d"
    unfolding gpt_verified_def
    by (rule exI [of _ hdr], rule exI [of _ buf], rule exI [of _ n])
      (use h(1) c b sz(1,2) assms(4-) my in \<open>simp add: n_def gpt_geom_of_def\<close>)
  moreover have "length es \<le> 128"
    unfolding b(3) length_map by (rule order_trans [OF length_filter_le]) (use sz(2) in \<open>simp add: n_def\<close>)
  moreover have "map ge_index es = filter (\<lambda>i. gpt_slot_used g (mem_get buf (i * 128) 128)) [0..<n]"
    unfolding b(3) by (simp add: gpt_entry_of_def comp_def)
  then have "sorted_wrt (<) (map ge_index es)" by (simp add: sorted_wrt_filter)
  moreover have "\<forall>e \<in> set es. gh_first_usable g \<le> ge_first_lba e \<and> ge_first_lba e \<le> ge_last_lba e \<and> ge_last_lba e \<le> gh_last_usable g"
    by (auto simp: b(3) gpt_entry_of_def gpt_slot_used_def)
  moreover have "1 \<le> gh_first_usable g" "gh_last_usable g < blocks" using c(2) unfolding gpt_geom_ok_def by (meson linorder_not_less)+
  ultimately show ?thesis using assms(4-) by simp
qed

text \<open>What the result of the parser promises.\<close>

definition gpt_promise :: "gpt_read_fn \<Rightarrow> u64 \<Rightarrow> gpt_disk \<Rightarrow> bool" where
  "gpt_promise read blocks d \<longleftrightarrow>
     gpt_verified read blocks d \<and> length (gd_entries d) \<le> 128 \<and> sorted_wrt (<) (map ge_index (gd_entries d)) \<and>
     1 \<le> gd_first_usable d \<and> gd_last_usable d < blocks \<and>
     (\<forall>e \<in> set (gd_entries d). gd_first_usable d \<le> ge_first_lba e \<and> ge_first_lba e \<le> ge_last_lba e \<and>
        ge_last_lba e \<le> gd_last_usable d)"

lemma gpt_backup_promise:
  assumes "read_fills read" "gpt_backup read blocks lba d0 = (ok, d)" "\<not> gd_valid d0"
  shows "if ok then gd_valid d \<and> gpt_promise read blocks d else \<not> gd_valid d"
proof (cases "lba \<ge> 1 \<and> lba < blocks \<and> lba \<noteq> 1")
  case True
  show ?thesis
  proof (cases "gpt_header_at read blocks lba")
    case None
    then show ?thesis using assms(2,3) True by (simp add: gpt_backup_def)
  next
    case (Some g)
    let ?d1 = "gpt_take_header g (d0\<lparr>gd_backup_header_ok := True\<rparr>)"
    show ?thesis
    proof (cases "gpt_parse_array read g")
      case None
      then have "ok = False" "d = ?d1" using assms(2) True Some by (simp_all add: gpt_backup_def Let_def)
      then show ?thesis using assms(3) by (simp add: gpt_take_header_def)
    next
      case (Some es)
      then have d: "ok = True" "d = ?d1\<lparr>gd_entries := es, gd_backup_array_ok := True, gd_valid := True, gd_used_backup := True\<rparr>"
        using assms(2) True \<open>gpt_header_at read blocks lba = Some g\<close> by (simp_all add: gpt_backup_def Let_def)
      show ?thesis
        using gpt_accept [OF assms(1) \<open>gpt_header_at read blocks lba = Some g\<close> Some, of d]
        by (simp add: d gpt_take_header_def gpt_promise_def)
    qed
  qed
next
  case False
  then show ?thesis using assms(2,3) by (simp add: gpt_backup_def)
qed

lemma gpt_parse_promise:
  assumes "read_fills read" "gpt_parse read blocks = (ok, d)"
  shows "if ok then gd_valid d \<and> gpt_promise read blocks d else \<not> gd_valid d"
proof (cases "blocks = 0 \<or> gpt_header_at read blocks 1 = None")
  case True
  then show ?thesis
    using assms(2) gpt_backup_promise [OF assms(1), of blocks "blocks - 1" zero_disk ok d]
    by (cases "blocks = 0") (auto simp: gpt_parse_def zero_disk_def)
next
  case False
  then obtain g where g: "blocks \<noteq> 0" "gpt_header_at read blocks 1 = Some g" by auto
  let ?d1 = "gpt_take_header g (zero_disk\<lparr>gd_primary_header_ok := True\<rparr>)"
  have v: "\<not> gd_valid ?d1" by (simp add: gpt_take_header_def zero_disk_def)
  show ?thesis
  proof (cases "gpt_parse_array read g")
    case None
    then have "gpt_backup read blocks (gh_alt_lba g) ?d1 = (ok, d)" using assms(2) g by (simp add: gpt_parse_def Let_def)
    then show ?thesis using v by (rule gpt_backup_promise [OF assms(1)])
  next
    case (Some es)
    then have d: "ok = True" "d = ?d1\<lparr>gd_entries := es, gd_primary_array_ok := True, gd_valid := True\<rparr>"
      using assms(2) g by (simp_all add: gpt_parse_def Let_def)
    show ?thesis
      using gpt_accept [OF assms(1) g(2) Some, of d] by (simp add: d gpt_take_header_def gpt_promise_def)
  qed
qed

section \<open>Writing and reading back\<close>

text \<open>The image of a table: the header sector with its CRC filled in, and a slot.\<close>

definition le64_bytes :: "u64 \<Rightarrow> bytes" where
  "le64_bytes x = le32_bytes (ucast x) @ le32_bytes (ucast (drop_bit 32 x))"

definition gpt_fields :: "gpt_header_geom \<Rightarrow> bytes" where
  "gpt_fields g = le32_bytes 0 @ le64_bytes (gh_my_lba g) @ le64_bytes (gh_alt_lba g) @ le64_bytes (gh_first_usable g) @
     le64_bytes (gh_last_usable g) @ gh_disk_guid g @ le64_bytes (gh_entry_lba g) @ le32_bytes (gh_num_entries g) @
     le32_bytes (gh_entry_size g) @ le32_bytes (gh_array_crc g) @ replicate 420 0"

definition gpt_head :: bytes where
  "gpt_head = gpt_signature @ le32_bytes GPT_REVISION @ le32_bytes 92"

definition gpt_header_image :: "gpt_header_geom \<Rightarrow> bytes" where
  "gpt_header_image g =
     gpt_head @ le32_bytes (crc32_ieee (gpt_head @ le32_bytes 0 @ gpt_fields g) 0 92) @ gpt_fields g"

lemma length_le64 [simp]: "length (le64_bytes x) = 8"
  by (simp add: le64_bytes_def)

lemma length_gpt_head [simp]: "length gpt_head = 16"
  by (simp add: gpt_head_def gpt_signature_def)

lemma le32_of_append [simp]: "le32_of (le32_bytes x @ ys) = x"
proof -
  have "le32_of (le32_bytes x @ ys) = le32_of (le32_bytes x)" by (simp add: le32_of_def nth_append)
  then show ?thesis by simp
qed

lemma u64_halves: "ucast (ucast x :: u32) OR push_bit 32 (ucast (ucast (drop_bit 32 x) :: u32)) = x" for x :: u64
  by (rule bit_word_eqI) (auto simp: bit_simps)

lemma gpt_le64_append [simp]: "length xs = off \<Longrightarrow> gpt_le64 (xs @ le64_bytes x @ ys) off = x"
  by (simp add: gpt_le64_def gpt_le32_def le64_bytes_def u64_halves)

lemma gpt_le32_append [simp]: "length xs = off \<Longrightarrow> gpt_le32 (xs @ le32_bytes x @ ys) off = x"
  by (simp add: gpt_le32_def)

lemma gpt_geom_of_image:
  assumes "length (gh_disk_guid g) = 16" "length h = 20"
  shows "gpt_geom_of (h @ gpt_fields g) = g"
  using assms
  by (simp add: gpt_geom_of_def gpt_fields_def gpt_le64_def gpt_le32_def le64_bytes_def u64_halves mem_get_def)

lemma gpt_check_image:
  assumes "length (gh_disk_guid g) = 16"
  shows "gpt_check_header (gpt_header_image g) blocks my = (if gpt_geom_ok blocks my g then Some g else None)"
proof -
  let ?c = "crc32_ieee (gpt_head @ le32_bytes 0 @ gpt_fields g) 0 92"
  have l: "length (gpt_fields g) = 492" using assms by (simp add: gpt_fields_def)
  have i: "gpt_header_image g = gpt_head @ le32_bytes ?c @ gpt_fields g" by (simp add: gpt_header_image_def)
  have "take 8 (gpt_header_image g) = gpt_signature"
    unfolding i gpt_head_def by (simp add: gpt_signature_def)
  then have 1: "gpt_memcmp (gpt_header_image g) gpt_signature 8 = 0"
    using gpt_memcmp_0 [of 8 "gpt_header_image g" gpt_signature] l by (simp add: i gpt_signature_def)
  have 2: "gpt_le32 (gpt_header_image g) 8 = GPT_REVISION" "gpt_le32 (gpt_header_image g) 12 = 92"
    "gpt_le32 (gpt_header_image g) 16 = ?c"
    unfolding i by (simp_all add: gpt_le32_def) (simp_all add: gpt_head_def gpt_signature_def)
  have 3: "mem_put (gpt_header_image g) 16 [0, 0, 0, 0] = gpt_head @ le32_bytes 0 @ gpt_fields g"
    unfolding i by (simp add: mem_put_def le32_bytes_def)
  have 4: "gpt_geom_of (gpt_header_image g) = g"
    unfolding i using gpt_geom_of_image [OF assms, of "gpt_head @ le32_bytes ?c"] by simp
  show ?thesis
    unfolding gpt_check_header_def 4 3 using 1 2 by (simp add: GPT_HEADER_SIZE_def)
qed

text \<open>Partitions and the slots they are written to.\<close>

record gpt_part =
  gp_type :: bytes
  gp_unique :: bytes
  gp_first :: u64
  gp_last :: u64
  gp_attr :: u64
  gp_name :: string

definition gpt_name_image :: "string \<Rightarrow> bytes" where
  "gpt_name_image s = concat (map (\<lambda>c. [of_nat (of_char c), 0]) s) @ replicate (72 - 2 * length s) 0"

definition gpt_slot_image :: "gpt_part \<Rightarrow> bytes" where
  "gpt_slot_image p = gp_type p @ gp_unique p @ le64_bytes (gp_first p) @ le64_bytes (gp_last p) @
     le64_bytes (gp_attr p) @ gpt_name_image (gp_name p)"

definition gpt_array_image :: "gpt_part list \<Rightarrow> nat \<Rightarrow> bytes" where
  "gpt_array_image ps n = concat (map gpt_slot_image ps) @ replicate ((n - length ps) * 128) 0"

definition gpt_part_ok :: "gpt_header_geom \<Rightarrow> gpt_part \<Rightarrow> bool" where
  "gpt_part_ok g p \<longleftrightarrow> length (gp_type p) = 16 \<and> length (gp_unique p) = 16 \<and> (\<exists>b \<in> set (gp_type p). b \<noteq> 0) \<and>
     gh_first_usable g \<le> gp_first p \<and> gp_first p \<le> gp_last p \<and> gp_last p \<le> gh_last_usable g \<and>
     length (gp_name p) \<le> 36 \<and> (\<forall>c \<in> set (gp_name p). 0x20 \<le> (of_char c :: nat) \<and> (of_char c :: nat) \<le> 0x7E)"

definition gpt_part_of :: "gpt_entry \<Rightarrow> gpt_part" where
  "gpt_part_of e = \<lparr>gp_type = ge_type_guid e, gp_unique = ge_unique_guid e, gp_first = ge_first_lba e,
     gp_last = ge_last_lba e, gp_attr = ge_attributes e, gp_name = ge_name e\<rparr>"

lemma length_name_image [simp]: "length s \<le> 36 \<Longrightarrow> length (gpt_name_image s) = 72"
  by (simp add: gpt_name_image_def length_concat comp_def sum_list_triv)

lemma length_slot_image: "gpt_part_ok g p \<Longrightarrow> length (gpt_slot_image p) = 128"
  by (simp add: gpt_slot_image_def gpt_part_ok_def)

lemma decode_name_chars:
  assumes "\<forall>c \<in> set s. 0x20 \<le> (of_char c :: nat) \<and> (of_char c :: nat) \<le> 0x7E"
    and "length s \<le> n" "length s < n \<longrightarrow> gpt_decode_name (n - length s) r = []"
  shows "gpt_decode_name n (concat (map (\<lambda>c. [of_nat (of_char c), 0]) s) @ r) = s"
  using assms
proof (induction s arbitrary: n)
  case Nil
  then show ?case by (cases n) auto
next
  case (Cons c s)
  obtain m where m: "n = Suc m" using Cons.prems(2) by (cases n) auto
  define u where "u = (ucast (of_nat (of_char c) :: u8) OR push_bit 8 (ucast (0 :: u8)) :: u16)"
  have b: "(of_char c :: nat) < 256" "(of_char c :: nat) < 65536"
    using nat_of_char_less_256 [of c] by linarith+
  have "unat (of_nat (of_char c) :: u8) = of_char c" using b by (simp add: unat_of_nat)
  then have u: "unat u = of_char c"
    using b unat_ucast_eq [where 'b = 16, of "of_nat (of_char c) :: u8"] by (simp add: u_def)
  then have "u \<noteq> 0" "\<not> (u < 0x20 \<or> u > 0x7E)" "char_of (unat u) = c"
    using Cons.prems(1) by (auto simp: word_less_nat_alt)
  moreover have "gpt_decode_name m (concat (map (\<lambda>c. [of_nat (of_char c), 0]) s) @ r) = s"
    using Cons.IH [of m] Cons.prems m by auto
  ultimately show ?case by (simp add: m Let_def u_def)
qed

lemma gpt_entry_image:
  assumes "gpt_part_ok g p"
  shows "gpt_part_of (gpt_entry_of i (gpt_slot_image p)) = p" "gpt_slot_used g (gpt_slot_image p)"
proof -
  have l: "length (gp_type p) = 16" "length (gp_unique p) = 16" "length (gp_name p) \<le> 36"
    using assms by (simp_all add: gpt_part_ok_def)
  have "gpt_decode_name 36 (gpt_name_image (gp_name p)) = gp_name p"
    unfolding gpt_name_image_def
  proof (rule decode_name_chars)
    show "length (gp_name p) < 36 \<longrightarrow>
      gpt_decode_name (36 - length (gp_name p)) (replicate (72 - 2 * length (gp_name p)) 0) = []"
    proof
      assume "length (gp_name p) < 36"
      then have "36 - length (gp_name p) = Suc (35 - length (gp_name p))"
        "72 - 2 * length (gp_name p) = Suc (Suc (70 - 2 * length (gp_name p)))" by arith+
      then show "gpt_decode_name (36 - length (gp_name p)) (replicate (72 - 2 * length (gp_name p)) 0) = []" by simp
    qed
  qed (use assms in \<open>auto simp: gpt_part_ok_def\<close>)
  then show "gpt_part_of (gpt_entry_of i (gpt_slot_image p)) = p"
    using l by (simp add: gpt_part_of_def gpt_entry_of_def gpt_slot_image_def mem_get_def gpt_le64_def gpt_le32_def
        le64_bytes_def u64_halves GPT_NAME_MAX_def)
  have "\<not> (\<forall>b \<in> set (gp_type p). b = 0)" using assms by (auto simp: gpt_part_ok_def)
  then show "gpt_slot_used g (gpt_slot_image p)"
    using l assms by (simp add: gpt_slot_used_def gpt_slot_image_def mem_get_def gpt_le64_def gpt_le32_def
        le64_bytes_def u64_halves gpt_part_ok_def not_less)
qed

text \<open>The slots of a written array are the partitions, followed by unused slots.\<close>

lemma mem_get_concat:
  "\<forall>x \<in> set xs. length (f x) = m \<Longrightarrow> i < length xs \<Longrightarrow> mem_get (concat (map f xs) @ ys) (i * m) m = f (xs ! i)"
proof (induction xs arbitrary: i)
  case (Cons x xs)
  then show ?case by (cases i) (simp_all add: mem_get_def)
qed simp

lemma array_slot:
  assumes "\<forall>p \<in> set ps. gpt_part_ok g p" "i < n" "length ps \<le> n"
  shows "mem_get (gpt_array_image ps n @ pad) (i * 128) 128 =
    (if i < length ps then gpt_slot_image (ps ! i) else replicate 128 0)"
proof -
  have l: "\<forall>p \<in> set ps. length (gpt_slot_image p) = 128" using assms(1) length_slot_image by blast
  then have c: "length (concat (map gpt_slot_image ps)) = length ps * 128"
    by (induction ps) auto
  show ?thesis
  proof (cases "i < length ps")
    case True
    then show ?thesis using mem_get_concat [OF l True] by (simp add: gpt_array_image_def)
  next
    case False
    define k where "k = i - length ps"
    have i: "i = length ps + k" and k: "k < n - length ps" using False assms(2,3) by (auto simp: k_def)
    have "mem_get (gpt_array_image ps n @ pad) (i * 128) 128 = mem_get (replicate ((n - length ps) * 128) 0 @ pad) (k * 128) 128"
      unfolding gpt_array_image_def append_assoc
      by (subst mem_get_append_right) (simp_all add: c i algebra_simps)
    also have "\<dots> = replicate 128 0"
    proof -
      have "k * 128 + 128 \<le> (n - length ps) * 128" using k by arith
      then show ?thesis by (simp add: mem_get_def min_def)
    qed
    finally show ?thesis using False by simp
  qed
qed

lemma array_entries:
  fixes pad :: bytes
  assumes ps: "\<forall>p \<in> set ps. gpt_part_ok g p" and n: "length ps \<le> n"
  defines "buf \<equiv> gpt_array_image ps n @ pad"
  shows "filter (\<lambda>i. gpt_slot_used g (mem_get buf (i * 128) 128)) [0..<n] = [0..<length ps]"
    "map gpt_part_of (map (\<lambda>i. gpt_entry_of i (mem_get buf (i * 128) 128)) [0..<length ps]) = ps"
proof -
  have s: "mem_get buf (i * 128) 128 = (if i < length ps then gpt_slot_image (ps ! i) else replicate 128 0)" if "i < n" for i
    unfolding buf_def by (rule array_slot [OF ps that n])
  have u: "gpt_slot_used g (mem_get buf (i * 128) 128) = (i < length ps)" if "i < n" for i
    using s [OF that] gpt_entry_image(2) [of g "ps ! i"] ps
    by (auto simp: gpt_slot_used_def mem_get_def)
  have "filter (\<lambda>i. gpt_slot_used g (mem_get buf (i * 128) 128)) [0..<n] = filter (\<lambda>i. i < length ps) [0..<n]"
    using u by (intro filter_cong) auto
  also have "\<dots> = [0..<length ps]"
    using n upt_add_eq_append [of 0 "length ps" "n - length ps"] by (simp add: filter_id_conv filter_empty_conv)
  finally show "filter (\<lambda>i. gpt_slot_used g (mem_get buf (i * 128) 128)) [0..<n] = [0..<length ps]" .
  show "map gpt_part_of (map (\<lambda>i. gpt_entry_of i (mem_get buf (i * 128) 128)) [0..<length ps]) = ps"
    by (rule nth_equalityI) (use s n ps gpt_entry_image(1) [of g] in \<open>simp_all add: nth_mem\<close>)
qed

text \<open>A header and an array as a partitioning tool writes them.\<close>

definition gpt_written :: "gpt_read_fn \<Rightarrow> u64 \<Rightarrow> u64 \<Rightarrow> gpt_header_geom \<Rightarrow> gpt_part list \<Rightarrow> bool" where
  "gpt_written read blocks lba g ps \<longleftrightarrow>
     (let n = unat (gh_num_entries g) in
      length (gh_disk_guid g) = 16 \<and> gpt_geom_ok blocks lba g \<and> length ps \<le> n \<and> (\<forall>p \<in> set ps. gpt_part_ok g p) \<and>
      gh_array_crc g = crc32_ieee (gpt_array_image ps n) 0 (n * 128) \<and>
      read lba 1 = Some (gpt_header_image g) \<and>
      read (gh_entry_lba g) ((n * 128 + 511) div 512) =
        Some (gpt_array_image ps n @ replicate ((n * 128 + 511) div 512 * 512 - n * 128) 0))"

lemma length_array_image:
  assumes "\<forall>p \<in> set ps. gpt_part_ok g p" "length ps \<le> n"
  shows "length (gpt_array_image ps n) = n * 128"
proof -
  have "length (concat (map gpt_slot_image ps)) = length ps * 128"
    using assms(1) by (induction ps) (auto simp: length_slot_image)
  then show ?thesis using assms(2) by (simp add: gpt_array_image_def diff_mult_distrib)
qed

lemma gpt_written_read:
  assumes "gpt_written read blocks lba g ps"
  shows "gpt_header_at read blocks lba = Some g"
    "\<exists>es. gpt_parse_array read g = Some es \<and> map gpt_part_of es = ps \<and> map ge_index es = [0..<length ps]"
proof -
  define n where "n = unat (gh_num_entries g)"
  let ?pad = "replicate ((n * 128 + 511) div 512 * 512 - n * 128) (0 :: u8)"
  let ?buf = "gpt_array_image ps n @ ?pad"
  have w: "length (gh_disk_guid g) = 16" "gpt_geom_ok blocks lba g" "length ps \<le> n" "\<forall>p \<in> set ps. gpt_part_ok g p"
      "gh_array_crc g = crc32_ieee (gpt_array_image ps n) 0 (n * 128)" "read lba 1 = Some (gpt_header_image g)"
      "read (gh_entry_lba g) ((n * 128 + 511) div 512) = Some ?buf"
    using assms by (simp_all add: gpt_written_def Let_def n_def)
  show "gpt_header_at read blocks lba = Some g"
    using w(2,6) gpt_check_image [OF w(1)] by (simp add: gpt_header_at_def)
  have "crc32_ieee ?buf 0 (n * 128) = gh_array_crc g"
    using length_array_image [OF w(4,3)] by (simp add: w(5) crc32_ieee_def)
  then have "gpt_parse_array read g = Some (map (\<lambda>i. gpt_entry_of i (mem_get ?buf (i * 128) 128)) [0..<length ps])"
    using gpt_parse_array_eq [OF w(2), of read] w(7) array_entries(1) [OF w(4,3), of ?pad] by (simp add: n_def)
  moreover have "map gpt_part_of (map (\<lambda>i. gpt_entry_of i (mem_get ?buf (i * 128) 128)) [0..<length ps]) = ps"
    by (rule array_entries(2) [OF w(4,3)])
  moreover have "map ge_index (map (\<lambda>i. gpt_entry_of i (mem_get ?buf (i * 128) 128)) [0..<length ps]) = [0..<length ps]"
    by (simp add: gpt_entry_of_def comp_def)
  ultimately show "\<exists>es. gpt_parse_array read g = Some es \<and> map gpt_part_of es = ps \<and> map ge_index es = [0..<length ps]"
    by blast
qed

lemma gpt_parse_written:
  assumes "gpt_written read blocks 1 g ps" "blocks \<noteq> 0"
  shows "\<exists>d. gpt_parse read blocks = (True, d) \<and> gd_valid d \<and> \<not> gd_used_backup d \<and> gd_disk_guid d = gh_disk_guid g \<and>
    map gpt_part_of (gd_entries d) = ps \<and> map ge_index (gd_entries d) = [0..<length ps]"
proof -
  obtain es where "gpt_parse_array read g = Some es" "map gpt_part_of es = ps" "map ge_index es = [0..<length ps]"
    using gpt_written_read(2) [OF assms(1)] by blast
  then show ?thesis
    using gpt_written_read(1) [OF assms(1)] assms(2)
    by (simp add: gpt_parse_def Let_def gpt_take_header_def zero_disk_def)
qed

text \<open>A disk of 64 sectors with one partition, and its backup table, for the witnesses.\<close>

definition demo_part :: gpt_part where
  "demo_part = \<lparr>gp_type = [0x28,0x73,0x2A,0xC1, 0x1F,0xF8, 0xD2,0x11, 0xBA,0x4B,0x00,0xA0,0xC9,0x3E,0xC9,0x3B],
     gp_unique = replicate 16 7, gp_first = 34, gp_last = 40, gp_attr = 4, gp_name = ''ESP''\<rparr>"

definition demo_geom :: "u64 \<Rightarrow> gpt_header_geom" where
  "demo_geom lba = \<lparr>gh_my_lba = lba, gh_alt_lba = 64 - lba, gh_first_usable = 34, gh_last_usable = 50,
     gh_disk_guid = replicate 16 9, gh_entry_lba = 2, gh_num_entries = 4, gh_entry_size = 128,
     gh_array_crc = crc32_ieee (gpt_array_image [demo_part] 4) 0 512\<rparr>"

definition demo_read :: "bytes \<Rightarrow> gpt_read_fn" where
  "demo_read hdr lba n =
     (if n = 1 then
        if lba = 1 then Some hdr
        else if lba = 2 then Some (gpt_array_image [demo_part] 4)
        else if lba = 63 then Some (gpt_header_image (demo_geom 63))
        else None
      else None)"

lemma demo_part_ok: "gpt_part_ok (demo_geom lba) demo_part"
  by (simp add: gpt_part_ok_def demo_part_def demo_geom_def)

lemma demo_geom_ok: "gpt_geom_ok 64 1 (demo_geom 1)" "gpt_geom_ok 64 63 (demo_geom 63)"
  by (simp_all add: gpt_geom_ok_def demo_geom_def GPT_MAX_ENTRIES_def GPT_ENTRY_SIZE_def)

lemma demo_written:
  "gpt_written (demo_read (gpt_header_image (demo_geom 1))) 64 1 (demo_geom 1) [demo_part]"
  "gpt_written (demo_read hdr) 64 63 (demo_geom 63) [demo_part]"
  using demo_part_ok demo_geom_ok
  by (simp_all add: gpt_written_def demo_read_def Let_def) (simp_all add: demo_geom_def)

lemma demo_read_fills: "length hdr = 512 \<Longrightarrow> read_fills (demo_read hdr)"
proof -
  have "length (gpt_array_image [demo_part] 4) = 512" using length_array_image [of "[demo_part]" "demo_geom 1" 4] demo_part_ok by simp
  moreover have "length (gpt_header_image (demo_geom 63)) = 512"
    by (simp add: gpt_header_image_def gpt_fields_def demo_geom_def)
  ultimately show "length hdr = 512 \<Longrightarrow> read_fills (demo_read hdr)" by (auto simp: read_fills_def demo_read_def GPT_SECTOR_SIZE_def)
qed

lemma length_demo_header: "length (gpt_header_image (demo_geom 1)) = 512"
  by (simp add: gpt_header_image_def gpt_fields_def demo_geom_def)

text \<open>C8.
  The parser is fail-closed. When it reports a table, the header it used carries the signature
  and a matching CRC, the entry array it used carries the CRC announced by that header, the table lists exactly
  the used slots of that array in order, there are at most 128 of them, and every partition lies within the usable range, which
  lies on the disk and leaves sector 0 out. When it reports none, the result is marked invalid.
\<close>

theorem gpt_parse_fail_closed:
  assumes "read_fills read" "gpt_parse read blocks = (ok, d)"
  shows "if ok then gd_valid d \<and> gpt_verified read blocks d \<and> length (gd_entries d) \<le> 128 \<and>
      sorted_wrt (<) (map ge_index (gd_entries d)) \<and> 1 \<le> gd_first_usable d \<and> gd_last_usable d < blocks \<and>
      (\<forall>e \<in> set (gd_entries d). gd_first_usable d \<le> ge_first_lba e \<and> ge_first_lba e \<le> ge_last_lba e \<and>
        ge_last_lba e \<le> gd_last_usable d)
    else \<not> gd_valid d"
  using gpt_parse_promise [OF assms] unfolding gpt_promise_def .

theorem gpt_parse_fail_closed_witness:
  "\<exists>read d. read_fills read \<and> gpt_parse read 64 = (True, d) \<and>
     (if True then gd_valid d \<and> gpt_verified read 64 d \<and> length (gd_entries d) \<le> 128 \<and>
      sorted_wrt (<) (map ge_index (gd_entries d)) \<and> 1 \<le> gd_first_usable d \<and> gd_last_usable d < 64 \<and>
      (\<forall>e \<in> set (gd_entries d). gd_first_usable d \<le> ge_first_lba e \<and> ge_first_lba e \<le> ge_last_lba e \<and>
        ge_last_lba e \<le> gd_last_usable d)
    else \<not> gd_valid d)"
proof -
  let ?read = "demo_read (gpt_header_image (demo_geom 1))"
  have f: "read_fills ?read" using length_demo_header by (rule demo_read_fills)
  obtain d where d: "gpt_parse ?read 64 = (True, d)" using gpt_parse_written [OF demo_written(1)] by auto
  show ?thesis by (intro exI conjI, rule f, rule d, rule gpt_parse_fail_closed [OF f d])
qed

text \<open>C20.
  A table that a partitioning tool has written for a list of partitions is read back as exactly these
  partitions, in order, with their type, identifier, extent, attributes and name.
\<close>

theorem gpt_roundtrip:
  assumes "gpt_written read blocks 1 g ps" "blocks \<noteq> 0"
  shows "\<exists>d. gpt_parse read blocks = (True, d) \<and> gd_valid d \<and> \<not> gd_used_backup d \<and> gd_disk_guid d = gh_disk_guid g \<and>
    map gpt_part_of (gd_entries d) = ps \<and> map ge_index (gd_entries d) = [0..<length ps]"
  by (rule gpt_parse_written [OF assms])

theorem gpt_roundtrip_witness:
  "gpt_written (demo_read (gpt_header_image (demo_geom 1))) 64 1 (demo_geom 1) [demo_part] \<and> (64 :: u64) \<noteq> 0 \<and>
   (\<exists>d. gpt_parse (demo_read (gpt_header_image (demo_geom 1))) 64 = (True, d) \<and> gd_valid d \<and> \<not> gd_used_backup d \<and>
     gd_disk_guid d = gh_disk_guid (demo_geom 1) \<and> map gpt_part_of (gd_entries d) = [demo_part] \<and>
     map ge_index (gd_entries d) = [0..<length [demo_part]])"
  using demo_written(1) gpt_roundtrip [OF demo_written(1)] by simp

text \<open>Damage to the header.\<close>

lemma le32_of_take: "4 \<le> length xs \<Longrightarrow> le32_of (take 4 xs) = le32_of xs"
  by (simp add: le32_of_def)

lemma burst_zeroed:
  assumes "length (p @ w @ s) = 512" "length w = length w'"
    and "length p + length w \<le> 16 \<or> 20 \<le> length p"
  shows "\<exists>p' s'. length p' = length p \<and> length s' = length s \<and>
      mem_put (p @ w @ s) 16 [0, 0, 0, 0] = p' @ w @ s' \<and> mem_put (p @ w' @ s) 16 [0, 0, 0, 0] = p' @ w' @ s'"
    "gpt_le32 (p @ w' @ s) 16 = gpt_le32 (p @ w @ s) 16"
proof -
  let ?z = "[0, 0, 0, 0] :: bytes"
  have "(\<exists>p' s'. length p' = length p \<and> length s' = length s \<and>
      mem_put (p @ w @ s) 16 ?z = p' @ w @ s' \<and> mem_put (p @ w' @ s) 16 ?z = p' @ w' @ s') \<and>
    gpt_le32 (p @ w' @ s) 16 = gpt_le32 (p @ w @ s) 16"
  proof (cases "20 \<le> length p")
    case True
    then have "mem_put (p @ x @ s) 16 ?z = mem_put p 16 ?z @ x @ s" "length (mem_put p 16 ?z) = length p" for x
      by (simp_all add: mem_put_def)
    moreover have "le32_of (drop 16 p @ x) = le32_of (drop 16 p)" for x
      using True by (simp add: le32_of_def nth_append)
    ultimately show ?thesis
      by (intro conjI, intro exI [of _ "mem_put p 16 ?z"] exI [of _ s]) (use True in \<open>simp_all add: gpt_le32_def\<close>)
  next
    case False
    then have le: "length p + length w \<le> 16" using assms(3) by simp
    let ?o = "16 - length p - length w"
    have "mem_put (p @ x @ s) 16 ?z = p @ x @ mem_put s ?o ?z" "drop 16 (p @ x @ s) = drop ?o s" if "length x = length w" for x
    proof -
      have "20 - (length p + length w) = Suc (Suc (Suc (Suc (16 - (length p + length w)))))" using le by arith
      then show "mem_put (p @ x @ s) 16 ?z = p @ x @ mem_put s ?o ?z" "drop 16 (p @ x @ s) = drop ?o s"
        using that le by (simp_all add: mem_put_def algebra_simps)
    qed
    moreover have "length (mem_put s ?o ?z) = length s" using assms(1) le by (intro length_mem_put) simp
    ultimately show ?thesis
      by (intro conjI, intro exI [of _ p] exI [of _ "mem_put s ?o ?z"]) (use assms(2) in \<open>simp_all add: gpt_le32_def\<close>)
  qed
  then show "\<exists>p' s'. length p' = length p \<and> length s' = length s \<and>
      mem_put (p @ w @ s) 16 ?z = p' @ w @ s' \<and> mem_put (p @ w' @ s) 16 ?z = p' @ w' @ s'"
    "gpt_le32 (p @ w' @ s) 16 = gpt_le32 (p @ w @ s) 16" by blast+
qed

lemma gpt_check_burst:
  assumes "gpt_check_header (p @ w @ s) blocks my = Some g" "length (p @ w @ s) = 512"
    and w: "length w = length w'" "length w \<le> 4" "w \<noteq> w'"
    and pos: "length p + length w \<le> 16 \<or> 20 \<le> length p" "length p + length w \<le> 92"
  shows "gpt_check_header (p @ w' @ s) blocks my' = None"
proof -
  obtain p' s' where z: "length p' = length p" "length s' = length s"
      "mem_put (p @ w @ s) 16 [0, 0, 0, 0] = p' @ w @ s'" "mem_put (p @ w' @ s) 16 [0, 0, 0, 0] = p' @ w' @ s'"
    using burst_zeroed(1) [OF assms(2) w(1) pos(1)] by blast
  define k where "k = 92 - length p - length w"
  have t: "crc32_ieee (p' @ x @ s') 0 92 = crc32_ieee (p' @ x @ take k s') 0 (length (p' @ w @ take k s'))"
    if "length x = length w" for x
    using crc32_take [of "p' @ x @ s'" 0 92] that z pos(2) assms(2) by (simp add: k_def)
  have "crc32_ieee (p' @ w @ s') 0 92 = gpt_le32 (p @ w @ s) 16"
    using gpt_check_header_Some(4) [OF assms(1,2)] z(3) by simp
  moreover have "crc32_ieee (p' @ w @ s') 0 92 \<noteq> crc32_ieee (p' @ w' @ s') 0 92"
    using crc_burst [OF w, of "length (p' @ w @ take k s')" p' "take k s'" 0] t [of w] t [of w'] w(1) by simp
  ultimately have "crc32_ieee (mem_put (p @ w' @ s) 16 [0, 0, 0, 0]) 0 GPT_HEADER_SIZE \<noteq> gpt_le32 (p @ w' @ s) 16"
    using burst_zeroed(2) [OF assms(2) w(1) pos(1)] z(4) by (simp add: GPT_HEADER_SIZE_def)
  then show ?thesis by (simp add: gpt_check_header_def)
qed



text \<open>C38.
  The test that the entry array lies on the disk is done in 64-bit arithmetic that wraps around. A header whose
  array starts at sector \<^verbatim>\<open>2^55\<close> is accepted on a disk of any size that holds its usable range and 32 sectors, and the array is
  then read from there.
\<close>

theorem gpt_array_off_disk:
  assumes "length (gh_disk_guid g) = 16" "gh_my_lba g = 1" "gh_num_entries g = 128" "gh_entry_size g = 128"
    and "0 < gh_first_usable g" "gh_first_usable g < gh_last_usable g" "gh_last_usable g < blocks" "32 \<le> blocks" "blocks < 2 ^ 55"
  shows "gpt_check_header (gpt_header_image (g\<lparr>gh_entry_lba := 2 ^ 55\<rparr>)) blocks 1 = Some (g\<lparr>gh_entry_lba := 2 ^ 55\<rparr>)"
proof -
  have "unat (blocks * 512) = unat blocks * 512"
    using assms(9) by (simp add: unat_word_ariths word_less_nat_alt)
  then have n: "\<not> blocks * 512 < 16384" using assms(8) by (simp add: word_less_nat_alt word_le_nat_alt)
  have w: "(18446744073709568000 :: u64) = 16384" by code_simp
  have "\<not> blocks * 512 < 18446744073709568000" unfolding w by (rule n)
  then have "gpt_geom_ok blocks 1 (g\<lparr>gh_entry_lba := 2 ^ 55\<rparr>)"
    using assms(2-7) by (auto simp: gpt_geom_ok_def GPT_MAX_ENTRIES_def GPT_ENTRY_SIZE_def)
  then show ?thesis using gpt_check_image [of "g\<lparr>gh_entry_lba := 2 ^ 55\<rparr>"] assms(1) by simp
qed

theorem gpt_array_off_disk_witness:
  "\<exists>g. length (gh_disk_guid g) = 16 \<and> gh_num_entries g = 128 \<and> gh_last_usable g < 64 \<and>
     gpt_check_header (gpt_header_image (g\<lparr>gh_entry_lba := 2 ^ 55\<rparr>)) 64 1 = Some (g\<lparr>gh_entry_lba := 2 ^ 55\<rparr>)"
  using gpt_array_off_disk [of "(demo_geom 1)\<lparr>gh_num_entries := 128\<rparr>" 64]
  by (intro exI [of _ "(demo_geom 1)\<lparr>gh_num_entries := 128\<rparr>"]) (simp add: demo_geom_def)

end
