(* ===== verification/Partdev.thy ===== *)
theory Partdev
  imports Gpt
begin

text \<open>
  The partition devices of \<^verbatim>\<open>kernel/partition/partdev.c\<close> and the part of the IDE driver that fills
  them from a partition table (\<^verbatim>\<open>kernel/hardware/ATA/ide.c\<close>). A partition is a window into a whole
  disk; reads and writes go through the raw accessor of the driver, which is an argument: a
  function on the state \<open>'s\<close> of the disks. The answers that the device manager gives to
  registrations are part of the state.

  The lemmas show that no access leaves the window, that the table behaves as a finite map from
  device numbers to windows, and that the windows made from a GPT lie on the disk.
\<close>

section \<open>The table\<close>

definition PARTDEV_MAX :: nat where "PARTDEV_MAX = 192"
definition PARTDEV_MAX_PER_DISK :: nat where "PARTDEV_MAX_PER_DISK = 32"
definition PARTDEV_MAX_DISKS :: nat where "PARTDEV_MAX_DISKS = 16"

datatype table_type = PARTDEV_TABLE_NONE | PARTDEV_TABLE_MBR | PARTDEV_TABLE_GPT

type_synonym 's partdev_raw_fn = "int \<Rightarrow> u64 \<Rightarrow> u32 \<Rightarrow> 's \<Rightarrow> int \<times> 's"

record 's partdev_entry =
  pe_mydeviceid :: int
  pe_parent :: int
  pe_startlba :: u64
  pe_endlba :: u64
  pe_block_size :: int
  pe_read_only :: bool
  pe_read_raw :: "'s partdev_raw_fn option"
  pe_write_raw :: "'s partdev_raw_fn option"
  pe_type_name :: string
  pe_entry_index :: nat
  pe_attrs :: u64
  pe_pname :: string

record partdev_disk =
  pk_parent :: int
  pk_name :: string
  pk_table_type :: table_type
  pk_disk_guid :: bytes
  pk_used_backup :: bool
  pk_gpt_entries :: nat

record 's partdev =
  pd_table :: "'s partdev_entry list"
  pd_disks :: "partdev_disk list"
  pd_devmgr :: "int list"

definition next_device :: "'s partdev \<Rightarrow> int \<times> 's partdev" where
  "next_device st =
     (case pd_devmgr st of [] \<Rightarrow> (-1, st) | i # is \<Rightarrow> (i, st\<lparr>pd_devmgr := is\<rparr>))"

definition partdev_lookup :: "'s partdev_entry list \<Rightarrow> int \<Rightarrow> 's partdev_entry option" where
  "partdev_lookup tab deviceid = find (\<lambda>e. pe_mydeviceid e = deviceid) tab"

definition partdev_count_for_parent :: "'s partdev_entry list \<Rightarrow> int \<Rightarrow> nat" where
  "partdev_count_for_parent tab parent = length (filter (\<lambda>e. pe_parent e = parent) tab)"

definition partdev_entry_size :: "'s partdev_entry \<Rightarrow> u64" where
  "partdev_entry_size e = (if pe_endlba e > pe_startlba e then pe_endlba e - pe_startlba e else 0)"

section \<open>Reading and writing\<close>

definition partdev_partition_read :: "'s partdev \<Rightarrow> int \<Rightarrow> u64 \<Rightarrow> u32 \<Rightarrow> 's \<Rightarrow> int \<times> 's" where
  "partdev_partition_read st deviceid block n s =
     (case partdev_lookup (pd_table st) deviceid of None \<Rightarrow> (0, s) | Some e \<Rightarrow>
      if block \<ge> partdev_entry_size e then (0, s)
      else if ucast n > partdev_entry_size e - block then (0, s)
      else case pe_read_raw e of None \<Rightarrow> (0, s) | Some raw \<Rightarrow> raw (pe_parent e) (block + pe_startlba e) n s)"

definition partdev_partition_write :: "'s partdev \<Rightarrow> int \<Rightarrow> u64 \<Rightarrow> u32 \<Rightarrow> 's \<Rightarrow> int \<times> 's" where
  "partdev_partition_write st deviceid block n s =
     (case partdev_lookup (pd_table st) deviceid of None \<Rightarrow> (0, s) | Some e \<Rightarrow>
      case pe_write_raw e of None \<Rightarrow> (0, s) | Some raw \<Rightarrow>
      if block \<ge> partdev_entry_size e then (0, s)
      else if ucast n > partdev_entry_size e - block then (0, s)
      else raw (pe_parent e) (block + pe_startlba e) n s)"

text \<open>The callbacks of the device manager; \<open>context\<close> is the device it calls them for.\<close>

definition partdev_total_blocks :: "'s partdev \<Rightarrow> int \<Rightarrow> u64" where
  "partdev_total_blocks st cont =
     (case partdev_lookup (pd_table st) cont of None \<Rightarrow> 0 | Some e \<Rightarrow> partdev_entry_size e)"

definition partdev_get_block_size :: "'s partdev \<Rightarrow> int \<Rightarrow> int" where
  "partdev_get_block_size st cont =
     (case partdev_lookup (pd_table st) cont of None \<Rightarrow> 0 | Some e \<Rightarrow> pe_block_size e)"

section \<open>Registration\<close>

text \<open>The window and its description are given as an entry whose device number is still open.\<close>

definition partdev_register :: "'s partdev_entry \<Rightarrow> 's partdev \<Rightarrow> int \<times> 's partdev" where
  "partdev_register e st =
     (if length (pd_table st) \<ge> PARTDEV_MAX then (-1, st)
      else if partdev_count_for_parent (pd_table st) (pe_parent e) \<ge> PARTDEV_MAX_PER_DISK then (-1, st)
      else if pe_read_raw e = None then (-1, st)
      else
        let e = e\<lparr>pe_type_name := take 31 (pe_type_name e), pe_pname := take 36 (pe_pname e)\<rparr>;
            (devid, st) = next_device st
        in if devid < 0 then (-1, st)
           else (devid, st\<lparr>pd_table := pd_table st @ [e\<lparr>pe_mydeviceid := devid\<rparr>]\<rparr>))"

definition partdev_remove :: "int \<Rightarrow> 's partdev \<Rightarrow> 's partdev" where
  "partdev_remove parent st = st\<lparr>pd_table := filter (\<lambda>e. \<not> pe_parent e = parent) (pd_table st)\<rparr>"

definition disk_fill ::
  "string \<Rightarrow> table_type \<Rightarrow> bytes option \<Rightarrow> bool \<Rightarrow> nat \<Rightarrow> partdev_disk \<Rightarrow> partdev_disk" where
  "disk_fill name ty guid used_backup entries d =
     d\<lparr>pk_name := name, pk_table_type := ty,
       pk_disk_guid := (case guid of None \<Rightarrow> pk_disk_guid d | Some g \<Rightarrow> take 16 g),
       pk_used_backup := used_backup, pk_gpt_entries := entries\<rparr>"

fun disk_update :: "int \<Rightarrow> (partdev_disk \<Rightarrow> partdev_disk) \<Rightarrow> partdev_disk list \<Rightarrow> partdev_disk list" where
  "disk_update parent f [] = []"
| "disk_update parent f (d # ds) = (if pk_parent d = parent then f d # ds else d # disk_update parent f ds)"

definition partdev_set_disk ::
  "int \<Rightarrow> string \<Rightarrow> table_type \<Rightarrow> bytes option \<Rightarrow> bool \<Rightarrow> nat \<Rightarrow> 's partdev \<Rightarrow> 's partdev" where
  "partdev_set_disk parent name ty guid used_backup entries st =
     (if \<exists>d \<in> set (pd_disks st). pk_parent d = parent
      then st\<lparr>pd_disks := disk_update parent (disk_fill name ty guid used_backup entries) (pd_disks st)\<rparr>
      else if length (pd_disks st) \<ge> PARTDEV_MAX_DISKS then st
      else st\<lparr>pd_disks := pd_disks st @ [disk_fill name ty guid used_backup entries
        \<lparr>pk_parent = parent, pk_name = [], pk_table_type = PARTDEV_TABLE_NONE, pk_disk_guid = replicate 16 0,
         pk_used_backup = False, pk_gpt_entries = 0\<rparr>]\<rparr>)"

definition partdev_count :: "'s partdev \<Rightarrow> nat" where
  "partdev_count st = length (pd_table st)"

definition partdev_get :: "int \<Rightarrow> 's partdev \<Rightarrow> 's partdev_entry option" where
  "partdev_get i st = (if i < 0 \<or> i \<ge> int (length (pd_table st)) then None else Some (pd_table st ! nat i))"

definition partdev_is_child :: "int \<Rightarrow> int \<Rightarrow> 's partdev \<Rightarrow> bool" where
  "partdev_is_child deviceid parent st \<longleftrightarrow>
     (\<exists>e \<in> set (pd_table st). pe_mydeviceid e = deviceid \<and> pe_parent e = parent)"

definition partdev_count_children :: "int \<Rightarrow> 's partdev \<Rightarrow> nat" where
  "partdev_count_children parent st = partdev_count_for_parent (pd_table st) parent"

definition partdev_first_child :: "int \<Rightarrow> 's partdev \<Rightarrow> int" where
  "partdev_first_child parent st =
     (case find (\<lambda>e. pe_parent e = parent) (pd_table st) of None \<Rightarrow> -1 | Some e \<Rightarrow> pe_mydeviceid e)"

definition partdev_disk_get :: "int \<Rightarrow> 's partdev \<Rightarrow> partdev_disk option" where
  "partdev_disk_get i st = (if i < 0 \<or> i \<ge> int (length (pd_disks st)) then None else Some (pd_disks st ! nat i))"

text \<open>
  The printed form of a GUID, for a buffer of \<open>buflen\<close> bytes; \<open>None\<close> says that the buffer is not
  written. In a buffer of 37 bytes or more the loop never stops early.
\<close>

definition guid_order :: "nat list" where
  "guid_order = [3, 2, 1, 0, 5, 4, 7, 6, 8, 9, 10, 11, 12, 13, 14, 15]"

definition hex_digit :: "nat \<Rightarrow> char" where
  "hex_digit n = ''0123456789abcdef'' ! n"

definition guid_byte :: "bytes \<Rightarrow> nat \<Rightarrow> string" where
  "guid_byte guid i =
     (let b = guid ! (guid_order ! i)
      in hex_digit (unat (drop_bit 4 b)) # hex_digit (unat (b AND 0xF)) # (if i \<in> {3, 5, 7, 9} then ''-'' else ''''))"

definition partdev_format_guid :: "bytes \<Rightarrow> int \<Rightarrow> string option" where
  "partdev_format_guid guid buflen =
     (if buflen < 37 then (if buflen > 0 then Some [] else None)
      else Some (concat (map (guid_byte guid) [0..<16])))"

section \<open>Filling the table from a disk\<close>

definition ide_identify_partition_type :: "u8 \<Rightarrow> string" where
  "ide_identify_partition_type ty =
     (if ty = 0 then ''none''
      else if ty = 4 then ''FAT16''
      else if ty = 7 then ''NTFS''
      else if ty = 0xB then ''Windows95 FAT32''
      else if ty = 0xC then ''Windows95 FAT32 (LBA)''
      else if ty = 0xE then ''Windows95 FAT16 (LBA)''
      else if ty = 0xF then ''Windows95 Extended (LBA)''
      else if ty = 0x82 then ''Linux Swap''
      else if ty = 0x83 then ''Linux native fs or ext2fs''
      else if ty = 0x85 then ''Linux extended''
      else ''unknown'')"

text \<open>
  A disk as the registration sees it: its device number and name, whether it is write protected,
  its accessors, and what reads of it return (the result and the buffer afterwards).
\<close>

record 's ide_disk =
  id_device :: int
  id_name :: string
  id_read_only :: bool
  id_blocks :: u64
  id_disk_read :: "'s partdev_raw_fn"
  id_disk_write :: "'s partdev_raw_fn"
  id_contents :: "u64 \<Rightarrow> nat \<Rightarrow> int \<times> bytes"

definition ide_gpt_read :: "'s ide_disk \<Rightarrow> gpt_read_fn" where
  "ide_gpt_read dk lba n = (let (r, buf) = id_contents dk lba n in if r \<noteq> 0 then Some buf else None)"

definition ide_window :: "'s ide_disk \<Rightarrow> u64 \<Rightarrow> u64 \<Rightarrow> string \<Rightarrow> nat \<Rightarrow> u64 \<Rightarrow> string \<Rightarrow> 's partdev_entry" where
  "ide_window dk start fin tname i attrs pname =
     \<lparr>pe_mydeviceid = -1, pe_parent = id_device dk, pe_startlba = start, pe_endlba = fin, pe_block_size = 512,
      pe_read_only = id_read_only dk, pe_read_raw = Some (id_disk_read dk), pe_write_raw = Some (id_disk_write dk),
      pe_type_name = tname, pe_entry_index = i, pe_attrs = attrs, pe_pname = pname\<rparr>"

definition gpt_window :: "'s ide_disk \<Rightarrow> gpt_entry \<Rightarrow> 's partdev_entry" where
  "gpt_window dk e =
     ide_window dk (ge_first_lba e) (ge_last_lba e + 1)
       (case ge_type_name e of None \<Rightarrow> ''unknown'' | Some s \<Rightarrow> if s = [] then ''unknown'' else s)
       (ge_index e) (ge_attributes e) (ge_name e)"

definition ide_register_gpt :: "'s ide_disk \<Rightarrow> 's partdev \<Rightarrow> 's partdev" where
  "ide_register_gpt dk st =
     (let (ok, gpt) = gpt_parse (ide_gpt_read dk) (id_blocks dk)
      in if \<not> ok then partdev_set_disk (id_device dk) (id_name dk) PARTDEV_TABLE_NONE None False 0 st
         else
           let st = fold (\<lambda>e st. snd (partdev_register (gpt_window dk e) st)) (gd_entries gpt) st
           in partdev_set_disk (id_device dk) (id_name dk) PARTDEV_TABLE_GPT (Some (gd_disk_guid gpt)) (gd_used_backup gpt)
                (length (gd_entries gpt)) st)"

text \<open>The four slots of a master boot record: type, first sector and number of sectors.\<close>

definition mbr_slot :: "bytes \<Rightarrow> nat \<Rightarrow> u8 \<times> u64 \<times> u64" where
  "mbr_slot mbr i =
     (let o' = 446 + i * 16
      in (mbr ! (o' + 4), ucast (le32_of (drop (o' + 8) mbr)), ucast (le32_of (drop (o' + 12) mbr))))"

definition mbr_window :: "'s ide_disk \<Rightarrow> bytes \<Rightarrow> nat \<Rightarrow> 's partdev_entry" where
  "mbr_window dk mbr i =
     (case mbr_slot mbr i of (ty, start, n) \<Rightarrow>
        ide_window dk start (start + n) (ide_identify_partition_type ty) i 0 [])"

definition ide_register_mbr :: "'s ide_disk \<Rightarrow> 's partdev \<Rightarrow> 's partdev" where
  "ide_register_mbr dk st =
     (let (r, mbr) = id_contents dk 0 1;
          none = partdev_set_disk (id_device dk) (id_name dk) PARTDEV_TABLE_NONE None False 0
      in if r = 0 then none st
         else if mbr ! 510 \<noteq> 0x55 \<or> mbr ! 511 \<noteq> 0xAA then none st
         else
           let st = fold (\<lambda>i st. if fst (mbr_slot mbr i) = 0 then st else snd (partdev_register (mbr_window dk mbr i) st))
                      [0..<4] st
           in partdev_set_disk (id_device dk) (id_name dk) PARTDEV_TABLE_MBR None False 0 st)"

definition ide_registerpartitions :: "'s ide_disk \<Rightarrow> 's partdev \<Rightarrow> 's partdev" where
  "ide_registerpartitions dk st =
     (let detect = gpt_detect (ide_gpt_read dk)
      in if detect = 1 then ide_register_gpt dk st
         else if detect = 0 then ide_register_mbr dk st
         else partdev_set_disk (id_device dk) (id_name dk) PARTDEV_TABLE_NONE None False 0 st)"

section \<open>Accesses stay in the window\<close>

lemma window_bounds:
  fixes block start fin :: u64 and n :: u32
  assumes "\<not> block \<ge> (if fin > start then fin - start else 0)"
    and "\<not> ucast n > (if fin > start then fin - start else 0) - block"
  shows "unat (block + start) = unat block + unat start" "unat start + unat block + unat n \<le> unat fin"
proof -
  have f: "start < fin" using assms(1) by (auto split: if_splits)
  then have sz: "unat (fin - start) = unat fin - unat start" "unat start < unat fin"
    by (simp_all add: unat_sub less_imp_le) (simp add: word_less_nat_alt)
  have b: "unat block < unat fin - unat start" using assms(1) f sz(1) by (simp add: word_le_nat_alt)
  have "unat (fin - start - block) = unat fin - unat start - unat block"
    using b sz(1) by (subst unat_sub) (simp_all add: word_le_nat_alt)
  moreover have "unat (ucast n :: u64) = unat n" using unat_u32_bound [of n] by (simp add: unat_ucast_eq)
  ultimately have n: "unat n \<le> unat fin - unat start - unat block"
    using assms(2) f by (simp add: word_less_nat_alt)
  show "unat start + unat block + unat n \<le> unat fin" using n b sz(2) by linarith
  have "unat block + unat start < 2 ^ 64" using b sz(2) unat_u64_bound [of fin] by simp
  then show "unat (block + start) = unat block + unat start" by (simp add: unat_word_ariths)
qed

definition inside_window :: "'s partdev_entry \<Rightarrow> u64 \<Rightarrow> u32 \<Rightarrow> bool" where
  "inside_window e block n \<longleftrightarrow> unat (block + pe_startlba e) = unat block + unat (pe_startlba e) \<and>
     unat (pe_startlba e) + unat block + unat n \<le> unat (pe_endlba e)"

lemma inside_windowI:
  "\<not> block \<ge> partdev_entry_size e \<Longrightarrow> \<not> ucast n > partdev_entry_size e - block \<Longrightarrow> inside_window e block n"
  unfolding inside_window_def partdev_entry_size_def by (blast intro: window_bounds)

text \<open>C9.
  Reading and writing through a partition either fails and does nothing, or is one call of the raw
  accessor of the parent disk, for the sectors of the partition that were asked for: they start at the first sector of
  the window plus the block number, without overflow, and end within the window. The driver is never called for a sector outside.
\<close>

theorem partdev_confined:
  "(partdev_partition_read st i block n s = (0, s) \<or>
      (\<exists>e raw. partdev_lookup (pd_table st) i = Some e \<and> pe_read_raw e = Some raw \<and> inside_window e block n \<and>
        partdev_partition_read st i block n s = raw (pe_parent e) (block + pe_startlba e) n s)) \<and>
   (partdev_partition_write st i block n s = (0, s) \<or>
      (\<exists>e raw. partdev_lookup (pd_table st) i = Some e \<and> pe_write_raw e = Some raw \<and> inside_window e block n \<and>
        partdev_partition_write st i block n s = raw (pe_parent e) (block + pe_startlba e) n s))"
  using inside_windowI [of _ block n]
  by (auto simp: partdev_partition_read_def partdev_partition_write_def split: option.splits)

section \<open>The table as a map\<close>

definition reg_ok :: "'s partdev \<Rightarrow> bool" where
  "reg_ok st \<longleftrightarrow> distinct (map pe_mydeviceid (pd_table st)) \<and> length (pd_table st) \<le> PARTDEV_MAX \<and>
     (\<forall>p. partdev_count_for_parent (pd_table st) p \<le> PARTDEV_MAX_PER_DISK) \<and>
     (\<forall>e \<in> set (pd_table st). 0 \<le> pe_mydeviceid e \<and> pe_read_raw e \<noteq> None)"

text \<open>The device manager gives out numbers that are not in use.\<close>

definition ids_fresh :: "'s partdev \<Rightarrow> bool" where
  "ids_fresh st \<longleftrightarrow> distinct (filter (\<lambda>i. 0 \<le> i) (pd_devmgr st)) \<and>
     (\<forall>i \<in> set (pd_devmgr st). 0 \<le> i \<longrightarrow> i \<notin> pe_mydeviceid ` set (pd_table st))"

lemma lookup_append: "partdev_lookup (xs @ [e]) i = (case partdev_lookup xs i of Some x \<Rightarrow> Some x | None \<Rightarrow> if pe_mydeviceid e = i then Some e else None)"
  by (induction xs) (simp_all add: partdev_lookup_def)

lemma lookup_None: "i \<notin> pe_mydeviceid ` set xs \<Longrightarrow> partdev_lookup xs i = None"
  by (auto simp: partdev_lookup_def find_None_iff)

lemma lookup_filter:
  assumes "distinct (map pe_mydeviceid xs)"
  shows "partdev_lookup (filter P xs) i = (case partdev_lookup xs i of None \<Rightarrow> None | Some e \<Rightarrow> if P e then Some e else None)"
  using assms
proof (induction xs)
  case (Cons x xs)
  then show ?case
    using lookup_None [of i "filter P xs"] by (auto simp: partdev_lookup_def)
qed (simp add: partdev_lookup_def)

text \<open>A registration either leaves the table alone or appends one window.\<close>

definition registered :: "'s partdev_entry \<Rightarrow> int \<Rightarrow> 's partdev_entry" where
  "registered e devid =
     e\<lparr>pe_type_name := take 31 (pe_type_name e), pe_pname := take 36 (pe_pname e), pe_mydeviceid := devid\<rparr>"

lemma partdev_register_cases:
  assumes "partdev_register e st = (devid, st')"
  obtains (fail) "devid = -1" "pd_table st' = pd_table st" "pd_devmgr st' = pd_devmgr st \<or> (\<exists>i. pd_devmgr st = i # pd_devmgr st')"
  | (ok) i "is" where "pd_devmgr st = i # is" "0 \<le> i" "devid = i" "length (pd_table st) < PARTDEV_MAX"
      "partdev_count_for_parent (pd_table st) (pe_parent e) < PARTDEV_MAX_PER_DISK" "pe_read_raw e \<noteq> None"
      "st' = st\<lparr>pd_devmgr := is, pd_table := pd_table st @ [registered e i]\<rparr>"
proof (cases "length (pd_table st) < PARTDEV_MAX \<and>
    partdev_count_for_parent (pd_table st) (pe_parent e) < PARTDEV_MAX_PER_DISK \<and> pe_read_raw e \<noteq> None")
  case False
  then have "partdev_register e st = (-1, st)" by (auto simp: partdev_register_def)
  then show thesis using fail assms by simp
next
  case True
  show thesis
  proof (cases "pd_devmgr st")
    case Nil
    then have "partdev_register e st = (-1, st)" using True by (auto simp: partdev_register_def next_device_def Let_def)
    then show thesis using fail assms by simp
  next
    case (Cons i "is")
    show thesis
    proof (cases "i < 0")
      case neg: True
      then have "partdev_register e st = (-1, st\<lparr>pd_devmgr := is\<rparr>)"
        using True Cons by (auto simp: partdev_register_def next_device_def Let_def)
      then show thesis using fail assms Cons by simp
    next
      case False
      then have "partdev_register e st = (i, st\<lparr>pd_devmgr := is, pd_table := pd_table st @ [registered e i]\<rparr>)"
        using True Cons by (auto simp: partdev_register_def next_device_def Let_def registered_def)
      then show thesis using ok [of i "is"] assms Cons True False by simp
    qed
  qed
qed

lemma registered_simps [simp]:
  "pe_mydeviceid (registered e i) = i" "pe_parent (registered e i) = pe_parent e" "pe_read_raw (registered e i) = pe_read_raw e"
  "pe_startlba (registered e i) = pe_startlba e" "pe_endlba (registered e i) = pe_endlba e"
  by (simp_all add: registered_def)

lemma register_ok:
  assumes "reg_ok st" "ids_fresh st" "partdev_register e st = (devid, st')"
  shows "reg_ok st' \<and> ids_fresh st' \<and>
    partdev_lookup (pd_table st') = (if devid < 0 then partdev_lookup (pd_table st)
      else (partdev_lookup (pd_table st))(devid \<mapsto> registered e devid))"
  using assms(3)
proof (cases rule: partdev_register_cases)
  case fail
  then show ?thesis using assms(1,2) by (auto simp: reg_ok_def ids_fresh_def split: if_splits)
next
  case (ok i "is")
  have new: "i \<notin> pe_mydeviceid ` set (pd_table st)" using assms(2) ok(1,2) by (auto simp: ids_fresh_def)
  have "partdev_count_for_parent (pd_table st') p \<le> PARTDEV_MAX_PER_DISK" for p
    using assms(1) ok by (auto simp: reg_ok_def partdev_count_for_parent_def)
  then have "reg_ok st'" using assms(1) ok new by (auto simp: reg_ok_def)
  moreover have "ids_fresh st'" using assms(2) ok by (auto simp: ids_fresh_def)
  moreover have "partdev_lookup (pd_table st') = (partdev_lookup (pd_table st))(devid \<mapsto> registered e devid)"
    using lookup_None [OF new] ok by (auto simp: lookup_append fun_eq_iff split: option.splits)
  ultimately show ?thesis using ok(2,3) by simp
qed

lemma remove_ok:
  assumes "reg_ok st"
  shows "reg_ok (partdev_remove p st) \<and> partdev_lookup (pd_table (partdev_remove p st)) i =
      (case partdev_lookup (pd_table st) i of None \<Rightarrow> None | Some x \<Rightarrow> if pe_parent x = p then None else Some x)"
proof -
  let ?P = "\<lambda>e. \<not> pe_parent e = p"
  have "distinct (map pe_mydeviceid (filter ?P xs))" if "distinct (map pe_mydeviceid xs)" for xs :: "'a partdev_entry list"
    using that by (rule distinct_map_filter)
  moreover have "partdev_count_for_parent (filter ?P xs) q \<le> partdev_count_for_parent xs q" for xs :: "'a partdev_entry list" and q
    by (induction xs) (simp_all add: partdev_count_for_parent_def)
  then have "partdev_count_for_parent (filter ?P (pd_table st)) q \<le> PARTDEV_MAX_PER_DISK" for q
    using assms by (auto simp: reg_ok_def intro: order_trans)
  moreover have "length (filter ?P (pd_table st)) \<le> PARTDEV_MAX"
    using assms by (intro order_trans [OF length_filter_le]) (simp add: reg_ok_def)
  ultimately have "reg_ok (partdev_remove p st)"
    using assms by (simp add: reg_ok_def partdev_remove_def)
  moreover have "partdev_lookup (pd_table (partdev_remove p st)) i =
      (case partdev_lookup (pd_table st) i of None \<Rightarrow> None | Some x \<Rightarrow> if pe_parent x = p then None else Some x)"
    using assms lookup_filter [of "pd_table st" ?P i]
    by (auto simp: reg_ok_def partdev_remove_def split: option.splits)
  ultimately show ?thesis by blast
qed

text \<open>C21.
  The table is a finite map from device numbers to windows. A registration that succeeds adds the
  new window under the number of the device manager and nothing else changes; one that fails changes no window;
  removing a disk removes exactly its windows. The numbers stay unique and both capacity limits
  hold.
\<close>

theorem partdev_registry:
  assumes "reg_ok st" "ids_fresh st" "partdev_register e st = (devid, st')"
  shows "reg_ok st' \<and> ids_fresh st' \<and>
    partdev_lookup (pd_table st') = (if devid < 0 then partdev_lookup (pd_table st)
      else (partdev_lookup (pd_table st))(devid \<mapsto> registered e devid)) \<and>
    reg_ok (partdev_remove p st') \<and>
    partdev_lookup (pd_table (partdev_remove p st')) i =
      (case partdev_lookup (pd_table st') i of None \<Rightarrow> None | Some x \<Rightarrow> if pe_parent x = p then None else Some x)"
  using register_ok [OF assms] remove_ok [of st' p i] by blast

definition demo_window :: "unit partdev_entry" where
  "demo_window = \<lparr>pe_mydeviceid = -1, pe_parent = 3, pe_startlba = 34, pe_endlba = 41, pe_block_size = 512,
     pe_read_only = False, pe_read_raw = Some (\<lambda>_ _ _ s. (1, s)), pe_write_raw = None, pe_type_name = ''EFI System'',
     pe_entry_index = 0, pe_attrs = 0, pe_pname = ''ESP''\<rparr>"

definition demo_reg :: "unit partdev" where
  "demo_reg = \<lparr>pd_table = [], pd_disks = [], pd_devmgr = [7]\<rparr>"

theorem partdev_registry_witness:
  "\<exists>st'. reg_ok demo_reg \<and> ids_fresh demo_reg \<and> partdev_register demo_window demo_reg = (7, st') \<and>
     partdev_lookup (pd_table st') = (if (7 :: int) < 0 then partdev_lookup (pd_table demo_reg)
      else (partdev_lookup (pd_table demo_reg))(7 \<mapsto> registered demo_window 7)) \<and>
     partdev_lookup (pd_table (partdev_remove 3 st')) 7 =
      (case partdev_lookup (pd_table st') 7 of None \<Rightarrow> None | Some x \<Rightarrow> if pe_parent x = 3 then None else Some x)"
proof -
  have 1: "reg_ok demo_reg" "ids_fresh demo_reg"
    by (simp_all add: reg_ok_def ids_fresh_def demo_reg_def partdev_count_for_parent_def)
  have 2: "partdev_register demo_window demo_reg = (7, demo_reg\<lparr>pd_devmgr := [], pd_table := [registered demo_window 7]\<rparr>)"
    by (simp add: partdev_register_def next_device_def demo_reg_def demo_window_def registered_def
        partdev_count_for_parent_def PARTDEV_MAX_def PARTDEV_MAX_PER_DISK_def)
  show ?thesis using 1 2 partdev_registry [OF 1 2, of 3 7] by blast
qed

section \<open>Windows made from a partition table\<close>

lemma register_new:
  assumes "e' \<in> set (pd_table (snd (partdev_register e st)))" "e' \<notin> set (pd_table st)"
  shows "pe_parent e' = pe_parent e \<and> pe_startlba e' = pe_startlba e \<and> pe_endlba e' = pe_endlba e"
proof -
  obtain i st' where r: "partdev_register e st = (i, st')" by fastforce
  then show ?thesis by (cases rule: partdev_register_cases) (use r assms in auto)
qed

lemma fold_register_new:
  assumes "e' \<in> set (pd_table (fold (\<lambda>x st. snd (partdev_register (f x) st)) xs st))" "e' \<notin> set (pd_table st)"
  shows "\<exists>x \<in> set xs. pe_parent e' = pe_parent (f x) \<and> pe_startlba e' = pe_startlba (f x) \<and> pe_endlba e' = pe_endlba (f x)"
  using assms
proof (induction xs arbitrary: st)
  case (Cons x xs)
  show ?case
  proof (cases "e' \<in> set (pd_table (snd (partdev_register (f x) st)))")
    case True
    then show ?thesis using register_new [OF True Cons.prems(2)] by auto
  next
    case False
    then show ?thesis using Cons.IH [of "snd (partdev_register (f x) st)"] Cons.prems(1) by auto
  qed
qed simp

lemma set_disk_table [simp]: "pd_table (partdev_set_disk p nm ty g b k st) = pd_table st"
  by (simp add: partdev_set_disk_def)

text \<open>C17.
  Every window that is registered for a disk with a GPT belongs to that disk, is not empty, begins after
  sector 0 and ends on the disk.
\<close>

theorem gpt_windows_on_disk:
  assumes "read_fills (ide_gpt_read dk)" "gpt_detect (ide_gpt_read dk) = 1"
    and "e \<in> set (pd_table (ide_registerpartitions dk st))" "e \<notin> set (pd_table st)"
  shows "pe_parent e = id_device dk \<and> 1 \<le> unat (pe_startlba e) \<and> unat (pe_startlba e) < unat (pe_endlba e) \<and>
    unat (pe_endlba e) \<le> unat (id_blocks dk)"
proof -
  obtain ok gpt where g: "gpt_parse (ide_gpt_read dk) (id_blocks dk) = (ok, gpt)" by fastforce
  note pr = gpt_parse_promise [OF assms(1) g]
  have ok: ok using assms(2-4) g by (auto simp: ide_registerpartitions_def ide_register_gpt_def split: if_splits)
  then obtain x where x: "x \<in> set (gd_entries gpt)" "pe_parent e = id_device dk"
      "pe_startlba e = ge_first_lba x" "pe_endlba e = ge_last_lba x + 1"
    using fold_register_new [of e "gpt_window dk" "gd_entries gpt" st] assms(2-4) g
    by (auto simp: ide_registerpartitions_def ide_register_gpt_def Let_def gpt_window_def ide_window_def)
  have "1 \<le> gd_first_usable gpt" "gd_last_usable gpt < id_blocks dk" "gd_first_usable gpt \<le> ge_first_lba x"
      "ge_first_lba x \<le> ge_last_lba x" "ge_last_lba x \<le> gd_last_usable gpt"
    using pr ok x(1) by (auto simp: gpt_promise_def)
  then have "1 \<le> unat (ge_first_lba x)" "unat (ge_first_lba x) \<le> unat (ge_last_lba x)" "unat (ge_last_lba x) < unat (id_blocks dk)"
    by (auto simp: word_le_nat_alt word_less_nat_alt)
  moreover from this have "unat (ge_last_lba x + 1) = unat (ge_last_lba x) + 1"
    using unat_u64_bound [of "id_blocks dk"] by (simp add: unat_word_ariths)
  ultimately show ?thesis using x by simp
qed

definition demo_mbr :: bytes where
  "demo_mbr = replicate 450 0 @ [0xEE] @ replicate 59 0 @ [0x55, 0xAA]"

definition demo_disk :: "unit ide_disk" where
  "demo_disk = \<lparr>id_device = 3, id_name = ''hdp0'', id_read_only = False, id_blocks = 64,
     id_disk_read = (\<lambda>_ _ _ s. (1, s)), id_disk_write = (\<lambda>_ _ _ s. (1, s)),
     id_contents = (\<lambda>lba n. if lba = 0 \<and> n = 1 then (1, demo_mbr)
       else case demo_read (gpt_header_image (demo_geom 1)) lba n of None \<Rightarrow> (0, []) | Some b \<Rightarrow> (1, b))\<rparr>"

lemma demo_disk_read:
  "ide_gpt_read demo_disk lba n =
     (if lba = 0 \<and> n = 1 then Some demo_mbr else demo_read (gpt_header_image (demo_geom 1)) lba n)"
  by (simp add: ide_gpt_read_def demo_disk_def split: option.split)

lemma demo_disk_fills: "read_fills (ide_gpt_read demo_disk)"
  using demo_read_fills [OF length_demo_header]
  by (auto simp: read_fills_def demo_disk_read GPT_SECTOR_SIZE_def demo_mbr_def split: if_splits)

lemma demo_disk_detect: "gpt_detect (ide_gpt_read demo_disk) = 1"
proof -
  have "demo_mbr ! 510 = 0x55" "demo_mbr ! 511 = 0xAA" "demo_mbr ! 450 = 0xEE"
    by (simp_all add: demo_mbr_def nth_append)
  moreover from this have "\<exists>i \<in> {0..<4}. demo_mbr ! (446 + i * 16 + 4) = GPT_PROTECTIVE_MBR"
    by (intro bexI [of _ 0]) (simp_all add: GPT_PROTECTIVE_MBR_def)
  ultimately show ?thesis by (simp add: gpt_detect_def demo_disk_read)
qed

lemma demo_disk_written: "gpt_written (ide_gpt_read demo_disk) 64 1 (demo_geom 1) [demo_part]"
  using demo_written(1) by (simp add: gpt_written_def demo_disk_read Let_def demo_geom_def)

theorem gpt_windows_on_disk_witness:
  "\<exists>e. read_fills (ide_gpt_read demo_disk) \<and> gpt_detect (ide_gpt_read demo_disk) = 1 \<and>
     e \<in> set (pd_table (ide_registerpartitions demo_disk demo_reg)) \<and> e \<notin> set (pd_table demo_reg) \<and>
     pe_parent e = id_device demo_disk \<and> 1 \<le> unat (pe_startlba e) \<and> unat (pe_startlba e) < unat (pe_endlba e) \<and>
     unat (pe_endlba e) \<le> unat (id_blocks demo_disk)"
proof -
  obtain d where d: "gpt_parse (ide_gpt_read demo_disk) 64 = (True, d)" "map gpt_part_of (gd_entries d) = [demo_part]"
    using gpt_parse_written [OF demo_disk_written] by auto
  then obtain x where x: "gd_entries d = [x]" by (cases "gd_entries d") auto
  let ?e = "registered (gpt_window demo_disk x) 7"
  have "pd_table (ide_registerpartitions demo_disk demo_reg) = [?e]"
    using d(1) x demo_disk_detect
    by (simp add: ide_registerpartitions_def ide_register_gpt_def partdev_register_def next_device_def demo_reg_def
        partdev_count_for_parent_def PARTDEV_MAX_def PARTDEV_MAX_PER_DISK_def gpt_window_def ide_window_def registered_def
        demo_disk_def Let_def)
  then have e: "?e \<in> set (pd_table (ide_registerpartitions demo_disk demo_reg))" "?e \<notin> set (pd_table demo_reg)"
    by (simp_all add: demo_reg_def)
  show ?thesis
    using demo_disk_fills demo_disk_detect e gpt_windows_on_disk [OF demo_disk_fills demo_disk_detect e] by blast
qed

section \<open>Printing identifiers\<close>

text \<open>A reader of the printed form, as the standard describes it: the digits in pairs, the first three groups reversed.\<close>

definition hex_value :: "char \<Rightarrow> nat" where
  "hex_value c = (let n = of_char c in if n < 58 then n - 48 else n - 87)"

fun hex_pairs :: "string \<Rightarrow> bytes" where
  "hex_pairs (a # b # s) = of_nat (16 * hex_value a + hex_value b) # hex_pairs s"
| "hex_pairs s = []"

definition read_guid :: "string \<Rightarrow> bytes" where
  "read_guid s = (let bs = hex_pairs (filter (\<lambda>c. c \<noteq> CHR ''-'') s) in map (\<lambda>i. bs ! i) guid_order)"

lemma hex_digit_ok: "n < 16 \<Longrightarrow> hex_value (hex_digit n) = n \<and> hex_digit n \<noteq> CHR ''-''"
proof -
  have "\<forall>n \<in> set [0..<16]. hex_value (hex_digit n) = n \<and> hex_digit n \<noteq> CHR ''-''" by code_simp
  then show "n < 16 \<Longrightarrow> hex_value (hex_digit n) = n \<and> hex_digit n \<noteq> CHR ''-''" by simp
qed

lemma byte_nibbles:
  fixes b :: u8
  shows "unat (drop_bit 4 b) < 16" "unat (b AND 0xF) < 16" "of_nat (16 * unat (drop_bit 4 b) + unat (b AND 0xF)) = b"
proof -
  have m: "unat (b AND 0xF) = unat b mod 16"
  proof -
    have "(0xF :: u8) = mask 4" by (simp add: mask_numeral)
    then have "unat (b AND 0xF) = take_bit 4 (unat b)" by (simp only: take_bit_eq_mask [symmetric] unsigned_take_bit_eq)
    then show ?thesis by (simp add: take_bit_eq_mod)
  qed
  have d: "unat (drop_bit 4 b) = unat b div 16" by (simp add: unat_drop_bit)
  show "unat (drop_bit 4 b) < 16" "unat (b AND 0xF) < 16" using m d unat_u8_bound [of b] by simp_all
  show "of_nat (16 * unat (drop_bit 4 b) + unat (b AND 0xF)) = b" by (simp add: m d)
qed

lemma guid_byte_digits:
  "filter (\<lambda>c. c \<noteq> CHR ''-'') (guid_byte guid i) =
     [hex_digit (unat (drop_bit 4 (guid ! (guid_order ! i)))), hex_digit (unat (guid ! (guid_order ! i) AND 0xF))]"
  using byte_nibbles [of "guid ! (guid_order ! i)"] hex_digit_ok by (auto simp: guid_byte_def Let_def)

lemma hex_pairs_guid:
  "hex_pairs (filter (\<lambda>c. c \<noteq> CHR ''-'') (concat (map (guid_byte guid) is))) = map (\<lambda>i. guid ! (guid_order ! i)) is"
proof (induction "is")
  case (Cons i "is")
  have "of_nat (16 * hex_value (hex_digit (unat (drop_bit 4 b))) + hex_value (hex_digit (unat (b AND 0xF)))) = b" for b :: u8
    using byte_nibbles [of b] hex_digit_ok by simp
  then show ?case using Cons by (simp add: guid_byte_digits)
qed simp

text \<open>The printed form of an identifier has 36 characters and determines it: reading the digits back in the canonical
  mixed-endian order gives the sixteen bytes. A buffer of fewer than 37 bytes gets the empty string.
\<close>

theorem guid_format_roundtrip:
  assumes "length guid = 16" "37 \<le> buflen"
  shows "\<exists>s. partdev_format_guid guid buflen = Some s \<and> length s = 36 \<and> read_guid s = guid"
proof -
  let ?s = "concat (map (guid_byte guid) [0..<16])"
  have "length ?s = 36" by (simp add: guid_byte_def Let_def upt_rec)
  moreover have "hex_pairs (filter (\<lambda>c. c \<noteq> CHR ''-'') ?s) = map (\<lambda>i. guid ! (guid_order ! i)) [0..<16]"
    by (rule hex_pairs_guid)
  then have "read_guid ?s = map (\<lambda>i. map (\<lambda>i. guid ! (guid_order ! i)) [0..<16] ! i) guid_order"
    by (simp add: read_guid_def Let_def)
  then have "read_guid ?s = map (\<lambda>i. guid ! i) [0..<16]" by (simp add: guid_order_def eval_nat_numeral)
  then have "read_guid ?s = guid" using map_nth [of guid] assms(1) by simp
  ultimately show ?thesis using assms(2) by (simp add: partdev_format_guid_def)
qed

theorem guid_format_roundtrip_witness:
  "length (replicate 16 (0xA5 :: u8)) = 16 \<and> (37 :: int) \<le> 40 \<and>
   (\<exists>s. partdev_format_guid (replicate 16 0xA5) 40 = Some s \<and> length s = 36 \<and> read_guid s = replicate 16 0xA5)"
  using guid_format_roundtrip [of "replicate 16 0xA5" 40] by simp

text \<open>The entries of a master boot record are not compared with the size of the disk. Whatever the size, a used entry
  is registered with the extent it claims, so a window may reach far beyond the last sector.
\<close>

theorem mbr_window_unchecked:
  assumes "gpt_detect (ide_gpt_read dk) = 0" "id_contents dk 0 1 = (1, mbr)" "mbr_slot mbr 0 = (ty, start, n)" "ty \<noteq> 0"
    and "pd_table st = []" "pd_devmgr st = devid # is" "0 \<le> devid"
  shows "\<exists>e \<in> set (pd_table (ide_registerpartitions dk st)).
    pe_startlba e = start \<and> unat (pe_endlba e) = unat start + unat n"
proof -
  have sig: "mbr ! 510 = 0x55" "mbr ! 511 = 0xAA"
    using assms(1,2) by (auto simp: gpt_detect_def ide_gpt_read_def split: if_splits)
  let ?e = "registered (mbr_window dk mbr 0) devid"
  have first: "snd (partdev_register (mbr_window dk mbr 0) st) = st\<lparr>pd_devmgr := is, pd_table := [?e]\<rparr>"
    using assms(3-7) by (simp add: partdev_register_def next_device_def partdev_count_for_parent_def PARTDEV_MAX_def
        PARTDEV_MAX_PER_DISK_def mbr_window_def ide_window_def registered_def Let_def)
  have keep: "set (pd_table s) \<subseteq> set (pd_table (snd (partdev_register e s)))" for e s
  proof -
    obtain i s' where r: "partdev_register e s = (i, s')" by fastforce
    then show ?thesis by (cases rule: partdev_register_cases) (use r in auto)
  qed
  have fold_keep: "x \<in> set (pd_table s) \<Longrightarrow> x \<in> set (pd_table
      (fold (\<lambda>i st. if fst (mbr_slot mbr i) = 0 then st else snd (partdev_register (mbr_window dk mbr i) st)) xs s))" for x s xs
    using keep by (induction xs arbitrary: s) auto
  have u: "[0..<4] = [0, 1, 2, 3 :: nat]" by (simp add: upt_rec)
  have "?e \<in> set (pd_table (ide_registerpartitions dk st))"
    using assms(1,2,3,4) sig fold_keep [of ?e "st\<lparr>pd_devmgr := is, pd_table := [?e]\<rparr>" "[1, 2, 3]"] first
    by (simp add: ide_registerpartitions_def ide_register_mbr_def u)
  moreover have "unat (ucast x :: u64) < 2 ^ 32" for x :: u32
    using unat_u32_bound [of x] by (simp add: unat_ucast_eq)
  then have "unat start < 2 ^ 32" "unat n < 2 ^ 32" using assms(3) by (auto simp: mbr_slot_def Let_def)
  then have "unat (start + n) = unat start + unat n" by (simp add: unat_word_ariths)
  ultimately show ?thesis using assms(3) by (intro bexI [of _ ?e]) (simp_all add: mbr_window_def ide_window_def)
qed

definition wild_mbr :: bytes where
  "wild_mbr = replicate 450 0 @ [0x83] @ replicate 3 0 @ le32_bytes 2048 @ le32_bytes 0xFFFFFFFF @ replicate 48 0 @ [0x55, 0xAA]"

definition wild_disk :: "unit ide_disk" where
  "wild_disk = demo_disk\<lparr>id_contents := (\<lambda>lba n. (1, wild_mbr))\<rparr>"

theorem mbr_window_unchecked_witness:
  "id_blocks wild_disk = 64 \<and> (\<exists>e \<in> set (pd_table (ide_registerpartitions wild_disk demo_reg)).
     pe_startlba e = 2048 \<and> unat (pe_endlba e) = unat (2048 :: u64) + unat (0xFFFFFFFF :: u64))"
proof -
  have "wild_mbr ! 510 = 0x55" "wild_mbr ! 511 = 0xAA" "wild_mbr ! 450 = 0x83" "wild_mbr ! 466 = 0" "wild_mbr ! 482 = 0"
      "wild_mbr ! 498 = 0"
    by (simp_all add: wild_mbr_def nth_append)
  moreover have "{0..<4} = {0, 1, 2, 3 :: nat}" by auto
  ultimately have d: "gpt_detect (ide_gpt_read wild_disk) = 0"
    by (simp add: gpt_detect_def ide_gpt_read_def wild_disk_def GPT_PROTECTIVE_MBR_def)
  have c: "id_contents wild_disk 0 1 = (1, wild_mbr)" by (simp add: wild_disk_def)
  have m: "mbr_slot wild_mbr 0 = (0x83, 2048, 0xFFFFFFFF)"
    by (simp add: mbr_slot_def wild_mbr_def nth_append)
  show ?thesis
    using mbr_window_unchecked [OF d c m, of demo_reg 7 "[]"] by (simp add: demo_reg_def wild_disk_def demo_disk_def)
qed

end
