(* ===== verification/Iosched.thy ===== *)
theory Iosched
  imports Blkcache_Flush
begin

text \<open>
  The I/O manager of \<^verbatim>\<open>iomgr/iosched.c\<close> and \<^verbatim>\<open>iomgr/bio.h\<close> on top of the device registry and the page cache:
  requests, their execution, the queue of the disk manager, and the flush of the cache and the devices.

  A request is handed to its caller as a value instead of the address of an allocated record. The queue is
  the list in the order of its \<^verbatim>\<open>next\<close> pointers. The per-device lock is held around one execution and does not
  appear, one request is executed after the other. The buffer of a request that was not completed keeps its value
  in the model; the source may have overwritten it.
\<close>

section \<open>Data\<close>

definition IO_READ :: int where [wire_defs]: "IO_READ = 1"
definition IO_WRITE :: int where [wire_defs]: "IO_WRITE = 2"
definition IO_PENDING :: int where [wire_defs]: "IO_PENDING = 0"
definition IO_COMPLETE :: int where [wire_defs]: "IO_COMPLETE = 1"
definition IO_ERROR :: int where [wire_defs]: "IO_ERROR = 2"
definition BIO_READ :: int where [wire_defs]: "BIO_READ = 1"
definition BIO_WRITE :: int where [wire_defs]: "BIO_WRITE = 2"
definition BIO_FLUSH :: int where [wire_defs]: "BIO_FLUSH = 3"
definition BIO_OK :: int where [wire_defs]: "BIO_OK = 1"
definition BIO_ERR :: int where [wire_defs]: "BIO_ERR = -1"

record IOrequest =
  rq_type :: int
  rq_deviceid :: int
  rq_device_generation :: u32
  rq_status :: int
  rq_time :: u32
  rq_buf :: "bytes option"
  rq_lba :: u64
  rq_num_of_blocks :: u32

record bio =
  bio_deviceid :: int
  bio_op :: int
  bio_status :: int
  bio_device_generation :: u32
  bio_sector :: u64
  bio_nsect :: u32
  bio_buf :: "bytes option"

record 'd iomgr =
  io_cache :: "'d pcache"
  blk_mq_dispatched :: "u32 list"
  IOjob :: "IOrequest list"
  IOrequest_time :: u32
  flush_counter :: int
  flush_time :: int
  forceflush :: bool

text \<open>
  \<^verbatim>\<open>iomgr_init\<close>: the cache is set up and the manager registers itself, at the address that the allocator gives.
  \<open>IOrequest_time\<close>, \<open>flush_time\<close> and the two flags have the values of their declarations.
\<close>

definition iomgr_init :: "bool \<Rightarrow> pc_page list \<Rightarrow> bool list \<Rightarrow> 'd \<Rightarrow> nat option \<Rightarrow> 'd registry \<Rightarrow> 'd registry \<times> 'd iomgr" where
  "iomgr_init ok junk mallocs w addr dm =
     (snd (devmgr_register \<lparr>dv_addr = 0, dv_size = SIZEOF_DEVMGR_GENERIC + 32, dv_id = 0, dv_type = 9, dv_name = ''default_iomgr'', dv_ops = None\<rparr> addr dm),
      \<lparr>io_cache = blkcache_init ok junk mallocs w, blk_mq_dispatched = replicate MAXDEVICES 0, IOjob = [], IOrequest_time = 0,
       flush_counter = 0, flush_time = 10, forceflush = False\<rparr>)"

section \<open>Executing a request\<close>

definition count_dispatch :: "int \<Rightarrow> 'd iomgr \<Rightarrow> 'd iomgr" where
  "count_dispatch d s = (if 0 \<le> d \<and> d < int MAXDEVICES
     then s\<lparr>blk_mq_dispatched := (blk_mq_dispatched s)[nat d := blk_mq_dispatched s ! nat d + 1]\<rparr> else s)"

definition iomgr_execjob :: "'d registry \<Rightarrow> IOrequest \<Rightarrow> 'd iomgr \<Rightarrow> IOrequest \<times> 'd iomgr" where
  "iomgr_execjob dm r s =
     (case dev_block dm (rq_deviceid r) of None \<Rightarrow> (r\<lparr>rq_status := IO_ERROR\<rparr>, s)
      | Some ops \<Rightarrow>
          if rq_device_generation r \<noteq> 0 \<and> rq_device_generation r \<noteq> devmgr_get_generation (rq_deviceid r) dm then (r\<lparr>rq_status := IO_ERROR\<rparr>, s)
          else let s = count_dispatch (rq_deviceid r) s
               in if rq_type r = IO_READ then
                    (case blkcache_read dm (rq_deviceid r) (rq_lba r) (rq_num_of_blocks r) (rq_buf r \<noteq> None) (io_cache s) of
                       (Some data, c) \<Rightarrow> (r\<lparr>rq_status := IO_COMPLETE, rq_buf := Some data\<rparr>, s\<lparr>io_cache := c\<rparr>)
                     | (None, c) \<Rightarrow> (r\<lparr>rq_status := IO_ERROR\<rparr>, s\<lparr>io_cache := c\<rparr>))
                  else if rq_type r = IO_WRITE then
                    (if bd_write_block ops = None then (r\<lparr>rq_status := IO_ERROR\<rparr>, s)
                     else case blkcache_write dm (rq_deviceid r) (rq_lba r) (rq_num_of_blocks r) (rq_buf r) (io_cache s) of
                       (ok, c) \<Rightarrow> (r\<lparr>rq_status := (if ok then IO_COMPLETE else IO_ERROR)\<rparr>, s\<lparr>io_cache := c\<rparr>))
                  else (r\<lparr>rq_status := IO_ERROR\<rparr>, s))"

text \<open>The drivers' flush entries, and the flush of everything. The registry comes back because references are taken.\<close>

definition flush_entry :: "'d block_desc option devmgr_generic \<Rightarrow> ('d \<Rightarrow> int \<times> 'd) option" where
  "flush_entry b = (case dv_ops b of None \<Rightarrow> None | Some ops \<Rightarrow> bd_flush_device ops)"

definition iomgr_flushmgr :: "'d registry \<Rightarrow> 'd iomgr \<Rightarrow> bool \<times> 'd registry \<times> 'd iomgr" where
  "iomgr_flushmgr dm s =
     (let (ok, c) = blkcache_flush dm (io_cache s);
          (ret, dm', w) = devmgr_flushblocks flush_entry dm (pc_world c)
      in (ok \<and> \<not> ret < 0, dm', s\<lparr>io_cache := c\<lparr>pc_world := w\<rparr>\<rparr>))"

section \<open>Requests of the clients\<close>

definition bio_submit_sync :: "'d registry \<Rightarrow> bio \<Rightarrow> 'd iomgr \<Rightarrow> bool \<times> bio \<times> 'd registry \<times> 'd iomgr" where
  "bio_submit_sync dm b s =
     (if bio_op b = BIO_FLUSH then
        let (ok, dm', s') = iomgr_flushmgr dm s in (True, b\<lparr>bio_status := BIO_OK\<rparr>, dm', s')
      else let (r, s') = iomgr_execjob dm \<lparr>rq_type = (if bio_op b = BIO_WRITE then IO_WRITE else IO_READ), rq_deviceid = bio_deviceid b,
                             rq_device_generation = bio_device_generation b, rq_status = IO_PENDING, rq_time = 0, rq_buf = bio_buf b,
                             rq_lba = bio_sector b, rq_num_of_blocks = bio_nsect b\<rparr> s;
               st = (if rq_status r = IO_COMPLETE then BIO_OK else BIO_ERR)
           in (st = BIO_OK, b\<lparr>bio_status := st, bio_buf := rq_buf r\<rparr>, dm, s'))"

text \<open>
  \<^verbatim>\<open>dex32_requestIO\<close>; \<open>ma\<close> is the answer of the allocator for the request. A descriptor that is not a block
  device has no \<^verbatim>\<open>getcache\<close> entry and the source reads one all the same; a null buffer goes to the driver's cache
  entries, which copy to or from it. Both are \<open>IO_WILD\<close>.
\<close>

datatype io_answer = IO_WILD | IO_HANDLE "IOrequest option"

definition iomgr_alloc_done :: "bool \<Rightarrow> int \<Rightarrow> u64 \<Rightarrow> u32 \<Rightarrow> bytes option \<Rightarrow> int \<Rightarrow> IOrequest option" where
  "iomgr_alloc_done ma ty block n buf st =
     (if ma then Some \<lparr>rq_type = ty, rq_deviceid = 0, rq_device_generation = 0, rq_status = st, rq_time = 0, rq_buf = buf,
                       rq_lba = block, rq_num_of_blocks = n\<rparr> else None)"

definition request_submit :: "'d registry \<Rightarrow> bool \<Rightarrow> int \<Rightarrow> int \<Rightarrow> u64 \<Rightarrow> u32 \<Rightarrow> bytes option \<Rightarrow> 'd iomgr \<Rightarrow> io_answer \<times> 'd iomgr" where
  "request_submit dm ma d ty block n buf s =
     (if \<not> ma then (IO_HANDLE None, s)
      else let gen = devmgr_get_generation d dm;
               s1 = s\<lparr>IOrequest_time := IOrequest_time s + 1\<rparr>;
               (ok, b, dm', s2) = bio_submit_sync dm \<lparr>bio_deviceid = d, bio_op = (if ty = IO_WRITE then BIO_WRITE else BIO_READ), bio_status = 0,
                                     bio_device_generation = gen, bio_sector = block, bio_nsect = n, bio_buf = buf\<rparr> s1
           in (IO_HANDLE (Some \<lparr>rq_type = ty, rq_deviceid = d, rq_device_generation = gen,
                 rq_status = (if bio_status b = BIO_OK then IO_COMPLETE else IO_ERROR), rq_time = IOrequest_time s,
                 rq_buf = bio_buf b, rq_lba = block, rq_num_of_blocks = n\<rparr>), s2))"

definition request_cached :: "'d registry \<Rightarrow> 'd block_desc \<Rightarrow> int \<Rightarrow> u64 \<Rightarrow> u32 \<Rightarrow> bool \<Rightarrow> 'd pcache \<Rightarrow> bytes option \<times> 'd pcache" where
  "request_cached dm ops d block n buf c =
     (case bd_getcache ops of Some g \<Rightarrow> (g (ucast block) n (pc_world c), c) | None \<Rightarrow> blkcache_get dm d block n buf c)"

definition request_put :: "'d block_desc \<Rightarrow> u64 \<Rightarrow> u32 \<Rightarrow> bytes \<Rightarrow> 'd pcache \<Rightarrow> bool \<times> 'd pcache" where
  "request_put ops block n src c =
     (case bd_putcache ops of None \<Rightarrow> (False, c) | Some p \<Rightarrow> (case p src (ucast block) n (pc_world c) of (ok, w) \<Rightarrow> (ok, c\<lparr>pc_world := w\<rparr>)))"

definition dex32_requestIO :: "'d registry \<Rightarrow> bool \<Rightarrow> int \<Rightarrow> int \<Rightarrow> u64 \<Rightarrow> u32 \<Rightarrow> bytes option \<Rightarrow> 'd iomgr \<Rightarrow> io_answer \<times> 'd iomgr" where
  "dex32_requestIO dm ma d ty block n buf s =
     (case dev_ref dm d of None \<Rightarrow> (IO_HANDLE None, s)
      | Some b \<Rightarrow>
          (case dv_ops b of None \<Rightarrow> (IO_WILD, s)
           | Some ops \<Rightarrow>
               if ty = IO_READ then
                 if buf = None \<and> bd_getcache ops \<noteq> None then (IO_WILD, s)
                 else (case request_cached dm ops d block n (buf \<noteq> None) (io_cache s) of
                     (Some data, c) \<Rightarrow> (IO_HANDLE (iomgr_alloc_done ma ty block n (Some data) IO_COMPLETE), s\<lparr>io_cache := c\<rparr>)
                   | (None, c) \<Rightarrow> request_submit dm ma d ty block n buf (s\<lparr>io_cache := c\<rparr>))
               else if ty = IO_WRITE \<and> bd_putcache ops \<noteq> None then
                 (case buf of None \<Rightarrow> (IO_WILD, s)
                  | Some src \<Rightarrow>
                      (case request_put ops block n src (io_cache s) of
                         (True, c) \<Rightarrow> (IO_HANDLE (iomgr_alloc_done ma ty block n buf IO_COMPLETE), s\<lparr>io_cache := c\<rparr>)
                       | (False, c) \<Rightarrow> request_submit dm ma d ty block n buf (s\<lparr>io_cache := c\<rparr>)))
               else request_submit dm ma d ty block n buf s))"

definition dex32_IOcomplete :: "IOrequest \<Rightarrow> int" where
  "dex32_IOcomplete r =
     (if rq_status r = IO_COMPLETE then 1 else if rq_status r = IO_ERROR then -1 else if rq_status r = IO_PENDING then 0 else -1)"

definition iomgr_request_flush :: "'d iomgr \<Rightarrow> 'd iomgr" where
  "iomgr_request_flush s = s\<lparr>forceflush := True\<rparr>"

section \<open>The disk manager\<close>

text \<open>The search for the queued request nearest to the last block; the first one wins.\<close>

definition lba_dist :: "u64 \<Rightarrow> IOrequest \<Rightarrow> u64" where
  "lba_dist near r = (if near > rq_lba r then near - rq_lba r else rq_lba r - near)"

fun nearest :: "u64 \<Rightarrow> IOrequest list \<Rightarrow> nat \<Rightarrow> nat \<Rightarrow> u64 \<Rightarrow> nat" where
  "nearest near [] i cand mindist = cand"
| "nearest near (r # rs) i cand mindist =
     (if lba_dist near r < mindist then nearest near rs (Suc i) i (lba_dist near r) else nearest near rs (Suc i) cand mindist)"

definition IOmgr_obtainjob :: "u64 \<Rightarrow> 'd iomgr \<Rightarrow> IOrequest option \<times> 'd iomgr" where
  "IOmgr_obtainjob near s =
     (if IOjob s = [] then (None, s)
      else let i = nearest near (IOjob s) 0 0 (NOT 0)
           in (Some (IOjob s ! i), s\<lparr>IOjob := take i (IOjob s) @ drop (Suc i) (IOjob s)\<rparr>))"

lemma execjob_IOjob: "IOjob (snd (iomgr_execjob dm r s)) = IOjob s"
  by (auto simp: iomgr_execjob_def count_dispatch_def Let_def split: option.split prod.split)

lemma nearest_bound: "cand < i \<Longrightarrow> nearest near rs i cand m < i + length rs"
proof (induction near rs i cand m rule: nearest.induct)
  case (2 near r rs i cand mindist)
  then show ?case by (cases "lba_dist near r < mindist") auto
qed simp

lemma nearest_index: "rs \<noteq> [] \<Longrightarrow> nearest near rs 0 0 m < length rs"
  by (cases rs) (auto intro: order_less_le_trans [OF nearest_bound])

lemma obtainjob_length: "IOmgr_obtainjob near s = (Some r, s') \<Longrightarrow> length (IOjob s') < length (IOjob s)"
  using nearest_index [of "IOjob s" near "NOT 0"] by (auto simp: IOmgr_obtainjob_def Let_def split: if_splits)

lemma job_taken: "(Some r2, s2) = IOmgr_obtainjob near s1 \<Longrightarrow> (r', s1) = iomgr_execjob dm r s \<Longrightarrow> length (IOjob s2) < length (IOjob s)"
  using obtainjob_length [of near s1 r2 s2] execjob_IOjob [of dm r s] by (metis snd_conv)

text \<open>The inner loop of \<^verbatim>\<open>iomgr_diskmgr\<close>: requests are executed until the queue is empty.\<close>

function run_jobs :: "'d registry \<Rightarrow> IOrequest \<Rightarrow> 'd iomgr \<Rightarrow> IOrequest list \<times> u64 \<times> 'd iomgr" where
  "run_jobs dm r s =
     (let (r', s1) = iomgr_execjob dm r s
      in case IOmgr_obtainjob (rq_lba r) s1 of
           (None, s2) \<Rightarrow> ([r'], rq_lba r, s2)
         | (Some r2, s2) \<Rightarrow> (let (rs, last, s3) = run_jobs dm r2 s2 in (r' # rs, last, s3)))"
  by pat_completeness auto
termination
  by (relation "measure (\<lambda>(dm, r, s). length (IOjob s))") (auto simp: job_taken)

declare run_jobs.simps [simp del]

text \<open>
  One pass of the endless loop at the time \<open>now\<close>, with the block of the last request and what \<^verbatim>\<open>shouldflush\<close> of the
  floppy driver answers. The requests that were executed come back.
\<close>

definition diskmgr_pass :: "'d registry \<Rightarrow> bool \<Rightarrow> int \<Rightarrow> u64 \<Rightarrow> 'd iomgr \<Rightarrow> IOrequest list \<times> u64 \<times> 'd registry \<times> 'd iomgr" where
  "diskmgr_pass dm floppy now lastjob s =
     (case IOmgr_obtainjob lastjob s of
        (Some r, s1) \<Rightarrow> (let (rs, last, s2) = run_jobs dm r s1 in (rs, last, dm, s2))
      | (None, s1) \<Rightarrow>
          if flush_counter s1 - now > flush_time s1 \<or> now - flush_counter s1 > flush_time s1 \<or> forceflush s1 then
            let s2 = s1\<lparr>forceflush := False\<rparr>;
                (dm', s3) = (if floppy \<or> blkcache_has_dirty (io_cache s2) then snd (iomgr_flushmgr dm s2) else (dm, s2))
            in ([], lastjob, dm', s3\<lparr>flush_counter := now\<rparr>)
          else ([], lastjob, dm, s1))"

end
