(* ===== verification/Devmgr_Flush.thy ===== *)
theory Devmgr_Flush
  imports Devmgr
begin

text \<open>
  \<^verbatim>\<open>devmgr_flushblocks\<close> leaves the registry as it was: it takes one reference on every live block device and gives
  each back. Between the two only reference counts differ, and the invariant determines these.
\<close>

section \<open>Steps that change reference counts only\<close>

definition refs_only :: "'x devmgr \<Rightarrow> 'x devmgr \<Rightarrow> bool" where
  "refs_only m m' \<longleftrightarrow> devmgr_devlist m' = devmgr_devlist m \<and> length (devmgr_statuslist m') = length (devmgr_statuslist m) \<and>
     (\<forall>i < MAXDEVICES. ds_locked (devmgr_statuslist m' ! i) = ds_locked (devmgr_statuslist m ! i) \<and>
        ds_generation (devmgr_statuslist m' ! i) = ds_generation (devmgr_statuslist m ! i) \<and>
        ds_state (devmgr_statuslist m' ! i) = ds_state (devmgr_statuslist m ! i) \<and>
        (devmgr_devlist m ! i = None \<longrightarrow> devmgr_statuslist m' ! i = devmgr_statuslist m ! i))"

lemma refs_only_refl [simp]: "refs_only m m" by (simp add: refs_only_def)

lemma refs_only_trans: "refs_only a b \<Longrightarrow> refs_only b c \<Longrightarrow> refs_only a c"
  by (simp add: refs_only_def)

lemma refs_only_upd:
  assumes "devmgr_devlist m ! k \<noteq> None" shows "refs_only m (upd_status (int k) (ds_refs_update f) m)"
  using assms by (auto simp: refs_only_def upd_status_def nth_update_if)

lemma refs_only_slot: "refs_only m m' \<Longrightarrow> dev_slot i m' = dev_slot i m"
  by (simp add: refs_only_def dev_slot_def)

lemma refs_only_state: "refs_only m m' \<Longrightarrow> k < MAXDEVICES \<Longrightarrow> ds_state (devmgr_statuslist m' ! k) = ds_state (devmgr_statuslist m ! k)"
  by (simp add: refs_only_def)

text \<open>The invariant fixes the counts, so that two registries with the same handles are equal.\<close>

lemma refs_only_eq:
  assumes "refs_only m m'" "dm_inv m h" "dm_inv m' h" shows "m' = m"
proof -
  have "devmgr_statuslist m' ! i = devmgr_statuslist m ! i" if i: "i < MAXDEVICES" for i
  proof (cases "devmgr_devlist m ! i")
    case None then show ?thesis using assms(1) i by (simp add: refs_only_def)
  next
    case (Some b)
    then have "devmgr_devlist m' ! i = Some b" using assms(1) by (simp add: refs_only_def)
    then have "unat (ds_refs (devmgr_statuslist m' ! i)) = unat (ds_refs (devmgr_statuslist m ! i))"
      using assms(2,3) i Some by (auto simp: dm_inv_def slot_ok_def)
    then have "ds_refs (devmgr_statuslist m' ! i) = ds_refs (devmgr_statuslist m ! i)" by (simp add: word_unat_eq_iff)
    then show ?thesis using assms(1) i by (intro devmgr_status.equality) (simp_all add: refs_only_def)
  qed
  then have "devmgr_statuslist m' = devmgr_statuslist m" using assms by (intro nth_equalityI) (auto simp: dm_inv_def)
  then show ?thesis using assms(1) by (simp add: refs_only_def)
qed

lemma get_refs_only:
  assumes "devmgr_getdevice_ref i m = (r, m')" shows "refs_only m m'"
proof (cases "dev_slot i m")
  case None then show ?thesis using assms by (simp add: devmgr_getdevice_ref_def)
next
  case (Some b)
  then obtain k where k: "i = int k" "devmgr_devlist m ! k = Some b" by (rule dev_slot_Some)
  show ?thesis using assms Some refs_only_upd [of m k] k by (auto simp: devmgr_getdevice_ref_def Let_def split: if_splits prod.splits)
qed

lemma get_live:
  assumes "devmgr_getdevice_ref i m = (Some b, m')"
  shows "dev_slot i m = Some b" "ds_state (dev_status i m) = DEVMGR_STATE_LIVE"
  using assms by (auto simp: devmgr_getdevice_ref_def devmgr_lifecycle_get_def Let_def split: if_splits)

lemma put_refs_only:
  assumes s: "dev_slot (dv_id b) m = Some b" and live: "ds_state (dev_status (dv_id b) m) = DEVMGR_STATE_LIVE"
    and len: "length (devmgr_statuslist m) = MAXDEVICES"
  shows "refs_only m (snd (devmgr_putdevice (Some b) m))"
proof -
  obtain k where k: "dv_id b = int k" "k < MAXDEVICES" "devmgr_devlist m ! k = Some b" using s by (rule dev_slot_Some)
  obtain ok refs where p: "devmgr_lifecycle_put (ds_refs (devmgr_statuslist m ! k)) = (ok, refs)" by fastforce
  have "ds_state (dev_status (int k) (upd_status (int k) (ds_refs_update (\<lambda>_. refs)) m)) = DEVMGR_STATE_LIVE"
    using live k len by (simp add: upd_status_def)
  then have "snd (devmgr_putdevice (Some b) m) = upd_status (int k) (ds_refs_update (\<lambda>_. refs)) m"
    using s k p by (simp add: devmgr_putdevice_def same_addr_def Let_def devmgr_retire_locked_def devmgr_lifecycle_can_retire_def)
  then show ?thesis using k(3) by (simp add: refs_only_upd)
qed

section \<open>The snapshot and its release\<close>

definition snap_ok :: "'x devmgr \<Rightarrow> 'x devmgr_generic list \<Rightarrow> 'x devmgr_generic list \<times> 'x devmgr \<Rightarrow> bool" where
  "snap_ok m h bm = (case bm of (bs, m') \<Rightarrow> dm_inv m' (rev bs @ h) \<and> refs_only m m' \<and>
     (\<forall>b \<in> set bs. dev_slot (dv_id b) m = Some b \<and> dv_type b = DEVMGR_BLOCK \<and> ds_state (dev_status (dv_id b) m) = DEVMGR_STATE_LIVE))"

lemma snapshot_step:
  assumes ok: "snap_ok m h (bs, m')"
  shows "snap_ok m h (case dev_slot (int i) m' of None \<Rightarrow> (bs, m')
     | Some b \<Rightarrow> if dv_type b = DEVMGR_BLOCK
         then (case devmgr_getdevice_ref (int i) m' of (None, m'') \<Rightarrow> (bs, m'') | (Some c, m'') \<Rightarrow> (bs @ [c], m'')) else (bs, m'))"
proof (cases "dev_slot (int i) m'")
  case None then show ?thesis using ok by simp
next
  case (Some b)
  obtain r m'' where g: "devmgr_getdevice_ref (int i) m' = (r, m'')" by fastforce
  show ?thesis
  proof (cases "dv_type b = DEVMGR_BLOCK")
    case False then show ?thesis using ok Some by simp
  next
    case True
    show ?thesis
    proof (cases r)
      case None
      then have "m'' = m'" using g Some by (auto simp: devmgr_getdevice_ref_def Let_def split: if_splits prod.splits)
      then show ?thesis using ok Some True g None by simp
    next
      case c: (Some c)
      note lv = get_live [OF g [unfolded c]]
      have cb: "c = b" using lv(1) Some by simp
      have inv: "dm_inv m' (rev bs @ h)" and ro: "refs_only m m'" using ok by (simp_all add: snap_ok_def)
      obtain k where k: "int i = int k" "k < MAXDEVICES" "slot_ok k b (devmgr_statuslist m' ! k) (count_list (rev bs @ h) b)"
        using slot_inv [OF inv Some] by blast
      have id: "dv_id b = int i" using k by (simp add: slot_ok_def)
      have "dev_slot (dv_id b) m = Some b" "ds_state (dev_status (dv_id b) m) = DEVMGR_STATE_LIVE"
        using id Some refs_only_slot [OF ro, of "int i"] refs_only_state [OF ro, of i] lv(2) k by simp_all
      moreover have "dm_inv m'' (b # rev bs @ h)" "refs_only m m''"
        using get_inv [OF inv g [unfolded c cb]] refs_only_trans [OF ro get_refs_only [OF g]] by simp_all
      ultimately show ?thesis using ok Some True g c cb by (simp add: snap_ok_def)
    qed
  qed
qed

lemma snapshot_ok: "dm_inv m h \<Longrightarrow> snap_ok m h (flush_snapshot m)"
proof -
  assume inv: "dm_inv m h"
  have "snap_ok m h (fold (\<lambda>i (bs, m). case dev_slot (int i) m of None \<Rightarrow> (bs, m)
             | Some b \<Rightarrow> if dv_type b = DEVMGR_BLOCK
                 then (case devmgr_getdevice_ref (int i) m of (None, m') \<Rightarrow> (bs, m') | (Some c, m') \<Rightarrow> (bs @ [c], m'))
                 else (bs, m)) is bm)" if "snap_ok m h bm" for bm "is"
    using that
  proof (induction "is" arbitrary: bm)
    case (Cons i "is")
    obtain bs m' where bm: "bm = (bs, m')" by fastforce
    show ?case using Cons.IH [OF snapshot_step [OF Cons.prems [unfolded bm], of i]] by (simp add: bm)
  qed simp
  then show ?thesis unfolding flush_snapshot_def using inv by (simp add: snap_ok_def)
qed

lemma dm_inv_counts:
  assumes "\<And>c. count_list h c = count_list h' c" "dm_inv m h" shows "dm_inv m h'"
proof -
  have "set h' = set h" using assms(1) by (metis (no_types, lifting) count_list_0_iff subsetI subset_antisym)
  then show ?thesis using assms by (simp add: dm_inv_def)
qed

lemma flush_each_restores:
  assumes "dm_inv m h" "snap_ok m h (bs, m')" shows "fst (snd (flush_each fl bs err m' w)) = m"
  using assms(2)
proof (induction bs arbitrary: m' err w)
  case Nil
  then show ?case using refs_only_eq [OF _ assms(1), of m'] by (simp add: snap_ok_def)
next
  case (Cons b bs)
  let ?m = "snd (devmgr_putdevice (Some b) m')"
  have inv: "dm_inv m' (rev (b # bs) @ h)" and ro: "refs_only m m'" using Cons.prems by (simp_all add: snap_ok_def)
  have b: "dev_slot (dv_id b) m = Some b" "ds_state (dev_status (dv_id b) m) = DEVMGR_STATE_LIVE" using Cons.prems by (simp_all add: snap_ok_def)
  then obtain k where k: "dv_id b = int k" "k < MAXDEVICES" by (metis dev_slot_Some)
  have "refs_only m' ?m"
    using b k inv refs_only_slot [OF ro] refs_only_state [OF ro k(2)] by (intro put_refs_only) (simp_all add: dm_inv_def)
  then have "refs_only m ?m" by (rule refs_only_trans [OF ro])
  moreover have "dm_inv ?m (rev bs @ h)"
  proof (rule dm_inv_counts [OF _ put_inv(2) [OF inv]])
    show "b \<in> set (rev (b # bs) @ h)" by simp
    show "count_list (remove1 b (rev (b # bs) @ h)) c = count_list (rev bs @ h) c" for c
      by (induction bs rule: rev_induct) (auto simp: remove1_append)
  qed
  ultimately have "snap_ok m h (bs, ?m)" using Cons.prems by (simp add: snap_ok_def)
  then show ?case using Cons.IH by (simp add: case_prod_beta)
qed

lemma flushblocks_restores: "dm_inv m h \<Longrightarrow> fst (snd (devmgr_flushblocks fl m w)) = m"
  using flush_each_restores snapshot_ok by (fastforce simp: devmgr_flushblocks_def split: prod.split)

text \<open>What every flush entry of a registered block device keeps, the whole pass keeps.\<close>

lemma flush_each_keeps:
  assumes "\<And>b f w. \<lbrakk>b \<in> set bs; fl b = Some f; P w\<rbrakk> \<Longrightarrow> P (snd (f w))" "P w"
  shows "P (snd (snd (flush_each fl bs err m w)))"
  using assms
proof (induction bs arbitrary: err m w)
  case (Cons b bs)
  have "P (snd (case fl b of None \<Rightarrow> (0, w) | Some f \<Rightarrow> f w))" using Cons.prems by (cases "fl b") auto
  then have "P (snd (snd (flush_each fl bs err m (snd (case fl b of None \<Rightarrow> (0, w) | Some f \<Rightarrow> f w)))))" for err m
    by (rule Cons.IH [rotated]) (use Cons.prems(1) in auto)
  then show ?case by (simp add: case_prod_beta)
qed simp

lemma flushblocks_keeps:
  assumes "dm_inv m h" "P w"
    and "\<And>b f w. \<lbrakk>dev_slot (dv_id b) m = Some b; dv_type b = DEVMGR_BLOCK; fl b = Some f; P w\<rbrakk> \<Longrightarrow> P (snd (f w))"
  shows "P (snd (snd (devmgr_flushblocks fl m w)))"
proof -
  obtain bs m' where s: "flush_snapshot m = (bs, m')" by fastforce
  have "\<forall>b \<in> set bs. dev_slot (dv_id b) m = Some b \<and> dv_type b = DEVMGR_BLOCK" using snapshot_ok [OF assms(1)] s by (simp add: snap_ok_def)
  then show ?thesis using assms(2,3) by (auto simp: devmgr_flushblocks_def s intro!: flush_each_keeps [where P = P])
qed

end
