(* ===== verification/Iosched_Refine.thy ===== *)
theory Iosched_Refine
  imports Iosched Devmgr_Flush "HOL-Library.Multiset"
begin

text \<open>
  What the clients of the block layer can rely on: sequences of requests and flushes through
  \<^verbatim>\<open>dex32_requestIO\<close> and \<^verbatim>\<open>iomgr_flushmgr\<close> behave like operations on an array of bytes per device, and the
  disk manager executes every queued request once.
\<close>

section \<open>Operations and their specification\<close>

text \<open>
  A request with the answer of the allocator. The client waits for completion and looks at the status; the
  handle it gets is released afterwards.
\<close>

datatype io_op = Io_read bool int u64 u32 | Io_write bool int u64 u32 bytes | Io_flush

datatype io_res = Io_data bytes | Io_done | Io_failed

definition client_wait :: "int \<Rightarrow> io_answer \<Rightarrow> io_res" where
  "client_wait ty a = (case a of IO_WILD \<Rightarrow> Io_failed
     | IO_HANDLE None \<Rightarrow> Io_failed
     | IO_HANDLE (Some r) \<Rightarrow> if dex32_IOcomplete r = 1 then if ty = IO_READ then (case rq_buf r of None \<Rightarrow> Io_failed | Some x \<Rightarrow> Io_data x) else Io_done
         else Io_failed)"

fun io_do :: "io_op \<Rightarrow> 'd registry \<Rightarrow> 'd iomgr \<Rightarrow> io_res \<times> 'd registry \<times> 'd iomgr" where
  "io_do (Io_read ma d sector n) dm s = (case dex32_requestIO dm ma d IO_READ sector n (Some []) s of (a, s') \<Rightarrow> (client_wait IO_READ a, dm, s'))"
| "io_do (Io_write ma d sector n src) dm s = (case dex32_requestIO dm ma d IO_WRITE sector n (Some src) s of (a, s') \<Rightarrow> (client_wait IO_WRITE a, dm, s'))"
| "io_do Io_flush dm s = (case iomgr_flushmgr dm s of (ok, dm', s') \<Rightarrow> (if ok then Io_done else Io_failed, dm', s'))"

fun io_run :: "io_op list \<Rightarrow> 'd registry \<Rightarrow> 'd iomgr \<Rightarrow> io_res list \<times> 'd registry \<times> 'd iomgr" where
  "io_run [] dm s = ([], dm, s)"
| "io_run (p # ps) dm s = (case io_do p dm s of (r, dm', s') \<Rightarrow> (case io_run ps dm' s' of (rs, dm'', s'') \<Rightarrow> (r # rs, dm'', s'')))"

text \<open>
  The specification of one operation on the bytes of all devices: \<open>v\<close> before, \<open>v'\<close> after. Bytes at or above
  \<open>2 ^ 64\<close> do not exist.
\<close>

definition same_bytes :: "(int \<Rightarrow> nat \<Rightarrow> u8) \<Rightarrow> (int \<Rightarrow> nat \<Rightarrow> u8) \<Rightarrow> bool" where
  "same_bytes v v' \<longleftrightarrow> (\<forall>d x. x < 2 ^ 64 \<longrightarrow> v' d x = v d x)"

definition dev_ops :: "'d registry \<Rightarrow> int \<Rightarrow> 'd block_desc" where
  "dev_ops dm d = the (dev_block dm d)"

fun io_spec :: "'d registry \<Rightarrow> io_op \<Rightarrow> io_res \<Rightarrow> (int \<Rightarrow> nat \<Rightarrow> u8) \<Rightarrow> (int \<Rightarrow> nat \<Rightarrow> u8) \<Rightarrow> bool" where
  "io_spec dm (Io_read ma d sector n) r v v' \<longleftrightarrow> same_bytes v v' \<and>
     (r = Io_failed \<or> r = Io_data (byte_range (v d) (req_start (dev_ops dm d) sector) (req_len (dev_ops dm d) n)))"
| "io_spec dm (Io_write ma d sector n src) r v v' \<longleftrightarrow>
     (let a = req_start (dev_ops dm d) sector
      in r = Io_done \<and> same_bytes (written v d a src) v' \<or>
         r = Io_failed \<and> (\<forall>d' x. x < 2 ^ 64 \<and> \<not> (d' = d \<and> a \<le> x \<and> x < a + length src) \<longrightarrow> v' d' x = v d' x))"
| "io_spec dm Io_flush r v v' \<longleftrightarrow> same_bytes v v' \<and> (r = Io_done \<or> r = Io_failed)"

fun io_allows :: "'d registry \<Rightarrow> io_op list \<Rightarrow> io_res list \<Rightarrow> (int \<Rightarrow> nat \<Rightarrow> u8) \<Rightarrow> (int \<Rightarrow> nat \<Rightarrow> u8) \<Rightarrow> bool" where
  "io_allows dm [] [] v v' \<longleftrightarrow> v' = v"
| "io_allows dm (p # ps) (r # rs) v v' \<longleftrightarrow> (\<exists>u. io_spec dm p r v u \<and> io_allows dm ps rs u v')"
| "io_allows dm ps rs v v' \<longleftrightarrow> False"

lemma allows_length: "io_allows dm ps rs v v' \<Longrightarrow> length rs = length ps"
  by (induction dm ps rs v v' rule: io_allows.induct) auto

text \<open>A request of one page to a block device that has no cache entries of its own.\<close>

definition plain_dev :: "'d registry \<Rightarrow> int \<Rightarrow> u64 \<Rightarrow> u32 \<Rightarrow> bool" where
  "plain_dev dm d sector n \<longleftrightarrow> dev_block dm d \<noteq> None \<and> bd_getcache (dev_ops dm d) = None \<and> bd_putcache (dev_ops dm d) = None \<and>
     devmgr_get_generation d dm \<noteq> 0 \<and> req_ok (dev_ops dm d) sector n \<and>
     req_pages (dev_ops dm d) sector n = {req_start (dev_ops dm d) sector div PC_SIZE}"

fun io_op_ok :: "'d registry \<Rightarrow> io_op \<Rightarrow> bool" where
  "io_op_ok dm (Io_read ma d sector n) \<longleftrightarrow> plain_dev dm d sector n"
| "io_op_ok dm (Io_write ma d sector n src) \<longleftrightarrow> plain_dev dm d sector n \<and> length src = req_len (dev_ops dm d) n"
| "io_op_ok dm Io_flush \<longleftrightarrow> True"

section \<open>The interface of the drivers with a flush entry\<close>

locale flushed_devices = block_devices dm content wfd
  for dm :: "'d registry" and content :: "int \<Rightarrow> 'd \<Rightarrow> nat \<Rightarrow> u8" and wfd :: "'d \<Rightarrow> bool" +
  assumes flush_contract: "\<lbrakk>wfd w; dev_slot d dm = Some b; flush_entry b = Some f; f w = (r, w')\<rbrakk> \<Longrightarrow>
      wfd w' \<and> content d' w' = content d' w"
    and registry: "\<exists>h. dm_inv dm h"
begin

lemma get_refines:
  assumes ok: "pc_ok dm content wfd c" and ops: "dev_block dm d = Some ops" and req: "req_ok ops sector n"
    and g: "blkcache_get dm d sector n True c = (res, c')"
  shows "pc_keeps dm content wfd c c'"
    and "res = Some buf \<Longrightarrow> buf = byte_range (pc_view dm content c d) (req_start ops sector) (req_len ops n)"
proof -
  define c1 where "c1 = snd (pc_bsize dm d c)"
  have k1: "pc_keeps dm content wfd c c1" unfolding c1_def by (rule keeps_bsize)
  have ok1: "pc_ok dm content wfd c1" by (rule pc_keepsD(1) [OF k1 ok])
  have bs: "pc_bsize dm d c = (block_size ops, c1)" using bsize_value [OF ok ops] by (simp add: c1_def prod_eq_iff)
  obtain r c2 where co: "pc_copy_out dm d (sector * ucast (block_size ops)) (ucast n * ucast (block_size ops)) c1 = (r, c2)" by fastforce
  note cv = copy_out_view [OF ok1 req co]
  have n0: "n \<noteq> 0" "pc_alloc c" using req ok by (auto simp: req_ok_def pc_ok_def)
  have e: "blkcache_get dm d sector n True c = (r, if r \<noteq> None then c2\<lparr>pc_hits := pc_hits c2 + n\<rparr> else c2)"
    using n0 by (simp add: blkcache_get_def bs Let_def co)
  have "pc_keeps dm content wfd c2 (c2\<lparr>pc_hits := pc_hits c2 + n\<rparr>)" by (rule keeps_fields) (simp_all add: same_env_def)
  then show "pc_keeps dm content wfd c c'" using e g pc_keeps_trans [OF k1 cv(1)] pc_keeps_trans by (auto split: if_splits)
  assume "res = Some buf"
  then have "buf = byte_range (pc_view dm content c1 d) (req_start ops sector) (req_len ops n)" using cv(2) e g by simp
  also have "\<dots> = byte_range (pc_view dm content c d) (req_start ops sector) (req_len ops n)"
    using pc_keepsD(2) [OF k1 ok] req by (intro byte_range_cong) (simp add: req_ok_def)
  finally show "buf = byte_range (pc_view dm content c d) (req_start ops sector) (req_len ops n)" .
qed

lemma plain_ops:
  assumes "plain_dev dm d sector n"
  obtains ops where "dev_block dm d = Some ops" "dev_ops dm d = ops" "bd_getcache ops = None" "bd_putcache ops = None"
    "devmgr_get_generation d dm \<noteq> 0" "req_ok ops sector n" "req_pages ops sector n = {req_start ops sector div PC_SIZE}"
    "\<exists>b. dev_ref dm d = Some b \<and> dv_ops b = Some ops"
proof -
  obtain ops where o: "dev_block dm d = Some ops" using assms by (auto simp: plain_dev_def)
  then have "dev_ops dm d = ops" by (simp add: dev_ops_def)
  moreover have "\<exists>b. dev_ref dm d = Some b \<and> dv_ops b = Some ops"
    using o by (auto simp: dev_block_def split: option.splits if_splits)
  ultimately show thesis using that [of ops] o assms by (auto simp: plain_dev_def)
qed

text \<open>A submitted request of one page.\<close>

lemma submit_read:
  assumes ok: "pc_ok dm content wfd (io_cache s)" and pd: "plain_dev dm d sector n"
    and sub: "request_submit dm ma d IO_READ sector n (Some b0) s = (a, s')"
  shows "pc_keeps dm content wfd (io_cache s) (io_cache s')"
    and "client_wait IO_READ a = Io_failed \<or> client_wait IO_READ a =
      Io_data (byte_range (pc_view dm content (io_cache s) d) (req_start (dev_ops dm d) sector) (req_len (dev_ops dm d) n))"
proof -
  obtain ops where o: "dev_block dm d = Some ops" "dev_ops dm d = ops" "devmgr_get_generation d dm \<noteq> 0" "req_ok ops sector n"
    "req_pages ops sector n = {req_start ops sector div PC_SIZE}" using pd by (rule plain_ops)
  obtain res c where r: "blkcache_read dm d sector n True (io_cache s) = (res, c)" by fastforce
  have st: "settled dm (io_cache s) d (req_pages ops sector n)" by (simp add: o(5) settled_one_page)
  note R = read_refines [OF ok o(1,4) r]
  have "(a, io_cache s') = (if ma then (IO_HANDLE (Some \<lparr>rq_type = IO_READ, rq_deviceid = d, rq_device_generation = devmgr_get_generation d dm,
        rq_status = (if res = None then IO_ERROR else IO_COMPLETE), rq_time = IOrequest_time s,
        rq_buf = (if res = None then Some b0 else res), rq_lba = sector, rq_num_of_blocks = n\<rparr>), c) else (IO_HANDLE None, io_cache s))"
    using sub o(1) r by (cases res)
      (auto simp: request_submit_def bio_submit_sync_def iomgr_execjob_def count_dispatch_def wire_defs Let_def split: if_splits)
  then show "pc_keeps dm content wfd (io_cache s) (io_cache s')"
    "client_wait IO_READ a = Io_failed \<or> client_wait IO_READ a =
      Io_data (byte_range (pc_view dm content (io_cache s) d) (req_start (dev_ops dm d) sector) (req_len (dev_ops dm d) n))"
    using R(1) R(2) [OF _ st] o(2) by (auto simp: client_wait_def dex32_IOcomplete_def wire_defs split: if_splits option.splits)
qed

lemma submit_write:
  assumes ok: "pc_ok dm content wfd (io_cache s)" and pd: "plain_dev dm d sector n" and len: "length src = req_len (dev_ops dm d) n"
    and sub: "request_submit dm ma d IO_WRITE sector n (Some src) s = (a, s')"
  shows "pc_ok dm content wfd (io_cache s')"
    and "io_spec dm (Io_write ma d sector n src) (client_wait IO_WRITE a) (pc_view dm content (io_cache s)) (pc_view dm content (io_cache s'))"
proof -
  obtain ops where o: "dev_block dm d = Some ops" "dev_ops dm d = ops" "devmgr_get_generation d dm \<noteq> 0" "req_ok ops sector n"
    "req_pages ops sector n = {req_start ops sector div PC_SIZE}" using pd by (rule plain_ops)
  obtain okk c where w: "blkcache_write dm d sector n (Some src) (io_cache s) = (okk, c)" by fastforce
  note W = write_refines(1) [OF ok o(1,4,3) len [unfolded o(2)] disjI1 [OF o(5)] w]
  define ran where "ran \<longleftrightarrow> ma \<and> bd_write_block ops \<noteq> None"
  have "(client_wait IO_WRITE a, io_cache s') = (if ran then (if okk then Io_done else Io_failed, c) else (Io_failed, io_cache s))"
    using sub o(1) w
    by (auto simp: ran_def request_submit_def bio_submit_sync_def iomgr_execjob_def count_dispatch_def client_wait_def dex32_IOcomplete_def
        wire_defs Let_def split: if_splits)
  then show "pc_ok dm content wfd (io_cache s')"
    "io_spec dm (Io_write ma d sector n src) (client_wait IO_WRITE a) (pc_view dm content (io_cache s)) (pc_view dm content (io_cache s'))"
    using W ok len o(2) by (auto simp: Let_def view_is_def same_bytes_def split: if_splits)
qed

lemma keeps_same_bytes: "pc_keeps dm content wfd c c' \<Longrightarrow> pc_ok dm content wfd c \<Longrightarrow> same_bytes (pc_view dm content c) (pc_view dm content c')"
  using pc_keepsD(2) by (auto simp: same_bytes_def)

lemma do_read:
  assumes ok: "pc_ok dm content wfd (io_cache s)" and pd: "plain_dev dm d sector n"
    and e: "dex32_requestIO dm ma d IO_READ sector n (Some b0) s = (a, s')"
  shows "pc_ok dm content wfd (io_cache s')"
    and "io_spec dm (Io_read ma d sector n) (client_wait IO_READ a) (pc_view dm content (io_cache s)) (pc_view dm content (io_cache s'))"
proof -
  obtain ops where o: "dev_block dm d = Some ops" "dev_ops dm d = ops" "bd_getcache ops = None" "req_ok ops sector n"
    and b: "\<exists>b. dev_ref dm d = Some b \<and> dv_ops b = Some ops" using pd by (rule plain_ops)
  obtain res c where g: "blkcache_get dm d sector n True (io_cache s) = (res, c)" by fastforce
  note G = get_refines [OF ok o(1,4) g]
  have ok1: "pc_ok dm content wfd c" by (rule pc_keepsD(1) [OF G(1) ok])
  have "pc_keeps dm content wfd (io_cache s) (io_cache s') \<and> (client_wait IO_READ a = Io_failed \<or> client_wait IO_READ a =
      Io_data (byte_range (pc_view dm content (io_cache s) d) (req_start ops sector) (req_len ops n)))"
  proof (cases res)
    case None
    then have "request_submit dm ma d IO_READ sector n (Some b0) (s\<lparr>io_cache := c\<rparr>) = (a, s')"
      using e b g o by (auto simp: dex32_requestIO_def request_cached_def)
    note S = submit_read [OF _ pd this, simplified, OF ok1]
    have "byte_range (pc_view dm content c d) (req_start ops sector) (req_len ops n) =
        byte_range (pc_view dm content (io_cache s) d) (req_start ops sector) (req_len ops n)"
      using pc_keepsD(2) [OF G(1) ok] o(4) by (intro byte_range_cong) (simp add: req_ok_def)
    then show ?thesis using S pc_keeps_trans [OF G(1)] o(2) by simp
  next
    case (Some data)
    then have "a = IO_HANDLE (iomgr_alloc_done ma IO_READ sector n (Some data) IO_COMPLETE)" "io_cache s' = c"
      using e b g o by (auto simp: dex32_requestIO_def request_cached_def)
    then show ?thesis using G(1) G(2) [OF Some] by (auto simp: client_wait_def iomgr_alloc_done_def dex32_IOcomplete_def)
  qed
  then show "pc_ok dm content wfd (io_cache s')"
    "io_spec dm (Io_read ma d sector n) (client_wait IO_READ a) (pc_view dm content (io_cache s)) (pc_view dm content (io_cache s'))"
    using pc_keepsD(1) ok keeps_same_bytes o(2) by auto
qed

lemma do_write:
  assumes ok: "pc_ok dm content wfd (io_cache s)" and pd: "plain_dev dm d sector n" and len: "length src = req_len (dev_ops dm d) n"
    and e: "dex32_requestIO dm ma d IO_WRITE sector n (Some src) s = (a, s')"
  shows "pc_ok dm content wfd (io_cache s')"
    and "io_spec dm (Io_write ma d sector n src) (client_wait IO_WRITE a) (pc_view dm content (io_cache s)) (pc_view dm content (io_cache s'))"
proof -
  obtain ops where "bd_putcache ops = None" "\<exists>b. dev_ref dm d = Some b \<and> dv_ops b = Some ops" using pd by (rule plain_ops)
  then have "request_submit dm ma d IO_WRITE sector n (Some src) s = (a, s')"
    using e by (auto simp: dex32_requestIO_def IO_READ_def IO_WRITE_def)
  from submit_write [OF ok pd len this] show "pc_ok dm content wfd (io_cache s')"
    "io_spec dm (Io_write ma d sector n src) (client_wait IO_WRITE a) (pc_view dm content (io_cache s)) (pc_view dm content (io_cache s'))" .
qed

lemma do_flush:
  assumes ok: "pc_ok dm content wfd (io_cache s)" and e: "iomgr_flushmgr dm s = (okk, dm', s')"
  shows "dm' = dm" and "pc_ok dm content wfd (io_cache s')" and "same_bytes (pc_view dm content (io_cache s)) (pc_view dm content (io_cache s'))"
    and "okk \<Longrightarrow> same_bytes (pc_view dm content (io_cache s')) (\<lambda>d. content d (pc_world (io_cache s')))"
proof -
  obtain h where h: "dm_inv dm h" using registry by blast
  obtain fok c where f: "blkcache_flush dm (io_cache s) = (fok, c)" by fastforce
  note F = flush_refines [OF ok f]
  obtain ret m w where b: "devmgr_flushblocks flush_entry dm (pc_world c) = (ret, m, w)" by (metis prod_cases3)
  have s': "dm' = m" "okk \<longleftrightarrow> fok \<and> \<not> ret < 0" "io_cache s' = c\<lparr>pc_world := w\<rparr>" using e f b by (auto simp: iomgr_flushmgr_def)
  show "dm' = dm" using flushblocks_restores [OF h, of flush_entry "pc_world c"] b s'(1) by simp
  have "wfd (snd (snd (devmgr_flushblocks flush_entry dm (pc_world c)))) \<and>
      (\<forall>d. content d (snd (snd (devmgr_flushblocks flush_entry dm (pc_world c)))) = content d (pc_world c))"
    using F(1) by (rule_tac flushblocks_keeps [OF h]) (auto simp: pc_ok_def dest: flush_contract [OF _ _ _ surjective_pairing])
  then have w: "wfd w" "\<And>d. content d w = content d (pc_world c)" using b by auto
  have k: "pc_keeps dm content wfd c (io_cache s')" unfolding s'(3) by (rule keeps_world) (use w in auto)
  show "pc_ok dm content wfd (io_cache s')" by (rule pc_keepsD(1) [OF k F(1)])
  have v: "pc_view dm content (io_cache s') d x = pc_view dm content (io_cache s) d x" if "x < 2 ^ 64" for d x
    using pc_keepsD(2) [OF k F(1) that] F(2) [OF that] by simp
  then show "same_bytes (pc_view dm content (io_cache s)) (pc_view dm content (io_cache s'))" by (simp add: same_bytes_def)
  assume "okk"
  then have "content d (pc_world c) x = pc_view dm content (io_cache s) d x" if "x < 2 ^ 64" for d x using F that s'(2) by auto
  then show "same_bytes (pc_view dm content (io_cache s')) (\<lambda>d. content d (pc_world (io_cache s')))"
    using v w(2) s'(3) by (simp add: same_bytes_def)
qed

lemma do_refines:
  assumes ok: "pc_ok dm content wfd (io_cache s)" and p: "io_op_ok dm p" and e: "io_do p dm s = (r, dm', s')"
  shows "dm' = dm \<and> pc_ok dm content wfd (io_cache s') \<and> io_spec dm p r (pc_view dm content (io_cache s)) (pc_view dm content (io_cache s')) \<and>
    (p = Io_flush \<and> r = Io_done \<longrightarrow> same_bytes (pc_view dm content (io_cache s')) (\<lambda>d. content d (pc_world (io_cache s'))))"
proof (cases p)
  case (Io_read ma d sector n)
  then obtain a where a: "dex32_requestIO dm ma d IO_READ sector n (Some []) s = (a, s')" "r = client_wait IO_READ a" "dm' = dm"
    and pd: "plain_dev dm d sector n" using p e by (auto split: prod.splits)
  show ?thesis using do_read [OF ok pd a(1)] a(2,3) Io_read by simp
next
  case (Io_write ma d sector n src)
  then obtain a where a: "dex32_requestIO dm ma d IO_WRITE sector n (Some src) s = (a, s')" "r = client_wait IO_WRITE a" "dm' = dm"
    and pd: "plain_dev dm d sector n" "length src = req_len (dev_ops dm d) n" using p e by (auto split: prod.splits)
  show ?thesis using do_write [OF ok pd a(1)] a(2,3) Io_write by simp
next
  case Io_flush
  obtain okk m t where f: "iomgr_flushmgr dm s = (okk, m, t)" by (metis prod_cases3)
  then show ?thesis using do_flush [OF ok f] e Io_flush by (auto split: if_splits)
qed

lemma run_refines:
  assumes "pc_ok dm content wfd (io_cache s)" "\<forall>p \<in> set ps. io_op_ok dm p" "io_run ps dm s = (rs, dm', s')"
  shows "dm' = dm \<and> pc_ok dm content wfd (io_cache s') \<and> io_allows dm ps rs (pc_view dm content (io_cache s)) (pc_view dm content (io_cache s')) \<and>
    (ps \<noteq> [] \<and> last ps = Io_flush \<and> last rs = Io_done \<longrightarrow> same_bytes (pc_view dm content (io_cache s')) (\<lambda>d. content d (pc_world (io_cache s'))))"
  using assms
proof (induction ps arbitrary: s rs)
  case (Cons p ps)
  obtain r dm1 s1 where e1: "io_do p dm s = (r, dm1, s1)" by (metis prod_cases3)
  have op: "io_op_ok dm p" using Cons.prems(2) by simp
  note S = do_refines [OF Cons.prems(1) op e1]
  then have dm1: "dm1 = dm" by simp
  obtain rs1 dm2 s2 where e2: "io_run ps dm s1 = (rs1, dm2, s2)" by (metis prod_cases3)
  have rs: "rs = r # rs1" "dm' = dm2" "s' = s2" using Cons.prems(3) e1 e2 dm1 by auto
  note IH = Cons.IH [OF _ _ e2 [folded rs(2,3)]]
  have "rs1 = []" if "ps = []" using e2 that by simp
  moreover have "length rs1 = length ps" using IH S Cons.prems(2) by (auto dest: allows_length)
  ultimately show ?case using IH S Cons.prems(2) rs(1) e2 rs(3) by (cases "ps = []") (auto simp: rs(1))
qed auto

end

lemma one_disk_flushed:
  assumes "block_devices (one_disk ops) content wfd" "bd_flush_device ops = None"
  shows "flushed_devices (one_disk ops) content wfd"
proof -
  have "flush_entry b = None" if "dev_slot d (one_disk ops) = Some b" for d b
    using that assms(2) by (auto simp: one_disk_slot flush_entry_def split: if_splits)
  then show ?thesis using assms(1) dreach_inv [OF one_disk_reach [of ops]]
    by (auto simp: flushed_devices_def flushed_devices_axioms_def)
qed

interpretation ramdisk_io: flushed_devices ramdisk_registry "ramdisk_content 0" ramdisk_wf
  unfolding ramdisk_registry_one
  by (rule one_disk_flushed [OF ramdisk.block_devices_axioms [unfolded ramdisk_registry_one]]) (simp add: ramdisk_desc_def)

section \<open>The promise to the clients\<close>


definition plain_desc :: "ramdisk block_desc" where
  "plain_desc = ramdisk_desc\<lparr>bd_getcache := None, bd_putcache := None\<rparr>"

definition demo_io :: "ramdisk iomgr" where
  "demo_io = snd (iomgr_init True demo_junk [] (Some (replicate RAMDISK_BYTES 0)) None (one_disk plain_desc))"

definition demo_ops :: "io_op list" where
  "demo_ops = [Io_write True 0 5 1 (demo_block 7), Io_read True 0 5 1, Io_flush]"

lemma plain_block_size: "unat (block_size plain_desc) = 512"
  using ramdisk_block_size by (simp add: plain_desc_def block_size_def)

lemma demo_flushed: "flushed_devices (one_disk plain_desc) (ramdisk_content 0) ramdisk_wf"
  by (intro one_disk_flushed one_ramdisk plain_block_size) (simp_all add: plain_desc_def ramdisk_desc_def)

lemma demo_io_ok: "pc_ok (one_disk plain_desc) (ramdisk_content 0) ramdisk_wf (io_cache demo_io)"
  unfolding demo_io_def iomgr_init_def snd_conv by (simp, rule init_ok) (simp_all add: demo_junk_def ramdisk_wf_def)

lemma demo_ops_ok: "\<forall>p \<in> set demo_ops. io_op_ok (one_disk plain_desc) p"
proof -
  have ops: "dev_ops (one_disk plain_desc) 0 = plain_desc" by (simp add: dev_ops_def one_disk_block)
  have "plain_dev (one_disk plain_desc) 0 5 1"
    by (simp add: plain_dev_def ops one_disk_block one_disk_generation req_ok_def req_pages_def req_start_def req_len_def plain_block_size PC_SIZE_def)
      (simp add: plain_desc_def)
  then show ?thesis by (simp add: demo_ops_def ops req_len_def plain_block_size length_demo_block)
qed


section \<open>The queue of the disk manager\<close>

text \<open>The identity of a request: everything but its outcome.\<close>

definition job_key :: "IOrequest \<Rightarrow> IOrequest" where
  "job_key r = r\<lparr>rq_status := 0, rq_buf := None\<rparr>"

lemma execjob_key: "job_key (fst (iomgr_execjob dm r s)) = job_key r" "dex32_IOcomplete (fst (iomgr_execjob dm r s)) \<noteq> 0"
  by (auto simp: iomgr_execjob_def job_key_def dex32_IOcomplete_def wire_defs Let_def split: option.split prod.split)

lemma nearest_min:
  "(\<And>r. r \<in> set pre \<Longrightarrow> m \<le> lba_dist near r) \<Longrightarrow> cand < length (pre @ rs) \<Longrightarrow> (lba_dist near ((pre @ rs) ! cand) = m \<or> m = NOT 0) \<Longrightarrow>
   r \<in> set (pre @ rs) \<Longrightarrow> lba_dist near ((pre @ rs) ! nearest near rs (length pre) cand m) \<le> lba_dist near r"
proof (induction rs arbitrary: pre cand m)
  case Nil
  have "lba_dist near (pre ! cand) \<le> m" using Nil.prems(3) by auto
  then show ?case using Nil.prems(1,4) by (auto intro: order_trans)
next
  case (Cons q rs)
  show ?case
  proof (cases "lba_dist near q < m")
    case True
    have "lba_dist near (((pre @ [q]) @ rs) ! nearest near rs (length (pre @ [q])) (length pre) (lba_dist near q)) \<le> lba_dist near r"
      using Cons.prems(1,4) True by (intro Cons.IH) (auto dest: order_less_imp_le intro: order_trans)
    then show ?thesis using True by simp
  next
    case False
    have "lba_dist near (((pre @ [q]) @ rs) ! nearest near rs (length (pre @ [q])) cand m) \<le> lba_dist near r"
      using Cons.prems False by (intro Cons.IH) auto
    then show ?thesis using False by simp
  qed
qed

lemma obtainjob_Some:
  assumes "IOmgr_obtainjob near s = (Some r, s')"
  shows "mset (IOjob s) = add_mset r (mset (IOjob s'))" and "q \<in> set (IOjob s) \<Longrightarrow> lba_dist near r \<le> lba_dist near q"
proof -
  let ?i = "nearest near (IOjob s) 0 0 (NOT 0)"
  have ne: "IOjob s \<noteq> []" and r: "r = IOjob s ! ?i" and s': "IOjob s' = take ?i (IOjob s) @ drop (Suc ?i) (IOjob s)"
    using assms by (auto simp: IOmgr_obtainjob_def Let_def split: if_splits)
  have "mset (IOjob s) = mset (take ?i (IOjob s) @ IOjob s ! ?i # drop (Suc ?i) (IOjob s))"
    using id_take_nth_drop [OF nearest_index [OF ne]] by simp
  then show "mset (IOjob s) = add_mset r (mset (IOjob s'))" by (simp add: r s')
  show "q \<in> set (IOjob s) \<Longrightarrow> lba_dist near r \<le> lba_dist near q"
    using nearest_min [of "[]" "NOT 0" near 0 "IOjob s" q] ne by (simp add: r)
qed

lemma run_jobs_all:
  "run_jobs dm r s = (rs, lst, s') \<Longrightarrow>
   IOjob s' = [] \<and> image_mset job_key (mset rs) = image_mset job_key (add_mset r (mset (IOjob s))) \<and> (\<forall>q \<in> set rs. dex32_IOcomplete q \<noteq> 0)"
proof (induction dm r s arbitrary: rs lst s' rule: run_jobs.induct)
  case (1 dm r s)
  obtain r' s1 where e: "iomgr_execjob dm r s = (r', s1)" by fastforce
  have k: "job_key r' = job_key r" "dex32_IOcomplete r' \<noteq> 0" "IOjob s1 = IOjob s"
    using execjob_key [of dm r s] execjob_IOjob [of dm r s] e by simp_all
  show ?case
  proof (cases "IOmgr_obtainjob (rq_lba r) s1")
    case (Pair o' s2)
    show ?thesis
    proof (cases o')
      case None
      then have "IOjob s2 = []" "IOjob s = []" using Pair k(3) by (auto simp: IOmgr_obtainjob_def Let_def split: if_splits)
      then show ?thesis using "1.prems" e Pair None k by (subst (asm) run_jobs.simps) (auto simp: Let_def)
    next
      case (Some r2)
      obtain rs1 l1 s3 where j: "run_jobs dm r2 s2 = (rs1, l1, s3)" by (metis prod_cases3)
      note IH = "1.IH" [OF e [symmetric] refl Pair [symmetric] Some j]
      have "rs = r' # rs1" "s' = s3" using "1.prems" e Pair Some j by (subst (asm) run_jobs.simps, simp add: Let_def)+
      then show ?thesis using IH k obtainjob_Some(1) [OF Pair [unfolded Some]] by simp
    qed
  qed
qed


definition demo_job :: "u64 \<Rightarrow> IOrequest" where
  "demo_job lba = \<lparr>rq_type = IO_READ, rq_deviceid = 0, rq_device_generation = 0, rq_status = IO_PENDING, rq_time = 0,
     rq_buf = Some [], rq_lba = lba, rq_num_of_blocks = 1\<rparr>"


end
