(* ===== verification/Partition_Io.thy ===== *)
theory Partition_Io
  imports Partdev Iosched_Refine
begin

text \<open>
  Partitions under the page cache and the I/O manager. The descriptor that \<^verbatim>\<open>partdev_register\<close> of
  \<^verbatim>\<open>partition/partdev.c\<close> hands to the device manager has the partition functions as its entries; the theory
  shows that partitions with separate windows of one disk satisfy the contract of block devices when the
  raw accessors of the disk do, so that everything proved of the block layer holds of partitions.
\<close>

section \<open>Descriptors\<close>

text \<open>The state of the raw accessors is the caller's buffer together with the state of the driver.\<close>

definition part_desc :: "(bytes \<times> 'd) partdev \<Rightarrow> int \<Rightarrow> 'd block_desc" where
  "part_desc st d =
     \<lparr>bd_read_block = Some (\<lambda>block n w. case partdev_partition_read st d block n ([], w) of (r, buf, w') \<Rightarrow> (r, buf, w')),
      bd_write_block = Some (\<lambda>block buf n w. case partdev_partition_write st d block n (buf, w) of (r, _, w') \<Rightarrow> (r, w')),
      bd_get_block_size = Some (partdev_get_block_size st d), bd_total_blocks = Some (partdev_total_blocks st d),
      bd_getcache = None, bd_putcache = None, bd_flush_device = None\<rparr>"

text \<open>The contract of the raw accessors of a disk with sectors of 512 bytes.\<close>

definition raw_reads :: "(bytes \<times> 'd) partdev_raw_fn \<Rightarrow> int \<Rightarrow> ('d \<Rightarrow> nat \<Rightarrow> u8) \<Rightarrow> ('d \<Rightarrow> bool) \<Rightarrow> bool" where
  "raw_reads rd parent disk wfd \<longleftrightarrow> (\<forall>lba n buf w r buf' w'. wfd w \<longrightarrow> rd parent lba n (buf, w) = (r, buf', w') \<longrightarrow>
     wfd w' \<and> disk w' = disk w \<and> (r > 0 \<longrightarrow> buf' = byte_range (disk w) (unat lba * 512) (unat n * 512)))"

definition raw_writes :: "(bytes \<times> 'd) partdev_raw_fn \<Rightarrow> int \<Rightarrow> ('d \<Rightarrow> nat \<Rightarrow> u8) \<Rightarrow> ('d \<Rightarrow> bool) \<Rightarrow> bool" where
  "raw_writes wr parent disk wfd \<longleftrightarrow> (\<forall>lba n buf w r buf' w'. wfd w \<longrightarrow> wr parent lba n (buf, w) = (r, buf', w') \<longrightarrow> length buf = unat n * 512 \<longrightarrow>
     wfd w' \<and> (\<forall>a. a < unat lba * 512 \<or> unat lba * 512 + length buf \<le> a \<longrightarrow> disk w' a = disk w a) \<and>
     (r > 0 \<longrightarrow> byte_range (disk w') (unat lba * 512) (length buf) = buf))"

text \<open>Partitions of one disk in windows that do not overlap, with the block size of the disk.\<close>

definition parts_ok :: "(bytes \<times> 'd) partdev \<Rightarrow> int \<Rightarrow> ('d \<Rightarrow> nat \<Rightarrow> u8) \<Rightarrow> ('d \<Rightarrow> bool) \<Rightarrow> bool" where
  "parts_ok st parent disk wfd \<longleftrightarrow>
     (\<forall>e \<in> set (pd_table st). pe_parent e = parent \<and> pe_block_size e = 512 \<and>
        (\<forall>rd. pe_read_raw e = Some rd \<longrightarrow> raw_reads rd parent disk wfd) \<and> (\<forall>wr. pe_write_raw e = Some wr \<longrightarrow> raw_writes wr parent disk wfd)) \<and>
     (\<forall>e \<in> set (pd_table st). \<forall>e' \<in> set (pd_table st). pe_mydeviceid e \<noteq> pe_mydeviceid e' \<longrightarrow>
        pe_endlba e \<le> pe_startlba e' \<or> pe_endlba e' \<le> pe_startlba e)"

text \<open>The bytes of a partition.\<close>

definition part_content :: "(bytes \<times> 'd) partdev \<Rightarrow> ('d \<Rightarrow> nat \<Rightarrow> u8) \<Rightarrow> int \<Rightarrow> 'd \<Rightarrow> nat \<Rightarrow> u8" where
  "part_content st disk d w a =
     (case partdev_lookup (pd_table st) d of None \<Rightarrow> 0
      | Some e \<Rightarrow> if a < unat (partdev_entry_size e) * 512 then disk w (unat (pe_startlba e) * 512 + a) else 0)"

section \<open>The contract\<close>

lemma content_cong: "disk w' = disk w \<Longrightarrow> part_content st disk d w' = part_content st disk d w"
  by (simp add: part_content_def fun_eq_iff split: option.split)

lemma part_block_size:
  assumes "partdev_lookup (pd_table st) d = Some e" "pe_block_size e = 512" shows "unat (block_size (part_desc st d)) = 512"
  using assms by (simp add: block_size_def part_desc_def partdev_get_block_size_def pc_valid_bsize_def)

lemma lookup_entry: "partdev_lookup tab d = Some e \<Longrightarrow> e \<in> set tab \<and> pe_mydeviceid e = d"
  by (auto simp: partdev_lookup_def find_Some_iff)

lemma entry_size: "unat (partdev_entry_size e) = unat (pe_endlba e) - unat (pe_startlba e)"
  by (auto simp: partdev_entry_size_def unat_sub word_le_nat_alt word_less_nat_alt)

text \<open>A byte of one partition does not lie in the window of another.\<close>

lemma windows_apart:
  assumes ok: "parts_ok st parent disk wfd" and l: "partdev_lookup (pd_table st) d = Some e" "partdev_lookup (pd_table st) d' = Some e'" "d' \<noteq> d"
    and a: "a < unat (partdev_entry_size e') * 512"
  shows "unat (pe_startlba e') * 512 + a < unat (pe_startlba e) * 512 \<or> unat (pe_endlba e) * 512 \<le> unat (pe_startlba e') * 512 + a"
proof -
  have "pe_endlba e \<le> pe_startlba e' \<or> pe_endlba e' \<le> pe_startlba e"
    using ok lookup_entry [OF l(1)] lookup_entry [OF l(2)] l(3) by (auto simp: parts_ok_def)
  then show ?thesis using a by (auto simp: entry_size word_le_nat_alt)
qed

lemma part_read:
  assumes ok: "parts_ok st parent disk wfd" and l: "partdev_lookup (pd_table st) d = Some e" and w: "wfd w"
    and e: "partdev_partition_read st d block n ([], w) = (r, buf, w')"
  shows "wfd w' \<and> disk w' = disk w \<and> (r > 0 \<longrightarrow> buf = byte_range (part_content st disk d w) (unat block * 512) (unat n * 512))"
proof (cases "block \<ge> partdev_entry_size e \<or> ucast n > partdev_entry_size e - block \<or> pe_read_raw e = None")
  case True
  then show ?thesis using e w by (auto simp: partdev_partition_read_def l split: if_splits)
next
  case False
  then obtain rd where rd: "pe_read_raw e = Some rd" by auto
  have pr: "pe_parent e = parent" "raw_reads rd parent disk wfd" using ok lookup_entry [OF l] rd by (auto simp: parts_ok_def)
  have c: "rd parent (block + pe_startlba e) n ([], w) = (r, buf, w')" using e False rd pr(1) by (simp add: partdev_partition_read_def l)
  have b: "unat (block + pe_startlba e) = unat block + unat (pe_startlba e)" "unat (pe_startlba e) + unat block + unat n \<le> unat (pe_endlba e)"
    using inside_windowI [of e block n] False by (auto simp: inside_window_def)
  have R: "wfd w' \<and> disk w' = disk w \<and> (r > 0 \<longrightarrow> buf = byte_range (disk w) ((unat block + unat (pe_startlba e)) * 512) (unat n * 512))"
    using pr(2) w c b(1) unfolding raw_reads_def by metis
  moreover have "byte_range (part_content st disk d w) (unat block * 512) (unat n * 512) = byte_range (disk w) ((unat block + unat (pe_startlba e)) * 512) (unat n * 512)"
    using b(2) by (intro nth_equalityI) (auto simp: byte_range_def part_content_def l entry_size algebra_simps)
  ultimately show ?thesis by simp
qed

lemma part_write:
  assumes ok: "parts_ok st parent disk wfd" and l: "partdev_lookup (pd_table st) d = Some e" and w: "wfd w"
    and e: "partdev_partition_write st d block n (buf, w) = (r, buf', w')" and len: "length buf = unat n * 512"
  shows "wfd w'" and "d' \<noteq> d \<Longrightarrow> part_content st disk d' w' = part_content st disk d' w"
    and "a < unat block * 512 \<or> unat block * 512 + length buf \<le> a \<Longrightarrow> part_content st disk d w' a = part_content st disk d w a"
    and "r > 0 \<Longrightarrow> byte_range (part_content st disk d w') (unat block * 512) (length buf) = buf"
proof -
  have *: "wfd w' \<and> (d' \<noteq> d \<longrightarrow> part_content st disk d' w' = part_content st disk d' w) \<and>
    (a < unat block * 512 \<or> unat block * 512 + length buf \<le> a \<longrightarrow> part_content st disk d w' a = part_content st disk d w a) \<and>
    (r > 0 \<longrightarrow> byte_range (part_content st disk d w') (unat block * 512) (length buf) = buf)"
  proof (cases "block \<ge> partdev_entry_size e \<or> ucast n > partdev_entry_size e - block \<or> pe_write_raw e = None")
    case True
    then have "r = 0" "w' = w" using e by (auto simp: partdev_partition_write_def l split: if_splits option.splits)
    then show ?thesis using w by simp
  next
    case False
    then obtain wr where wr: "pe_write_raw e = Some wr" by auto
    have pr: "pe_parent e = parent" "raw_writes wr parent disk wfd" using ok lookup_entry [OF l] wr by (auto simp: parts_ok_def)
    have c: "wr parent (block + pe_startlba e) n (buf, w) = (r, buf', w')" using e False wr pr(1) by (simp add: partdev_partition_write_def l)
      have b: "unat (block + pe_startlba e) = unat block + unat (pe_startlba e)" "unat (pe_startlba e) + unat block + unat n \<le> unat (pe_endlba e)"
      using inside_windowI [of e block n] False by (auto simp: inside_window_def)
    let ?lo = "(unat block + unat (pe_startlba e)) * 512"
    have R: "wfd w' \<and> (\<forall>a. a < ?lo \<or> ?lo + length buf \<le> a \<longrightarrow> disk w' a = disk w a) \<and> (r > 0 \<longrightarrow> byte_range (disk w') ?lo (length buf) = buf)"
      using pr(2) w c len b(1) unfolding raw_writes_def by metis
    have "part_content st disk d' w' x = part_content st disk d' w x" if "d' \<noteq> d" for x
    proof (cases "partdev_lookup (pd_table st) d'")
      case (Some e')
      show ?thesis
      proof (cases "x < unat (partdev_entry_size e') * 512")
        case True
        then have "unat (pe_startlba e') * 512 + x < ?lo \<or> ?lo + length buf \<le> unat (pe_startlba e') * 512 + x"
          using windows_apart [OF ok l Some that True] b(2) len by (auto simp: algebra_simps)
        then have "disk w' (unat (pe_startlba e') * 512 + x) = disk w (unat (pe_startlba e') * 512 + x)" using R by blast
        then show ?thesis using Some by (simp add: part_content_def)
      qed (simp add: part_content_def Some)
    qed (simp add: part_content_def)
    moreover have "part_content st disk d w' a = part_content st disk d w a" if "a < unat block * 512 \<or> unat block * 512 + length buf \<le> a"
    proof -
      have "unat (pe_startlba e) * 512 + a < ?lo \<or> ?lo + length buf \<le> unat (pe_startlba e) * 512 + a" using that by (auto simp: algebra_simps)
      then have "disk w' (unat (pe_startlba e) * 512 + a) = disk w (unat (pe_startlba e) * 512 + a)" using R by blast
      then show ?thesis by (simp add: part_content_def l)
    qed
    moreover have "byte_range (part_content st disk d w') (unat block * 512) (length buf) = byte_range (disk w') ?lo (length buf)"
      using b(2) len by (intro nth_equalityI) (auto simp: byte_range_def part_content_def l entry_size algebra_simps)
    ultimately show ?thesis using R by auto
  qed
  show "wfd w'" "d' \<noteq> d \<Longrightarrow> part_content st disk d' w' = part_content st disk d' w"
    "a < unat block * 512 \<or> unat block * 512 + length buf \<le> a \<Longrightarrow> part_content st disk d w' a = part_content st disk d w a"
    "r > 0 \<Longrightarrow> byte_range (part_content st disk d w') (unat block * 512) (length buf) = buf" using * by auto
qed

definition parts_registered :: "(bytes \<times> 'd) partdev \<Rightarrow> 'd registry \<Rightarrow> bool" where
  "parts_registered st dm \<longleftrightarrow> (\<forall>d ops. dev_block dm d = Some ops \<longrightarrow> ops = part_desc st d \<and> partdev_lookup (pd_table st) d \<noteq> None)"

lemma partition_devices:
  assumes ok: "parts_ok st parent disk wfd" and reg: "parts_registered st dm"
  shows "block_devices dm (part_content st disk) wfd"
proof
  fix w d ops rd lba n r buf w' d'
  assume a: "wfd w" "dev_block dm d = Some ops" "bd_read_block ops = Some rd" "rd lba n w = (r, buf, w')"
  obtain e where l: "partdev_lookup (pd_table st) d = Some e" and o: "ops = part_desc st d" using reg a(2) by (auto simp: parts_registered_def)
  have "pe_block_size e = 512" using ok lookup_entry [OF l] by (auto simp: parts_ok_def)
  note bs = part_block_size [OF l this]
  have "partdev_partition_read st d lba n ([], w) = (r, buf, w')" using a(3,4) o by (auto simp: part_desc_def split: prod.splits)
  note P = part_read [OF ok l a(1) this]
  show "wfd w' \<and> part_content st disk d' w' = part_content st disk d' w \<and>
      (0 < r \<longrightarrow> buf = byte_range (part_content st disk d w) (unat lba * unat (block_size ops)) (unat n * unat (block_size ops)))"
    using P content_cong [of disk w' w st d'] by (simp add: o bs)
next
  fix w d ops wr lba buf n r w' d' x
  assume a: "wfd w" "dev_block dm d = Some ops" "bd_write_block ops = Some wr" "wr lba buf n w = (r, w')" "length buf = unat n * unat (block_size ops)"
  obtain e where l: "partdev_lookup (pd_table st) d = Some e" and o: "ops = part_desc st d" using reg a(2) by (auto simp: parts_registered_def)
  have "pe_block_size e = 512" using ok lookup_entry [OF l] by (auto simp: parts_ok_def)
  note bs = part_block_size [OF l this]
  obtain buf' where "partdev_partition_write st d lba n (buf, w) = (r, buf', w')" using a(3,4) o by (auto simp: part_desc_def split: prod.splits)
  note P = part_write [OF ok l a(1) this a(5) [unfolded o bs]]
  show "wfd w' \<and> (d' \<noteq> d \<longrightarrow> part_content st disk d' w' = part_content st disk d' w) \<and>
      (x < unat lba * unat (block_size ops) \<or> unat lba * unat (block_size ops) + length buf \<le> x \<longrightarrow> part_content st disk d w' x = part_content st disk d w x) \<and>
      (0 < r \<longrightarrow> byte_range (part_content st disk d w') (unat lba * unat (block_size ops)) (length buf) = buf)"
    using P(1) P(2) [of d'] P(3) [of x] P(4) by (simp add: o bs)
qed

lemma partition_flushed:
  assumes ok: "parts_ok st parent disk wfd" and reg: "parts_registered st dm" and inv: "dm_inv dm h"
    and fl: "\<And>d b. dev_slot d dm = Some b \<Longrightarrow> flush_entry b = None"
  shows "flushed_devices dm (part_content st disk) wfd"
  using partition_devices [OF ok reg] inv fl by (auto simp: flushed_devices_def flushed_devices_axioms_def)

text \<open>An operation that writes to a device, and that operations on other devices leave the bytes of one alone.\<close>

fun writes_to :: "int \<Rightarrow> io_op \<Rightarrow> bool" where
  "writes_to d (Io_write ma d' sector n src) \<longleftrightarrow> d' = d"
| "writes_to d p \<longleftrightarrow> False"

lemma spec_other: "io_spec dm p r v u \<Longrightarrow> \<not> writes_to d p \<Longrightarrow> x < 2 ^ 64 \<Longrightarrow> u d x = v d x"
  by (cases p) (auto simp: same_bytes_def written_def Let_def)

lemma allows_other: "io_allows dm ps rs v v' \<Longrightarrow> \<forall>p \<in> set ps. \<not> writes_to d p \<Longrightarrow> x < 2 ^ 64 \<Longrightarrow> v' d x = v d x"
proof (induction dm ps rs v v' rule: io_allows.induct)
  case (2 dm p ps r rs v v')
  then obtain u where "io_spec dm p r v u" "io_allows dm ps rs u v'" by auto
  then show ?case using "2.IH" [of u] spec_other [of dm p r v u d x] "2.prems"(2,3) by simp
qed auto

section \<open>Two partitions of the RAM disk\<close>

definition ram_raw_read :: "(bytes \<times> ramdisk) partdev_raw_fn" where
  "ram_raw_read parent lba n s = (case ramdisk_read_block lba n (snd s) of (r, b, w) \<Rightarrow> (r, b, w))"

definition ram_raw_write :: "(bytes \<times> ramdisk) partdev_raw_fn" where
  "ram_raw_write parent lba n s = (case ramdisk_write_block lba (fst s) n (snd s) of (r, w) \<Rightarrow> (r, fst s, w))"

lemma ram_raw: "raw_reads ram_raw_read 0 (ramdisk_content 0 0) ramdisk_wf" "raw_writes ram_raw_write 0 (ramdisk_content 0 0) ramdisk_wf"
proof -
  show "raw_reads ram_raw_read 0 (ramdisk_content 0 0) ramdisk_wf"
    unfolding raw_reads_def
  proof (intro allI impI)
    fix lba n buf w r buf' w'
    assume w: "ramdisk_wf w" and "ram_raw_read 0 lba n (buf, w) = (r, buf', w')"
    then have e: "ramdisk_read_block lba n w = (r, buf', w')" by (auto simp: ram_raw_read_def split: prod.splits)
    show "ramdisk_wf w' \<and> ramdisk_content 0 0 w' = ramdisk_content 0 0 w \<and> (0 < r \<longrightarrow> buf' = byte_range (ramdisk_content 0 0 w) (unat lba * 512) (unat n * 512))"
      using w ramdisk_read_contract [OF w e] by simp
  qed
  show "raw_writes ram_raw_write 0 (ramdisk_content 0 0) ramdisk_wf"
    unfolding raw_writes_def
  proof (intro allI impI)
    fix lba n buf w r buf' w'
    assume w: "ramdisk_wf w" and "ram_raw_write 0 lba n (buf, w) = (r, buf', w')" and len: "length buf = unat n * 512"
    then have e: "ramdisk_write_block lba buf n w = (r, w')" by (auto simp: ram_raw_write_def split: prod.splits)
    note C = ramdisk_write_contract [OF w e len]
    show "ramdisk_wf w' \<and> (\<forall>a. a < unat lba * 512 \<or> unat lba * 512 + length buf \<le> a \<longrightarrow> ramdisk_content 0 0 w' a = ramdisk_content 0 0 w a) \<and>
        (0 < r \<longrightarrow> byte_range (ramdisk_content 0 0 w') (unat lba * 512) (length buf) = buf)"
      using C(1) C(2) [where d = 0] C(3) [where d = 0] by blast
  qed
qed

definition two_parts :: "(bytes \<times> ramdisk) partdev" where
  "two_parts =
     (let e = \<lparr>pe_mydeviceid = 0, pe_parent = 0, pe_startlba = 8, pe_endlba = 16, pe_block_size = 512, pe_read_only = False,
               pe_read_raw = Some ram_raw_read, pe_write_raw = Some ram_raw_write, pe_type_name = [], pe_entry_index = 0, pe_attrs = 0, pe_pname = []\<rparr>
      in \<lparr>pd_table = [e, e\<lparr>pe_mydeviceid := 1, pe_startlba := 16, pe_endlba := 24\<rparr>], pd_disks = [], pd_devmgr = []\<rparr>)"

lemma two_parts_ok: "parts_ok two_parts 0 (ramdisk_content 0 0) ramdisk_wf"
  using ram_raw by (simp add: parts_ok_def two_parts_def Let_def)

lemma two_parts_lookup: "partdev_lookup (pd_table two_parts) 0 \<noteq> None"
  by (simp add: two_parts_def partdev_lookup_def Let_def)

abbreviation part_registry :: "ramdisk registry" where
  "part_registry \<equiv> one_disk (part_desc two_parts 0)"

lemma two_parts_registered: "parts_registered two_parts part_registry"
  using two_parts_lookup by (simp add: parts_registered_def one_disk_block)

lemma two_parts_quiet: "dev_slot d part_registry = Some b \<Longrightarrow> flush_entry b = None"
  by (auto simp: one_disk_slot flush_entry_def part_desc_def split: if_splits)

lemma part_io_ok: "pc_ok part_registry (part_content two_parts (ramdisk_content 0 0)) ramdisk_wf (io_cache demo_io)"
  unfolding demo_io_def iomgr_init_def snd_conv by (simp, rule init_ok) (simp_all add: demo_junk_def ramdisk_wf_def)

lemma part_op_ok: "io_op_ok part_registry (Io_write True 0 2 1 (demo_block 7))"
proof -
  have ops: "dev_ops part_registry 0 = part_desc two_parts 0" by (simp add: dev_ops_def one_disk_block)
  have bs: "unat (block_size (part_desc two_parts 0)) = 512"
    by (simp add: block_size_def part_desc_def partdev_get_block_size_def two_parts_def partdev_lookup_def pc_valid_bsize_def Let_def)
  have "plain_dev part_registry 0 2 1"
    by (simp add: plain_dev_def ops one_disk_block one_disk_generation req_ok_def req_pages_def req_start_def req_len_def bs PC_SIZE_def)
      (simp add: part_desc_def)
  then show ?thesis by (simp add: ops req_len_def bs length_demo_block)
qed

lemma part_view: "pc_view part_registry (part_content two_parts (ramdisk_content 0 0)) (io_cache demo_io) 1 0 = 0"
proof -
  have "io_cache demo_io = blkcache_init True demo_junk [] (Some (replicate RAMDISK_BYTES 0))" by (simp add: demo_io_def iomgr_init_def)
  then have "pc_view part_registry (part_content two_parts (ramdisk_content 0 0)) (io_cache demo_io) 1 0 =
      part_content two_parts (ramdisk_content 0 0) 1 (Some (replicate RAMDISK_BYTES 0)) 0"
    by (simp only:) (rule init_view, simp add: demo_junk_def)
  then show ?thesis by (simp add: part_content_def two_parts_def partdev_lookup_def ramdisk_content_def Let_def split: option.split)
qed

end
